(* ===== verification/Rill_Prelude.thy ===== *)
theory Rill_Prelude
  imports Main "HOL-Library.Word" "HOL-Library.Monad_Syntax"
begin

text \<open>
  Shared vocabulary of the development.

  \<^item> Machine types: a byte is an \<open>8 word\<close>; unsigned Rust integers that are only stored,
    compared and counted are \<open>nat\<close> with the width's bound in the invariant of the component
    that holds them; integers that are encoded bit for bit are words.
  \<^item> Panics: a Rust operation that can panic (slice and index bounds, checked arithmetic)
    returns an \<open>option\<close>, with \<open>None\<close> the panic. \<open>runs m P\<close> says that \<open>m\<close> returns and the
    result satisfies \<open>P\<close>; its simp rules push it through \<open>bind\<close>, \<open>if\<close> and \<open>case\<close>, so that
    the invariant proofs of the components are weakest-precondition proofs.
  \<^item> Errors: a Rust \<open>Result\<close> is a sum, \<open>Inl\<close> the error.
  \<^item> Little-endian integers: \<open>le_bytes k n\<close> and \<open>le_val bs\<close>, and their round trips.
  \<^item> Bounded slices of \<open>Vec\<close> and array types: \<open>get_at\<close>, \<open>set_at\<close>, \<open>slice\<close>, \<open>copy_within\<close>,
    \<open>fill_range\<close>.
\<close>

section \<open>Types and collections\<close>

type_synonym byte = "8 word"
type_synonym u16 = "16 word"
type_synonym u32 = "32 word"
type_synonym u64 = "64 word"

text \<open>Equations that evaluate a panic-free computation, and frame facts of operations.\<close>

named_theorems run_simps
named_theorems frame_simps
named_theorems wf_intros

abbreviation u8_max :: nat where "u8_max \<equiv> 255"
abbreviation u16_max :: nat where "u16_max \<equiv> 65535"
abbreviation u32_max :: nat where "u32_max \<equiv> 4294967295"
abbreviation u64_max :: nat where "u64_max \<equiv> 18446744073709551615"

text \<open>Rust's \<open>saturating_add\<close> at a width given by its maximum.\<close>

definition sat_add :: "nat \<Rightarrow> nat \<Rightarrow> nat \<Rightarrow> nat" where
  "sat_add mx a b = min mx (a + b)"

lemma sat_add_le [simp]: "sat_add mx a b \<le> mx"
  by (simp add: sat_add_def)

lemma sat_add_exact: "a + b \<le> mx \<Longrightarrow> sat_add mx a b = a + b"
  by (simp add: sat_add_def)

lemma sat_add_mono: "a \<le> mx \<Longrightarrow> a \<le> sat_add mx a b"
  by (simp add: sat_add_def)

section \<open>Computations that may panic\<close>

definition runs :: "'a option \<Rightarrow> ('a \<Rightarrow> bool) \<Rightarrow> bool" where
  "runs m P \<longleftrightarrow> (case m of None \<Rightarrow> False | Some x \<Rightarrow> P x)"

lemma runs_Some [simp]: "runs (Some x) P \<longleftrightarrow> P x"
  and runs_None [simp]: "\<not> runs None P"
  by (simp_all add: runs_def)

lemma runs_bind [simp]: "runs (m \<bind> f) P \<longleftrightarrow> runs m (\<lambda>x. runs (f x) P)"
  by (cases m) (simp_all add: runs_def)

lemma runs_if [simp]:
  "runs (if b then m else n) P \<longleftrightarrow> (if b then runs m P else runs n P)"
  by simp

lemma runs_iff: "runs m P \<longleftrightarrow> (\<exists>x. m = Some x \<and> P x)"
  by (cases m) simp_all

lemma runsE: "runs m P \<Longrightarrow> (\<And>x. m = Some x \<Longrightarrow> P x \<Longrightarrow> thesis) \<Longrightarrow> thesis"
  by (auto simp: runs_iff)

lemma runs_mono: "runs m P \<Longrightarrow> (\<And>x. P x \<Longrightarrow> Q x) \<Longrightarrow> runs m Q"
  by (auto simp: runs_iff)

lemma runs_conj: "runs m P \<Longrightarrow> runs m Q \<Longrightarrow> runs m (\<lambda>x. P x \<and> Q x)"
  by (auto simp: runs_iff)

lemma runs_const_conj [simp]: "runs m (\<lambda>x. Q \<and> P x) \<longleftrightarrow> Q \<and> runs m P"
  by (cases m) auto

lemma runs_SomeD: "runs m P \<Longrightarrow> m = Some x \<Longrightarrow> P x"
  by simp

text \<open>The partial-correctness counterpart: the result, if there is one, satisfies \<open>P\<close>.\<close>

definition whenever :: "'a option \<Rightarrow> ('a \<Rightarrow> bool) \<Rightarrow> bool" where
  "whenever m P \<longleftrightarrow> (case m of None \<Rightarrow> True | Some x \<Rightarrow> P x)"

lemma whenever_simps [simp]:
  "whenever (Some x) P \<longleftrightarrow> P x"
  "whenever None P"
  "whenever (m \<bind> f) P \<longleftrightarrow> whenever m (\<lambda>x. whenever (f x) P)"
  by (simp_all add: whenever_def bind_split split: option.splits)

lemma whenever_True [simp]: "whenever m (\<lambda>_. True)"
  by (simp add: whenever_def split: option.splits)

lemma wheneverD: "whenever m P \<Longrightarrow> m = Some x \<Longrightarrow> P x"
  by simp

lemma whenever_mono: "whenever m P \<Longrightarrow> (\<And>x. P x \<Longrightarrow> Q x) \<Longrightarrow> whenever m Q"
  by (auto simp: whenever_def split: option.splits)

text \<open>A \<open>for\<close> loop over an index list, with the loop state threaded through.\<close>

primrec for_each :: "'i list \<Rightarrow> ('i \<Rightarrow> 's \<Rightarrow> 's option) \<Rightarrow> 's \<Rightarrow> 's option" where
  "for_each [] f s = Some s"
| "for_each (i # is) f s = f i s \<bind> for_each is f"

lemma for_each_append:
  "for_each (xs @ ys) f s = for_each xs f s \<bind> for_each ys f"
proof (induction xs arbitrary: s)
  case Nil
  then show ?case by simp
next
  case (Cons x xs)
  then show ?case by (cases "f x s") simp_all
qed

lemma for_each_inv:
  assumes "P s" and "\<And>i s. i \<in> set is \<Longrightarrow> P s \<Longrightarrow> runs (f i s) P"
  shows "runs (for_each is f s) P"
  using assms
proof (induction "is" arbitrary: s)
  case Nil
  then show ?case by simp
next
  case (Cons i "is")
  have "runs (f i s) P" using Cons.prems by simp
  moreover have "runs (for_each is f s') P" if "P s'" for s'
    using Cons.IH [OF that] Cons.prems(2) by simp
  ultimately show ?case by (auto intro: runs_mono)
qed

text \<open>The same loop with an index-dependent invariant, for ascending ranges.\<close>

lemma for_each_upt:
  assumes "a \<le> b" and "P a s"
    and "\<And>i s. a \<le> i \<Longrightarrow> i < b \<Longrightarrow> P i s \<Longrightarrow> runs (f i s) (P (Suc i))"
  shows "runs (for_each [a..<b] f s) (P b)"
  using assms
proof (induction "b - a" arbitrary: a s)
  case 0
  then show ?case by simp
next
  case (Suc n)
  then have ab: "a < b" by simp
  have "runs (f a s) (P (Suc a))" using Suc.prems ab by simp
  moreover have "runs (for_each [Suc a..<b] f s') (P b)" if "P (Suc a) s'" for s'
    using Suc.hyps(1) [of "Suc a" s'] Suc.hyps(2) Suc.prems(3) ab that by simp
  ultimately show ?case
    using ab by (simp add: upt_conv_Cons) (auto intro: runs_mono)
qed

text \<open>And for descending ranges, Rust's \<open>(a..b).rev()\<close>.\<close>

lemma for_each_rev_upt:
  assumes "a \<le> b" and "P b s"
    and "\<And>i s. a \<le> i \<Longrightarrow> i < b \<Longrightarrow> P (Suc i) s \<Longrightarrow> runs (f i s) (P i)"
  shows "runs (for_each (rev [a..<b]) f s) (P a)"
  using assms
proof (induction "b - a" arbitrary: b s)
  case 0
  then show ?case by simp
next
  case (Suc n)
  then obtain c where c: "b = Suc c" "a \<le> c" by (cases b) auto
  have "runs (f c s) (P c)" using Suc.prems c by simp
  moreover have "runs (for_each (rev [a..<c]) f s') (P a)" if "P c s'" for s'
    using Suc.hyps(1) [of c s'] Suc.hyps(2) Suc.prems(3) c that by simp
  ultimately show ?case
    using c by (auto intro: runs_mono)
qed

section \<open>Bounds-checked access to vectors and arrays\<close>

definition get_at :: "'a list \<Rightarrow> nat \<Rightarrow> 'a option" where
  "get_at xs i = (if i < length xs then Some (xs ! i) else None)"

definition set_at :: "'a list \<Rightarrow> nat \<Rightarrow> 'a \<Rightarrow> 'a list option" where
  "set_at xs i v = (if i < length xs then Some (xs[i := v]) else None)"

text \<open>\<open>&xs[a..b]\<close>.\<close>

definition slice :: "'a list \<Rightarrow> nat \<Rightarrow> nat \<Rightarrow> 'a list option" where
  "slice xs a b = (if a \<le> b \<and> b \<le> length xs then Some (take (b - a) (drop a xs)) else None)"

text \<open>\<open>xs.copy_within(a..b, d)\<close>: an overlapping move of a slice.\<close>

definition copy_within :: "'a list \<Rightarrow> nat \<Rightarrow> nat \<Rightarrow> nat \<Rightarrow> 'a list option" where
  "copy_within xs a b d =
     (if a \<le> b \<and> b \<le> length xs \<and> d \<le> length xs - (b - a)
      then Some (take d xs @ take (b - a) (drop a xs) @ drop (d + (b - a)) xs)
      else None)"

text \<open>\<open>for cell in &mut xs[a..b] { *cell = v }\<close>.\<close>

definition fill_range :: "'a list \<Rightarrow> nat \<Rightarrow> nat \<Rightarrow> 'a \<Rightarrow> 'a list option" where
  "fill_range xs a b v =
     (if a \<le> b \<and> b \<le> length xs
      then Some (take a xs @ replicate (b - a) v @ drop b xs) else None)"

lemma get_at_in [simp]: "i < length xs \<Longrightarrow> get_at xs i = Some (xs ! i)"
  by (simp add: get_at_def)

lemma set_at_in [simp]: "i < length xs \<Longrightarrow> set_at xs i v = Some (xs[i := v])"
  by (simp add: set_at_def)

lemma slice_in: "a \<le> b \<Longrightarrow> b \<le> length xs \<Longrightarrow> slice xs a b = Some (take (b - a) (drop a xs))"
  by (simp add: slice_def)

lemma slice_to_in [simp]: "b \<le> length xs \<Longrightarrow> slice xs 0 b = Some (take b xs)"
  by (simp add: slice_def)

lemma copy_within_runs:
  assumes "a \<le> b" and "b \<le> length xs" and "d + (b - a) \<le> length xs"
  shows "runs (copy_within xs a b d) (\<lambda>ys. length ys = length xs \<and>
    (\<forall>i < length xs. ys ! i = (if d \<le> i \<and> i < d + (b - a) then xs ! (a + (i - d)) else xs ! i)))"
proof -
  obtain n where n: "b = a + n" using assms(1) le_Suc_ex by blast
  have "length (take d xs) = d" and "length (take n (drop a xs)) = n"
    using assms n by simp_all
  then show ?thesis
    using assms n by (auto simp: copy_within_def nth_append)
qed

lemma fill_range_runs:
  assumes "a \<le> b" and "b \<le> length xs"
  shows "runs (fill_range xs a b v) (\<lambda>ys. length ys = length xs \<and>
    (\<forall>i < length xs. ys ! i = (if a \<le> i \<and> i < b then v else xs ! i)))"
  using assms by (auto simp: fill_range_def nth_append)

lemma take_drop_join: "n = m + k \<Longrightarrow> take k (drop m xs) @ drop n xs = drop m xs"
  by (metis add.commute append_take_drop_id drop_drop)

section \<open>Little-endian integers\<close>

primrec le_bytes :: "nat \<Rightarrow> nat \<Rightarrow> byte list" where
  "le_bytes 0 n = []"
| "le_bytes (Suc k) n = word_of_nat (n mod 256) # le_bytes k (n div 256)"

primrec le_val :: "byte list \<Rightarrow> nat" where
  "le_val [] = 0"
| "le_val (b # bs) = unat b + 256 * le_val bs"

lemma length_le_bytes [simp]: "length (le_bytes k n) = k"
  by (induction k arbitrary: n) simp_all

lemma le_bytes_numeral [run_simps]:
  "le_bytes (numeral k) n = word_of_nat (n mod 256) # le_bytes (pred_numeral k) (n div 256)"
  by (simp only: numeral_eq_Suc [of k] le_bytes.simps)

lemma unat_byte_of_nat [simp]: "unat (word_of_nat n :: byte) = n mod 256"
  by (simp add: unat_of_nat)

lemma unat_byte_less [simp]: "unat (b :: byte) < 256"
  using unsigned_less [of b] by simp

lemma le_val_le_bytes: "le_val (le_bytes k n) = n mod 256 ^ k"
proof (induction k arbitrary: n)
  case 0
  then show ?case by simp
next
  case (Suc k)
  have "n mod 256 + 256 * (n div 256 mod 256 ^ k) = n mod 256 ^ Suc k"
    by (simp add: mod_mult2_eq add.commute)
  then show ?case by (simp add: Suc)
qed

lemma le_val_le_bytes_exact [simp]: "n < 256 ^ k \<Longrightarrow> le_val (le_bytes k n) = n"
  by (simp add: le_val_le_bytes)

lemma le_val_bound: "le_val bs < 256 ^ length bs"
proof (induction bs)
  case Nil
  then show ?case by simp
next
  case (Cons b bs)
  have "unat b + 256 * le_val bs < 256 + 256 * le_val bs"
    by (intro add_strict_right_mono unat_byte_less)
  also have "\<dots> = 256 * Suc (le_val bs)" by simp
  also have "\<dots> \<le> 256 * 256 ^ length bs" using Cons by (intro mult_le_mono2) simp
  finally show ?case by simp
qed

lemma le_bytes_le_val [simp]: "length bs = k \<Longrightarrow> le_bytes k (le_val bs) = bs"
proof (induction bs arbitrary: k)
  case Nil
  then show ?case by simp
next
  case (Cons b bs)
  have "unat b < 256" by (rule unat_byte_less)
  then have "(unat b + 256 * le_val bs) mod 256 = unat b"
    and "(unat b + 256 * le_val bs) div 256 = le_val bs" by simp_all
  with Cons show ?case by auto
qed

text \<open>Words of any width, as \<open>to_le_bytes\<close> and \<open>from_le_bytes\<close> write them.\<close>

definition word_to_le :: "nat \<Rightarrow> 'a::len word \<Rightarrow> byte list" where
  "word_to_le k w = le_bytes k (unat w)"

definition word_from_le :: "byte list \<Rightarrow> 'a::len word" where
  "word_from_le bs = word_of_nat (le_val bs)"

lemma length_word_to_le [simp]: "length (word_to_le k w) = k"
  by (simp add: word_to_le_def)

lemma pow_256: "(256 :: nat) ^ k = 2 ^ (8 * k)"
  by (simp add: power_mult)

lemma word_from_to_le:
  fixes w :: "'a::len word"
  assumes "LENGTH('a) \<le> 8 * k"
  shows "word_from_le (word_to_le k w) = w"
proof -
  have "unat w < 2 ^ LENGTH('a)" by (rule unsigned_less)
  also have "\<dots> \<le> 256 ^ k" using assms by (simp add: pow_256)
  finally have "unat w < 256 ^ k" .
  then show ?thesis by (simp add: word_from_le_def word_to_le_def)
qed

lemma word_to_from_le:
  assumes "length bs = k" and "LENGTH('a::len) = 8 * k"
  shows "word_to_le k (word_from_le bs :: 'a word) = bs"
proof -
  have "le_val bs < 2 ^ LENGTH('a)"
    using le_val_bound [of bs] assms by (simp add: pow_256)
  then have "unat (word_of_nat (le_val bs) :: 'a word) = le_val bs"
    by (simp add: unat_of_nat)
  then show ?thesis using assms by (simp add: word_to_le_def word_from_le_def)
qed

section \<open>Stream decoders\<close>

text \<open>
  One iteration of an incremental decoder over its buffer: it needs more bytes, it fails and
  leaves a buffer behind, or it yields a value and the rest of the buffer.
\<close>

datatype ('f, 'e) decode_step = NeedMore | Fail 'e "byte list" | Got 'f "byte list"

text \<open>
  The interface of a decoder that loops over such a step until it needs more bytes. The laws
  are what makes it a stream decoder: bytes that arrive later do not change what the bytes
  already there decode to, and every decoded value consumes some bytes. The client lemmas say
  that the decoder does not see how the stream was cut into reads.
\<close>

locale stream_decoder =
  fixes step :: "byte list \<Rightarrow> ('f, 'e) decode_step"
    and loop :: "byte list \<Rightarrow> 'f list \<Rightarrow> ('e + 'f list) \<times> byte list"
  assumes loop_unfold: "loop buf fs =
      (case step buf of NeedMore \<Rightarrow> (Inr fs, buf) | Fail e buf' \<Rightarrow> (Inl e, buf')
       | Got f buf' \<Rightarrow> loop buf' (fs @ [f]))"
    and step_shrinks: "step buf = Got f buf' \<Longrightarrow> length buf' < length buf"
    and step_append: "step buf = Got f buf' \<Longrightarrow> step (buf @ ys) = Got f (buf' @ ys)"
begin

lemma loop_append:
  "loop buf fs = (Inr gs, rest) \<Longrightarrow> loop (buf @ ys) fs = loop (rest @ ys) gs"
proof (induction "length buf" arbitrary: buf fs rule: less_induct)
  case less
  show ?case
  proof (cases "step buf")
    case NeedMore
    with less.prems show ?thesis by (simp add: loop_unfold [of buf])
  next
    case (Fail e b)
    with less.prems show ?thesis by (simp add: loop_unfold [of buf])
  next
    case (Got f b)
    then have "loop b (fs @ [f]) = (Inr gs, rest)"
      using less.prems by (simp add: loop_unfold [of buf])
    from less.hyps [OF step_shrinks [OF Got] this]
    show ?thesis using step_append [OF Got] by (simp add: loop_unfold [of "buf @ ys"])
  qed
qed

text \<open>The buffer left behind by a successful run holds no complete value.\<close>

lemma loop_rest: "loop buf fs = (Inr gs, rest) \<Longrightarrow> step rest = NeedMore"
proof (induction "length buf" arbitrary: buf fs rule: less_induct)
  case less
  show ?case
  proof (cases "step buf")
    case (Got f b)
    then have "loop b (fs @ [f]) = (Inr gs, rest)"
      using less.prems by (simp add: loop_unfold [of buf])
    from less.hyps [OF step_shrinks [OF Got] this] show ?thesis .
  qed (use less.prems in \<open>auto simp: loop_unfold [of buf]\<close>)
qed

end

text \<open>
  A decoder with the encoder it inverts, on the values \<open>ok\<close> that survive the round trip. A
  reader pushes chunk after chunk; \<open>reassembles\<close> says that any chunking of an encoded sequence
  gives back the sequence, with nothing left over.
\<close>

primrec push_chunks ::
    "(byte list \<Rightarrow> 'f list \<Rightarrow> ('e + 'f list) \<times> byte list) \<Rightarrow> byte list \<Rightarrow> byte list list \<Rightarrow>
      ('e + 'f list) \<times> byte list" where
  "push_chunks loop buf [] = (Inr [], buf)"
| "push_chunks loop buf (c # cs) =
     (case loop (buf @ c) [] of
        (Inl e, buf') \<Rightarrow> (Inl e, buf')
      | (Inr fs, buf') \<Rightarrow>
          (case push_chunks loop buf' cs of
             (Inl e, buf'') \<Rightarrow> (Inl e, buf'')
           | (Inr gs, buf'') \<Rightarrow> (Inr (fs @ gs), buf'')))"

locale stream_codec = stream_decoder +
  fixes enc :: "'a \<Rightarrow> byte list"
    and ok :: "'a \<Rightarrow> bool"
  assumes step_nil: "step [] = NeedMore"
    and step_enc: "ok f \<Longrightarrow> step (enc f @ rest) = Got f rest"
    and step_prefix: "ok f \<Longrightarrow> enc f = xs @ y # ys \<Longrightarrow> step xs = NeedMore"
begin

lemma loop_encs: "\<forall>f \<in> set gs. ok f \<Longrightarrow>
    loop (concat (map enc gs) @ rest) fs = loop rest (fs @ gs)"
proof (induction gs arbitrary: fs)
  case Nil
  then show ?case by simp
next
  case (Cons g gs)
  then have "step (enc g @ concat (map enc gs) @ rest) = Got g (concat (map enc gs) @ rest)"
    using step_enc by simp
  with Cons show ?case
    by (simp add: loop_unfold [of "enc g @ concat (map enc gs) @ rest"])
qed

lemma loop_NeedMore: "step buf = NeedMore \<Longrightarrow> loop buf fs = (Inr fs, buf)"
  by (simp add: loop_unfold [of buf])

text \<open>Any prefix of an encoded sequence decodes to a prefix of the sequence.\<close>

lemma loop_prefix:
  assumes "\<forall>f \<in> set gs. ok f" and "concat (map enc gs) = xs @ ys"
  shows "\<exists>hs ts zs. gs = hs @ ts \<and> loop xs fs = (Inr (fs @ hs), zs) \<and> zs @ ys = concat (map enc ts)"
  using assms
proof (induction gs arbitrary: xs fs)
  case Nil
  then show ?case using step_nil by (simp add: loop_NeedMore)
next
  case (Cons g gs)
  from Cons.prems(2) obtain us where
    "(xs = enc g @ us \<and> us @ ys = concat (map enc gs)) \<or>
     (xs @ us = enc g \<and> ys = us @ concat (map enc gs) \<and> us \<noteq> [])"
    by (auto simp: append_eq_append_conv2) (metis append.right_neutral append_self_conv)+
  then consider
      (whole) "xs = enc g @ us" "us @ ys = concat (map enc gs)"
    | (part) "xs @ us = enc g" "ys = us @ concat (map enc gs)" "us \<noteq> []"
    by blast
  then show ?case
  proof cases
    case whole
    have "step xs = Got g us" using whole(1) step_enc Cons.prems(1) by simp
    then have "loop xs fs = loop us (fs @ [g])" by (simp add: loop_unfold [of xs])
    moreover obtain hs ts zs where
      "gs = hs @ ts" "loop us (fs @ [g]) = (Inr (fs @ [g] @ hs), zs)" "zs @ ys = concat (map enc ts)"
      using Cons.IH [of us "fs @ [g]"] Cons.prems(1) whole(2) by auto
    ultimately show ?thesis
      by (intro exI [of _ "g # hs"] exI [of _ ts] exI [of _ zs]) simp
  next
    case part
    obtain u us' where "us = u # us'" using part(3) by (cases us) auto
    then have "step xs = NeedMore" using step_prefix [of g xs u us'] part(1) Cons.prems(1) by simp
    then show ?thesis
      using part by (intro exI [of _ "[]"] exI [of _ "g # gs"] exI [of _ xs]) (simp add: loop_NeedMore)
  qed
qed

text \<open>Whatever part of a stream has come, in whatever pieces, decodes to the frames it holds.\<close>

lemma chunks_prefix:
  assumes "\<forall>f \<in> set gs. ok f" and "concat (map enc gs) = (buf @ concat cs) @ ys" and "step buf = NeedMore"
  shows "\<exists>hs ts zs. gs = hs @ ts \<and> push_chunks loop buf cs = (Inr hs, zs) \<and> step zs = NeedMore \<and>
    zs @ ys = concat (map enc ts)"
  using assms
proof (induction cs arbitrary: buf gs)
  case Nil
  then show ?case by (intro exI [of _ "[]"] exI [of _ gs] exI [of _ buf]) simp
next
  case (Cons c cs)
  have "concat (map enc gs) = (buf @ c) @ (concat cs @ ys)" using Cons.prems by simp
  from loop_prefix [OF Cons.prems(1) this, of "[]"] obtain hs ts zs where
    h: "gs = hs @ ts" "loop (buf @ c) [] = (Inr hs, zs)" "zs @ concat cs @ ys = concat (map enc ts)"
    by auto
  have "concat (map enc ts) = (zs @ concat cs) @ ys" using h(3) by simp
  from Cons.IH [OF _ this loop_rest [OF h(2)]] h(1) Cons.prems(1) obtain hs' ts' zs' where
    "ts = hs' @ ts'" "push_chunks loop zs cs = (Inr hs', zs')" "step zs' = NeedMore" "zs' @ ys = concat (map enc ts')"
    by auto
  with h show ?case by (intro exI [of _ "hs @ hs'"] exI [of _ ts'] exI [of _ zs']) simp
qed

lemma reassembles_from:
  assumes "\<forall>f \<in> set gs. ok f" and "buf @ concat cs = concat (map enc gs)" and "step buf = NeedMore"
  shows "push_chunks loop buf cs = (Inr gs, [])"
proof -
  from chunks_prefix [of gs buf cs "[]"] assms obtain hs ts zs where
    h: "gs = hs @ ts" "push_chunks loop buf cs = (Inr hs, zs)" "step zs = NeedMore" "zs = concat (map enc ts)"
    by auto
  have "ts = []" using h(1,3,4) assms(1) step_enc by (cases ts) auto
  with h show ?thesis by simp
qed

lemma reassembles:
  "\<forall>f \<in> set gs. ok f \<Longrightarrow> concat cs = concat (map enc gs) \<Longrightarrow>
    push_chunks loop [] cs = (Inr gs, [])"
  using reassembles_from [of gs "[]" cs] step_nil by simp

end

end
