(* ===== verification/Attach.thy ===== *)
theory Attach
  imports Rill_Prelude
begin

text \<open>
  The framed attach codec of \<^verbatim>\<open>crates/rill-attach/src/lib.rs\<close>: the tags, the frames, \<open>encode\<close>,
  \<open>decode\<close> and the incremental \<open>Decoder\<close> of the SOCK\_STREAM socket. A frame is a tag byte, a
  32-bit little-endian length and the payload. The codec's \<open>Error::Io\<close> is never built by the
  codec itself and is left out. \<open>stream_codec\<close> of the prelude is interpreted on the decoder.
\<close>

unbundle bit_operations_syntax

section \<open>Frames\<close>

definition MAX_FRAME :: nat where
  "MAX_FRAME = 4 * 1024 * 1024"

definition PROTOCOL_VERSION :: byte where "PROTOCOL_VERSION = 1"

definition PROTOCOL_2 :: byte where "PROTOCOL_2 = 2"

definition ATTACH_FLAG_OBSERVE :: byte where "ATTACH_FLAG_OBSERVE = 1"

datatype tag = TagData | TagCredit | TagResize | TagExit | TagAttach | TagRefused
  | TagCheckpoint | TagDelta | TagResyncRequest

datatype refuse_reason = AlreadyAttached | Invalid | ProtocolMismatch

datatype attach_error = UnknownTag byte | UnknownRefuse byte | Truncated | TooLarge nat

definition tag_from_u8 :: "byte \<Rightarrow> attach_error + tag" where
  "tag_from_u8 v =
     (if v = 1 then Inr TagData else if v = 2 then Inr TagCredit
      else if v = 3 then Inr TagResize else if v = 4 then Inr TagExit
      else if v = 5 then Inr TagAttach else if v = 6 then Inr TagRefused
      else if v = 7 then Inr TagCheckpoint else if v = 8 then Inr TagDelta
      else if v = 9 then Inr TagResyncRequest else Inl (UnknownTag v))"

primrec tag_as_u8 :: "tag \<Rightarrow> byte" where
  "tag_as_u8 TagData = 1"
| "tag_as_u8 TagCredit = 2"
| "tag_as_u8 TagResize = 3"
| "tag_as_u8 TagExit = 4"
| "tag_as_u8 TagAttach = 5"
| "tag_as_u8 TagRefused = 6"
| "tag_as_u8 TagCheckpoint = 7"
| "tag_as_u8 TagDelta = 8"
| "tag_as_u8 TagResyncRequest = 9"

definition refuse_from_u8 :: "byte \<Rightarrow> attach_error + refuse_reason" where
  "refuse_from_u8 v =
     (if v = 1 then Inr AlreadyAttached else if v = 2 then Inr Invalid
      else if v = 3 then Inr ProtocolMismatch else Inl (UnknownRefuse v))"

primrec refuse_as_u8 :: "refuse_reason \<Rightarrow> byte" where
  "refuse_as_u8 AlreadyAttached = 1"
| "refuse_as_u8 Invalid = 2"
| "refuse_as_u8 ProtocolMismatch = 3"

text \<open>
  The fields, in the source's order: \<open>Resize cols rows px_w px_h\<close>, \<open>Exit status\<close> (the bit pattern
  of the \<open>i32\<close>), \<open>Attach generation session_id protocol observe\<close>, \<open>Checkpoint ending_offset hash
  blob\<close>, \<open>Delta start_offset bytes\<close>.
\<close>

datatype frame =
    Data "byte list"
  | Credit u32
  | Resize u16 u16 u16 u16
  | Exit u32
  | Attach u64 "u64 option" byte bool
  | Refused refuse_reason
  | Checkpoint u64 u64 "byte list"
  | Delta u64 "byte list"
  | ResyncRequest

fun frame_tag :: "frame \<Rightarrow> tag" where
  "frame_tag (Data _) = TagData"
| "frame_tag (Credit _) = TagCredit"
| "frame_tag (Resize _ _ _ _) = TagResize"
| "frame_tag (Exit _) = TagExit"
| "frame_tag (Attach _ _ _ _) = TagAttach"
| "frame_tag (Refused _) = TagRefused"
| "frame_tag (Checkpoint _ _ _) = TagCheckpoint"
| "frame_tag (Delta _ _) = TagDelta"
| "frame_tag ResyncRequest = TagResyncRequest"

fun is_warm_path :: "frame \<Rightarrow> bool" where
  "is_warm_path (Data _) = True"
| "is_warm_path (Credit _) = True"
| "is_warm_path _ = False"

definition protocol_supported :: "byte \<Rightarrow> bool" where
  "protocol_supported p \<longleftrightarrow> p = PROTOCOL_VERSION \<or> p = PROTOCOL_2"

definition attach_frame :: "u64 \<Rightarrow> u64 option \<Rightarrow> frame" where
  "attach_frame g sid = Attach g sid PROTOCOL_VERSION False"

section \<open>Encoding\<close>

definition attach_extra :: "byte \<Rightarrow> bool \<Rightarrow> bool" where
  "attach_extra p obs \<longleftrightarrow> p \<noteq> PROTOCOL_VERSION \<or> obs"

definition observe_flag :: "bool \<Rightarrow> byte" where
  "observe_flag obs = (if obs then ATTACH_FLAG_OBSERVE else 0)"

fun encode_payload :: "frame \<Rightarrow> byte list" where
  "encode_payload (Data b) = b"
| "encode_payload (Credit n) = word_to_le 4 n"
| "encode_payload (Resize c r w h) =
     word_to_le 2 c @ word_to_le 2 r @ word_to_le 2 w @ word_to_le 2 h"
| "encode_payload (Exit st) = word_to_le 4 st"
| "encode_payload (Attach g sid p obs) =
     word_to_le 8 g @
     (case sid of
        Some i \<Rightarrow> word_to_le 8 i @ (if attach_extra p obs then [p, observe_flag obs] else [])
      | None \<Rightarrow>
          if attach_extra p obs then word_to_le 8 (0 :: u64) @ [p, observe_flag obs] else [])"
| "encode_payload (Refused r) = [refuse_as_u8 r]"
| "encode_payload (Checkpoint e h b) = word_to_le 8 e @ word_to_le 8 h @ b"
| "encode_payload (Delta s b) = word_to_le 8 s @ b"
| "encode_payload ResyncRequest = []"

definition encode :: "frame \<Rightarrow> attach_error + byte list" where
  "encode f =
     (let payload = encode_payload f
      in if length payload > MAX_FRAME then Inl (TooLarge (length payload))
         else Inr (tag_as_u8 (frame_tag f) # le_bytes 4 (length payload) @ payload))"

section \<open>Decoding\<close>

definition read_word :: "nat \<Rightarrow> byte list \<Rightarrow> attach_error + 'a::len word" where
  "read_word k p = (if length p \<noteq> k then Inl Truncated else Inr (word_from_le p))"

text \<open>\<open>u64::from_le_bytes(payload[a..a + 8])\<close>, read after the length of the payload is checked.\<close>

definition word_at :: "nat \<Rightarrow> nat \<Rightarrow> byte list \<Rightarrow> 'a::len word" where
  "word_at a k p = word_from_le (take k (drop a p))"

definition decode_attach :: "byte list \<Rightarrow> attach_error + frame" where
  "decode_attach p =
     (if length p = 8 then Inr (Attach (word_from_le p) None PROTOCOL_VERSION False)
      else if length p = 16 then
        Inr (Attach (word_at 0 8 p) (Some (word_at 8 8 p)) PROTOCOL_VERSION False)
      else if length p = 18 then
        (let raw_id = word_at 8 8 p
         in Inr (Attach (word_at 0 8 p) (if raw_id = 0 then None else Some raw_id)
                   (p ! 16) (p ! 17 AND ATTACH_FLAG_OBSERVE \<noteq> 0)))
      else Inl Truncated)"

fun decode :: "tag \<Rightarrow> byte list \<Rightarrow> attach_error + frame" where
  "decode TagData p = Inr (Data p)"
| "decode TagCredit p = (case read_word 4 p of Inl e \<Rightarrow> Inl e | Inr n \<Rightarrow> Inr (Credit n))"
| "decode TagResize p =
     (if length p \<noteq> 8 then Inl Truncated
      else Inr (Resize (word_at 0 2 p) (word_at 2 2 p) (word_at 4 2 p) (word_at 6 2 p)))"
| "decode TagExit p = (case read_word 4 p of Inl e \<Rightarrow> Inl e | Inr n \<Rightarrow> Inr (Exit n))"
| "decode TagAttach p = decode_attach p"
| "decode TagRefused p =
     (if length p \<noteq> 1 then Inl Truncated
      else case refuse_from_u8 (p ! 0) of Inl e \<Rightarrow> Inl e | Inr r \<Rightarrow> Inr (Refused r))"
| "decode TagCheckpoint p =
     (if length p < 16 then Inl Truncated
      else Inr (Checkpoint (word_at 0 8 p) (word_at 8 8 p) (drop 16 p)))"
| "decode TagDelta p =
     (if length p < 8 then Inl Truncated
      else Inr (Delta (word_at 0 8 p) (drop 8 p)))"
| "decode TagResyncRequest p = (if p \<noteq> [] then Inl Truncated else Inr ResyncRequest)"

section \<open>The incremental decoder\<close>

text \<open>One turn of the loop of \<open>Decoder::push\<close> over the buffer.\<close>

definition decoder_step :: "byte list \<Rightarrow> (frame, attach_error) decode_step" where
  "decoder_step buf =
     (if length buf < 5 then NeedMore
      else case tag_from_u8 (buf ! 0) of
        Inl e \<Rightarrow> Fail e buf
      | Inr tag \<Rightarrow>
          (let len = le_val (take 4 (drop 1 buf))
           in if len > MAX_FRAME then Fail (TooLarge len) buf
              else if length buf < 5 + len then
                (if length buf > MAX_FRAME + 5 then Fail (TooLarge (length buf)) buf else NeedMore)
              else case decode tag (take len (drop 5 buf)) of
                Inl e \<Rightarrow> Fail e (drop (5 + len) buf)
              | Inr f \<Rightarrow> Got f (drop (5 + len) buf)))"

lemma decoder_step_Got_length: "decoder_step buf = Got f buf' \<Longrightarrow> length buf' < length buf"
  by (auto simp: decoder_step_def Let_def split: if_splits sum.splits)

function decoder_loop :: "byte list \<Rightarrow> frame list \<Rightarrow> (attach_error + frame list) \<times> byte list" where
  "decoder_loop buf frames =
     (case decoder_step buf of
        NeedMore \<Rightarrow> (Inr frames, buf)
      | Fail e buf' \<Rightarrow> (Inl e, buf')
      | Got f buf' \<Rightarrow> decoder_loop buf' (frames @ [f]))"
  by pat_completeness auto
termination
  by (relation "measure (\<lambda>(buf, _). length buf)") (auto dest: decoder_step_Got_length)

declare decoder_loop.simps [simp del]

text \<open>
  \<open>Decoder::push\<close>: the state is the buffer; on an error the frames decoded so far in this call
  are lost and the buffer keeps what the loop left.
\<close>

definition decoder_push :: "byte list \<Rightarrow> byte list \<Rightarrow> (attach_error + frame list) \<times> byte list" where
  "decoder_push buf bs = decoder_loop (buf @ bs) []"

definition decoder_new :: "byte list" where
  "decoder_new = []"

section \<open>Correctness\<close>

text \<open>
  The frames whose payload determines them. An attach that names session 0 and carries the
  extended fields is not one: the extended payload uses id 0 for "no session named".
\<close>

fun wire_exact :: "frame \<Rightarrow> bool" where
  "wire_exact (Attach g (Some i) p obs) \<longleftrightarrow> i \<noteq> 0 \<or> \<not> attach_extra p obs"
| "wire_exact _ \<longleftrightarrow> True"

definition frame_bytes :: "frame \<Rightarrow> byte list" where
  "frame_bytes f = tag_as_u8 (frame_tag f) # le_bytes 4 (length (encode_payload f)) @ encode_payload f"

definition frame_fits :: "frame \<Rightarrow> bool" where
  "frame_fits f \<longleftrightarrow> length (encode_payload f) \<le> MAX_FRAME"

lemma encode_eq_Inr: "encode f = Inr bs \<longleftrightarrow> frame_fits f \<and> bs = frame_bytes f"
  by (auto simp: encode_def Let_def frame_fits_def frame_bytes_def)

lemma tag_from_as_u8 [simp]: "tag_from_u8 (tag_as_u8 t) = Inr t"
  by (cases t) (simp_all add: tag_from_u8_def)

lemma tag_as_from_u8: "tag_from_u8 v = Inr t \<Longrightarrow> tag_as_u8 t = v"
  by (auto simp: tag_from_u8_def split: if_splits)

lemma refuse_from_as_u8 [simp]: "refuse_from_u8 (refuse_as_u8 r) = Inr r"
  by (cases r) (simp_all add: refuse_from_u8_def)

lemma refuse_as_from_u8: "refuse_from_u8 v = Inr r \<Longrightarrow> refuse_as_u8 r = v"
  by (auto simp: refuse_from_u8_def split: if_splits)

lemmas wire_words =
  word_from_to_le [where k = 2 and 'a = 16, simplified]
  word_from_to_le [where k = 4 and 'a = 32, simplified]
  word_from_to_le [where k = 8 and 'a = 64, simplified]

lemma observe_flag_AND: "observe_flag obs AND ATTACH_FLAG_OBSERVE \<noteq> 0 \<longleftrightarrow> obs"
  by (simp add: observe_flag_def ATTACH_FLAG_OBSERVE_def)

lemma decode_encode_attach:
  assumes "wire_exact (Attach g sid p obs)"
  shows "decode_attach (encode_payload (Attach g sid p obs)) = Inr (Attach g sid p obs)"
  using assms
  by (cases sid)
    (auto simp: decode_attach_def word_at_def wire_words nth_append observe_flag_AND
      attach_extra_def)

lemma decode_encode_payload:
  "wire_exact f \<Longrightarrow> decode (frame_tag f) (encode_payload f) = Inr f"
  by (cases f)
    (simp_all add: decode_encode_attach read_word_def word_at_def wire_words del: encode_payload.simps(5))

lemma length_frame_bytes [simp]: "length (frame_bytes f) = 5 + length (encode_payload f)"
  by (simp add: frame_bytes_def)

lemma frame_fits_len: "frame_fits f \<Longrightarrow> length (encode_payload f) < 256 ^ 4"
  by (simp add: frame_fits_def MAX_FRAME_def)

text \<open>The header of a frame, read back from any buffer that starts with it.\<close>

lemma frame_bytes_header:
  assumes "frame_fits f"
  shows "frame_bytes f ! 0 = tag_as_u8 (frame_tag f)"
    and "le_val (take 4 (drop 1 (frame_bytes f))) = length (encode_payload f)"
    and "drop 5 (frame_bytes f) = encode_payload f"
  using frame_fits_len [OF assms] by (simp_all add: frame_bytes_def)

lemma decoder_step_frame_bytes:
  assumes "wire_exact f" and "frame_fits f"
  shows "decoder_step (frame_bytes f @ rest) = Got f rest"
proof -
  note h = frame_bytes_header [OF assms(2)]
  have "take 4 (drop 1 (frame_bytes f @ rest)) = take 4 (drop 1 (frame_bytes f))" by simp
  moreover have "(frame_bytes f @ rest) ! 0 = frame_bytes f ! 0"
    by (simp add: frame_bytes_def)
  moreover have "take (length (encode_payload f)) (drop 5 (frame_bytes f @ rest)) = encode_payload f"
    using h(3) by simp
  ultimately show ?thesis
    using h assms
    by (simp add: decoder_step_def frame_fits_def decode_encode_payload)
qed

lemma decoder_step_prefix:
  assumes "frame_fits f" and "frame_bytes f = xs @ y # ys"
  shows "decoder_step xs = NeedMore"
proof (cases "length xs < 5")
  case True
  then show ?thesis by (simp add: decoder_step_def)
next
  case False
  note h = frame_bytes_header [OF assms(1)]
  have xs: "xs = take (length xs) (frame_bytes f)" using assms(2) by simp
  have "xs ! 0 = frame_bytes f ! 0" using False by (subst assms(2), cases xs) simp_all
  moreover have "take 4 (drop 1 xs) = take 4 (drop 1 (frame_bytes f))"
    using False by (subst xs) (simp add: drop_take)
  moreover have "length xs < 5 + length (encode_payload f)"
    using arg_cong [OF assms(2), of length] by simp
  ultimately show ?thesis
    using h assms(1) False by (simp add: decoder_step_def frame_fits_def)
qed

lemma decoder_step_append:
  assumes "decoder_step buf = Got f buf'"
  shows "decoder_step (buf @ ys) = Got f (buf' @ ys)"
proof -
  have "5 \<le> length buf" using assms by (auto simp: decoder_step_def split: if_splits)
  moreover have "(buf @ ys) ! 0 = buf ! 0" if "5 \<le> length buf"
    using that by (cases buf) simp_all
  ultimately show ?thesis
    using assms by (auto simp: decoder_step_def Let_def split: if_splits sum.splits)
qed

interpretation attach: stream_codec decoder_step decoder_loop frame_bytes
  "\<lambda>f. wire_exact f \<and> frame_fits f"
proof unfold_locales
  show "decoder_loop buf fs = (case decoder_step buf of NeedMore \<Rightarrow> (Inr fs, buf)
      | Fail e buf' \<Rightarrow> (Inl e, buf') | Got f buf' \<Rightarrow> decoder_loop buf' (fs @ [f]))" for buf fs
    by (rule decoder_loop.simps)
qed (auto simp: decoder_step_def [of "[]"] decoder_step_frame_bytes
    intro: decoder_step_prefix decoder_step_append decoder_step_Got_length)

section \<open>Properties of the attach protocol\<close>

text \<open>A reader on the socket: one \<open>Decoder\<close>, pushed once per read.\<close>

definition read_stream :: "byte list list \<Rightarrow> (attach_error + frame list) \<times> byte list" where
  "read_stream chunks = push_chunks decoder_loop decoder_new chunks"

text \<open>What a reader makes of a frame: no session is named where it cannot tell id 0 from none.\<close>

fun wire_view :: "frame \<Rightarrow> frame" where
  "wire_view (Attach g (Some i) p obs) = Attach g (if i = 0 \<and> attach_extra p obs then None else Some i) p obs"
| "wire_view f = f"

lemma wire_view_exact: "wire_exact (wire_view f)" "encode_payload (wire_view f) = encode_payload f" "frame_tag (wire_view f) = frame_tag f"
  by (cases f rule: wire_view.cases; simp)+

lemma wire_view_bytes: "frame_bytes (wire_view f) = frame_bytes f" "frame_fits (wire_view f) = frame_fits f"
  by (simp_all add: frame_bytes_def frame_fits_def wire_view_exact)

text \<open>
  C1: the decoder reassembles the stream. For every sequence of frames that encode, and every
  way to cut the concatenated encodings into reads (empty reads and one byte at a time
  included), the decoder returns those frames in order and keeps no byte. Each frame comes out as
  it went in, except that an attach with the extended fields that names session 0 comes out as
  one that names no session: the extended payload has one encoding for both.
\<close>

theorem read_stream_reassembles:
  assumes "list_all2 (\<lambda>f bs. encode f = Inr bs) frames encoded"
    and "concat chunks = concat encoded"
  shows "read_stream chunks = (Inr (map wire_view frames), [])"
proof -
  have "encoded = map frame_bytes (map wire_view frames) \<and> (\<forall>f \<in> set (map wire_view frames). wire_exact f \<and> frame_fits f)"
    using assms(1) by (induction rule: list_all2_induct) (auto simp: encode_eq_Inr wire_view_bytes wire_view_exact)
  with assms(2) show ?thesis
    by (simp add: read_stream_def decoder_new_def attach.reassembles)
qed

lemma read_stream_reassembles_witness:
  "read_stream [[8, 9, 0], [0, 0, 7, 0, 0, 0, 0], [], [0, 0, 0, 65, 9, 0], [0, 0, 0]] =
    (Inr [Delta 7 [65], ResyncRequest], [])"
proof -
  have "list_all2 (\<lambda>f bs. encode f = Inr bs) [Delta 7 [65], ResyncRequest]
    [[8, 9, 0, 0, 0, 7, 0, 0, 0, 0, 0, 0, 0, 65], [9, 0, 0, 0, 0]]"
    by (simp add: encode_def word_to_le_def MAX_FRAME_def run_simps)
  from read_stream_reassembles [OF this] show ?thesis by simp
qed

text \<open>
  Memory is bounded. Whatever bytes a peer sends, a push that succeeds leaves fewer than
  \<open>MAX_FRAME + 5\<close> bytes in the decoder's buffer.
\<close>

theorem decoder_push_bounded:
  assumes "decoder_push buf bs = (Inr frames, buf')"
  shows "length buf' < MAX_FRAME + 5"
proof -
  have "decoder_step buf' = NeedMore"
    using assms attach.loop_rest by (simp add: decoder_push_def)
  then show ?thesis
    by (auto simp: decoder_step_def Let_def split: if_splits sum.splits)
qed

lemma decoder_push_bounded_witness:
  "decoder_push [] [1, 3, 0, 0, 0, 65] = (Inr [], [1, 3, 0, 0, 0, 65]) \<and>
    length [1 :: byte, 3, 0, 0, 0, 65] < MAX_FRAME + 5"
proof -
  have "decoder_push [] [1, 3, 0, 0, 0, 65] = (Inr [], [1, 3, 0, 0, 0, 65])"
    by (simp add: decoder_push_def decoder_loop.simps decoder_step_def tag_from_u8_def
        MAX_FRAME_def)
  with decoder_push_bounded [OF this] show ?thesis by simp
qed

text \<open>
  C2: what decodes was encoded. A payload that decodes to a frame is the payload the encoder
  writes for that frame, for every tag but the extended attach, whose flag byte may carry bits
  that are ignored; and the frame has the tag it was decoded under.
\<close>

theorem decode_canonical:
  assumes "decode t p = Inr f"
  shows "frame_tag f = t \<and> (t = TagAttach \<and> length p = 18 \<or> encode_payload f = p)"
proof (cases t)
  case TagAttach
  then show ?thesis
    using assms
    by (auto simp: decode_attach_def Let_def word_at_def attach_extra_def
        word_to_from_le [where 'a = 64] split: if_splits)
qed (use assms in \<open>auto simp: read_word_def word_at_def word_to_from_le drop_take
      take_drop_join length_Suc_conv split: if_splits sum.splits dest: refuse_as_from_u8\<close>)

lemma decode_canonical_witness:
  "decode TagCredit [5, 0, 0, 0] = Inr (Credit 5) \<and> encode_payload (Credit 5) = [5, 0, 0, 0]"
proof -
  have "decode TagCredit [5, 0, 0, 0] = Inr (Credit 5)"
    by (simp add: read_word_def word_from_le_def)
  with decode_canonical [OF this] show ?thesis by simp
qed

text \<open>
  A malformed stream is refused, never skipped. With a header in the buffer, an unknown tag
  fails the push, and so does a declared length above \<open>MAX_FRAME\<close>, before any of the payload
  is waited for; in both cases the buffer is left as it was, so that the stream stays refused.
\<close>

theorem decoder_push_refuses:
  assumes "5 \<le> length (buf @ bs)"
  shows "(\<forall>e. tag_from_u8 ((buf @ bs) ! 0) = Inl e \<longrightarrow>
      decoder_push buf bs = (Inl e, buf @ bs) \<and> e = UnknownTag ((buf @ bs) ! 0)) \<and>
    (\<forall>t. tag_from_u8 ((buf @ bs) ! 0) = Inr t \<and>
      MAX_FRAME < le_val (take 4 (drop 1 (buf @ bs))) \<longrightarrow>
      decoder_push buf bs = (Inl (TooLarge (le_val (take 4 (drop 1 (buf @ bs))))), buf @ bs))"
  using assms
  by (auto simp: decoder_push_def decoder_loop.simps [of "buf @ bs"] decoder_step_def
      tag_from_u8_def Let_def split: if_splits)

lemma decoder_push_refuses_witness:
  "decoder_push [99, 0] [0, 0, 0] = (Inl (UnknownTag 99), [99, 0, 0, 0, 0]) \<and>
    decoder_push [] [1, 255, 255, 255, 255] = (Inl (TooLarge 4294967295), [1, 255, 255, 255, 255])"
  using decoder_push_refuses [of "[99, 0]" "[0, 0, 0]"]
    decoder_push_refuses [of "[]" "[1, 255, 255, 255, 255]"]
  by (simp add: tag_from_u8_def MAX_FRAME_def)

end
