(* ===== verification/Vt_Types.thy ===== *)
theory Vt_Types
  imports Rill_Prelude
begin

text \<open>
  The value types shared by the VT engine and its hosts (\<^verbatim>\<open>crates/rill-vt-types/src/lib.rs\<close>) and
  the colour materialisation of \<^verbatim>\<open>crates/vt-engine/src/color.rs\<close>. A \<open>char\<close> is its scalar value,
  a 32-bit word. \<open>PodCell._pad\<close> is always zero and is left out.
\<close>

unbundle bit_operations_syntax

type_synonym scalar = u32

datatype vt_error = Vt string | Config string | IoErr

section \<open>Colours\<close>

record rgb =
  rgb_r :: byte
  rgb_g :: byte
  rgb_b :: byte

datatype color = Default | Indexed byte | Rgb byte byte byte

record palette =
  ansi :: "rgb list"
  foreground :: rgb
  background :: rgb
  pal_cursor :: rgb

definition mk_rgb :: "byte \<Rightarrow> byte \<Rightarrow> byte \<Rightarrow> rgb" where
  "mk_rgb r g b = \<lparr>rgb_r = r, rgb_g = g, rgb_b = b\<rparr>"

definition vt_default :: palette where
  "vt_default =
     \<lparr>ansi =
        [mk_rgb 0x1d 0x1f 0x21, mk_rgb 0xcc 0x66 0x66, mk_rgb 0xb5 0xbd 0x68, mk_rgb 0xf0 0xc6 0x74,
         mk_rgb 0x81 0xa2 0xbe, mk_rgb 0xb2 0x94 0xbb, mk_rgb 0x8a 0xbe 0xb7, mk_rgb 0xc5 0xc8 0xc6,
         mk_rgb 0x66 0x66 0x66, mk_rgb 0xd5 0x4e 0x53, mk_rgb 0xb9 0xca 0x4a, mk_rgb 0xe7 0xc5 0x47,
         mk_rgb 0x7a 0xa6 0xda, mk_rgb 0xc3 0x97 0xd8, mk_rgb 0x70 0xc0 0xb1, mk_rgb 0xea 0xea 0xea],
      foreground = mk_rgb 0xcc 0xcc 0xcc,
      background = mk_rgb 0x12 0x12 0x12,
      pal_cursor = mk_rgb 0xcc 0xcc 0xcc\<rparr>"

text \<open>The palette's \<open>[Rgb; 16]\<close> is a list whose length the type of the source fixes.\<close>

definition wf_palette :: "palette \<Rightarrow> bool" where
  "wf_palette p \<longleftrightarrow> length (ansi p) = 16"

lemma wf_palette_vt_default [simp]: "wf_palette vt_default"
  by (simp add: wf_palette_def vt_default_def)

text \<open>
  \<open>u8\<close> arithmetic of \<open>cube\<close> and \<open>indexed\<close> is word arithmetic, which wraps; the lemmas below
  show that it never does for the levels and indices that occur.
\<close>

definition cube :: "byte \<Rightarrow> byte" where
  "cube level = (if level = 0 then 0 else 55 + 40 * level)"

definition indexed :: "byte \<Rightarrow> palette \<Rightarrow> rgb" where
  "indexed n p =
     (if n \<le> 15 then ansi p ! unat n
      else if n \<le> 231 then
        (let i = n - 16; r = i div 36; g = (i mod 36) div 6; b = i mod 6
         in mk_rgb (cube r) (cube g) (cube b))
      else (let v = 8 + 10 * (n - 232) in mk_rgb v v v))"

lemma unat_cube: "unat level \<le> 5 \<Longrightarrow> unat (cube level) = (if unat level = 0 then 0 else 55 + 40 * unat level)"
  by (auto simp: cube_def unat_word_ariths unat_eq_0)

lemma unat_le_nat: "unat (n :: byte) \<le> k \<longleftrightarrow> n \<le> word_of_nat k" if "k < 256"
  using that by (simp add: word_le_nat_alt)

text \<open>
  The indexed colours are the xterm cube and ramp. For an index outside the 16 palette
  entries no channel wraps: the 6 by 6 by 6 cube has the levels 0, 95, 135, 175, 215, 255 in
  base-6 positions of the index, and the grey ramp is 8, 18, ..., 238.
\<close>

theorem indexed_cube_and_ramp:
  "(16 \<le> unat n \<and> unat n \<le> 231 \<longrightarrow>
     (let i = unat n - 16; level = (\<lambda>l. if l = 0 then 0 else 55 + 40 * l)
      in unat (rgb_r (indexed n p)) = level (i div 36) \<and>
         unat (rgb_g (indexed n p)) = level (i mod 36 div 6) \<and>
         unat (rgb_b (indexed n p)) = level (i mod 6) \<and> level (i div 36) \<le> 255)) \<and>
   (232 \<le> unat n \<longrightarrow>
     unat (rgb_r (indexed n p)) = 8 + 10 * (unat n - 232) \<and>
     rgb_g (indexed n p) = rgb_r (indexed n p) \<and> rgb_b (indexed n p) = rgb_r (indexed n p) \<and>
     8 + 10 * (unat n - 232) \<le> 238)"
proof (intro conjI impI)
  assume n: "16 \<le> unat n \<and> unat n \<le> 231"
  have i: "unat (n - 16) = unat n - 16"
    using n by (simp add: unat_sub word_le_nat_alt)
  let ?i = "n - 16"
  have u: "unat (?i div 36) = (unat n - 16) div 36" "unat (?i mod 36 div 6) = (unat n - 16) mod 36 div 6"
    "unat (?i mod 6) = (unat n - 16) mod 6"
    by (simp_all add: unat_div unat_mod i)
  have b: "(unat n - 16) div 36 \<le> 5" "(unat n - 16) mod 36 div 6 \<le> 5" "(unat n - 16) mod 6 \<le> 5"
    using n by linarith+
  have "indexed n p = mk_rgb (cube (?i div 36)) (cube (?i mod 36 div 6)) (cube (?i mod 6))"
    using n by (simp add: indexed_def word_le_nat_alt Let_def)
  then show "let i = unat n - 16; level = (\<lambda>l. if l = 0 then 0 else 55 + 40 * l)
      in unat (rgb_r (indexed n p)) = level (i div 36) \<and>
         unat (rgb_g (indexed n p)) = level (i mod 36 div 6) \<and>
         unat (rgb_b (indexed n p)) = level (i mod 6) \<and> level (i div 36) \<le> 255"
    using u b by (simp add: mk_rgb_def unat_cube Let_def)
next
  assume n: "232 \<le> unat n"
  have u: "unat n \<le> 255" using unat_byte_less [of n] by linarith
  have ramp: "unat (8 + 10 * d) = 8 + 10 * unat d" if "unat d \<le> 23" for d :: byte
    using that by (simp add: unat_word_ariths)
  have d: "unat (n - 232) = unat n - 232" using n by (simp add: unat_sub word_le_nat_alt)
  then have "unat (n - 232) \<le> 23" using u by linarith
  from ramp [OF this] have v: "unat (8 + 10 * (n - 232)) = 8 + 10 * (unat n - 232)"
    unfolding d .
  have ix: "indexed n p = (let v = 8 + 10 * (n - 232) in mk_rgb v v v)"
    using n by (simp add: indexed_def word_le_nat_alt)
  from v ix show "unat (rgb_r (indexed n p)) = 8 + 10 * (unat n - 232)"
    by (simp add: mk_rgb_def Let_def)
  from ix show "rgb_g (indexed n p) = rgb_r (indexed n p)" "rgb_b (indexed n p) = rgb_r (indexed n p)"
    by (simp_all add: mk_rgb_def Let_def)
  from u show "8 + 10 * (unat n - 232) \<le> 238" by linarith
qed

lemma indexed_cube_and_ramp_witness:
  "unat (rgb_r (indexed 196 vt_default)) = 255 \<and> unat (rgb_r (indexed 255 vt_default)) = 238"
  using indexed_cube_and_ramp [of 196 vt_default] indexed_cube_and_ramp [of 255 vt_default]
  by (simp add: Let_def)

text \<open>\<open>pack\<close> of \<^verbatim>\<open>screen.rs\<close>: RGBA8888 with an opaque alpha.\<close>

definition pack :: "rgb \<Rightarrow> u32" where
  "pack c = push_bit 24 (ucast (rgb_r c)) OR push_bit 16 (ucast (rgb_g c)) OR
     push_bit 8 (ucast (rgb_b c)) OR 0xff"

section \<open>Cells and grids\<close>

definition ATTR_BOLD :: u16 where "ATTR_BOLD = push_bit 0 1"
definition ATTR_UNDERLINE :: u16 where "ATTR_UNDERLINE = push_bit 1 1"
definition ATTR_INVERSE :: u16 where "ATTR_INVERSE = push_bit 2 1"
definition ATTR_WIDE_LEAD :: u16 where "ATTR_WIDE_LEAD = push_bit 3 1"
definition ATTR_WIDE_TAIL :: u16 where "ATTR_WIDE_TAIL = push_bit 4 1"

record pod_cell =
  pc_codepoint :: u32
  pc_fg :: u32
  pc_bg :: u32
  pc_attrs :: u16

record pod_grid =
  pg_cols :: nat
  pg_rows :: nat
  pg_cursor_col :: nat
  pg_cursor_row :: nat
  pg_cursor_visible :: bool
  pg_full_damage :: bool
  pg_damage_row0 :: nat
  pg_damage_row1 :: nat
  pg_default_fg :: u32
  pg_default_bg :: u32
  pg_grapheme_truncated :: nat
  pg_replies_dropped :: nat
  pg_cells :: "pod_cell list"

text \<open>
  \<open>PodGrid::cell\<close>. The checked \<open>usize\<close> arithmetic cannot overflow for 16-bit coordinates on a
  64-bit host, so the lookup is plain; out of range is \<open>None\<close>.
\<close>

definition pod_grid_cell :: "pod_grid \<Rightarrow> nat \<Rightarrow> nat \<Rightarrow> pod_cell option" where
  "pod_grid_cell g col row =
     (let i = row * pg_cols g + col
      in if i < length (pg_cells g) then Some (pg_cells g ! i) else None)"

record terminal_mode_state =
  ms_application_cursor_keys :: bool
  ms_application_keypad :: bool
  ms_bracketed_paste :: bool
  ms_mouse_x10 :: bool
  ms_mouse_button :: bool
  ms_mouse_any :: bool
  ms_mouse_sgr :: bool
  ms_focus_events :: bool
  ms_alternate_screen :: bool
  ms_cursor_visible :: bool

definition mode_state_fresh :: terminal_mode_state where
  "mode_state_fresh =
     \<lparr>ms_application_cursor_keys = False, ms_application_keypad = False,
      ms_bracketed_paste = False, ms_mouse_x10 = False, ms_mouse_button = False,
      ms_mouse_any = False, ms_mouse_sgr = False, ms_focus_events = False,
      ms_alternate_screen = False, ms_cursor_visible = True\<rparr>"

end
