(* ===== verification/Kernel_Base.thy ===== *)
theory Kernel_Base
  imports Rill_Prelude
begin

text \<open>
  The small records of the kernel crate that its larger components share: the error type
  (\<^verbatim>\<open>crates/rill-kernel/src/error.rs\<close>), the stored checkpoint (\<^verbatim>\<open>checkpoint.rs\<close>) and the
  reconciliation of a journal record with a live worker (\<^verbatim>\<open>journal.rs\<close>). The operating system's
  error values carried by \<open>Spawn\<close> and \<open>Io\<close> are opaque and left out.
\<close>

datatype kernel_error =
    PtyError string
  | Spawn
  | Io
  | Dead
  | AttachRefused
  | UnknownSession
  | CwdUnreadable
  | UnsupportedPlatform string
  | UnknownNode
  | IncompatibleCheckpoint
  | CheckpointEvicted
  | NoCheckpoint

section \<open>Stored checkpoints\<close>

definition CHECKPOINT_FORMAT_VERSION :: nat where
  "CHECKPOINT_FORMAT_VERSION = 1"

record stored_checkpoint =
  format_version :: nat
  ending_offset :: nat
  cp_hash :: u64
  cp_blob :: "byte list"

definition stored_checkpoint_new :: "nat \<Rightarrow> u64 \<Rightarrow> byte list \<Rightarrow> stored_checkpoint" where
  "stored_checkpoint_new off h b =
     \<lparr>format_version = CHECKPOINT_FORMAT_VERSION, ending_offset = off, cp_hash = h, cp_blob = b\<rparr>"

definition check_compatible :: "stored_checkpoint \<Rightarrow> kernel_error + unit" where
  "check_compatible cp =
     (if format_version cp \<noteq> CHECKPOINT_FORMAT_VERSION then Inl IncompatibleCheckpoint else Inr ())"

section \<open>Reconciling the journal\<close>

datatype terminal_outcome = Running nat | HostTerminated | Missing | Exited int

definition reconcile_execution :: "nat option \<Rightarrow> bool \<Rightarrow> bool \<Rightarrow> terminal_outcome" where
  "reconcile_execution recorded_pid worker_live shutdown_marker =
     (if shutdown_marker \<and> \<not> worker_live then HostTerminated
      else if worker_live then
        (case recorded_pid of Some child_pid \<Rightarrow> Running child_pid | None \<Rightarrow> Missing)
      else if recorded_pid \<noteq> None then Missing
      else HostTerminated)"

text \<open>
  The journal never claims a process it cannot see. A running outcome is reported exactly
  when the worker is live and a pid was recorded, and then with that pid; a recorded pid whose
  worker is gone without a shutdown marker is reported missing.
\<close>

theorem reconcile_honest:
  "(reconcile_execution pid live marker = Running p \<longleftrightarrow> live \<and> pid = Some p) \<and>
   reconcile_execution (Some q) False False = Missing \<and>
   reconcile_execution pid False True = HostTerminated \<and>
   reconcile_execution pid live marker \<noteq> Exited st"
  by (auto simp: reconcile_execution_def split: option.splits)

end
