(* ===== verification/Ring.thy ===== *)
theory Ring
  imports Kernel_Base
begin

text \<open>
  The bounded byte history of \<^verbatim>\<open>crates/rill-kernel/src/ring.rs\<close>. The ring keeps the last \<open>cap\<close>
  bytes of the PTY output under absolute offsets. Its abstract specification is the whole
  output as one list: \<open>ring_abs r hist\<close> relates the two, every operation of the ring preserves
  it, and \<open>byte_history\<close> is the interface the session and its recovery rely on. \<open>u64\<close> offsets
  saturate as in the source.
\<close>

record byte_ring =
  ring_data :: "byte list"
  ring_cap :: nat
  ring_base :: nat
  ring_end :: nat

definition ring_new :: "nat \<Rightarrow> byte_ring" where
  "ring_new c = \<lparr>ring_data = [], ring_cap = max c 1, ring_base = 0, ring_end = 0\<rparr>"

definition retained_base :: "byte_ring \<Rightarrow> nat" where
  "retained_base r = ring_base r"

definition end_offset :: "byte_ring \<Rightarrow> nat" where
  "end_offset r = ring_end r"

definition ring_append :: "byte_ring \<Rightarrow> byte list \<Rightarrow> byte_ring" where
  "ring_append r bs =
     (if bs = [] then r
      else let e = sat_add u64_max (ring_end r) (length bs)
       in if length bs \<ge> ring_cap r then
            (let d = drop (length bs - ring_cap r) bs
             in r\<lparr>ring_end := e, ring_data := d, ring_base := e - length d\<rparr>)
          else
            (let overflow = length (ring_data r) + length bs - ring_cap r;
                 d = (if overflow > 0 then drop overflow (ring_data r) else ring_data r) @ bs
             in r\<lparr>ring_end := e, ring_data := d, ring_base := e - length d\<rparr>))"

definition deltas_after :: "byte_ring \<Rightarrow> nat \<Rightarrow> kernel_error + byte list" where
  "deltas_after r start =
     (if start < ring_base r then Inl CheckpointEvicted
      else if start > ring_end r then Inl CheckpointEvicted
      else Inr (drop (start - ring_base r) (ring_data r)))"

definition ring_snapshot :: "byte_ring \<Rightarrow> byte list" where
  "ring_snapshot r = ring_data r"

definition ring_len :: "byte_ring \<Rightarrow> nat" where
  "ring_len r = length (ring_data r)"

definition ring_is_empty :: "byte_ring \<Rightarrow> bool" where
  "ring_is_empty r \<longleftrightarrow> ring_data r = []"

section \<open>The abstract history\<close>

definition keep_last :: "nat \<Rightarrow> 'a list \<Rightarrow> 'a list" where
  "keep_last n xs = drop (length xs - n) xs"

lemma length_keep_last [simp]: "length (keep_last n xs) = min n (length xs)"
  by (simp add: keep_last_def)

lemma keep_last_append_long: "n \<le> length ys \<Longrightarrow> keep_last n (xs @ ys) = keep_last n ys"
  by (simp add: keep_last_def)

lemma keep_last_append_short:
  assumes "length ys \<le> n"
  shows "keep_last n (xs @ ys) =
    drop (length (keep_last n xs) + length ys - n) (keep_last n xs) @ ys"
proof -
  have "length xs - n + (min n (length xs) + length ys - n) = length xs + length ys - n"
    using assms by arith
  then have "drop (min n (length xs) + length ys - n) (drop (length xs - n) xs) =
      drop (length xs + length ys - n) xs"
    by (metis add.commute drop_drop)
  then show ?thesis
    using assms by (simp only: length_keep_last) (simp add: keep_last_def)
qed

text \<open>The ring holds the last \<open>cap\<close> bytes of \<open>hist\<close>, under their offsets in \<open>hist\<close>.\<close>

definition ring_abs :: "byte_ring \<Rightarrow> byte list \<Rightarrow> bool" where
  "ring_abs r hist \<longleftrightarrow>
     0 < ring_cap r \<and> length hist \<le> u64_max \<and> ring_end r = length hist \<and>
     ring_data r = keep_last (ring_cap r) hist \<and>
     ring_base r = length hist - min (ring_cap r) (length hist)"

text \<open>
  What a client of a byte history relies on: an append extends the history, and a read at an
  offset either refuses or returns the exact suffix of the history after that offset.
\<close>

locale byte_history =
  fixes rel :: "'r \<Rightarrow> byte list \<Rightarrow> bool"
    and app :: "'r \<Rightarrow> byte list \<Rightarrow> 'r"
    and read_from :: "'r \<Rightarrow> nat \<Rightarrow> 'e + byte list"
    and limit :: nat
  assumes rel_app: "rel r hist \<Longrightarrow> length hist + length bs \<le> limit \<Longrightarrow> rel (app r bs) (hist @ bs)"
    and rel_read: "rel r hist \<Longrightarrow> read_from r k = Inr bs \<Longrightarrow> k \<le> length hist \<and> bs = drop k hist"
begin

lemma rel_apps:
  "rel r hist \<Longrightarrow> length hist + length (concat bss) \<le> limit \<Longrightarrow>
    rel (foldl app r bss) (hist @ concat bss)"
proof (induction bss arbitrary: r hist)
  case Nil
  then show ?case by simp
next
  case (Cons bs bss)
  then have "rel (app r bs) (hist @ bs)" by (intro rel_app) simp_all
  from Cons.IH [OF this] Cons.prems show ?case by simp
qed

text \<open>
  A consumer whose reaction to the stream composes over concatenation, restored from its state
  after the first \<open>k\<close> bytes, catches up exactly by replaying what the history returns.
\<close>

lemma replay_catches_up:
  assumes "\<And>s xs ys. feed s (xs @ ys) = feed (feed s xs) ys"
    and "rel r hist" and "read_from r k = Inr bs"
  shows "feed (feed s (take k hist)) bs = feed s hist"
proof -
  have "bs = drop k hist" using rel_read [OF assms(2,3)] by simp
  then show ?thesis using assms(1) [of s "take k hist" "drop k hist"] by simp
qed

end

lemma ring_abs_new: "ring_abs (ring_new c) []"
  by (simp add: ring_abs_def ring_new_def keep_last_def)

lemma ring_abs_append:
  assumes "ring_abs r hist" and "length hist + length bs \<le> u64_max"
  shows "ring_abs (ring_append r bs) (hist @ bs)"
proof (cases "bs = []")
  case True
  with assms show ?thesis by (simp add: ring_append_def)
next
  case False
  note r = assms(1) [unfolded ring_abs_def]
  have e: "sat_add u64_max (ring_end r) (length bs) = length hist + length bs"
    using r assms(2) by (simp add: sat_add_exact)
  show ?thesis
  proof (cases "length bs \<ge> ring_cap r")
    case True
    then show ?thesis
      using r e assms(2) False
      by (simp add: ring_append_def ring_abs_def keep_last_append_long Let_def)
        (simp add: keep_last_def)
  next
    case short: False
    let ?d = "drop (length (ring_data r) + length bs - ring_cap r) (ring_data r) @ bs"
    have d: "?d = keep_last (ring_cap r) (hist @ bs)"
      using r short by (subst keep_last_append_short) simp_all
    have "ring_append r bs = r\<lparr>ring_end := length hist + length bs, ring_data := ?d,
        ring_base := length hist + length bs - length ?d\<rparr>"
      using False short e by (simp add: ring_append_def Let_def)
    then show ?thesis
      unfolding d using r assms(2) by (simp add: ring_abs_def)
  qed
qed

lemma ring_abs_deltas:
  assumes "ring_abs r hist"
  shows "deltas_after r start =
    (if retained_base r \<le> start \<and> start \<le> length hist then Inr (drop start hist)
     else Inl CheckpointEvicted)"
proof -
  note r = assms [unfolded ring_abs_def]
  have "drop (start - ring_base r) (ring_data r) = drop start hist" if "ring_base r \<le> start"
  proof -
    have "start - ring_base r + (length hist - ring_cap r) = start" using r that by arith
    then show ?thesis using r by (simp add: keep_last_def del: add_diff_assoc)
  qed
  then show ?thesis using r by (auto simp: deltas_after_def retained_base_def not_less)
qed

interpretation ring: byte_history ring_abs ring_append deltas_after u64_max
  by unfold_locales (auto simp: ring_abs_append ring_abs_deltas split: if_splits)

section \<open>Properties\<close>

text \<open>
  C3: the ring refines the whole history. After any sequence of appends to a fresh ring that
  stays within 64-bit offsets, the ring holds exactly the last \<open>cap\<close> bytes of everything that
  was appended, its end offset counts every byte, and the retained base is the offset of the
  first byte it still holds.
\<close>

theorem ring_refines_history:
  assumes "length (concat bss) \<le> u64_max"
  shows "let r = foldl ring_append (ring_new c) bss; hist = concat bss
    in ring_snapshot r = keep_last (max c 1) hist \<and> end_offset r = length hist \<and>
       retained_base r + ring_len r = length hist \<and> ring_len r \<le> max c 1"
proof -
  have cap: "ring_cap (ring_append r bs) = ring_cap r" for r bs
    by (simp add: ring_append_def Let_def)
  have "ring_cap (foldl ring_append r bss) = ring_cap r" for r
    by (induction bss arbitrary: r) (simp_all add: cap)
  moreover have "ring_abs (foldl ring_append (ring_new c) bss) (concat bss)"
    using ring.rel_apps [OF ring_abs_new, of bss c] assms by simp
  ultimately show ?thesis
    by (auto simp: ring_abs_def ring_snapshot_def end_offset_def retained_base_def ring_len_def
        ring_new_def Let_def)
qed

lemma ring_refines_history_witness:
  "ring_snapshot (foldl ring_append (ring_new 4) [[1, 2, 3], [4, 5]]) = [2, 3, 4, 5]"
  using ring_refines_history [of "[[1, 2, 3], [4, 5]]" 4] by (simp add: Let_def keep_last_def)

text \<open>
  Reads at an offset are exact or refused. For a ring that holds a history, the bytes after
  an offset are the suffix of the whole history at that offset whenever the offset is still
  retained, and the read fails closed for an evicted offset or one beyond the end.
\<close>

theorem deltas_after_exact:
  assumes "ring_abs r hist"
  shows "deltas_after r start =
    (if retained_base r \<le> start \<and> start \<le> length hist then Inr (drop start hist)
     else Inl CheckpointEvicted)"
  by (rule ring_abs_deltas [OF assms])

lemma deltas_after_exact_witness:
  "deltas_after (ring_append (ring_new 4) [1, 2, 3, 4, 5, 6]) 3 = Inr [4, 5, 6] \<and>
    deltas_after (ring_append (ring_new 4) [1, 2, 3, 4, 5, 6]) 1 = Inl CheckpointEvicted"
proof -
  have "ring_abs (ring_append (ring_new 4) [1, 2, 3, 4, 5, 6]) [1, 2, 3, 4, 5, 6]"
    using ring_abs_append [OF ring_abs_new, of "[1, 2, 3, 4, 5, 6]" 4] by simp
  note d = deltas_after_exact [OF this]
  show ?thesis
    by (simp add: d retained_base_def)
      (simp add: ring_append_def ring_new_def sat_add_def Let_def)
qed

end
