(* ===== verification/Host_View.thy ===== *)
theory Host_View imports Vt_Types Ring begin

text \<open>
  The viewport of the desktop host (\<open>crates/rill-host/src/scroll.rs\<close>): the rows that left the grid of
  the emulator, and the window of them and of the live rows that is painted. The variable
  \<open>RILL_MUTATE\<close>, which these functions consult in every build, is taken to be unset.
\<close>

section \<open>The rows that left the grid\<close>

definition MAX_HISTORY_ROWS :: nat where "MAX_HISTORY_ROWS = 10000"

fun ingest_scrolled :: "pod_cell list list \<Rightarrow> pod_cell list list \<Rightarrow> pod_cell list list" where
  "ingest_scrolled history [] = history"
| "ingest_scrolled history (row # rows) =
     (let history = history @ [row]
      in ingest_scrolled (if length history > MAX_HISTORY_ROWS then tl history else history) rows)"

definition clamp_offset :: "nat \<Rightarrow> nat \<Rightarrow> nat \<Rightarrow> nat" where
  "clamp_offset history_len live_rows offset = min offset (history_len mod 2 ^ 32)"

definition follow_live_after_input :: "nat \<Rightarrow> nat" where
  "follow_live_after_input offset = 0"

definition mark_full_if_viewport_jumped :: "pod_grid \<Rightarrow> bool \<Rightarrow> pod_grid" where
  "mark_full_if_viewport_jumped g jumped = (if jumped then g\<lparr>pg_full_damage := True\<rparr> else g)"

section \<open>The window\<close>

definition live_rows :: "pod_grid \<Rightarrow> pod_cell list list" where
  "live_rows g =
     concat (map (\<lambda>r. let start = r * pg_cols g
       in if start + pg_cols g \<le> length (pg_cells g) then [take (pg_cols g) (drop start (pg_cells g))] else [])
       [0..<pg_rows g])"

definition blank_cell :: "pod_grid \<Rightarrow> pod_cell" where
  "blank_cell g = \<lparr>pc_codepoint = 32, pc_fg = pg_default_fg g, pc_bg = pg_default_bg g, pc_attrs = 0\<rparr>"

definition fit_row :: "pod_grid \<Rightarrow> pod_cell list \<Rightarrow> pod_cell list" where
  "fit_row g row =
     (if length row \<ge> pg_cols g then take (pg_cols g) row
      else row @ replicate (pg_cols g - length row) (blank_cell g))"

definition compose_viewport :: "pod_cell list list \<Rightarrow> pod_grid \<Rightarrow> nat \<Rightarrow> pod_grid" where
  "compose_viewport history live offset =
     (if offset = 0 \<or> history = [] then live
      else
        let stack = history @ live_rows live;
            off = clamp_offset (length history) (pg_rows live) offset;
            end_row = length stack - off;
            start = end_row - pg_rows live;
            cells = concat (map (\<lambda>i. if i < length stack then fit_row live (stack ! i)
              else replicate (pg_cols live) (blank_cell live)) [start..<start + pg_rows live])
        in live\<lparr>pg_cursor_visible := offset = 0 \<and> pg_cursor_visible live, pg_full_damage := True,
             pg_damage_row0 := 0, pg_damage_row1 := pg_rows live - 1, pg_cells := cells\<rparr>)"

section \<open>What is painted\<close>

lemma tl_keep_last: "n < length xs \<Longrightarrow> length xs \<le> Suc n \<Longrightarrow> tl xs = keep_last n xs"
  by (cases xs) (auto simp: keep_last_def Suc_diff_le dest: le_antisym)

lemma keep_last_Nil [simp]: "keep_last n [] = []"
  by (simp add: keep_last_def)

lemma keep_last_short: "length xs \<le> n \<Longrightarrow> keep_last n xs = xs"
  by (simp add: keep_last_def)

lemma keep_last_again: "keep_last n (keep_last n xs @ ys) = keep_last n (xs @ ys)"
proof (cases "length xs \<le> n")
  case False
  then have "keep_last n xs = drop (length xs - n) xs" "length (keep_last n xs) = n" by (simp_all add: keep_last_def)
  then show ?thesis using False by (simp add: keep_last_def drop_drop add.commute)
qed (simp add: keep_last_short)

lemma ingest_keeps_last:
  "length history \<le> MAX_HISTORY_ROWS \<Longrightarrow> ingest_scrolled history rows = keep_last MAX_HISTORY_ROWS (history @ rows)"
proof (induction history rows rule: ingest_scrolled.induct)
  case (2 history row rows)
  let ?h = "history @ [row]"
  let ?n = "if length ?h > MAX_HISTORY_ROWS then tl ?h else ?h"
  have n: "?n = keep_last MAX_HISTORY_ROWS ?h"
    using 2(2) tl_keep_last [of MAX_HISTORY_ROWS ?h] by (simp add: keep_last_short del: tl_append2)
  have "ingest_scrolled history (row # rows) = ingest_scrolled ?n rows" by (simp add: Let_def)
  also have "\<dots> = keep_last MAX_HISTORY_ROWS (?n @ rows)" by (rule 2(1) [OF refl], subst n) simp
  also have "\<dots> = keep_last MAX_HISTORY_ROWS (?h @ rows)" by (subst n) (rule keep_last_again)
  finally show ?case by (simp only: append_assoc append.simps)
qed (simp add: keep_last_short)

lemma ingest_batches:
  "foldl ingest_scrolled [] batches = keep_last MAX_HISTORY_ROWS (concat batches)"
  by (induction batches rule: rev_induct) (simp_all add: ingest_keeps_last keep_last_again)

definition wf_grid :: "pod_grid \<Rightarrow> bool" where
  "wf_grid g \<longleftrightarrow> length (pg_cells g) = pg_cols g * pg_rows g"

lemma row_in_grid: "r < rs \<Longrightarrow> r * cs + cs \<le> cs * (rs :: nat)"
  by (metis Suc_leI add.commute mult.commute mult_Suc mult_le_mono1)

lemma live_rows_eq:
  assumes "wf_grid g"
  shows "live_rows g = map (\<lambda>r. take (pg_cols g) (drop (r * pg_cols g) (pg_cells g))) [0..<pg_rows g]"
proof -
  have "(let start = r * pg_cols g
      in if start + pg_cols g \<le> length (pg_cells g) then [take (pg_cols g) (drop start (pg_cells g))] else []) =
    [take (pg_cols g) (drop (r * pg_cols g) (pg_cells g))]" if "r \<in> set [0..<pg_rows g]" for r
    using that assms row_in_grid [of r "pg_rows g" "pg_cols g"] by (simp add: wf_grid_def)
  then have "live_rows g = concat (map (\<lambda>r. [take (pg_cols g) (drop (r * pg_cols g) (pg_cells g))]) [0..<pg_rows g])"
    unfolding live_rows_def by (metis (no_types, lifting) map_cong)
  then show ?thesis by (simp add: concat_map_singleton)
qed

lemma length_fit_row [simp]: "length (fit_row g row) = pg_cols g"
  by (simp add: fit_row_def)

lemma nth_concat_rows:
  assumes "\<forall>row \<in> set rows. length row = n" "r < length rows" "c < n"
  shows "concat rows ! (r * n + c) = rows ! r ! c"
  using assms
proof (induction rows arbitrary: r)
  case (Cons row rows)
  show ?case
  proof (cases r)
    case (Suc k)
    then have "concat (row # rows) ! (r * n + c) = concat rows ! (k * n + c)" using Cons.prems by (simp add: nth_append)
    then show ?thesis using Cons Suc by simp
  qed (use Cons.prems in \<open>simp add: nth_append\<close>)
qed simp

lemma length_concat_rows: "\<forall>row \<in> set rows. length row = n \<Longrightarrow> length (concat rows) = length rows * n"
  by (induction rows) simp_all

text \<open>The window of a stack of rows that ends so many rows above its last.\<close>

definition window :: "nat \<Rightarrow> nat \<Rightarrow> 'a list \<Rightarrow> 'a list" where
  "window n off stack = take n (drop (length stack - off - n) stack)"

lemma painted:
  "pg_cells (g\<lparr>pg_cursor_visible := v, pg_full_damage := f, pg_damage_row0 := a, pg_damage_row1 := b, pg_cells := cells\<rparr>) = cells"
  by simp

lemma compose_window:
  assumes "wf_grid live" "0 < offset" "offset \<le> length history" "length history \<le> MAX_HISTORY_ROWS"
  shows "pg_cells (compose_viewport history live offset) =
    concat (map (fit_row live) (window (pg_rows live) offset (history @ live_rows live)))"
proof -
  let ?stack = "history @ live_rows live"
  have l: "length ?stack = length history + pg_rows live" using assms(1) by (simp add: live_rows_eq)
  have off: "clamp_offset (length history) (pg_rows live) offset = offset"
    using assms(3,4) by (simp add: clamp_offset_def MAX_HISTORY_ROWS_def)
  let ?start = "length ?stack - offset - pg_rows live"
  have e: "?start + pg_rows live \<le> length ?stack" using l assms(2,3) by simp
  have "map (\<lambda>i. if i < length ?stack then fit_row live (?stack ! i) else replicate (pg_cols live) (blank_cell live))
      [?start..<?start + pg_rows live] = map (fit_row live) (map ((!) ?stack) [?start..<?start + pg_rows live])"
    using e by (simp add: comp_def)
  also have "map ((!) ?stack) [?start..<?start + pg_rows live] = window (pg_rows live) offset ?stack"
    unfolding window_def by (rule nth_equalityI) (use e in \<open>simp_all del: take_append drop_append\<close>)
  finally have m: "map (\<lambda>i. if i < length ?stack then fit_row live (?stack ! i) else replicate (pg_cols live) (blank_cell live))
      [?start..<?start + pg_rows live] = map (fit_row live) (window (pg_rows live) offset ?stack)" .
  have "history \<noteq> []" "offset \<noteq> 0" using assms(2,3) by auto
  then show ?thesis unfolding m [symmetric] compose_viewport_def Let_def off by (simp only: if_False simp_thms painted)
qed

lemma length_window: "off + n \<le> length stack \<Longrightarrow> length (window n off stack) = n"
  by (simp add: window_def)

lemma nth_window: "off + n \<le> length stack \<Longrightarrow> r < n \<Longrightarrow> window n off stack ! r = stack ! (length stack - off - n + r)"
  by (simp add: window_def)

lemma window_keep_last: "off + n \<le> k + m \<Longrightarrow> length ys = m \<Longrightarrow> off + n \<le> length xs + m \<Longrightarrow>
    window n off (keep_last k xs @ ys) = window n off (xs @ ys)"
proof -
  assume a: "off + n \<le> k + m" "length ys = m" "off + n \<le> length xs + m"
  show ?thesis
  proof (rule nth_equalityI)
    have b: "off + n \<le> length (keep_last k xs @ ys)" "off + n \<le> length (xs @ ys)" using a by auto
    then show l: "length (window n off (keep_last k xs @ ys)) = length (window n off (xs @ ys))" by (simp only: length_window)
    fix r assume "r < length (window n off (keep_last k xs @ ys))"
    then have r: "r < n" using b(1) by (simp only: length_window)
    show "window n off (keep_last k xs @ ys) ! r = window n off (xs @ ys) ! r"
      unfolding nth_window [OF b(1) r] nth_window [OF b(2) r] using a
      by (auto simp: nth_append keep_last_def min_def add.assoc)
  qed
qed

end
