(* ===== verification/Session.thy ===== *)
theory Session
  imports Attach Ring
begin

text \<open>
  One leaf of the kernel (\<open>crates/rill-kernel/src/session.rs\<close>): a pseudoterminal, its output
  history, the attached client with its credit and its queue, and the input lease. The pseudoterminal
  is a parameter: the record \<open>pty_ops\<close> holds the calls a session makes on it, over a state of
  any type. The clock (\<open>Instant::now\<close>) and the grace period (\<open>lease_grace\<close>, read from the
  environment) are arguments, in milliseconds. The counters that saturate in the source saturate here.

  The second half adds a log to any pseudoterminal and proves, in the locale \<open>pty_log\<close>, that
  every operation of a session keeps its history, its byte counter and its journal in step with that
  log. The flow of output, the exit status and the input lease are in \<open>Session_Flow\<close>.
\<close>

section \<open>The pseudoterminal\<close>

record winsize =
  ws_cols :: u16
  ws_rows :: u16
  ws_px_w :: u16
  ws_px_h :: u16

record 'p pty_ops =
  pty_write_all :: "byte list \<Rightarrow> 'p \<Rightarrow> (kernel_error + unit) \<times> 'p"
  pty_read :: "nat \<Rightarrow> 'p \<Rightarrow> (kernel_error + byte list) \<times> 'p"
  pty_set_winsize :: "winsize \<Rightarrow> 'p \<Rightarrow> (kernel_error + unit) \<times> 'p"
  pty_try_wait :: "'p \<Rightarrow> (kernel_error + u32 option) \<times> 'p"
  pty_terminate :: "'p \<Rightarrow> (kernel_error + unit) \<times> 'p"
  pty_fg_cwd :: "'p \<Rightarrow> kernel_error + string"

section \<open>The session\<close>

definition RING_CAP :: nat where "RING_CAP = 4 * 1024 * 1024"
definition READ_BUF :: nat where "READ_BUF = 64 * 1024"
definition JOURNAL_CAP :: nat where "JOURNAL_CAP = 4096"

datatype io_event = PtyWrite nat | PtyRead nat | WinsizeSet winsize | ChildExit u32

datatype input_delivery = Pending | Dispatched | Unknown

record 'p session =
  ss_pty :: 'p
  ss_ephemeral :: bool
  ss_ring :: byte_ring
  ss_attach_generation :: "u64 option"
  ss_credit :: nat
  ss_outbound :: "frame list"
  ss_pending_input :: "byte list list"
  ss_child_exit :: "u32 option"
  ss_exit_delivered :: bool
  ss_resync_pending :: bool
  ss_resync_count :: nat
  ss_stalled_reads :: nat
  ss_bytes_delivered :: nat
  ss_journal :: "(nat \<times> io_event) list"
  ss_seq :: nat
  ss_size :: winsize
  ss_last_cwd :: "string option"
  ss_last_delivery :: input_delivery
  ss_observers :: nat
  ss_terminated :: bool
  ss_checkpoint :: "stored_checkpoint option"
  ss_lease_generation :: nat
  ss_lease_nonce :: u64
  ss_lease_until :: "nat option"

text \<open>\<open>spawn_configured\<close>, once the operating system has made the pseudoterminal.\<close>

definition session_new :: "'p \<Rightarrow> winsize \<Rightarrow> bool \<Rightarrow> 'p session" where
  "session_new pty sz eph =
     \<lparr>ss_pty = pty, ss_ephemeral = eph, ss_ring = ring_new RING_CAP, ss_attach_generation = None,
      ss_credit = 0, ss_outbound = [], ss_pending_input = [], ss_child_exit = None,
      ss_exit_delivered = False, ss_resync_pending = False, ss_resync_count = 0,
      ss_stalled_reads = 0, ss_bytes_delivered = 0, ss_journal = [], ss_seq = 0, ss_size = sz,
      ss_last_cwd = None, ss_last_delivery = Unknown, ss_observers = 0, ss_terminated = False,
      ss_checkpoint = None, ss_lease_generation = 0, ss_lease_nonce = 0, ss_lease_until = None\<rparr>"

type_synonym ('p, 'a) run = "(kernel_error + 'a) \<times> 'p session"

definition attached :: "'p session \<Rightarrow> bool" where
  "attached s \<longleftrightarrow> ss_attach_generation s \<noteq> None"

definition child_alive :: "'p session \<Rightarrow> bool" where
  "child_alive s \<longleftrightarrow> ss_child_exit s = None"

definition history :: "'p session \<Rightarrow> byte list" where
  "history s = ring_snapshot (ss_ring s)"

definition install_checkpoint :: "stored_checkpoint \<Rightarrow> 'p session \<Rightarrow> ('p, unit) run" where
  "install_checkpoint cp s =
     (case check_compatible cp of
        Inl e \<Rightarrow> (Inl e, s)
      | Inr _ \<Rightarrow> (Inr (), s\<lparr>ss_checkpoint := Some cp\<rparr>))"

definition recovery :: "'p session \<Rightarrow> kernel_error + stored_checkpoint \<times> byte list" where
  "recovery s =
     (case ss_checkpoint s of
        None \<Rightarrow> Inl NoCheckpoint
      | Some cp \<Rightarrow>
          (case deltas_after (ss_ring s) (ending_offset cp) of
             Inl e \<Rightarrow> Inl e
           | Inr d \<Rightarrow> Inr (cp, d)))"

text \<open>The journal keeps the last \<open>JOURNAL_CAP\<close> events under consecutive sequence numbers.\<close>

definition record_event :: "io_event \<Rightarrow> 'p session \<Rightarrow> 'p session" where
  "record_event ev s =
     (let s = s\<lparr>ss_seq := (ss_seq s + 1) mod 2 ^ 64\<rparr>;
          s = (if length (ss_journal s) = JOURNAL_CAP then s\<lparr>ss_journal := tl (ss_journal s)\<rparr> else s)
      in s\<lparr>ss_journal := ss_journal s @ [(ss_seq s, ev)]\<rparr>)"

definition session_terminate :: "'p pty_ops \<Rightarrow> 'p session \<Rightarrow> ('p, unit) run" where
  "session_terminate P s =
     (if ss_terminated s then (Inr (), s)
      else let (r, p) = pty_terminate P (ss_pty s)
           in (r, s\<lparr>ss_terminated := True, ss_pty := p\<rparr>))"

definition cwd :: "'p pty_ops \<Rightarrow> 'p session \<Rightarrow> ('p, string) run" where
  "cwd P s =
     (case pty_fg_cwd P (ss_pty s) of
        Inl e \<Rightarrow> (Inl e, s)
      | Inr path \<Rightarrow> (Inr path, s\<lparr>ss_last_cwd := Some path\<rparr>))"

definition release_observer :: "'p session \<Rightarrow> 'p session" where
  "release_observer s = s\<lparr>ss_observers := ss_observers s - 1\<rparr>"

definition has_listeners :: "'p session \<Rightarrow> bool" where
  "has_listeners s \<longleftrightarrow> ss_attach_generation s \<noteq> None \<or> ss_observers s > 0"

definition enqueue_outbound :: "frame \<Rightarrow> 'p session \<Rightarrow> 'p session" where
  "enqueue_outbound f s = s\<lparr>ss_outbound := ss_outbound s @ [f]\<rparr>"

definition pop_outbound :: "'p session \<Rightarrow> frame option \<times> 'p session" where
  "pop_outbound s =
     (case ss_outbound s of
        [] \<Rightarrow> (None, s)
      | f # fs \<Rightarrow> (Some f, s\<lparr>ss_outbound := fs\<rparr>))"

definition take_resync_history :: "'p session \<Rightarrow> byte list option \<times> 'p session" where
  "take_resync_history s =
     (if \<not> ss_resync_pending s then (None, s)
      else (Some (ring_snapshot (ss_ring s)),
        s\<lparr>ss_resync_pending := False, ss_resync_count := sat_add u32_max (ss_resync_count s) 1\<rparr>))"

definition poll_child :: "'p pty_ops \<Rightarrow> 'p session \<Rightarrow> ('p, bool) run" where
  "poll_child P s =
     (if ss_child_exit s \<noteq> None then (Inr False, s)
      else
        let (r, p) = pty_try_wait P (ss_pty s); s = s\<lparr>ss_pty := p\<rparr>
        in case r of
             Inl e \<Rightarrow> (Inl e, s)
           | Inr None \<Rightarrow> (Inr False, s)
           | Inr (Some status) \<Rightarrow>
               let s = record_event (ChildExit status) (s\<lparr>ss_child_exit := Some status\<rparr>)
               in (Inr True,
                   if has_listeners s
                   then (enqueue_outbound (Exit status) s)\<lparr>ss_exit_delivered := True\<rparr>
                   else s))"

fun is_data :: "frame \<Rightarrow> bool" where
  "is_data (Data _) = True"
| "is_data _ = False"

definition detach :: "'p pty_ops \<Rightarrow> 'p session \<Rightarrow> 'p session" where
  "detach P s =
     (let s = s\<lparr>ss_attach_generation := None, ss_credit := 0\<rparr>;
          s = (if ss_ephemeral s then s\<lparr>ss_pty := snd (pty_terminate P (ss_pty s))\<rparr> else s);
          s = (if ss_pending_input s \<noteq> []
               then s\<lparr>ss_last_delivery := Unknown, ss_pending_input := []\<rparr> else s)
      in s\<lparr>ss_outbound := filter (\<lambda>f. \<not> is_data f) (ss_outbound s)\<rparr>)"

section \<open>The input lease\<close>

text \<open>
  The clock and the grace period, which the source reads from the environment, are arguments:
  \<open>now\<close> is the value of \<open>Instant::now()\<close> and \<open>grace\<close> that of \<open>lease_grace()\<close>, in milliseconds.
\<close>

definition take_input_lease :: "nat \<Rightarrow> nat \<Rightarrow> u64 \<Rightarrow> 'p session \<Rightarrow> nat \<times> 'p session" where
  "take_input_lease now grace nonce s =
     (let g = sat_add u64_max (ss_lease_generation s) 1;
          g = (if g = 0 then 1 else g)
      in (g, s\<lparr>ss_lease_generation := g, ss_lease_nonce := nonce,
               ss_lease_until := Some (now + grace)\<rparr>))"

definition lease_generation :: "'p session \<Rightarrow> nat option" where
  "lease_generation s = (if ss_lease_generation s = 0 then None else Some (ss_lease_generation s))"

definition expire_input_lease_if_due :: "nat \<Rightarrow> 'p session \<Rightarrow> 'p session" where
  "expire_input_lease_if_due now s =
     (if \<not> (case ss_lease_until s of None \<Rightarrow> False | Some t \<Rightarrow> now \<ge> t) then s
      else s\<lparr>ss_lease_nonce := 0, ss_lease_until := None\<rparr>)"

definition lease_blocks_input :: "nat \<Rightarrow> 'p session \<Rightarrow> bool \<times> 'p session" where
  "lease_blocks_input now s =
     (let s = expire_input_lease_if_due now s
      in (ss_lease_generation s > 0 \<and> ss_lease_nonce s = 0, s))"

section \<open>Frames\<close>

text \<open>\<open>flush_input\<close>: the queue is consumed in order; a buffer whose write fails is gone.\<close>

fun flush_queue :: "'p pty_ops \<Rightarrow> byte list list \<Rightarrow> 'p session \<Rightarrow> ('p, unit) run" where
  "flush_queue P [] s = (Inr (), s\<lparr>ss_pending_input := []\<rparr>)"
| "flush_queue P (buf # bufs) s =
     (let (r, p) = pty_write_all P buf (ss_pty s); s = s\<lparr>ss_pty := p, ss_pending_input := bufs\<rparr>
      in case r of
           Inl e \<Rightarrow> (Inl e, s)
         | Inr _ \<Rightarrow>
             flush_queue P bufs
               ((record_event (PtyWrite (length buf)) s)\<lparr>ss_last_delivery := Dispatched\<rparr>))"

definition flush_input :: "'p pty_ops \<Rightarrow> 'p session \<Rightarrow> ('p, unit) run" where
  "flush_input P s = flush_queue P (ss_pending_input s) s"

definition on_attach :: "nat \<Rightarrow> nat \<Rightarrow> u64 \<Rightarrow> bool \<Rightarrow> 'p session \<Rightarrow> 'p session" where
  "on_attach now grace generation observe s =
     (if observe then s\<lparr>ss_observers := sat_add u32_max (ss_observers s) 1\<rparr>
      else if ss_attach_generation s \<noteq> None then enqueue_outbound (Refused AlreadyAttached) s
      else
        let s = s\<lparr>ss_attach_generation := Some generation, ss_resync_pending := True\<rparr>;
            s = snd (take_input_lease now grace generation s)
        in case ss_child_exit s of
             None \<Rightarrow> s
           | Some status \<Rightarrow> (enqueue_outbound (Exit status) s)\<lparr>ss_exit_delivered := True\<rparr>)"

definition on_resize :: "'p pty_ops \<Rightarrow> nat \<Rightarrow> winsize \<Rightarrow> 'p session \<Rightarrow> ('p, unit) run" where
  "on_resize P now sz s =
     (let (blocked, s) = lease_blocks_input now s
      in if blocked then (Inr (), s)
         else case flush_input P s of
                (Inl e, s) \<Rightarrow> (Inl e, s)
              | (Inr _, s) \<Rightarrow>
                  let (r, p) = pty_set_winsize P sz (ss_pty s);
                      s = s\<lparr>ss_size := sz, ss_pty := p\<rparr>
                  in case r of
                       Inl e \<Rightarrow> (Inl e, s)
                     | Inr _ \<Rightarrow> (Inr (), record_event (WinsizeSet sz) s))"

definition on_data :: "'p pty_ops \<Rightarrow> nat \<Rightarrow> byte list \<Rightarrow> 'p session \<Rightarrow> ('p, unit) run" where
  "on_data P now bs s =
     (if ss_child_exit s \<noteq> None then (Inl Dead, s)
      else
        let (blocked, s) = lease_blocks_input now s
        in if blocked then (Inr (), s)
           else flush_input P
                  (s\<lparr>ss_last_delivery := Pending, ss_pending_input := ss_pending_input s @ [bs]\<rparr>))"

fun on_frame :: "'p pty_ops \<Rightarrow> nat \<Rightarrow> nat \<Rightarrow> frame \<Rightarrow> 'p session \<Rightarrow> ('p, unit) run" where
  "on_frame P now grace (Attach generation session_id protocol observe) s =
     (Inr (), on_attach now grace generation observe s)"
| "on_frame P now grace (Credit n) s =
     (Inr (), s\<lparr>ss_credit := sat_add u64_max (ss_credit s) (unat n)\<rparr>)"
| "on_frame P now grace (Resize cs rs pw ph) s =
     on_resize P now \<lparr>ws_cols = cs, ws_rows = rs, ws_px_w = pw, ws_px_h = ph\<rparr> s"
| "on_frame P now grace (Data bs) s = on_data P now bs s"
| "on_frame P now grace _ s = (Inr (), s)"

definition input_with_lease ::
    "'p pty_ops \<Rightarrow> nat \<Rightarrow> nat \<Rightarrow> u64 \<Rightarrow> byte list \<Rightarrow> 'p session \<Rightarrow> ('p, unit) run" where
  "input_with_lease P now grace nonce bs s =
     (let s = expire_input_lease_if_due now s
      in if ss_lease_nonce s = 0 \<or> ss_lease_nonce s \<noteq> nonce then (Inr (), s)
         else on_frame P now grace (Data bs) s)"

section \<open>Output\<close>

definition note_stalled_read :: "'p session \<Rightarrow> 'p session" where
  "note_stalled_read s = s\<lparr>ss_stalled_reads := sat_add u64_max (ss_stalled_reads s) 1\<rparr>"

text \<open>
  A read into a buffer of \<open>n\<close> bytes: whatever the pseudoterminal answers, only what fits the
  buffer arrives. What is read goes to the ring, the counters and the journal.
\<close>

definition read_pty :: "'p pty_ops \<Rightarrow> nat \<Rightarrow> 'p session \<Rightarrow> ('p, byte list) run" where
  "read_pty P n s =
     (let (r, p) = pty_read P n (ss_pty s); s = s\<lparr>ss_pty := p\<rparr>
      in case r of Inl e \<Rightarrow> (Inl e, s) | Inr bs \<Rightarrow> (Inr (take n bs), s))"

definition take_in :: "byte list \<Rightarrow> 'p session \<Rightarrow> 'p session" where
  "take_in bs s =
     record_event (PtyRead (length bs))
       (s\<lparr>ss_ring := ring_append (ss_ring s) bs,
          ss_bytes_delivered := sat_add u64_max (ss_bytes_delivered s) (length bs)\<rparr>)"

definition drain_pty_at_most :: "'p pty_ops \<Rightarrow> nat option \<Rightarrow> 'p session \<Rightarrow> ('p, byte list option) run" where
  "drain_pty_at_most P mx s =
     (if ss_child_exit s \<noteq> None then (Inr None, s)
      else
        let cap = min (case mx of None \<Rightarrow> READ_BUF | Some m \<Rightarrow> m) READ_BUF
        in if cap = 0 then (Inr None, note_stalled_read s)
           else case read_pty P cap s of
                  (Inl e, s) \<Rightarrow> (Inl e, s)
                | (Inr bs, s) \<Rightarrow> if bs = [] then (Inr None, s) else (Inr (Some bs), take_in bs s))"

definition drain_pty :: "'p pty_ops \<Rightarrow> 'p session \<Rightarrow> ('p, byte list option) run" where
  "drain_pty P s = drain_pty_at_most P None s"

definition on_pty_readable :: "'p pty_ops \<Rightarrow> 'p session \<Rightarrow> ('p, nat) run" where
  "on_pty_readable P s =
     (if ss_credit s = 0 then (Inr 0, note_stalled_read s)
      else case read_pty P (min (ss_credit s) READ_BUF) s of
             (Inl e, s) \<Rightarrow> (Inl e, s)
           | (Inr bs, s) \<Rightarrow>
               if bs = [] then (Inr 0, s)
               else
                 let s = take_in bs (s\<lparr>ss_credit := ss_credit s - length bs\<rparr>)
                 in (Inr (length bs),
                     if has_listeners s then enqueue_outbound (Data bs) s else s))"

section \<open>What the pseudoterminal saw\<close>

text \<open>
  The contract of a pseudoterminal that remembers what passed through it: reads append to what
  was produced, successful writes and size changes are logged in order, and nothing else is. Any
  implementation becomes one by keeping a log beside its own state.
\<close>

datatype pty_event = EvRead "byte list" | EvWrite "byte list" | EvSize winsize

definition logged :: "'p pty_ops \<Rightarrow> ('p \<times> pty_event list) pty_ops" where
  "logged P =
     \<lparr>pty_write_all = (\<lambda>bs (p, l). let (r, p') = pty_write_all P bs p
        in (r, p', case r of Inl _ \<Rightarrow> l | Inr _ \<Rightarrow> l @ [EvWrite bs])),
      pty_read = (\<lambda>n (p, l). let (r, p') = pty_read P n p
        in (r, p', case r of Inl _ \<Rightarrow> l | Inr bs \<Rightarrow> l @ [EvRead (take n bs)])),
      pty_set_winsize = (\<lambda>sz (p, l). let (r, p') = pty_set_winsize P sz p
        in (r, p', case r of Inl _ \<Rightarrow> l | Inr _ \<Rightarrow> l @ [EvSize sz])),
      pty_try_wait = (\<lambda>(p, l). let (r, p') = pty_try_wait P p in (r, p', l)),
      pty_terminate = (\<lambda>(p, l). let (r, p') = pty_terminate P p in (r, p', l)),
      pty_fg_cwd = (\<lambda>(p, l). pty_fg_cwd P p)\<rparr>"

fun read_of :: "pty_event \<Rightarrow> byte list" where
  "read_of (EvRead bs) = bs"
| "read_of _ = []"

definition produced :: "pty_event list \<Rightarrow> byte list" where
  "produced l = concat (map read_of l)"

lemma produced_append [simp]: "produced (l @ l') = produced l @ produced l'"
  by (simp add: produced_def)

lemma produced_Nil [simp]: "produced [] = []"
  by (simp add: produced_def)

lemma produced_single [simp]: "produced [e] = read_of e"
  by (simp add: produced_def)

text \<open>
  The state of a session agrees with the log of its pseudoterminal: the ring holds the history of
  everything read, the byte counter counts it, and the journal is bounded.
\<close>

definition session_ok :: "('p \<Rightarrow> pty_event list) \<Rightarrow> 'p session \<Rightarrow> bool" where
  "session_ok log s \<longleftrightarrow>
     (length (produced (log (ss_pty s))) \<le> u64_max \<longrightarrow>
       ring_abs (ss_ring s) (produced (log (ss_pty s))) \<and>
       ss_bytes_delivered s = length (produced (log (ss_pty s)))) \<and>
     ring_cap (ss_ring s) = RING_CAP \<and> length (ss_journal s) \<le> JOURNAL_CAP"

lemma record_frame [simp]:
  "ss_pty (record_event e s) = ss_pty s" "ss_ring (record_event e s) = ss_ring s"
  "ss_bytes_delivered (record_event e s) = ss_bytes_delivered s"
  "ss_outbound (record_event e s) = ss_outbound s" "ss_credit (record_event e s) = ss_credit s"
  "ss_attach_generation (record_event e s) = ss_attach_generation s"
  "ss_child_exit (record_event e s) = ss_child_exit s" "ss_observers (record_event e s) = ss_observers s"
  "ss_pending_input (record_event e s) = ss_pending_input s"
  "ss_lease_generation (record_event e s) = ss_lease_generation s"
  "ss_lease_nonce (record_event e s) = ss_lease_nonce s" "ss_lease_until (record_event e s) = ss_lease_until s"
  by (simp_all add: record_event_def Let_def)

lemma journal_bound: "length (ss_journal s) \<le> JOURNAL_CAP \<Longrightarrow> length (ss_journal (record_event e s)) \<le> JOURNAL_CAP"
  by (simp add: record_event_def Let_def JOURNAL_CAP_def)

text \<open>What every operation leaves alone unless it reads.\<close>

definition keeps_output :: "('p \<Rightarrow> pty_event list) \<Rightarrow> 'p session \<Rightarrow> 'p session \<Rightarrow> bool" where
  "keeps_output log s s' \<longleftrightarrow> produced (log (ss_pty s')) = produced (log (ss_pty s)) \<and>
     ss_ring s' = ss_ring s \<and> ss_bytes_delivered s' = ss_bytes_delivered s \<and>
     (length (ss_journal s) \<le> JOURNAL_CAP \<longrightarrow> length (ss_journal s') \<le> JOURNAL_CAP)"

lemma keeps_output_refl [simp]: "keeps_output log s s"
  by (simp add: keeps_output_def)

lemma keeps_output_trans: "keeps_output log s s' \<Longrightarrow> keeps_output log s' s'' \<Longrightarrow> keeps_output log s s''"
  by (simp add: keeps_output_def)

lemma keeps_output_step: "keeps_output log s s' \<Longrightarrow> keeps_output log s (record_event e s')"
  by (simp add: keeps_output_def journal_bound)

lemma keeps_output_same:
  "ss_pty s' = ss_pty s \<Longrightarrow> ss_ring s' = ss_ring s \<Longrightarrow> ss_bytes_delivered s' = ss_bytes_delivered s \<Longrightarrow>
    ss_journal s' = ss_journal s \<Longrightarrow> keeps_output log s s'"
  by (simp add: keeps_output_def)

lemma ok_keeps: "keeps_output log s s' \<Longrightarrow> session_ok log s \<Longrightarrow> session_ok log s'"
  by (simp add: session_ok_def keeps_output_def)

text \<open>Everything a session's owner can do to it.\<close>

datatype session_op =
    InFrame nat frame | DetachOp | ReleaseOp | Readable | Drain "nat option" | PollChild | PopOp
  | TakeResync | TerminateOp | CwdOp | InstallOp stored_checkpoint | LeasedInput nat u64 "byte list"
  | ExpireOp nat

fun session_do :: "'p pty_ops \<Rightarrow> nat \<Rightarrow> session_op \<Rightarrow> 'p session \<Rightarrow> 'p session" where
  "session_do P grace (InFrame now f) s = snd (on_frame P now grace f s)"
| "session_do P grace DetachOp s = detach P s"
| "session_do P grace ReleaseOp s = release_observer s"
| "session_do P grace Readable s = snd (on_pty_readable P s)"
| "session_do P grace (Drain mx) s = snd (drain_pty_at_most P mx s)"
| "session_do P grace PollChild s = snd (poll_child P s)"
| "session_do P grace PopOp s = snd (pop_outbound s)"
| "session_do P grace TakeResync s = snd (take_resync_history s)"
| "session_do P grace TerminateOp s = snd (session_terminate P s)"
| "session_do P grace CwdOp s = snd (cwd P s)"
| "session_do P grace (InstallOp cp) s = snd (install_checkpoint cp s)"
| "session_do P grace (LeasedInput now nonce bs) s = snd (input_with_lease P now grace nonce bs s)"
| "session_do P grace (ExpireOp now) s = expire_input_lease_if_due now s"

locale pty_log =
  fixes P :: "'p pty_ops" and log :: "'p \<Rightarrow> pty_event list"
  assumes log_write: "log (snd (pty_write_all P bs p)) =
      log p @ (case fst (pty_write_all P bs p) of Inl _ \<Rightarrow> [] | Inr _ \<Rightarrow> [EvWrite bs])"
    and log_read: "log (snd (pty_read P n p)) =
      log p @ (case fst (pty_read P n p) of Inl _ \<Rightarrow> [] | Inr bs \<Rightarrow> [EvRead (take n bs)])"
    and log_size: "log (snd (pty_set_winsize P sz p)) =
      log p @ (case fst (pty_set_winsize P sz p) of Inl _ \<Rightarrow> [] | Inr _ \<Rightarrow> [EvSize sz])"
    and log_wait: "log (snd (pty_try_wait P p)) = log p"
    and log_terminate: "log (snd (pty_terminate P p)) = log p"
begin

lemma pty_output:
  "produced (log p) = produced (log (ss_pty s)) \<Longrightarrow> keeps_output log s (s\<lparr>ss_pty := p\<rparr>)"
  by (simp add: keeps_output_def)

lemma flush_queue_output: "keeps_output log s (snd (flush_queue P q s))"
proof (induction q arbitrary: s)
  case Nil
  then show ?case by (simp add: keeps_output_same)
next
  case (Cons b q)
  obtain r p where w: "pty_write_all P b (ss_pty s) = (r, p)" by force
  let ?s = "s\<lparr>ss_pty := p, ss_pending_input := q\<rparr>"
  let ?s' = "(record_event (PtyWrite (length b)) ?s)\<lparr>ss_last_delivery := Dispatched\<rparr>"
  have k: "keeps_output log s ?s"
    using log_write [of b "ss_pty s"] w by (simp add: keeps_output_def split: sum.splits)
  have k': "keeps_output log s ?s'"
    by (rule keeps_output_trans [OF keeps_output_step [OF k]]) (rule keeps_output_same, simp_all)
  show ?case
    using w k keeps_output_trans [OF k' Cons.IH] by (cases r) simp_all
qed

lemma expire_output: "keeps_output log s (expire_input_lease_if_due now s)"
  by (rule keeps_output_same) (simp_all add: expire_input_lease_if_due_def)

lemma on_data_output: "keeps_output log s (snd (on_data P now bs s))"
proof -
  let ?s = "expire_input_lease_if_due now s"
  let ?s' = "?s\<lparr>ss_last_delivery := Pending, ss_pending_input := ss_pending_input ?s @ [bs]\<rparr>"
  have k: "keeps_output log s ?s'"
    by (rule keeps_output_trans [OF expire_output [of s now]]) (rule keeps_output_same, simp_all)
  show ?thesis
    using keeps_output_trans [OF k flush_queue_output] expire_output [of s now]
    by (simp add: on_data_def lease_blocks_input_def Let_def flush_input_def)
qed

lemma on_resize_output: "keeps_output log s (snd (on_resize P now sz s))"
proof -
  let ?s = "expire_input_lease_if_due now s"
  obtain r s1 where f: "flush_input P ?s = (r, s1)" by force
  have k: "keeps_output log s s1"
    using keeps_output_trans [OF expire_output [of s now] flush_queue_output] f
    by (simp add: flush_input_def) (metis snd_conv)
  obtain r2 p where w: "pty_set_winsize P sz (ss_pty s1) = (r2, p)" by force
  then have "produced (log p) = produced (log (ss_pty s1))"
    using log_size [of sz "ss_pty s1"] by (simp split: sum.splits)
  then have k2: "keeps_output log s (s1\<lparr>ss_size := sz, ss_pty := p\<rparr>)"
    using k by (simp add: keeps_output_def)
  show ?thesis
    using k k2 f w expire_output [of s now] keeps_output_step [OF k2]
    by (cases r; cases r2) (simp_all add: on_resize_def lease_blocks_input_def Let_def)
qed

lemma on_frame_output: "keeps_output log s (snd (on_frame P now grace f s))"
proof (cases f)
  case (Attach g i pr ob)
  then show ?thesis
    by (intro keeps_output_same)
      (simp_all add: on_attach_def Let_def take_input_lease_def enqueue_outbound_def split: option.split)
qed (use on_data_output on_resize_output in \<open>auto intro: keeps_output_same\<close>)

lemma take_in_ok:
  assumes "session_ok log s" "produced (log p) = produced (log (ss_pty s)) @ bs"
  shows "session_ok log (take_in bs (s\<lparr>ss_pty := p, ss_credit := c\<rparr>))"
proof -
  have cap: "ring_cap (ring_append r bs) = ring_cap r" for r by (simp add: ring_append_def Let_def)
  show ?thesis
    using assms ring_abs_append [of "ss_ring s" "produced (log (ss_pty s))" bs]
    by (auto simp: session_ok_def take_in_def cap sat_add_exact intro!: journal_bound)
qed

lemma read_pty_cases:
  obtains (failed) e p where "read_pty P n s = (Inl e, s\<lparr>ss_pty := p\<rparr>)" "produced (log p) = produced (log (ss_pty s))"
  | (bytes) bs p where "read_pty P n s = (Inr bs, s\<lparr>ss_pty := p\<rparr>)" "length bs \<le> n"
      "produced (log p) = produced (log (ss_pty s)) @ bs"
proof (cases "pty_read P n (ss_pty s)")
  case (Pair r p)
  show ?thesis
  proof (cases r)
    case (Inl e)
    with Pair log_read [of n "ss_pty s"] show ?thesis by (intro failed [of e p]) (simp_all add: read_pty_def)
  next
    case (Inr bs)
    with Pair log_read [of n "ss_pty s"] show ?thesis by (intro bytes [of "take n bs" p]) (simp_all add: read_pty_def)
  qed
qed

lemma stalled_ok: "session_ok log (note_stalled_read s) = session_ok log s"
  by (simp add: session_ok_def note_stalled_read_def)

lemma drain_ok:
  assumes ok: "session_ok log s"
  shows "session_ok log (snd (drain_pty_at_most P mx s))"
proof -
  let ?cap = "min (case mx of None \<Rightarrow> READ_BUF | Some m \<Rightarrow> m) READ_BUF"
  show ?thesis
  proof (cases rule: read_pty_cases [of ?cap s])
    case (failed e p)
    with ok_keeps [OF pty_output] ok stalled_ok show ?thesis by (simp add: drain_pty_at_most_def Let_def)
  next
    case (bytes bs p)
    have "session_ok log (take_in bs (s\<lparr>ss_pty := p\<rparr>))"
      using take_in_ok [OF ok bytes(3), of "ss_credit s"] by (simp add: session.surjective)
    with bytes ok_keeps [OF pty_output] ok stalled_ok show ?thesis by (simp add: drain_pty_at_most_def Let_def)
  qed
qed

lemma readable_ok:
  assumes ok: "session_ok log s"
  shows "session_ok log (snd (on_pty_readable P s))"
proof -
  have enq: "session_ok log (enqueue_outbound f s) = session_ok log s" for f s
    by (simp add: session_ok_def enqueue_outbound_def)
  show ?thesis
  proof (cases rule: read_pty_cases [of "min (ss_credit s) READ_BUF" s])
    case (failed e p)
    with ok_keeps [OF pty_output] ok stalled_ok show ?thesis by (simp add: on_pty_readable_def Let_def)
  next
    case (bytes bs p)
    with ok_keeps [OF pty_output] ok stalled_ok take_in_ok [OF ok bytes(3)] enq show ?thesis
      by (simp add: on_pty_readable_def Let_def)
  qed
qed

lemma poll_output: "keeps_output log s (snd (poll_child P s))"
proof (cases "pty_try_wait P (ss_pty s)")
  case (Pair r p)
  have k: "keeps_output log s (s\<lparr>ss_pty := p\<rparr>)" using log_wait [of "ss_pty s"] Pair by (intro pty_output) simp
  have k': "keeps_output log s (record_event e (s\<lparr>ss_pty := p, ss_child_exit := x\<rparr>))" for e x
    by (rule keeps_output_step, rule keeps_output_trans [OF k], rule keeps_output_same) simp_all
  have "keeps_output log s (s'\<lparr>ss_outbound := fs, ss_exit_delivered := True\<rparr>)" if "keeps_output log s s'" for s' fs
    by (rule keeps_output_trans [OF that], rule keeps_output_same) simp_all
  with k k' Pair show ?thesis
    by (auto simp: poll_child_def Let_def enqueue_outbound_def split: sum.split option.split)
qed

lemma detach_output: "keeps_output log s (detach P s)"
  using log_terminate [of "ss_pty s"] by (simp add: detach_def Let_def keeps_output_def)

lemma terminate_output: "keeps_output log s (snd (session_terminate P s))"
  using log_terminate [of "ss_pty s"] by (simp add: session_terminate_def split_beta keeps_output_def)

lemma small_output:
  "keeps_output log s (snd (pop_outbound s))" "keeps_output log s (snd (take_resync_history s))"
  "keeps_output log s (release_observer s)" "keeps_output log s (snd (cwd P s))"
  "keeps_output log s (snd (install_checkpoint cp s))"
  by (auto simp: pop_outbound_def take_resync_history_def release_observer_def cwd_def install_checkpoint_def
      intro: keeps_output_same split: list.split sum.split)

lemma leased_output: "keeps_output log s (snd (input_with_lease P now grace nonce bs s))"
  using keeps_output_trans [OF expire_output [of s now] on_data_output] expire_output [of s now]
  by (simp add: input_with_lease_def Let_def)

lemmas keeping = on_frame_output poll_output detach_output terminate_output expire_output small_output leased_output

lemma do_ok: "session_ok log s \<Longrightarrow> session_ok log (session_do P grace op s)"
  by (cases op) (simp_all add: drain_ok readable_ok keeping [THEN ok_keeps])

lemma run_ok: "session_ok log s \<Longrightarrow> session_ok log (fold (session_do P grace) ops s)"
  by (induction ops arbitrary: s) (simp_all add: do_ok)

end

interpretation logged: pty_log "logged P" snd for P
  by unfold_locales (auto simp: logged_def split: prod.split sum.split)

lemma new_session_ok: "log p = [] \<Longrightarrow> session_ok log (session_new p sz eph)"
  using ring_abs_new [of RING_CAP]
  by (simp add: session_ok_def session_new_def JOURNAL_CAP_def) (simp add: ring_new_def RING_CAP_def)

section \<open>What input leaves alone\<close>

text \<open>
  Delivering input changes the pseudoterminal, the input queue, the delivery mark, the journal, the
  size and the lease, and nothing else. Every fact about another field follows from this one.
\<close>

definition input_only :: "'p session \<Rightarrow> 'p session \<Rightarrow> bool" where
  "input_only s s' \<longleftrightarrow> s' = s\<lparr>ss_pty := ss_pty s', ss_pending_input := ss_pending_input s',
     ss_last_delivery := ss_last_delivery s', ss_journal := ss_journal s', ss_seq := ss_seq s',
     ss_size := ss_size s', ss_lease_nonce := ss_lease_nonce s', ss_lease_until := ss_lease_until s'\<rparr>"

lemma input_only_refl [simp]: "input_only s s"
  by (simp add: input_only_def)

lemma input_only_trans: "input_only s s' \<Longrightarrow> input_only s' s'' \<Longrightarrow> input_only s s''"
  unfolding input_only_def by (erule ssubst, erule ssubst) simp

lemma input_only_fields:
  assumes "input_only s s'"
  shows "ss_outbound s' = ss_outbound s" "ss_credit s' = ss_credit s" "ss_child_exit s' = ss_child_exit s"
    "ss_attach_generation s' = ss_attach_generation s" "ss_observers s' = ss_observers s"
    "ss_terminated s' = ss_terminated s" "ss_ring s' = ss_ring s" "ss_bytes_delivered s' = ss_bytes_delivered s"
    "ss_checkpoint s' = ss_checkpoint s" "ss_resync_pending s' = ss_resync_pending s"
  by (subst assms [unfolded input_only_def], simp)+

lemma input_only_steps:
  "input_only s (s\<lparr>ss_pty := p, ss_pending_input := q\<rparr>)" "input_only s (s\<lparr>ss_pending_input := q\<rparr>)"
  "input_only s (s\<lparr>ss_last_delivery := x, ss_pending_input := q\<rparr>)" "input_only s (s\<lparr>ss_last_delivery := x\<rparr>)"
  "input_only s (s\<lparr>ss_size := z, ss_pty := p\<rparr>)" "input_only s (record_event e s)"
  "input_only s (s\<lparr>ss_lease_nonce := 0, ss_lease_until := None\<rparr>)"
  by (simp_all add: input_only_def record_event_def Let_def)

lemma flush_queue_input: "input_only s (snd (flush_queue P q s))"
proof (induction q arbitrary: s)
  case (Cons b q)
  obtain r p where w: "pty_write_all P b (ss_pty s) = (r, p)" by force
  note step = input_only_steps(1) [where s = s and p = p and q = q]
  show ?case
    using w step input_only_trans [OF input_only_trans [OF input_only_trans [OF step input_only_steps(6)]
          input_only_steps(4)] Cons.IH] by (cases r) simp_all
qed (simp add: input_only_steps)

lemma expire_input: "input_only s (expire_input_lease_if_due now s)"
  by (simp add: expire_input_lease_if_due_def input_only_steps)

lemma on_data_input: "input_only s (snd (on_data P now bs s))"
  using expire_input [of s now]
    input_only_trans [OF input_only_trans [OF expire_input [of s now] input_only_steps(3)] flush_queue_input]
  by (simp add: on_data_def lease_blocks_input_def Let_def flush_input_def)

lemma on_resize_input: "input_only s (snd (on_resize P now sz s))"
proof -
  let ?s = "expire_input_lease_if_due now s"
  obtain r s1 where f: "flush_input P ?s = (r, s1)" by force
  then have k: "input_only s s1"
    using input_only_trans [OF expire_input [of s now] flush_queue_input [of ?s P "ss_pending_input ?s"]]
    by (simp add: flush_input_def)
  show ?thesis
    using k f expire_input [of s now] input_only_trans [OF k input_only_steps(5)]
      input_only_trans [OF input_only_trans [OF k input_only_steps(5)] input_only_steps(6)]
    by (auto simp: on_resize_def lease_blocks_input_def Let_def split_beta split: sum.split)
qed

lemma leased_input: "input_only s (snd (input_with_lease P now grace nonce bs s))"
  using expire_input [of s now] input_only_trans [OF expire_input [of s now] on_data_input]
  by (simp add: input_with_lease_def Let_def)

lemmas input_ops = expire_input on_data_input on_resize_input leased_input

end
