(* ===== verification/Kernel_Graph.thy ===== *)
theory Kernel_Graph
  imports Session
begin

text \<open>
  The session graph (\<open>crates/rill-kernel/src/kernel.rs\<close>): leaves by \<open>SessionId\<close>, containers
  by \<open>NodeId\<close>, the event log. A \<open>HashMap\<close> is a partial map; where the code iterates it sorts
  the keys first, and so does the model. The allocation loops and the worklist of
  \<open>collect_subtree\<close> may run forever, so they are \<open>partial_function\<close>s in the option monad and an
  operation that uses one returns an option, with \<open>None\<close> for never returning. What the operating
  system makes (a spawned session, a process id) is an argument.
\<close>

section \<open>Identifiers and data\<close>

datatype session_id = SessionId u64

datatype node_id = NodeId (node_as_u64: u64)

primrec session_as_u64 :: "session_id \<Rightarrow> u64" where
  "session_as_u64 (SessionId v) = v"

text \<open>Both are ordered by their number, as \<open>sort_by_key\<close> does it.\<close>

instantiation session_id :: linorder
begin

definition less_eq_session_id :: "session_id \<Rightarrow> session_id \<Rightarrow> bool" where
  "less_eq_session_id a b \<longleftrightarrow> session_as_u64 a \<le> session_as_u64 b"

definition less_session_id :: "session_id \<Rightarrow> session_id \<Rightarrow> bool" where
  "less_session_id a b \<longleftrightarrow> session_as_u64 a < session_as_u64 b"

instance
proof
  fix a b c :: session_id
  show "(a < b) = (a \<le> b \<and> \<not> b \<le> a)" by (auto simp: less_eq_session_id_def less_session_id_def)
  show "a \<le> a" by (simp add: less_eq_session_id_def)
  show "a \<le> b \<Longrightarrow> b \<le> c \<Longrightarrow> a \<le> c" by (simp add: less_eq_session_id_def)
  show "a \<le> b \<Longrightarrow> b \<le> a \<Longrightarrow> a = b" by (cases a; cases b) (simp add: less_eq_session_id_def)
  show "a \<le> b \<or> b \<le> a" by (auto simp: less_eq_session_id_def)
qed

end

instantiation node_id :: linorder
begin

definition less_eq_node_id :: "node_id \<Rightarrow> node_id \<Rightarrow> bool" where
  "less_eq_node_id a b \<longleftrightarrow> node_as_u64 a \<le> node_as_u64 b"

definition less_node_id :: "node_id \<Rightarrow> node_id \<Rightarrow> bool" where
  "less_node_id a b \<longleftrightarrow> node_as_u64 a < node_as_u64 b"

instance
proof
  fix a b c :: node_id
  show "(a < b) = (a \<le> b \<and> \<not> b \<le> a)" by (auto simp: less_eq_node_id_def less_node_id_def)
  show "a \<le> a" by (simp add: less_eq_node_id_def)
  show "a \<le> b \<Longrightarrow> b \<le> c \<Longrightarrow> a \<le> c" by (simp add: less_eq_node_id_def)
  show "a \<le> b \<Longrightarrow> b \<le> a \<Longrightarrow> a = b" by (cases a; cases b) (simp add: less_eq_node_id_def)
  show "a \<le> b \<or> b \<le> a" by (auto simp: less_eq_node_id_def)
qed

end

datatype graph_event_kind = EvSpawn | EvAttach | EvTerminate | EvExit

record graph_event =
  ge_id :: nat
  ge_session :: session_id
  ge_kind :: graph_event_kind

record LeafLayout =
  ll_id :: session_id
  ll_cols :: u16
  ll_rows :: u16
  ll_child_pid :: u32
  ll_cwd :: "string option"

datatype node_kind = Workspace | Group | Tab | Split

datatype node_child = Node node_id | Leaf session_id

record container_node =
  cn_kind :: node_kind
  cn_parent :: "node_id option"
  cn_children :: "node_child list"

record ContainerSnapshot =
  sn_id :: node_id
  sn_kind :: node_kind
  sn_parent :: "node_id option"
  sn_children :: "node_child list"

record 'p kernel =
  k_next :: u64
  k_leaves :: "session_id \<rightharpoonup> 'p session"
  k_events :: "graph_event list"
  k_next_event :: nat
  k_nodes :: "node_id \<rightharpoonup> container_node"
  k_next_node :: u64

type_synonym ('p, 'a) krun = "(kernel_error + 'a) \<times> 'p kernel"

definition kernel_new :: "'p kernel" where
  "kernel_new =
     \<lparr>k_next = 1, k_leaves = Map.empty, k_events = [], k_next_event = 1, k_nodes = Map.empty,
      k_next_node = 1\<rparr>"

section \<open>Allocating identifiers\<close>

text \<open>\<open>checked_add(1).unwrap_or(1)\<close>: zero is never produced.\<close>

definition bump :: "u64 \<Rightarrow> u64" where
  "bump n = (if unat n + 1 > u64_max then 1 else n + 1)"

text \<open>
  The loop of \<open>allocate_id\<close> and \<open>allocate_node_id\<close>; \<open>live\<close> is the key test of the map. A loop
  that never finds a free number is \<open>None\<close>.
\<close>

partial_function (option) allocate_loop :: "(u64 \<Rightarrow> bool) \<Rightarrow> u64 \<Rightarrow> (u64 \<times> u64) option" where
  "allocate_loop live n = (if live n then allocate_loop live (bump n) else Some (n, bump n))"

definition allocate_node_id :: "'p kernel \<Rightarrow> (node_id \<times> 'p kernel) option" where
  "allocate_node_id k =
     do { (n, nx) \<leftarrow> allocate_loop (\<lambda>n. k_nodes k (NodeId n) \<noteq> None) (k_next_node k);
          Some (NodeId n, k\<lparr>k_next_node := nx\<rparr>) }"

definition allocate_id :: "'p kernel \<Rightarrow> (session_id \<times> 'p kernel) option" where
  "allocate_id k =
     do { (n, nx) \<leftarrow> allocate_loop (\<lambda>n. k_leaves k (SessionId n) \<noteq> None) (k_next k);
          Some (SessionId n, k\<lparr>k_next := nx\<rparr>) }"

section \<open>Containers\<close>

definition create_node :: "node_kind \<Rightarrow> node_id option \<Rightarrow> 'p kernel \<Rightarrow> ('p, node_id) krun option" where
  "create_node kind parent k =
     (if (case parent of None \<Rightarrow> False | Some p \<Rightarrow> k_nodes k p = None) then Some (Inl UnknownNode, k)
      else do {
        (i, k) \<leftarrow> allocate_node_id k;
        let k = k\<lparr>k_nodes := (k_nodes k)(i \<mapsto> \<lparr>cn_kind = kind, cn_parent = parent, cn_children = []\<rparr>)\<rparr>;
        Some (case parent of
            None \<Rightarrow> (Inr i, k)
          | Some p \<Rightarrow>
              (case k_nodes k p of
                 Some n \<Rightarrow>
                   (Inr i, k\<lparr>k_nodes := (k_nodes k)(p \<mapsto> n\<lparr>cn_children := cn_children n @ [Node i]\<rparr>)\<rparr>)
               | None \<Rightarrow> (Inl UnknownNode, k\<lparr>k_nodes := (k_nodes k)(i := None)\<rparr>)))
      })"

definition attach_leaf :: "node_id \<Rightarrow> session_id \<Rightarrow> 'p kernel \<Rightarrow> ('p, unit) krun" where
  "attach_leaf node leaf k =
     (if k_leaves k leaf = None then (Inl UnknownSession, k)
      else case k_nodes k node of
             None \<Rightarrow> (Inl UnknownNode, k)
           | Some n \<Rightarrow>
               (Inr (), k\<lparr>k_nodes := (k_nodes k)(node \<mapsto> n\<lparr>cn_children := cn_children n @ [Leaf leaf]\<rparr>)\<rparr>))"

text \<open>\<open>parent_node.children.retain(...)\<close>, on the node at \<open>p\<close> when there is one.\<close>

definition drop_child :: "node_id option \<Rightarrow> node_id \<Rightarrow> (node_id \<rightharpoonup> container_node) \<Rightarrow> (node_id \<rightharpoonup> container_node)" where
  "drop_child p node ns =
     (case p of
        None \<Rightarrow> ns
      | Some p \<Rightarrow>
          (case ns p of
             None \<Rightarrow> ns
           | Some n \<Rightarrow> ns(p \<mapsto> n\<lparr>cn_children := filter (\<lambda>c. c \<noteq> Node node) (cn_children n)\<rparr>)))"

definition push_child :: "node_id option \<Rightarrow> node_id \<Rightarrow> (node_id \<rightharpoonup> container_node) \<Rightarrow> (node_id \<rightharpoonup> container_node)" where
  "push_child p node ns =
     (case p of
        None \<Rightarrow> ns
      | Some p \<Rightarrow>
          (case ns p of
             None \<Rightarrow> ns
           | Some n \<Rightarrow> ns(p \<mapsto> n\<lparr>cn_children := cn_children n @ [Node node]\<rparr>)))"

definition parent_of :: "(node_id \<rightharpoonup> container_node) \<Rightarrow> node_id \<Rightarrow> node_id option" where
  "parent_of ns node = (case ns node of None \<Rightarrow> None | Some n \<Rightarrow> cn_parent n)"

definition reparent_node :: "node_id \<Rightarrow> node_id option \<Rightarrow> 'p kernel \<Rightarrow> ('p, unit) krun" where
  "reparent_node node new_parent k =
     (if k_nodes k node = None then (Inl UnknownNode, k)
      else if (case new_parent of None \<Rightarrow> False | Some p \<Rightarrow> k_nodes k p = None \<or> p = node)
      then (Inl UnknownNode, k)
      else
        let ns = drop_child (parent_of (k_nodes k) node) node (k_nodes k);
            ns = push_child new_parent node ns
        in case ns node of
             Some n \<Rightarrow> (Inr (), k\<lparr>k_nodes := ns(node \<mapsto> n\<lparr>cn_parent := new_parent\<rparr>)\<rparr>)
           | None \<Rightarrow> (Inl UnknownNode, k\<lparr>k_nodes := ns\<rparr>))"

section \<open>Subtrees\<close>

definition node_children :: "container_node \<Rightarrow> node_id list" where
  "node_children n = concat (map (\<lambda>c. case c of Node i \<Rightarrow> [i] | Leaf _ \<Rightarrow> []) (cn_children n))"

definition leaf_children :: "container_node \<Rightarrow> session_id list" where
  "leaf_children n = concat (map (\<lambda>c. case c of Node _ \<Rightarrow> [] | Leaf s \<Rightarrow> [s]) (cn_children n))"

text \<open>
  The worklist loop of \<open>collect_subtree\<close>. The frontier is a stack with its top first, so that the
  children pushed in order end up in front of it in reverse. A loop that never empties its frontier
  is \<open>None\<close>.
\<close>

definition children_at :: "(node_id \<rightharpoonup> container_node) \<Rightarrow> node_id \<Rightarrow> node_id list" where
  "children_at ns i = (case ns i of None \<Rightarrow> [] | Some n \<Rightarrow> node_children n)"

partial_function (option) collect_loop ::
    "(node_id \<rightharpoonup> container_node) \<Rightarrow> node_id list \<Rightarrow> node_id list \<Rightarrow> node_id list option" where
  "collect_loop ns frontier out =
     (case frontier of
        [] \<Rightarrow> Some out
      | i # rest \<Rightarrow> collect_loop ns (rev (children_at ns i) @ rest) (out @ children_at ns i))"

definition collect_subtree :: "node_id \<Rightarrow> 'p kernel \<Rightarrow> (kernel_error + node_id list) option" where
  "collect_subtree root k =
     (if k_nodes k root = None then Some (Inl UnknownNode)
      else do { out \<leftarrow> collect_loop (k_nodes k) [root] [root]; Some (Inr out) })"

definition leaves_in :: "node_id list \<Rightarrow> 'p kernel \<Rightarrow> session_id list" where
  "leaves_in subtree k =
     concat (map (\<lambda>i. case k_nodes k i of None \<Rightarrow> [] | Some n \<Rightarrow> leaf_children n) subtree)"

definition remove_subtree :: "node_id list \<Rightarrow> node_id \<Rightarrow> 'p kernel \<Rightarrow> 'p kernel" where
  "remove_subtree subtree root k =
     (let ns = drop_child (parent_of (k_nodes k) root) root (k_nodes k)
      in k\<lparr>k_nodes := fold (\<lambda>i ns. ns(i := None)) subtree ns\<rparr>)"

definition container_snapshot :: "'p kernel \<Rightarrow> ContainerSnapshot list" where
  "container_snapshot k =
     concat (map (\<lambda>i. case k_nodes k i of
         None \<Rightarrow> []
       | Some n \<Rightarrow> [\<lparr>sn_id = i, sn_kind = cn_kind n, sn_parent = cn_parent n, sn_children = cn_children n\<rparr>])
       (sorted_list_of_set (dom (k_nodes k))))"

section \<open>Leaves\<close>

definition record_graph :: "session_id \<Rightarrow> graph_event_kind \<Rightarrow> 'p kernel \<Rightarrow> 'p kernel" where
  "record_graph i kind k =
     k\<lparr>k_next_event := sat_add u64_max (k_next_event k) 1,
       k_events := k_events k @ [\<lparr>ge_id = k_next_event k, ge_session = i, ge_kind = kind\<rparr>]\<rparr>"

text \<open>What \<open>Session::spawn_with\<close> returns, made by the operating system, is the first argument.\<close>

definition spawn_leaf_with :: "kernel_error + 'p session \<Rightarrow> 'p kernel \<Rightarrow> ('p, session_id) krun option" where
  "spawn_leaf_with spawned k =
     (case spawned of
        Inl e \<Rightarrow> Some (Inl e, k)
      | Inr s \<Rightarrow>
          do { (i, k) \<leftarrow> allocate_id k;
               Some (Inr i, record_graph i EvSpawn (k\<lparr>k_leaves := (k_leaves k)(i \<mapsto> s)\<rparr>)) })"

definition put_leaf :: "session_id \<Rightarrow> 'p session \<Rightarrow> 'p kernel \<Rightarrow> 'p kernel" where
  "put_leaf i s k = k\<lparr>k_leaves := (k_leaves k)(i \<mapsto> s)\<rparr>"

definition reap :: "'p pty_ops \<Rightarrow> nat \<Rightarrow> session_id \<Rightarrow> 'p kernel \<Rightarrow> ('p, unit) krun" where
  "reap P now i k =
     (case k_leaves k i of
        None \<Rightarrow> (Inl UnknownSession, k)
      | Some s \<Rightarrow>
          let (r, s) = poll_child P (expire_input_lease_if_due now s); k = put_leaf i s k
          in case r of
               Inl e \<Rightarrow> (Inl e, k)
             | Inr died \<Rightarrow> (Inr (), if died then record_graph i EvExit k else k))"

fun is_writer_attach :: "frame \<Rightarrow> bool" where
  "is_writer_attach (Attach _ _ _ observe) = (\<not> observe)"
| "is_writer_attach _ = False"

definition kernel_on_frame ::
    "'p pty_ops \<Rightarrow> nat \<Rightarrow> nat \<Rightarrow> session_id \<Rightarrow> frame \<Rightarrow> 'p kernel \<Rightarrow> ('p, unit) krun" where
  "kernel_on_frame P now grace i f k =
     (case k_leaves k i of
        None \<Rightarrow> (Inl UnknownSession, k)
      | Some s \<Rightarrow>
          let was = attached s; (r, s) = on_frame P now grace f s; k = put_leaf i s k
          in case r of
               Inl e \<Rightarrow> (Inl e, k)
             | Inr _ \<Rightarrow>
                 (Inr (), if is_writer_attach f \<and> \<not> was \<and> attached s then record_graph i EvAttach k else k))"

definition kernel_terminate :: "'p pty_ops \<Rightarrow> session_id \<Rightarrow> 'p kernel \<Rightarrow> ('p, unit) krun" where
  "kernel_terminate P i k =
     (case k_leaves k i of
        None \<Rightarrow> (Inl UnknownSession, k)
      | Some s \<Rightarrow>
          if ss_terminated s then (Inr (), k)
          else
            let (r, s) = session_terminate P s; k = put_leaf i s k
            in case r of Inl e \<Rightarrow> (Inl e, k) | Inr _ \<Rightarrow> (Inr (), record_graph i EvTerminate k))"

fun terminate_all :: "'p pty_ops \<Rightarrow> session_id list \<Rightarrow> 'p kernel \<Rightarrow> ('p, unit) krun" where
  "terminate_all P [] k = (Inr (), k)"
| "terminate_all P (i # is) k =
     (case kernel_terminate P i k of
        (Inl e, k) \<Rightarrow> (Inl e, k)
      | (Inr _, k) \<Rightarrow> terminate_all P is k)"

definition close_node :: "'p pty_ops \<Rightarrow> node_id \<Rightarrow> 'p kernel \<Rightarrow> ('p, unit) krun option" where
  "close_node P node k =
     do { c \<leftarrow> collect_subtree node k;
          Some (case c of
              Inl e \<Rightarrow> (Inl e, k)
            | Inr subtree \<Rightarrow>
                (case terminate_all P (leaves_in subtree k) k of
                   (Inl e, k) \<Rightarrow> (Inl e, k)
                 | (Inr _, k) \<Rightarrow> (Inr (), remove_subtree subtree node k))) }"

definition kernel_cwd :: "'p pty_ops \<Rightarrow> session_id \<Rightarrow> 'p kernel \<Rightarrow> ('p, string) krun" where
  "kernel_cwd P i k =
     (case k_leaves k i of
        None \<Rightarrow> (Inl UnknownSession, k)
      | Some s \<Rightarrow> let (r, s) = cwd P s in (r, put_leaf i s k))"

text \<open>The rows in the order of their ids; \<open>pid\<close> is \<open>Pty::child_id\<close>.\<close>

definition leaf_layout :: "'p pty_ops \<Rightarrow> ('p \<Rightarrow> u32) \<Rightarrow> session_id \<Rightarrow> 'p session \<Rightarrow> LeafLayout \<times> 'p session" where
  "leaf_layout P pid i s =
     (let sz = ss_size s; (r, s) = cwd P s
      in (\<lparr>ll_id = i, ll_cols = ws_cols sz, ll_rows = ws_rows sz, ll_child_pid = pid (ss_pty s),
           ll_cwd = (case r of Inl _ \<Rightarrow> None | Inr path \<Rightarrow> Some path)\<rparr>, s))"

fun layout_rows :: "'p pty_ops \<Rightarrow> ('p \<Rightarrow> u32) \<Rightarrow> session_id list \<Rightarrow> 'p kernel \<Rightarrow> LeafLayout list \<times> 'p kernel" where
  "layout_rows P pid [] k = ([], k)"
| "layout_rows P pid (i # is) k =
     (case k_leaves k i of
        None \<Rightarrow> layout_rows P pid is k
      | Some s \<Rightarrow>
          let (row, s) = leaf_layout P pid i s; (rows, k) = layout_rows P pid is (put_leaf i s k)
          in (row # rows, k))"

definition layout_snapshot :: "'p pty_ops \<Rightarrow> ('p \<Rightarrow> u32) \<Rightarrow> 'p kernel \<Rightarrow> LeafLayout list \<times> 'p kernel" where
  "layout_snapshot P pid k = layout_rows P pid (sorted_list_of_set (dom (k_leaves k))) k"

end
