(* ===== verification/Session_Flow.thy ===== *)
theory Session_Flow
  imports Session
begin

text \<open>
  What a client of one session can rely on: the history is what the pseudoterminal produced, an
  attached reader loses no byte and is never sent more than its credit, the exit status of the
  child reaches it, and its input reaches the child in order until the lease ends. Each is an
  invariant over arbitrary sequences of the operations of \<open>Session\<close>.
\<close>

section \<open>Flow control\<close>

text \<open>The payload of the data frames in a queue, and the run of a session with a reader.\<close>

fun data_of :: "frame \<Rightarrow> byte list" where
  "data_of (Data bs) = bs"
| "data_of _ = []"

definition payload :: "frame list \<Rightarrow> byte list" where
  "payload fs = concat (map data_of fs)"

lemma payload_simps [simp]:
  "payload [] = []" "payload (f # fs) = data_of f @ payload fs" "payload (fs @ gs) = payload fs @ payload gs"
  by (simp_all add: payload_def)

definition popped :: "session_op \<Rightarrow> 'p session \<Rightarrow> frame list" where
  "popped op s = (if op = PopOp then (case fst (pop_outbound s) of None \<Rightarrow> [] | Some f \<Rightarrow> [f]) else [])"

text \<open>What a drain hands to its caller, who passes it on to the clients of the leaf.\<close>

definition handed :: "'p pty_ops \<Rightarrow> session_op \<Rightarrow> 'p session \<Rightarrow> byte list" where
  "handed P op s =
     (case op of
        Drain mx \<Rightarrow> (case fst (drain_pty_at_most P mx s) of Inr (Some bs) \<Rightarrow> bs | _ \<Rightarrow> [])
      | _ \<Rightarrow> [])"

definition serve :: "'p pty_ops \<Rightarrow> nat \<Rightarrow> session_op \<Rightarrow> 'p session \<times> frame list \<times> byte list \<Rightarrow> 'p session \<times> frame list \<times> byte list" where
  "serve P grace op = (\<lambda>(s, got, drained). (session_do P grace op s, got @ popped op s, drained @ handed P op s))"

lemma serve_step: "serve P grace op (s, got, drained) = (session_do P grace op s, got @ popped op s, drained @ handed P op s)"
  by (simp add: serve_def)

fun granted :: "session_op \<Rightarrow> nat" where
  "granted (InFrame now (Credit n)) = unat n"
| "granted _ = 0"

text \<open>
  One step: the chunks read from the pseudoterminal, in order, each marked with whether it was queued
  for the reader (or handed to the caller of a drain). What the reader has plus what waits for it grows
  by exactly the chunks queued for it, and the credit pays for every byte of them.
\<close>

definition queued_bytes :: "(bool \<times> byte list) list \<Rightarrow> byte list" where
  "queued_bytes cs = concat (map snd (filter fst cs))"

definition handed_bytes :: "(bool \<times> byte list) list \<Rightarrow> byte list" where
  "handed_bytes cs = concat (map snd (filter (\<lambda>c. \<not> fst c) cs))"

lemma chunk_bytes [simp]:
  "queued_bytes [] = []" "queued_bytes (c # cs) = (if fst c then snd c else []) @ queued_bytes cs"
  "queued_bytes (cs @ ds) = queued_bytes cs @ queued_bytes ds"
  "handed_bytes [] = []" "handed_bytes (c # cs) = (if fst c then [] else snd c) @ handed_bytes cs"
  "handed_bytes (cs @ ds) = handed_bytes cs @ handed_bytes ds"
  by (simp_all add: queued_bytes_def handed_bytes_def)

definition flows :: "('p \<Rightarrow> pty_event list) \<Rightarrow> nat \<Rightarrow> frame list \<Rightarrow> byte list \<Rightarrow> 'p session \<Rightarrow> 'p session \<Rightarrow> bool" where
  "flows log n pop drained s s' \<longleftrightarrow> attached s' \<and>
     (\<exists>cs. produced (log (ss_pty s')) = produced (log (ss_pty s)) @ concat (map snd cs) \<and>
       payload pop @ payload (ss_outbound s') = payload (ss_outbound s) @ queued_bytes cs \<and>
       drained = handed_bytes cs \<and> ss_credit s' + length (queued_bytes cs) \<le> ss_credit s + n)"

lemma flows_one:
  assumes "attached s'" "produced (log (ss_pty s')) = produced (log (ss_pty s)) @ bs"
    "payload pop @ payload (ss_outbound s') = payload (ss_outbound s) @ bs" "ss_credit s' + length bs \<le> ss_credit s + n"
  shows "flows log n pop [] s s'"
  unfolding flows_def using assms by (intro conjI exI [of _ "[(True, bs)]"]) simp_all

lemma flows_none:
  assumes "attached s'" "produced (log (ss_pty s')) = produced (log (ss_pty s))"
    "payload pop @ payload (ss_outbound s') = payload (ss_outbound s)" "ss_credit s' \<le> ss_credit s + n"
  shows "flows log n pop [] s s'"
  using flows_one [of s' log s "[]" pop n] assms by simp

text \<open>The fields a reader sees, which input and housekeeping leave alone.\<close>

definition same_face :: "'p session \<Rightarrow> 'p session \<Rightarrow> bool" where
  "same_face s s' \<longleftrightarrow> ss_outbound s' = ss_outbound s \<and> ss_credit s' = ss_credit s \<and>
     ss_attach_generation s' = ss_attach_generation s \<and> ss_child_exit s' = ss_child_exit s"

lemma same_face_refl [simp]: "same_face s s"
  by (simp add: same_face_def)

lemma same_face_trans: "same_face s s' \<Longrightarrow> same_face s' s'' \<Longrightarrow> same_face s s''"
  by (simp add: same_face_def)

lemma input_face: "input_only s s' \<Longrightarrow> same_face s s'"
  by (simp add: same_face_def input_only_fields)

lemmas expire_face = expire_input [THEN input_face]
lemmas on_data_face = on_data_input [THEN input_face]
lemmas on_resize_face = on_resize_input [THEN input_face]

lemma quiet_face:
  "same_face s (snd (input_with_lease P now grace nonce bs s))"
  "same_face s (snd (session_terminate P s))" "same_face s (snd (cwd P s))"
  "same_face s (snd (install_checkpoint cp s))" "same_face s (snd (take_resync_history s))"
  "same_face s (release_observer s)"
  by (rule leased_input [THEN input_face])
    (auto simp: session_terminate_def cwd_def install_checkpoint_def take_resync_history_def
      release_observer_def same_face_def split_beta split: sum.split)

lemma flows_face:
  "same_face s s' \<Longrightarrow> keeps_output log s s' \<Longrightarrow> attached s \<Longrightarrow> flows log n [] [] s s'"
  by (rule flows_none) (auto simp: same_face_def keeps_output_def attached_def)

lemma flows_trans:
  assumes "flows log n pop dr s s'" "flows log m pop' dr' s' s''"
  shows "flows log (n + m) (pop @ pop') (dr @ dr') s s''"
proof -
  obtain cs ds where c: "produced (log (ss_pty s')) = produced (log (ss_pty s)) @ concat (map snd cs)"
      "payload pop @ payload (ss_outbound s') = payload (ss_outbound s) @ queued_bytes cs" "dr = handed_bytes cs"
      "ss_credit s' + length (queued_bytes cs) \<le> ss_credit s + n"
    and d: "produced (log (ss_pty s'')) = produced (log (ss_pty s')) @ concat (map snd ds)"
      "payload pop' @ payload (ss_outbound s'') = payload (ss_outbound s') @ queued_bytes ds" "dr' = handed_bytes ds"
      "ss_credit s'' + length (queued_bytes ds) \<le> ss_credit s' + m" "attached s''"
    using assms unfolding flows_def by blast
  have "payload (pop @ pop') @ payload (ss_outbound s'') = payload pop @ payload (ss_outbound s') @ queued_bytes ds"
    using d(2) by simp
  also have "\<dots> = payload (ss_outbound s) @ queued_bytes (cs @ ds)" using c(2) by (metis append_assoc chunk_bytes(3))
  finally show ?thesis
    unfolding flows_def using c d by (intro conjI exI [of _ "cs @ ds"]) simp_all
qed

lemma flows_refl: "attached s \<Longrightarrow> flows log 0 [] [] s s"
  by (rule flows_none) simp_all

context pty_log
begin

lemma readable_flows:
  assumes a: "attached s"
  shows "flows log 0 [] [] s (snd (on_pty_readable P s))"
proof (cases rule: read_pty_cases [of "min (ss_credit s) READ_BUF" s])
  case (failed e p)
  with a show ?thesis
    by (intro flows_none) (auto simp: on_pty_readable_def attached_def note_stalled_read_def)
next
  case (bytes bs p)
  show ?thesis
  proof (cases "ss_credit s = 0")
    case True
    with a show ?thesis by (intro flows_none) (auto simp: on_pty_readable_def attached_def note_stalled_read_def)
  next
    case False
    with bytes a show ?thesis
      by (intro flows_one [where bs = bs]) (auto simp: on_pty_readable_def attached_def Let_def has_listeners_def take_in_def enqueue_outbound_def)
  qed
qed

lemma drain_flows:
  assumes a: "attached s"
  shows "flows log 0 [] (handed P (Drain mx) s) s (snd (drain_pty_at_most P mx s))"
proof -
  define cap where "cap = min (case mx of None \<Rightarrow> READ_BUF | Some m \<Rightarrow> m) READ_BUF"
  have drain: "drain_pty_at_most P mx s =
     (if ss_child_exit s \<noteq> None then (Inr None, s) else if cap = 0 then (Inr None, note_stalled_read s)
      else case read_pty P cap s of
             (Inl e, s) \<Rightarrow> (Inl e, s)
           | (Inr bs, s) \<Rightarrow> if bs = [] then (Inr None, s) else (Inr (Some bs), take_in bs s))"
    unfolding drain_pty_at_most_def Let_def cap_def ..
  show ?thesis
  proof (cases "ss_child_exit s \<noteq> None \<or> cap = 0")
    case True
    then have "handed P (Drain mx) s = []" by (auto simp: handed_def drain)
    moreover have "snd (drain_pty_at_most P mx s) = s \<or> snd (drain_pty_at_most P mx s) = note_stalled_read s"
      using True by (auto simp: drain)
    then have "flows log 0 [] [] s (snd (drain_pty_at_most P mx s))"
      using a by (intro flows_none) (auto simp: attached_def note_stalled_read_def)
    ultimately show ?thesis by simp
  next
    case False
    show ?thesis
    proof (cases rule: read_pty_cases [of cap s])
      case (failed e p)
      then have d: "drain_pty_at_most P mx s = (Inl e, s\<lparr>ss_pty := p\<rparr>)" using False by (simp add: drain)
      have "flows log 0 [] [] s (s\<lparr>ss_pty := p\<rparr>)" using failed a by (intro flows_none) (simp_all add: attached_def)
      then show ?thesis by (simp add: d handed_def)
    next
      case (bytes bs p)
      then have d: "drain_pty_at_most P mx s = (if bs = [] then (Inr None, s\<lparr>ss_pty := p\<rparr>)
          else (Inr (Some bs), take_in bs (s\<lparr>ss_pty := p\<rparr>)))"
        using False by (simp add: drain)
      show ?thesis
      proof (cases "bs = []")
        case True
        have "flows log 0 [] [] s (s\<lparr>ss_pty := p\<rparr>)" using bytes a True by (intro flows_none) (simp_all add: attached_def)
        then show ?thesis by (simp add: d True handed_def)
      next
        case ne: False
        have "flows log 0 [] bs s (take_in bs (s\<lparr>ss_pty := p\<rparr>))"
          unfolding flows_def using bytes a
          by (intro conjI exI [of _ "[(False, bs)]"]) (simp_all add: attached_def take_in_def)
        then show ?thesis by (simp add: d ne handed_def)
      qed
    qed
  qed
qed

lemma frame_flows:
  assumes a: "attached s"
  shows "flows log (granted (InFrame now f)) [] [] s (snd (on_frame P now grace f s))"
proof (cases f)
  case (Attach g i pr ob)
  with a show ?thesis
    by (intro flows_none) (auto simp: on_attach_def Let_def enqueue_outbound_def attached_def)
next
  case (Credit n)
  with a show ?thesis by (intro flows_none) (simp_all add: attached_def sat_add_def)
next
  case (Data bs)
  with a flows_face [OF on_data_face on_data_output] show ?thesis by simp
next
  case (Resize x y z w)
  with a flows_face [OF on_resize_face on_resize_output] show ?thesis by simp
qed (use a in \<open>simp_all add: flows_refl\<close>)

lemma poll_flows:
  assumes a: "attached s"
  shows "flows log 0 [] [] s (snd (poll_child P s))"
proof (cases "pty_try_wait P (ss_pty s)")
  case (Pair r p)
  with log_wait [of "ss_pty s"] a show ?thesis
    by (intro flows_none) (auto simp: poll_child_def Let_def enqueue_outbound_def attached_def has_listeners_def
        split: sum.split option.split)
qed

lemma do_flows:
  assumes a: "attached s" and c: "op \<noteq> DetachOp"
  shows "flows log (granted op) (popped op s) (handed P op s) s (session_do P grace op s)"
proof (cases op)
  case PopOp
  with a show ?thesis
    by (cases "ss_outbound s")
      (auto intro!: flows_none simp: popped_def handed_def pop_outbound_def attached_def)
next
  case (InFrame now f)
  with a frame_flows show ?thesis by (simp add: popped_def handed_def)
next
  case (Drain mx)
  with a drain_flows show ?thesis by (simp add: popped_def)
qed (use a c readable_flows poll_flows flows_face [OF quiet_face(1) leased_output]
      flows_face [OF quiet_face(2) terminate_output] flows_face [OF quiet_face(3) small_output(4)]
      flows_face [OF quiet_face(4) small_output(5)] flows_face [OF quiet_face(5) small_output(2)]
      flows_face [OF quiet_face(6) small_output(3)] flows_face [OF expire_face expire_output] in
    \<open>simp_all add: popped_def handed_def\<close>)

lemma run_flows:
  assumes "attached s" "DetachOp \<notin> set ops"
  shows "\<exists>pop dr. snd (fold (serve P grace) ops (s, got, drained)) = (got @ pop, drained @ dr) \<and>
    flows log (sum_list (map granted ops)) pop dr s (fst (fold (serve P grace) ops (s, got, drained)))"
  using assms
proof (induction ops arbitrary: s got drained)
  case Nil
  then show ?case by (simp add: flows_refl)
next
  case (Cons op ops)
  let ?s = "session_do P grace op s"
  have step: "flows log (granted op) (popped op s) (handed P op s) s ?s" using Cons.prems by (intro do_flows) auto
  then have "attached ?s" by (simp add: flows_def)
  then obtain pop dr where pop: "snd (fold (serve P grace) ops (?s, got @ popped op s, drained @ handed P op s)) =
      ((got @ popped op s) @ pop, (drained @ handed P op s) @ dr)"
    "flows log (sum_list (map granted ops)) pop dr ?s (fst (fold (serve P grace) ops (?s, got @ popped op s, drained @ handed P op s)))"
    using Cons.IH [of ?s "got @ popped op s" "drained @ handed P op s"] Cons.prems(2) by auto
  from flows_trans [OF step pop(2)] pop(1) show ?case by (auto simp: serve_step)
qed

end

text \<open>
  C18: the history of a session is what its pseudoterminal produced. After any sequence of
  operations on a new session, over any pseudoterminal, the retained history is the last four
  mebibytes of everything read, both byte counts equal its length, the journal is within its
  bound, and recovery at a retained checkpoint offset returns exactly the bytes after it.
\<close>

theorem session_history_exact:
  fixes P :: "'p pty_ops"
  defines "run \<equiv> \<lambda>ops p sz eph grace. fold (session_do (logged P) grace) ops (session_new (p, []) sz eph)"
  assumes "length (produced (snd (ss_pty (run ops p sz eph grace)))) \<le> u64_max"
  shows "let s = run ops p sz eph grace; hist = produced (snd (ss_pty s))
    in history s = keep_last RING_CAP hist \<and> ss_bytes_delivered s = length hist \<and>
       end_offset (ss_ring s) = length hist \<and> length (ss_journal s) \<le> JOURNAL_CAP \<and>
       (case ss_checkpoint s of None \<Rightarrow> recovery s = Inl NoCheckpoint
        | Some cp \<Rightarrow> recovery s = (if retained_base (ss_ring s) \<le> ending_offset cp \<and> ending_offset cp \<le> length hist
            then Inr (cp, drop (ending_offset cp) hist) else Inl CheckpointEvicted))"
proof -
  let ?s = "run ops p sz eph grace"
  have ok: "session_ok snd ?s"
    unfolding run_def by (rule logged.run_ok, rule new_session_ok) simp
  then have r: "ring_abs (ss_ring ?s) (produced (snd (ss_pty ?s)))"
    using assms(2) by (simp add: session_ok_def)
  with ok assms(2) show ?thesis
    by (auto simp: Let_def session_ok_def ring_abs_def history_def ring_snapshot_def end_offset_def
        recovery_def ring_abs_deltas [OF r] split: option.split)
qed

text \<open>A pseudoterminal that echoes a fixed output, for the examples.\<close>

definition demo_pty :: "byte list pty_ops" where
  "demo_pty =
     \<lparr>pty_write_all = (\<lambda>bs p. (Inr (), p @ bs)), pty_read = (\<lambda>n p. (Inr (take n p), drop n p)),
      pty_set_winsize = (\<lambda>_ p. (Inr (), p)), pty_try_wait = (\<lambda>p. (Inr None, p)),
      pty_terminate = (\<lambda>p. (Inr (), p)), pty_fg_cwd = (\<lambda>_. Inl CwdUnreadable)\<rparr>"

definition demo_size :: winsize where
  "demo_size = \<lparr>ws_cols = 80, ws_rows = 24, ws_px_w = 640, ws_px_h = 384\<rparr>"

lemma session_history_exact_witness:
  "history (fold (session_do (logged demo_pty) 0) [Drain None, InFrame 0 (Data [9]), Drain None]
    (session_new ([1, 2, 3], []) demo_size False)) = [1, 2, 3, 9]"
proof -
  have "produced (snd (ss_pty (fold (session_do (logged demo_pty) 0) [Drain None, InFrame 0 (Data [9]), Drain None]
      (session_new ([1, 2, 3], []) demo_size False)))) = [1, 2, 3, 9]"
    by (simp add: drain_pty_at_most_def read_pty_def take_in_def logged_def demo_pty_def session_new_def
        READ_BUF_def on_data_def lease_blocks_input_def expire_input_lease_if_due_def flush_input_def
        record_event_def Let_def produced_def)
  then show ?thesis
    using session_history_exact [of demo_pty 0 "[Drain None, InFrame 0 (Data [9]), Drain None]" "[1, 2, 3]" demo_size False]
    by (simp add: Let_def keep_last_def RING_CAP_def)
qed

text \<open>
  C19: an attached reader loses no byte and never outruns its credit. Over any sequence of operations
  on a session but a detach, whatever was read from the pseudoterminal is a sequence of chunks, each
  either queued for the reader (by the reads its credit pays for) or handed to the caller of a drain
  (the way a worker reads, which passes them on itself). The data the reader has popped followed by the
  data waiting for it is what was waiting at the start followed by exactly its chunks, in order; the
  callers of the drains got exactly the others; and the reader's bytes plus the credit left are at most
  the credit at the start plus the credit granted.
\<close>

theorem attached_reader_flow:
  fixes P :: "'p pty_ops"
  assumes "attached s" and "DetachOp \<notin> set ops"
    and "fold (serve (logged P) grace) ops (s, [], []) = (s', got, drained)"
  shows "\<exists>chunks. produced (snd (ss_pty s')) = produced (snd (ss_pty s)) @ concat (map snd chunks) \<and>
    payload got @ payload (ss_outbound s') = payload (ss_outbound s) @ concat (map snd (filter fst chunks)) \<and>
    drained = concat (map snd (filter (\<lambda>c. \<not> fst c) chunks)) \<and>
    length (concat (map snd (filter fst chunks))) + ss_credit s' \<le> ss_credit s + sum_list (map granted ops)"
  using logged.run_flows [OF assms(1,2), of P grace "[]" "[]"] assms(3)
  by (auto simp: flows_def queued_bytes_def handed_bytes_def add.commute)

lemma attached_reader_flow_witness:
  "\<exists>s' got drained chunks. fold (serve (logged demo_pty) 0) [InFrame 0 (Credit 2), Readable, PopOp, Drain (Some 1)]
      (on_attach 0 0 1 False (session_new ([1, 2, 3], []) demo_size False), [], []) = (s', got, drained) \<and>
    produced (snd (ss_pty s')) = concat (map snd chunks) \<and>
    payload got @ payload (ss_outbound s') = concat (map snd (filter fst chunks)) \<and>
    drained = concat (map snd (filter (\<lambda>c. \<not> fst c) chunks)) \<and> length (concat (map snd (filter fst chunks))) \<le> 2"
proof -
  define s where "s = on_attach 0 0 1 False (session_new ([1, 2, 3 :: byte], [] :: pty_event list) demo_size False)"
  let ?ops = "[InFrame 0 (Credit 2), Readable, PopOp, Drain (Some 1)]"
  obtain s' got drained where r: "fold (serve (logged demo_pty) 0) ?ops (s, [], []) = (s', got, drained)" by (metis prod_cases3)
  have s: "attached s" "ss_outbound s = []" "ss_credit s = 0" "produced (snd (ss_pty s)) = []"
    by (simp_all add: s_def attached_def on_attach_def session_new_def Let_def take_input_lease_def)
  obtain chunks where "produced (snd (ss_pty s')) = produced (snd (ss_pty s)) @ concat (map snd chunks)"
    "payload got @ payload (ss_outbound s') = payload (ss_outbound s) @ concat (map snd (filter fst chunks))"
    "drained = concat (map snd (filter (\<lambda>c. \<not> fst c) chunks))"
    "length (concat (map snd (filter fst chunks))) + ss_credit s' \<le> ss_credit s + sum_list (map granted ?ops)"
    using attached_reader_flow [OF s(1) _ r] by auto
  with s(2-4) r show ?thesis
    by (intro exI [of _ s'] exI [of _ got] exI [of _ drained] exI [of _ chunks]) (simp add: s_def)
qed

section \<open>Exit status\<close>

text \<open>The frames a client has received since it attached: a new attach or a detach starts over.\<close>

fun client_sees :: "session_op \<Rightarrow> 'p session \<Rightarrow> frame list \<Rightarrow> frame list" where
  "client_sees DetachOp s seen = []"
| "client_sees op s seen = seen @ popped op s"

definition attend :: "'p pty_ops \<Rightarrow> nat \<Rightarrow> session_op \<Rightarrow> 'p session \<times> frame list \<Rightarrow> 'p session \<times> frame list" where
  "attend P grace op = (\<lambda>(s, seen). (session_do P grace op s,
     if attached s then client_sees op s seen else []))"

definition told :: "'p session \<times> frame list \<Rightarrow> bool" where
  "told = (\<lambda>(s, seen). attached s \<longrightarrow> (\<forall>status. ss_child_exit s = Some status \<longrightarrow>
     Exit status \<in> set (seen @ ss_outbound s)))"

lemma told_face: "same_face s s' \<Longrightarrow> told (s, seen) \<Longrightarrow> told (s', if attached s then seen else [])"
  by (auto simp: told_def same_face_def attached_def)

lemma attend_told:
  assumes t: "told (s, seen)"
  shows "told (attend P grace op (s, seen))"
proof (cases op)
  case (InFrame now f)
  show ?thesis
  proof (cases f)
    case (Attach g i pr ob)
    with InFrame t show ?thesis
      by (auto simp: attend_def told_def on_attach_def Let_def take_input_lease_def enqueue_outbound_def
          attached_def popped_def split: option.splits)
  next
    case (Data bs)
    with InFrame told_face [OF on_data_face t] show ?thesis
      by (cases "attached s") (simp_all add: attend_def popped_def)
  next
    case (Resize x y z w)
    with InFrame told_face [OF on_resize_face t] show ?thesis
      by (cases "attached s") (simp_all add: attend_def popped_def)
  qed (use InFrame t in \<open>auto simp: attend_def told_def popped_def attached_def\<close>)
next
  case DetachOp
  then show ?thesis by (simp add: attend_def told_def detach_def Let_def attached_def)
next
  case Readable
  have "ss_child_exit (snd (on_pty_readable P s)) = ss_child_exit s"
    "attached (snd (on_pty_readable P s)) = attached s"
    "set (ss_outbound s) \<subseteq> set (ss_outbound (snd (on_pty_readable P s)))"
    by (auto simp: on_pty_readable_def read_pty_def note_stalled_read_def take_in_def enqueue_outbound_def
        attached_def Let_def split_beta split: sum.split)
  with Readable t show ?thesis by (auto simp: attend_def told_def popped_def)
next
  case (Drain mx)
  have "same_face s (snd (drain_pty_at_most P mx s))"
    by (auto simp: drain_pty_at_most_def read_pty_def note_stalled_read_def take_in_def same_face_def
        Let_def split_beta split: sum.split)
  from told_face [OF this t] Drain show ?thesis
    by (cases "attached s") (simp_all add: attend_def popped_def)
next
  case PollChild
  with t show ?thesis
    by (auto simp: attend_def told_def popped_def poll_child_def Let_def split_beta enqueue_outbound_def
        attached_def has_listeners_def split: sum.split option.split)
next
  case PopOp
  with t show ?thesis
    by (cases "ss_outbound s") (auto simp: attend_def told_def popped_def pop_outbound_def attached_def)
qed (use told_face [OF expire_face t] told_face [OF quiet_face(1) t] told_face [OF quiet_face(2) t]
      told_face [OF quiet_face(3) t] told_face [OF quiet_face(4) t] told_face [OF quiet_face(5) t]
      told_face [OF quiet_face(6) t] in \<open>auto simp: attend_def popped_def\<close>)

text \<open>
  C20: no client is left with a dead child it was not told about. In every run of a session, a
  client that is attached while the exit of the child has been observed has received the exit
  status since it attached, or it is waiting in its queue.
\<close>

theorem exit_is_never_lost:
  assumes "fold (attend P grace) ops (session_new p sz eph, []) = (s, seen)"
    and "attached s" and "ss_child_exit s = Some status"
  shows "Exit status \<in> set (seen @ ss_outbound s)"
proof -
  have "told x \<Longrightarrow> told (fold (attend P grace) ops x)" for x
  proof (induction ops arbitrary: x)
    case (Cons op ops)
    then show ?case using attend_told [of "fst x" "snd x"] by simp
  qed simp
  moreover have "told (session_new p sz eph, [])"
    by (simp add: told_def session_new_def)
  ultimately have "told (s, seen)" using assms(1) by metis
  with assms(2,3) show ?thesis by (simp add: told_def)
qed

definition dying_pty :: "unit pty_ops" where
  "dying_pty =
     \<lparr>pty_write_all = (\<lambda>bs p. (Inr (), p)), pty_read = (\<lambda>n p. (Inr [], p)),
      pty_set_winsize = (\<lambda>_ p. (Inr (), p)), pty_try_wait = (\<lambda>p. (Inr (Some 9), p)),
      pty_terminate = (\<lambda>p. (Inr (), p)), pty_fg_cwd = (\<lambda>_. Inl CwdUnreadable)\<rparr>"

lemma exit_is_never_lost_witness:
  "\<exists>s seen. fold (attend dying_pty 0) [PollChild, InFrame 0 (Attach 1 None 1 False)]
      (session_new () demo_size False, []) = (s, seen) \<and> attached s \<and> Exit 9 \<in> set (seen @ ss_outbound s)"
proof -
  obtain s seen where r: "fold (attend dying_pty 0) [PollChild, InFrame 0 (Attach 1 None 1 False)]
      (session_new () demo_size False, []) = (s, seen)" by force
  then have "attached s" "ss_child_exit s = Some 9"
    by (auto simp: attend_def poll_child_def dying_pty_def session_new_def on_attach_def Let_def
        take_input_lease_def enqueue_outbound_def record_event_def has_listeners_def attached_def)
  with exit_is_never_lost [OF r] r show ?thesis by blast
qed

section \<open>Input\<close>

text \<open>A list of inbound frames with their arrival times, stopping at the first error.\<close>

fun deliver :: "'p pty_ops \<Rightarrow> nat \<Rightarrow> (nat \<times> frame) list \<Rightarrow> 'p session \<Rightarrow> ('p, unit) run" where
  "deliver P grace [] s = (Inr (), s)"
| "deliver P grace ((now, f) # fs) s =
     (case on_frame P now grace f s of
        (Inl e, s) \<Rightarrow> (Inl e, s)
      | (Inr _, s) \<Rightarrow> deliver P grace fs s)"

fun input_event :: "frame \<Rightarrow> pty_event list" where
  "input_event (Data bs) = [EvWrite bs]"
| "input_event (Resize cs rs pw ph) = [EvSize \<lparr>ws_cols = cs, ws_rows = rs, ws_px_w = pw, ws_px_h = ph\<rparr>]"
| "input_event _ = []"

definition leased :: "nat option \<Rightarrow> 'p session \<Rightarrow> bool" where
  "leased until s \<longleftrightarrow> attached s \<and> ss_pending_input s = [] \<and> ss_lease_generation s > 0 \<and>
     ss_lease_until s = until \<and> (ss_lease_nonce s = 0 \<longleftrightarrow> until = None)"

context pty_log
begin

lemma expire_leased:
  assumes "leased until s" "\<And>t. until = Some t \<Longrightarrow> now < t"
  shows "expire_input_lease_if_due now s = s"
  using assms by (auto simp: leased_def expire_input_lease_if_due_def split: option.split)

lemma expire_due:
  assumes "leased (Some t) s" "t \<le> now"
  shows "leased None (expire_input_lease_if_due now s)" "log (ss_pty (expire_input_lease_if_due now s)) = log (ss_pty s)"
  using assms by (auto simp: leased_def expire_input_lease_if_due_def attached_def)

lemma attach_leased:
  "leased until s \<Longrightarrow> leased until (on_attach now grace g ob s) \<and> log (ss_pty (on_attach now grace g ob s)) = log (ss_pty s)"
  by (auto simp: leased_def on_attach_def attached_def enqueue_outbound_def)

lemma data_live:
  assumes l: "leased (Some t) s" "now < t" and r: "on_frame P now grace f s = (Inr (), s')"
  shows "leased (Some t) s' \<and> log (ss_pty s') = log (ss_pty s) @ input_event f"
proof -
  have e: "expire_input_lease_if_due now s = s" by (rule expire_leased [OF l(1)]) (use l(2) in simp)
  have b: "lease_blocks_input now s = (False, s)" "ss_pending_input s = []"
    using l e by (auto simp: lease_blocks_input_def leased_def)
  show ?thesis
  proof (cases f)
    case (Data bs)
    obtain r1 p where w: "pty_write_all P bs (ss_pty s) = (r1, p)" by force
    with Data r b log_write [of bs "ss_pty s"] l(1) show ?thesis
      by (cases r1) (auto simp: on_data_def flush_input_def leased_def attached_def split: if_splits)
  next
    case (Resize cs rs pw ph)
    let ?sz = "\<lparr>ws_cols = cs, ws_rows = rs, ws_px_w = pw, ws_px_h = ph\<rparr>"
    obtain r1 p where w: "pty_set_winsize P ?sz (ss_pty s) = (r1, p)" by force
    with Resize r b log_size [of ?sz "ss_pty s"] l(1) show ?thesis
      by (cases r1) (auto simp: on_resize_def flush_input_def leased_def attached_def)
  next
    case (Attach g i pr ob)
    with r attach_leased [OF l(1)] show ?thesis by auto
  qed (use r l(1) in \<open>auto simp: leased_def attached_def\<close>)
qed

lemma data_dead:
  assumes l: "leased None s" and r: "on_frame P now grace f s = (Inr (), s')"
  shows "leased None s' \<and> log (ss_pty s') = log (ss_pty s)"
proof -
  have e: "expire_input_lease_if_due now s = s" by (rule expire_leased [OF l]) simp
  have b: "lease_blocks_input now s = (True, s)"
    using l e by (auto simp: lease_blocks_input_def leased_def)
  show ?thesis
  proof (cases f)
    case (Attach g i pr ob)
    with r attach_leased [OF l] show ?thesis by auto
  qed (use r l b in \<open>auto simp: leased_def attached_def on_data_def on_resize_def split: if_splits\<close>)
qed

lemma late_frame:
  assumes l: "leased (Some t) s" "t \<le> now" and r: "on_frame P now grace f s = (Inr (), s')"
  shows "(leased None s' \<or> leased (Some t) s') \<and> log (ss_pty s') = log (ss_pty s)"
proof -
  let ?s = "expire_input_lease_if_due now s"
  note x = expire_due [OF l]
  have b: "lease_blocks_input now s = (True, ?s)"
    using x(1) by (auto simp: lease_blocks_input_def leased_def)
  show ?thesis
  proof (cases f)
    case (Attach g i pr ob)
    with r attach_leased [OF l(1)] show ?thesis by auto
  qed (use r l b x in \<open>auto simp: leased_def attached_def on_data_def on_resize_def split: if_splits\<close>)
qed

lemma deliver_dead:
  assumes "leased None s \<or> leased (Some t) s \<and> (\<forall>(now, f) \<in> set fs. t \<le> now)" "deliver P grace fs s = (Inr (), s')"
  shows "log (ss_pty s') = log (ss_pty s)"
  using assms
proof (induction fs arbitrary: s)
  case (Cons x fs)
  obtain now f where x: "x = (now, f)" by force
  obtain s1 where s1: "on_frame P now grace f s = (Inr (), s1)" "deliver P grace fs s1 = (Inr (), s')"
    using Cons.prems(2) x by (auto split: prod.splits sum.splits)
  have "(leased None s1 \<or> leased (Some t) s1 \<and> (\<forall>(now, f) \<in> set fs. t \<le> now)) \<and> log (ss_pty s1) = log (ss_pty s)"
    using Cons.prems(1)
  proof
    assume "leased None s"
    from data_dead [OF this s1(1)] show ?thesis by blast
  next
    assume a: "leased (Some t) s \<and> (\<forall>(now, f) \<in> set (x # fs). t \<le> now)"
    then have "t \<le> now" by (simp add: x)
    with late_frame [OF _ this s1(1)] a show ?thesis by auto
  qed
  with Cons.IH [OF _ s1(2)] show ?case by auto
qed simp

lemma deliver_leased:
  assumes "leased (Some t) s" "deliver P grace fs s = (Inr (), s')" "sorted (map fst fs)"
  shows "log (ss_pty s') = log (ss_pty s) @ concat (map (input_event \<circ> snd) (filter (\<lambda>x. fst x < t) fs))"
  using assms
proof (induction fs arbitrary: s)
  case (Cons x fs)
  obtain now f where x: "x = (now, f)" by force
  obtain s1 where s1: "on_frame P now grace f s = (Inr (), s1)" "deliver P grace fs s1 = (Inr (), s')"
    using Cons.prems(2) x by (auto split: prod.splits sum.splits)
  show ?case
  proof (cases "now < t")
    case True
    note live = data_live [OF Cons.prems(1) True s1(1)]
    show ?thesis
      using Cons.IH [OF _ s1(2)] live Cons.prems(3) True by (simp add: x)
  next
    case False
    then have late: "\<forall>(now, f) \<in> set (x # fs). t \<le> now"
      using Cons.prems(3) x by (auto simp: case_prod_beta)
    then have "filter (\<lambda>x. fst x < t) (x # fs) = []"
      by (auto simp: filter_empty_conv case_prod_beta)
    with deliver_dead [OF _ Cons.prems(2), of t] Cons.prems(1) late show ?thesis by simp
  qed
qed simp

end

text \<open>
  C21: input reaches the child once and in order, for as long as the lease lasts. A writer attaches at
  time \<open>t\<close> with a generation other than 0, to a session that has no attached writer and no pending
  input, and then sends a batch of frames, in the order of their times, that raises no error. What
  leaves on the pseudoterminal is exactly the data and sizes of the frames that arrived before
  \<open>t + grace\<close>, in their order. Whatever the still attached writer sends later is accepted and reaches
  nothing: the lease runs from the attach, not from the loss of the connection, against
  SPEC-CLIENT-AUTHORITY, section 4, where it is the disconnect that begins the bounded grace period.
\<close>

theorem input_until_lease_ends:
  fixes P :: "'p pty_ops"
  assumes "ss_attach_generation s = None" and "ss_pending_input s = []" and "generation \<noteq> 0"
    and "deliver (logged P) grace fs (on_attach t grace generation False s) = (Inr (), s')"
    and "sorted (map fst fs)"
  shows "snd (ss_pty s') = snd (ss_pty s) @
    concat (map (input_event \<circ> snd) (filter (\<lambda>x. fst x < t + grace) fs))"
proof -
  have "leased (Some (t + grace)) (on_attach t grace generation False s)" "ss_pty (on_attach t grace generation False s) = ss_pty s"
    using assms(1-3)
    by (auto simp: leased_def on_attach_def attached_def Let_def take_input_lease_def enqueue_outbound_def
        sat_add_def split: option.split)
  with logged.deliver_leased [OF this(1) assms(4,5)] show ?thesis by simp
qed

lemma input_until_lease_ends_witness:
  "\<exists>s'. deliver (logged demo_pty) 100 [(5, Data [1, 2]), (6, Resize 80 24 0 0), (200, Data [3])]
      (on_attach 0 100 7 False (session_new ([], []) demo_size False)) = (Inr (), s') \<and>
    snd (ss_pty s') = [EvWrite [1, 2], EvSize \<lparr>ws_cols = 80, ws_rows = 24, ws_px_w = 0, ws_px_h = 0\<rparr>]"
proof -
  define s where "s = session_new ([] :: byte list, [] :: pty_event list) demo_size False"
  let ?fs = "[(5, Data [1, 2]), (6, Resize 80 24 0 0), (200, Data [3])]"
  have s: "ss_attach_generation s = None" "ss_pending_input s = []" "snd (ss_pty s) = []"
    by (simp_all add: s_def session_new_def)
  have "fst (deliver (logged demo_pty) 100 ?fs (on_attach 0 100 7 False s)) = Inr ()"
    by (simp add: s_def session_new_def on_attach_def Let_def take_input_lease_def on_data_def on_resize_def
        lease_blocks_input_def expire_input_lease_if_due_def flush_input_def logged_def demo_pty_def record_event_def sat_add_def)
  then obtain s' where r: "deliver (logged demo_pty) 100 ?fs (on_attach 0 100 7 False s) = (Inr (), s')"
    by (metis prod.collapse)
  from input_until_lease_ends [OF s(1,2) _ r] r s(3) show ?thesis by (auto simp: s_def)
qed

end
