(* ===== verification/Kernel_Forest.thy ===== *)
theory Kernel_Forest
  imports Kernel_Graph Session_Flow
begin

text \<open>
  The shape of the container tree. Fresh identifiers exist and are found while one is free. The
  relation \<open>above\<close> reads the parent pointers; \<open>nav_ok\<close> says that they agree with the child lists,
  and \<open>nav\<close> adds that no container is below itself and every shown leaf exists. The lemmas say what
  creating, moving and removing do to the pointers, that the walk of \<open>collect_subtree\<close> lists
  exactly the subtree when there is no cycle, and that it never returns from one.
\<close>

section \<open>Fresh identifiers\<close>

lemma bump_nonzero [simp]: "bump n \<noteq> 0"
proof (cases "unat n + 1 > u64_max")
  case False
  then have "unat (n + 1) = unat n + 1"
    by (simp add: unat_word_ariths)
  with False show ?thesis by (auto simp: bump_def)
qed (simp add: bump_def)

lemma u64_bound: "unat (n :: u64) \<le> u64_max"
  using unsigned_less [of n, where 'a = nat] by simp

lemma unat_bump: "unat (bump n) = (if unat n = u64_max then 1 else unat n + 1)"
proof (cases "unat n = u64_max")
  case False
  with u64_bound [of n] have "unat (n + 1) = unat n + 1" "unat n + 1 \<le> u64_max"
    by (simp_all add: unat_word_ariths)
  with False show ?thesis by (simp add: bump_def)
qed (simp add: bump_def)

lemma allocate_returns:
  assumes "n \<noteq> 0" "m \<noteq> 0" "\<not> live m"
  shows "\<exists>i. allocate_loop live n = Some (i, bump i) \<and> i \<noteq> 0 \<and> \<not> live i"
  using assms(1)
proof (induction "if unat n \<le> unat m then unat m - unat n else u64_max - unat n + unat m" arbitrary: n rule: less_induct)
  case less
  show ?case
  proof (cases "live n")
    case True
    have b: "unat n \<le> u64_max" "unat m \<le> u64_max" "0 < unat m"
      using u64_bound [of n] u64_bound [of m] assms(2) by (simp_all add: unat_gt_0)
    have "unat n \<noteq> unat m" using True assms(3) by (metis word_unat_eq_iff)
    then have "(if unat (bump n) \<le> unat m then unat m - unat (bump n) else u64_max - unat (bump n) + unat m)
      < (if unat n \<le> unat m then unat m - unat n else u64_max - unat n + unat m)"
      using b by (auto simp: unat_bump)
    from less.hyps [OF this] True show ?thesis
      by (simp add: allocate_loop.simps [of live n])
  next
    case False
    with less.prems show ?thesis by (simp add: allocate_loop.simps [of live n])
  qed
qed

lemma allocate_found:
  assumes "allocate_loop live n = Some r"
  shows "\<not> live (fst r) \<and> (n \<noteq> 0 \<longrightarrow> fst r \<noteq> 0) \<and> snd r = bump (fst r)"
proof (rule allocate_loop.raw_induct [OF _ assms,
    where P = "\<lambda>live n r. \<not> live (fst r) \<and> (n \<noteq> 0 \<longrightarrow> fst r \<noteq> 0) \<and> snd r = bump (fst r)"])
  fix loop live n r
  assume IH: "\<And>n b y. loop n b = Some y \<Longrightarrow> \<not> n (fst y) \<and> (b \<noteq> 0 \<longrightarrow> fst y \<noteq> 0) \<and> snd y = bump (fst y)"
    and eq: "(if live n then loop live (bump n) else Some (n, bump n)) = Some r"
  show "\<not> live (fst r) \<and> (n \<noteq> 0 \<longrightarrow> fst r \<noteq> 0) \<and> snd r = bump (fst r)"
    using eq IH [of live "bump n" r] by (cases "live n") auto
qed

lemma allocate_iff: "n \<noteq> 0 \<Longrightarrow> allocate_loop live n \<noteq> None \<longleftrightarrow> (\<exists>m. m \<noteq> 0 \<and> \<not> live m)"
  using allocate_returns [of n _ live] allocate_found [of live n]
  by (cases "allocate_loop live n") auto

text \<open>Fewer than \<open>2\<^sup>6\<^sup>4 - 1\<close> live identifiers leave one free.\<close>

lemma few_leave_free:
  fixes K :: "u64 \<Rightarrow> 'k"
  assumes "inj K" "finite (dom m)" "card (dom m) < u64_max"
  shows "\<exists>n. n \<noteq> 0 \<and> m (K n) = None"
proof (rule ccontr)
  assume "\<not> (\<exists>n. n \<noteq> 0 \<and> m (K n) = None)"
  then have "K ` (- {0}) \<subseteq> dom m" by auto
  then have "card (K ` (- {0})) \<le> card (dom m)" using assms(2) card_mono by blast
  moreover have "card (K ` (- {0})) = card (- {0 :: u64})" using assms(1) by (intro card_image) (simp add: inj_on_def)
  moreover have "card (- {0 :: u64}) = u64_max"
    by (simp add: Compl_eq_Diff_UNIV card_Diff_singleton card_word)
  ultimately show False using assms(3) by simp
qed

section \<open>The forest of containers\<close>

definition nav_ok :: "(node_id \<rightharpoonup> container_node) \<Rightarrow> bool" where
  "nav_ok ns \<longleftrightarrow> finite (dom ns) \<and> (\<forall>i c. c \<in> set (children_at ns i) \<longleftrightarrow> parent_of ns c = Some i) \<and>
     (\<forall>i. distinct (children_at ns i))"

definition above :: "(node_id \<rightharpoonup> container_node) \<Rightarrow> (node_id \<times> node_id) set" where
  "above ns = {(p, c). parent_of ns c = Some p}"

definition subtree :: "(node_id \<rightharpoonup> container_node) \<Rightarrow> node_id \<Rightarrow> node_id set" where
  "subtree ns root = (above ns)\<^sup>* `` {root}"

definition leaves_at :: "(node_id \<rightharpoonup> container_node) \<Rightarrow> node_id \<Rightarrow> session_id list" where
  "leaves_at ns i = (case ns i of None \<Rightarrow> [] | Some n \<Rightarrow> leaf_children n)"

definition shown :: "(node_id \<rightharpoonup> container_node) \<Rightarrow> node_id set \<Rightarrow> session_id set" where
  "shown ns A = (\<Union>i \<in> A. set (leaves_at ns i))"

lemma leaves_in_at: "leaves_in is k = concat (map (leaves_at (k_nodes k)) is)"
  by (simp add: leaves_in_def leaves_at_def [abs_def])

lemma leaves_at_map: "map_option leaf_children (ms j) = map_option leaf_children (ns j) \<Longrightarrow> leaves_at ms j = leaves_at ns j"
  by (auto simp: leaves_at_def split: option.splits)

definition nav :: "'p kernel \<Rightarrow> bool" where
  "nav k \<longleftrightarrow> nav_ok (k_nodes k) \<and> acyclic (above (k_nodes k)) \<and>
     shown (k_nodes k) UNIV \<subseteq> dom (k_leaves k) \<and> finite (dom (k_leaves k)) \<and>
     k_next_node k \<noteq> 0 \<and> k_next k \<noteq> 0"

lemma node_children_simps [simp]:
  "node_children \<lparr>cn_kind = kd, cn_parent = p, cn_children = []\<rparr> = []"
  "node_children (n\<lparr>cn_children := cn_children n @ [Node i]\<rparr>) = node_children n @ [i]"
  "node_children (n\<lparr>cn_children := cn_children n @ [Leaf s]\<rparr>) = node_children n"
  "node_children (n\<lparr>cn_parent := p\<rparr>) = node_children n"
  "leaf_children \<lparr>cn_kind = kd, cn_parent = p, cn_children = []\<rparr> = []"
  "leaf_children (n\<lparr>cn_children := cn_children n @ [Node i]\<rparr>) = leaf_children n"
  "leaf_children (n\<lparr>cn_children := cn_children n @ [Leaf s]\<rparr>) = leaf_children n @ [s]"
  "leaf_children (n\<lparr>cn_parent := p\<rparr>) = leaf_children n"
  by (simp_all add: node_children_def leaf_children_def)

lemma filter_children [simp]:
  "node_children (n\<lparr>cn_children := filter (\<lambda>c. c \<noteq> Node i) (cn_children n)\<rparr>) = filter (\<lambda>c. c \<noteq> i) (node_children n)"
  "leaf_children (n\<lparr>cn_children := filter (\<lambda>c. c \<noteq> Node i) (cn_children n)\<rparr>) = leaf_children n"
proof -
  have "concat (map (\<lambda>c. case c of Node i \<Rightarrow> [i] | Leaf _ \<Rightarrow> []) (filter (\<lambda>c. c \<noteq> Node i) cs)) =
      filter (\<lambda>c. c \<noteq> i) (concat (map (\<lambda>c. case c of Node i \<Rightarrow> [i] | Leaf _ \<Rightarrow> []) cs))" for cs
    by (induction cs) (auto split: node_child.split)
  moreover have "concat (map (\<lambda>c. case c of Node _ \<Rightarrow> [] | Leaf s \<Rightarrow> [s]) (filter (\<lambda>c. c \<noteq> Node i) cs)) =
      concat (map (\<lambda>c. case c of Node _ \<Rightarrow> [] | Leaf s \<Rightarrow> [s]) cs)" for cs
    by (induction cs) (auto split: node_child.split)
  ultimately show "node_children (n\<lparr>cn_children := filter (\<lambda>c. c \<noteq> Node i) (cn_children n)\<rparr>) = filter (\<lambda>c. c \<noteq> i) (node_children n)"
    "leaf_children (n\<lparr>cn_children := filter (\<lambda>c. c \<noteq> Node i) (cn_children n)\<rparr>) = leaf_children n"
    by (simp_all add: node_children_def leaf_children_def)
qed

lemma set_node_children: "i \<in> set (node_children n) \<longleftrightarrow> Node i \<in> set (cn_children n)"
  by (auto simp: node_children_def split: node_child.splits)

lemma nav_child: "nav_ok ns \<Longrightarrow> c \<in> set (children_at ns i) \<longleftrightarrow> parent_of ns c = Some i"
  by (simp add: nav_ok_def)

lemma parent_live: "parent_of ns c = Some p \<Longrightarrow> ns c \<noteq> None"
  by (auto simp: parent_of_def split: option.splits)

lemma child_parent_live: "nav_ok ns \<Longrightarrow> parent_of ns c = Some p \<Longrightarrow> ns p \<noteq> None"
  using nav_child [of ns c p] by (cases "ns p") (auto simp: children_at_def)

lemma finite_above: "nav_ok ns \<Longrightarrow> finite (above ns)"
proof -
  assume n: "nav_ok ns"
  have "above ns \<subseteq> dom ns \<times> dom ns"
    using child_parent_live [OF n] parent_live by (auto simp: above_def)
  with n show ?thesis by (auto simp: nav_ok_def intro: finite_subset)
qed

text \<open>Two maps with the same pointers have the same forest.\<close>

lemma above_cong: "(\<And>c. parent_of ns' c = parent_of ns c) \<Longrightarrow> above ns' = above ns"
  by (simp add: above_def)

lemma nav_ok_cong:
  assumes "nav_ok ns" "\<And>c. parent_of ns' c = parent_of ns c" "\<And>i. children_at ns' i = children_at ns i" "finite (dom ns')"
  shows "nav_ok ns'"
  using assms by (simp add: nav_ok_def)

subsection \<open>Creating a container\<close>

lemma create_pointers:
  fixes kind :: node_kind
  assumes i: "ns i = None" and p: "case parent of None \<Rightarrow> True | Some p \<Rightarrow> ns p \<noteq> None" and n: "nav_ok ns"
  defines "ns' \<equiv> push_child parent i (ns(i \<mapsto> \<lparr>cn_kind = kind, cn_parent = parent, cn_children = []\<rparr>))"
  shows "nav_ok ns'" "acyclic (above ns) \<Longrightarrow> acyclic (above ns')" "shown ns' UNIV = shown ns UNIV"
proof -
  have no: "children_at ns i = []" "parent_of ns i = None" "i \<notin> set (children_at ns j)" "parent_of ns j \<noteq> Some i" for j
    using i parent_live [of ns i] child_parent_live [OF n, of j i] nav_child [OF n, of i j]
    by (auto simp: children_at_def parent_of_def)
  have par: "parent_of ns' c = (if c = i then parent else parent_of ns c)" for c
    using p i by (auto simp: ns'_def push_child_def parent_of_def split: option.splits)
  have kids: "children_at ns' j = (if parent = Some j then children_at ns j @ [i] else children_at ns j)" for j
    using p i no(1) by (auto simp: ns'_def push_child_def children_at_def split: option.splits)
  have fin: "finite (dom ns')"
    using n by (auto simp: ns'_def push_child_def nav_ok_def split: option.splits)
  have dist: "distinct (children_at ns j)" for j using n by (simp add: nav_ok_def)
  show "nav_ok ns'"
    unfolding nav_ok_def using fin dist nav_child [OF n] no by (auto simp: par kids)
  have "above ns' = above ns \<union> {(p, c). parent = Some p \<and> c = i}"
    using no by (auto simp: above_def par)
  then have ab: "above ns' = (case parent of None \<Rightarrow> above ns | Some p \<Rightarrow> insert (p, i) (above ns))"
    by (auto split: option.split)
  have "(i, j) \<in> (above ns)\<^sup>* \<Longrightarrow> j = i" for j
  proof (induction rule: rtrancl_induct)
    case (step a b)
    with no(4) show ?case by (auto simp: above_def)
  qed simp
  moreover have "parent \<noteq> Some i" using p i by (auto split: option.splits)
  ultimately show "acyclic (above ns) \<Longrightarrow> acyclic (above ns')"
    using ab by (auto simp: acyclic_insert split: option.splits)
  have "leaves_at ns' j = leaves_at ns j" for j
    using p i by (auto simp: ns'_def push_child_def leaves_at_def split: option.splits)
  then show "shown ns' UNIV = shown ns UNIV" by (simp add: shown_def)
qed

subsection \<open>Moving a container\<close>

text \<open>What a permitted move does to the pointers.\<close>

lemma reparent_pointers:
  assumes node: "k_nodes k node \<noteq> None" and np: "case new_parent of None \<Rightarrow> True | Some p \<Rightarrow> k_nodes k p \<noteq> None \<and> p \<noteq> node"
    and n: "nav_ok (k_nodes k)"
  obtains ns where "reparent_node node new_parent k = (Inr (), k\<lparr>k_nodes := ns\<rparr>)"
    and "\<And>c. parent_of ns c = (if c = node then new_parent else parent_of (k_nodes k) c)"
    and "\<And>j. children_at ns j = filter (\<lambda>c. c \<noteq> node) (children_at (k_nodes k) j) @ (if new_parent = Some j then [node] else [])"
    and "\<And>j. leaves_at ns j = leaves_at (k_nodes k) j"
    and "\<And>j. map_option cn_kind (ns j) = map_option cn_kind (k_nodes k j)"
    and "dom ns = dom (k_nodes k)"
proof -
  let ?ks = "k_nodes k"
  define ms where "ms = push_child new_parent node (drop_child (parent_of (k_nodes k) node) node (k_nodes k))"
  define ds where "ds = drop_child (parent_of ?ks node) node ?ks"
  have d: "parent_of ds c = parent_of ?ks c" "(ds c = None) = (?ks c = None)" 
    "map_option cn_kind (ds c) = map_option cn_kind (?ks c)" "map_option leaf_children (ds c) = map_option leaf_children (?ks c)" for c
    by (auto simp: ds_def drop_child_def parent_of_def split: option.splits)
  have dk: "children_at ds j = filter (\<lambda>c. c \<noteq> node) (children_at ?ks j)" for j
  proof (cases "parent_of ?ks node = Some j")
    case True
    then show ?thesis by (auto simp: ds_def drop_child_def children_at_def split: option.splits)
  next
    case False
    then have "node \<notin> set (children_at ?ks j)" using nav_child [OF n] by simp
    then have "filter (\<lambda>c. c \<noteq> node) (children_at ?ks j) = children_at ?ks j"
      by (auto simp: filter_id_conv)
    with False show ?thesis
      by (auto simp: ds_def drop_child_def children_at_def split: option.splits)
  qed
  have s: "parent_of ms c = parent_of ds c" "(ms c = None) = (ds c = None)"
    "map_option cn_kind (ms c) = map_option cn_kind (ds c)" "map_option leaf_children (ms c) = map_option leaf_children (ds c)" for c
    unfolding ms_def ds_def [symmetric] by (auto simp: push_child_def parent_of_def split: option.split)
  have sk: "children_at ms j = children_at ds j @ (if new_parent = Some j then [node] else [])" for j
  proof -
    have "new_parent = Some j \<Longrightarrow> ds j \<noteq> None" using np d(2) by simp
    moreover have "ms = push_child new_parent node ds" by (simp add: ms_def ds_def)
    ultimately show ?thesis by (auto simp: push_child_def children_at_def split: option.split)
  qed
  obtain m where m: "ms node = Some m" using node s(2) [of node] d(2) [of node] by (cases "ms node") auto
  let ?ns = "ms(node \<mapsto> m\<lparr>cn_parent := new_parent\<rparr>)"
  have p: "parent_of ?ns c = (if c = node then new_parent else parent_of ?ks c)" for c
    using s(1) [of c] d(1) [of c] by (simp add: parent_of_def)
  have c: "children_at ?ns j = filter (\<lambda>c. c \<noteq> node) (children_at ?ks j) @ (if new_parent = Some j then [node] else [])" for j
    using sk [of j] dk [of j] m by (auto simp: children_at_def)
  have "dom ms = dom ?ks" using s(2) d(2) by (simp add: dom_def)
  with m have dm: "dom ?ns = dom ?ks" by auto
  have kd: "map_option cn_kind (?ns j) = map_option cn_kind (?ks j)" for j
    using s(3) [of j] d(3) [of j] m by auto
  have lv: "leaves_at ?ns j = leaves_at ?ks j" for j
    using s(4) [of j] d(4) [of j] m by (intro leaves_at_map) auto
  have "reparent_node node new_parent k = (Inr (), k\<lparr>k_nodes := ?ns\<rparr>)"
    using node np m by (auto simp: reparent_node_def ms_def [symmetric] Let_def split: option.splits)
  from that [OF this p c lv kd dm] show thesis .
qed

subsection \<open>Walking a subtree\<close>

lemma collect_Nil [simp]: "collect_loop ns [] out = Some out"
  by (simp add: collect_loop.simps)

lemma collect_Cons: "collect_loop ns (i # rest) out =
    collect_loop ns (rev (children_at ns i) @ rest) (out @ children_at ns i)"
  by (simp add: collect_loop.simps)

text \<open>Walking a node lists what is below it, and leaves the rest of the frontier to come.\<close>

definition walks :: "(node_id \<rightharpoonup> container_node) \<Rightarrow> node_id list \<Rightarrow> node_id list \<Rightarrow> bool" where
  "walks ns is ds \<longleftrightarrow> (\<forall>rest out. collect_loop ns (is @ rest) out = collect_loop ns rest (out @ ds))"

lemma walks_list:
  assumes "\<And>i. i \<in> set is \<Longrightarrow> \<exists>ds. walks ns [i] ds \<and> set ds = (above ns)\<^sup>+ `` {i}"
  shows "\<exists>ds. walks ns is ds \<and> set ds = (above ns)\<^sup>+ `` set is"
  using assms
proof (induction "is")
  case Nil
  then show ?case by (intro exI [of _ "[]"]) (simp add: walks_def)
next
  case (Cons i "is")
  obtain d ds where "walks ns [i] d" "set d = (above ns)\<^sup>+ `` {i}" "walks ns is ds" "set ds = (above ns)\<^sup>+ `` set is"
    using Cons.IH Cons.prems by (meson list.set_intros)
  then show ?case by (intro exI [of _ "d @ ds"]) (auto simp: walks_def)
qed

lemma trancl_children:
  "nav_ok ns \<Longrightarrow> (above ns)\<^sup>+ `` {i} = set (children_at ns i) \<union> (above ns)\<^sup>+ `` set (children_at ns i)"
proof -
  assume "nav_ok ns"
  then have "set (children_at ns i) = above ns `` {i}" by (auto simp: above_def nav_child)
  then show ?thesis by (auto elim: converse_tranclE intro: trancl_into_trancl2)
qed

lemma walks_node:
  assumes n: "nav_ok ns" and a: "acyclic (above ns)"
  shows "\<exists>ds. walks ns [i] ds \<and> set ds = (above ns)\<^sup>+ `` {i}"
proof -
  have "wf ((above ns)\<inverse>)" by (rule finite_acyclic_wf_converse [OF finite_above [OF n] a])
  then show ?thesis
  proof (induction i rule: wf_induct_rule)
    case (less i)
    have "\<exists>ds. walks ns (rev (children_at ns i)) ds \<and> set ds = (above ns)\<^sup>+ `` set (rev (children_at ns i))"
      by (rule walks_list, rule less.IH) (simp add: above_def nav_child [OF n])
    then obtain ds where ds: "walks ns (rev (children_at ns i)) ds" "set ds = (above ns)\<^sup>+ `` set (children_at ns i)" by auto
    then have "walks ns [i] (children_at ns i @ ds)" by (simp add: walks_def collect_Cons)
    with ds(2) trancl_children [OF n, of i] show ?case by (intro exI [of _ "children_at ns i @ ds"]) simp
  qed
qed

lemma collect_returns:
  assumes "nav_ok (k_nodes k)" "acyclic (above (k_nodes k))" "k_nodes k root \<noteq> None"
  obtains nodes where "collect_subtree root k = Some (Inr nodes)" "set nodes = subtree (k_nodes k) root"
proof -
  obtain ds where ds: "walks (k_nodes k) [root] ds" "set ds = (above (k_nodes k))\<^sup>+ `` {root}"
    using walks_node [OF assms(1,2)] by blast
  from ds(1) have "collect_loop (k_nodes k) [root] [root] = Some (root # ds)"
    unfolding walks_def by (metis append_Cons append_Nil collect_Nil)
  with assms(3) have c: "collect_subtree root k = Some (Inr (root # ds))" by (simp add: collect_subtree_def)
  have "set (root # ds) = subtree (k_nodes k) root"
    unfolding subtree_def by (auto simp: ds(2) dest: rtranclD intro: trancl_into_rtrancl)
  with c show thesis by (rule that)
qed

text \<open>The walk returns only over nodes below which no path is endless.\<close>

lemma collect_well_founded:
  assumes n: "nav_ok ns" and r: "collect_loop ns frontier out = Some r"
  shows "\<forall>i \<in> set frontier. i \<in> Wellfounded.acc ((above ns)\<inverse>)"
proof -
  have "nav_ok ns \<longrightarrow> (\<forall>i \<in> set frontier. i \<in> Wellfounded.acc ((above ns)\<inverse>))"
  proof (rule collect_loop.raw_induct [OF _ r,
      where P = "\<lambda>ns frontier out r. nav_ok ns \<longrightarrow> (\<forall>i \<in> set frontier. i \<in> Wellfounded.acc ((above ns)\<inverse>))"])
    fix loop ns frontier out r
    assume IH: "\<And>n b c y. loop n b c = Some y \<Longrightarrow> nav_ok n \<longrightarrow> (\<forall>i \<in> set b. i \<in> Wellfounded.acc ((above n)\<inverse>))"
      and eq: "(case frontier of [] \<Rightarrow> Some out
        | i # rest \<Rightarrow> loop ns (rev (children_at ns i) @ rest) (out @ children_at ns i)) = Some r"
    show "nav_ok ns \<longrightarrow> (\<forall>i \<in> set frontier. i \<in> Wellfounded.acc ((above ns)\<inverse>))"
    proof (cases frontier)
      case (Cons i rest)
      have below: "nav_ok ns \<Longrightarrow> \<forall>j \<in> set (rev (children_at ns i) @ rest). j \<in> Wellfounded.acc ((above ns)\<inverse>)"
        using eq IH [of ns "rev (children_at ns i) @ rest"] Cons by simp
      have "i \<in> Wellfounded.acc ((above ns)\<inverse>)" if "nav_ok ns"
      proof (rule accI)
        fix j assume "(j, i) \<in> (above ns)\<inverse>"
        then have "j \<in> set (children_at ns i)" by (simp add: above_def nav_child [OF that])
        with below [OF that] show "j \<in> Wellfounded.acc ((above ns)\<inverse>)" by simp
      qed
      with below Cons show ?thesis by simp
    qed simp
  qed
  with n show ?thesis by simp
qed

lemma acc_no_loop: "i \<in> Wellfounded.acc r \<Longrightarrow> (i, i) \<notin> r\<^sup>+"
proof (erule acc_induct)
  fix i
  assume IH: "\<forall>j. (j, i) \<in> r \<longrightarrow> (j, j) \<notin> r\<^sup>+"
  show "(i, i) \<notin> r\<^sup>+"
  proof
    assume "(i, i) \<in> r\<^sup>+"
    then obtain j where j: "(i, j) \<in> r\<^sup>*" "(j, i) \<in> r" by (metis tranclD2)
    then have "(j, j) \<in> r\<^sup>+" by (meson rtrancl_into_trancl2)
    with IH j(2) show False by blast
  qed
qed

lemma collect_loops:
  assumes "nav_ok ns" "(i, i) \<in> (above ns)\<^sup>+" "i \<in> set frontier"
  shows "collect_loop ns frontier out = None"
proof (rule ccontr)
  assume "collect_loop ns frontier out \<noteq> None"
  then obtain r where "collect_loop ns frontier out = Some r" by auto
  from collect_well_founded [OF assms(1) this] assms(3) have "i \<in> Wellfounded.acc ((above ns)\<inverse>)" by blast
  from acc_no_loop [OF this] assms(2) show False by (simp add: trancl_converse)
qed

subsection \<open>Removing a subtree\<close>

lemma fold_remove: "fold (\<lambda>i ns. ns(i := None)) is ns j = (if j \<in> set is then None else ns j)"
  by (induction "is" arbitrary: ns) auto

text \<open>What is left of the containers: the subtree is gone, and with it its slot in its parent.\<close>

definition without :: "node_id set \<Rightarrow> node_id \<Rightarrow> (node_id \<rightharpoonup> container_node) \<Rightarrow> node_id \<Rightarrow> container_node option" where
  "without A root ns i = (if i \<in> A then None
     else map_option (\<lambda>n. n\<lparr>cn_children := filter (\<lambda>c. c \<noteq> Node root) (cn_children n)\<rparr>) (ns i))"

lemma filter_absent: "Node i \<notin> set (cn_children n) \<Longrightarrow>
    n\<lparr>cn_children := filter (\<lambda>c. c \<noteq> Node i) (cn_children n)\<rparr> = n"
proof -
  assume "Node i \<notin> set (cn_children n)"
  then have "filter (\<lambda>c. c \<noteq> Node i) (cn_children n) = cn_children n" by (auto simp: filter_id_conv)
  then show ?thesis by simp
qed

lemma drop_child_everywhere:
  assumes "nav_ok ns"
  shows "drop_child (parent_of ns i) i ns j = map_option (\<lambda>n. n\<lparr>cn_children := filter (\<lambda>c. c \<noteq> Node i) (cn_children n)\<rparr>) (ns j)"
proof (cases "parent_of ns i = Some j")
  case True
  then show ?thesis by (auto simp: drop_child_def split: option.splits)
next
  case False
  then have "i \<notin> set (children_at ns j)" using nav_child [OF assms] by simp
  then have "map_option (\<lambda>n. n\<lparr>cn_children := filter (\<lambda>c. c \<noteq> Node i) (cn_children n)\<rparr>) (ns j) = ns j"
    by (cases "ns j") (simp_all add: children_at_def set_node_children filter_absent)
  with False show ?thesis by (auto simp: drop_child_def split: option.splits)
qed

lemma remove_subtree_nodes:
  assumes "nav_ok (k_nodes k)"
  shows "k_nodes (remove_subtree is root k) = without (set is) root (k_nodes k)"
  by (rule ext) (simp add: remove_subtree_def Let_def fold_remove drop_child_everywhere [OF assms] without_def)

lemma without_pointers:
  fixes root :: node_id
  assumes n: "nav_ok ns"
  defines "ms \<equiv> without (subtree ns root) root ns"
  shows "parent_of ms c = (if c \<in> subtree ns root then None else parent_of ns c)"
    and "children_at ms i = (if i \<in> subtree ns root then [] else filter (\<lambda>c. c \<noteq> root) (children_at ns i))"
    and "leaves_at ms i = (if i \<in> subtree ns root then [] else leaves_at ns i)"
  by (auto simp: ms_def without_def parent_of_def children_at_def leaves_at_def split: option.split)

lemma without_nav:
  fixes root :: node_id
  assumes n: "nav_ok ns"
  defines "ms \<equiv> without (subtree ns root) root ns"
  shows "nav_ok ms" "above ms \<subseteq> above ns"
proof -
  note p = without_pointers [OF n, of root, folded ms_def]
  have root: "root \<in> subtree ns root" by (simp add: subtree_def)
  have down: "parent_of ns c = Some i \<Longrightarrow> i \<in> subtree ns root \<Longrightarrow> c \<in> subtree ns root" for c i
    by (auto simp: subtree_def above_def intro: rtrancl_into_rtrancl)
  have up: "c \<in> subtree ns root \<Longrightarrow> parent_of ns c = Some i \<Longrightarrow> c \<noteq> root \<Longrightarrow> i \<in> subtree ns root" for c i
    by (auto simp: subtree_def above_def elim: rtranclE)
  have "dom ms \<subseteq> dom ns" by (auto simp: ms_def without_def split: if_splits)
  then have "finite (dom ms)" using n by (auto simp: nav_ok_def intro: finite_subset)
  moreover have "c \<in> set (children_at ms i) \<longleftrightarrow> parent_of ms c = Some i" for i c
    using down up root nav_child [OF n] by (auto simp: p)
  moreover have "distinct (children_at ms i)" for i
    using n by (auto simp: p nav_ok_def)
  ultimately show "nav_ok ms" by (simp add: nav_ok_def)
  show "above ms \<subseteq> above ns" by (auto simp: above_def p split: if_splits)
qed

section \<open>Ending leaves\<close>

definition ended :: "'p pty_ops \<Rightarrow> 'p session \<Rightarrow> 'p session" where
  "ended P s = snd (session_terminate P s)"

lemma ended_terminated [simp]: "ss_terminated (ended P s)"
  and ended_again [simp]: "ss_terminated s \<Longrightarrow> ended P s = s"
  by (simp_all add: ended_def session_terminate_def split_beta)

text \<open>\<open>ends P A k k'\<close>: at most the leaves in \<open>A\<close> were ended, and nothing else but the log changed.\<close>

definition ends :: "'p pty_ops \<Rightarrow> session_id set \<Rightarrow> 'p kernel \<Rightarrow> 'p kernel \<Rightarrow> bool" where
  "ends P A k k' \<longleftrightarrow> k_nodes k' = k_nodes k \<and> k_next k' = k_next k \<and> k_next_node k' = k_next_node k \<and>
     (\<forall>i. k_leaves k' i = k_leaves k i \<or> i \<in> A \<and> k_leaves k' i = map_option (ended P) (k_leaves k i))"

lemma ends_refl [simp]: "ends P A k k"
  by (simp add: ends_def)

lemma ended_twice: "map_option (ended P) (map_option (ended P) m) = map_option (ended P) m"
  by (cases m) simp_all

lemma ends_trans: "ends P A k k' \<Longrightarrow> ends P B k' k'' \<Longrightarrow> ends P (A \<union> B) k k''"
  unfolding ends_def by (auto simp: ended_twice) (metis ended_twice)+

lemma ends_dom: "ends P A k k' \<Longrightarrow> dom (k_leaves k') = dom (k_leaves k)"
proof -
  assume e: "ends P A k k'"
  have "k_leaves k' i = None \<longleftrightarrow> k_leaves k i = None" for i
    using e unfolding ends_def by (metis map_option_is_None)
  then show ?thesis by (simp add: dom_def)
qed

lemma ends_kept: "ends P A k k' \<Longrightarrow> k_leaves k i = map_option (ended P) m \<Longrightarrow> k_leaves k' i = map_option (ended P) m"
  unfolding ends_def by (metis ended_twice)

lemma ends_ended: "ends P A k k' \<Longrightarrow> map_option (ended P) (k_leaves k' i) = map_option (ended P) (k_leaves k i)"
  unfolding ends_def by (metis ended_twice)

lemma kernel_terminate_ends:
  assumes "k_leaves k i \<noteq> None" "kernel_terminate P i k = (r, k')"
  shows "ends P {i} k k'" "r = Inr () \<Longrightarrow> k_leaves k' i = map_option (ended P) (k_leaves k i)"
proof -
  obtain s where s: "k_leaves k i = Some s" using assms(1) by auto
  then show "ends P {i} k k'" "r = Inr () \<Longrightarrow> k_leaves k' i = map_option (ended P) (k_leaves k i)"
    using assms(2)
    by (auto simp: kernel_terminate_def ends_def put_leaf_def record_graph_def Let_def split_beta ended_def [symmetric]
        split: if_splits sum.splits)
qed

lemma terminate_all_ends:
  assumes "set is \<subseteq> dom (k_leaves k)" "terminate_all P is k = (r, k')"
  shows "ends P (set is) k k' \<and> (r = Inr () \<longrightarrow> (\<forall>i \<in> set is. k_leaves k' i = map_option (ended P) (k_leaves k i)))"
  using assms
proof (induction "is" arbitrary: k)
  case (Cons i "is")
  obtain r1 k1 where t: "kernel_terminate P i k = (r1, k1)" by force
  have i: "k_leaves k i \<noteq> None" using Cons.prems(1) by auto
  note one = kernel_terminate_ends [OF i t]
  show ?case
  proof (cases r1)
    case (Inl e)
    with one Cons.prems(2) t show ?thesis by (auto simp: ends_def)
  next
    case (Inr u)
    have "set is \<subseteq> dom (k_leaves k1)" using ends_dom [OF one(1)] Cons.prems(1) by simp
    from Cons.IH [OF this] Cons.prems(2) t Inr
    have rest: "ends P (set is) k1 k'" "r = Inr () \<Longrightarrow> \<forall>j \<in> set is. k_leaves k' j = map_option (ended P) (k_leaves k1 j)"
      by auto
    have "k_leaves k' i = map_option (ended P) (k_leaves k i)"
      using ends_kept [OF rest(1)] one(2) Inr by simp
    moreover have "k_leaves k' j = map_option (ended P) (k_leaves k j)" if "r = Inr ()" "j \<in> set is" for j
      using rest(2) [OF that(1)] that(2) ends_ended [OF one(1), of j] by simp
    ultimately show ?thesis using ends_trans [OF one(1) rest(1)] by simp
  qed
qed simp

section \<open>Closing a container\<close>

lemma shown_subtree: "set nodes = A \<Longrightarrow> set (leaves_in nodes k) = shown (k_nodes k) A"
  by (auto simp: leaves_in_at shown_def)

definition end_leaves :: "'p pty_ops \<Rightarrow> session_id set \<Rightarrow> (session_id \<rightharpoonup> 'p session) \<Rightarrow> session_id \<Rightarrow> 'p session option" where
  "end_leaves P A ls i = (if i \<in> A then map_option (ended P) (ls i) else ls i)"

lemma close_node_cases:
  fixes k :: "'p kernel"
  assumes nav: "nav k" and node: "k_nodes k node \<noteq> None"
  defines "A \<equiv> subtree (k_nodes k) node"
  obtains (closed) k' where "close_node P node k = Some (Inr (), k')"
      "k_nodes k' = without A node (k_nodes k)" "k_leaves k' = end_leaves P (shown (k_nodes k) A) (k_leaves k)"
      "k_next_node k' = k_next_node k" "k_next k' = k_next k"
  | (failed) e k' where "close_node P node k = Some (Inl e, k')" "ends P (shown (k_nodes k) A) k k'"
proof -
  have n: "nav_ok (k_nodes k)" "acyclic (above (k_nodes k))" "shown (k_nodes k) UNIV \<subseteq> dom (k_leaves k)"
    using nav by (simp_all add: nav_def)
  obtain nodes where c: "collect_subtree node k = Some (Inr nodes)" "set nodes = A"
    using collect_returns [OF n(1,2) node] by (auto simp: A_def)
  note lv = shown_subtree [OF c(2), of k]
  obtain r k1 where t: "terminate_all P (leaves_in nodes k) k = (r, k1)" by force
  have "set (leaves_in nodes k) \<subseteq> dom (k_leaves k)" using n(3) lv by (auto simp: shown_def)
  note e = terminate_all_ends [OF this t, unfolded lv]
  show thesis
  proof (cases r)
    case (Inl er)
    with c t e show thesis by (intro failed [of er k1]) (simp_all add: close_node_def)
  next
    case (Inr u)
    have k1: "k_nodes k1 = k_nodes k" "k_next_node k1 = k_next_node k" "k_next k1 = k_next k" using e by (simp_all add: ends_def)
    have "k_leaves k1 = end_leaves P (shown (k_nodes k) A) (k_leaves k)"
      using e Inr by (intro ext) (auto simp: end_leaves_def ends_def)
    with c t Inr k1 n(1) remove_subtree_nodes [of k1 nodes node] show thesis
      by (intro closed [of "remove_subtree nodes node k1"])
        (simp_all add: close_node_def remove_subtree_def Let_def)
  qed
qed

end
