(* ===== verification/Kernel_Runs.thy ===== *)
theory Kernel_Runs
  imports Kernel_Forest
begin

text \<open>
  Arbitrary runs of a kernel, as an inductive reachability over its operations, and what holds in
  all of them: the containers stay a forest, identifiers are fresh, closing a container ends exactly
  its leaves, and the event log tells the life of every leaf once. The exception is a container
  moved below itself, which the code does not refuse: closing it never returns.
\<close>

section \<open>Runs of a kernel\<close>

text \<open>
  Everything an owner of the kernel can do. \<open>Borrow\<close> is an operation through \<open>session_mut\<close>;
  reaping and ending a leaf go through the kernel.
\<close>

datatype 'p kernel_op =
    CreateNode node_kind "node_id option" | AttachLeaf node_id session_id
  | Reparent node_id "node_id option" | CloseNode node_id
  | SpawnLeaf "kernel_error + 'p session" | ReapLeaf nat session_id | FrameFor nat session_id frame
  | TerminateLeaf session_id | LeafCwd session_id | TakeLayout | Borrow session_id session_op

definition borrow :: "'p pty_ops \<Rightarrow> nat \<Rightarrow> session_id \<Rightarrow> session_op \<Rightarrow> 'p kernel \<Rightarrow> 'p kernel" where
  "borrow P grace i op k =
     (case k_leaves k i of None \<Rightarrow> k | Some s \<Rightarrow> put_leaf i (session_do P grace op s) k)"

fun kernel_do :: "'p pty_ops \<Rightarrow> ('p \<Rightarrow> u32) \<Rightarrow> nat \<Rightarrow> 'p kernel_op \<Rightarrow> 'p kernel \<Rightarrow> 'p kernel option" where
  "kernel_do P pid grace (CreateNode kd p) k = map_option snd (create_node kd p k)"
| "kernel_do P pid grace (AttachLeaf n i) k = Some (snd (attach_leaf n i k))"
| "kernel_do P pid grace (Reparent n p) k = Some (snd (reparent_node n p k))"
| "kernel_do P pid grace (CloseNode n) k = map_option snd (close_node P n k)"
| "kernel_do P pid grace (SpawnLeaf s) k = map_option snd (spawn_leaf_with s k)"
| "kernel_do P pid grace (ReapLeaf now i) k = Some (snd (reap P now i k))"
| "kernel_do P pid grace (FrameFor now i f) k = Some (snd (kernel_on_frame P now grace i f k))"
| "kernel_do P pid grace (TerminateLeaf i) k = Some (snd (kernel_terminate P i k))"
| "kernel_do P pid grace (LeafCwd i) k = Some (snd (kernel_cwd P i k))"
| "kernel_do P pid grace TakeLayout k = Some (snd (layout_snapshot P pid k))"
| "kernel_do P pid grace (Borrow i op) k = Some (borrow P grace i op k)"

text \<open>
  Used as intended: no container is moved below itself, a new session has a living child, and
  what is borrowed is neither reaped nor ended behind the kernel's back.
\<close>

fun proper :: "'p kernel_op \<Rightarrow> 'p kernel \<Rightarrow> bool" where
  "proper (Reparent n (Some p)) k \<longleftrightarrow> p \<notin> subtree (k_nodes k) n"
| "proper (SpawnLeaf (Inr s)) k \<longleftrightarrow> ss_child_exit s = None \<and> \<not> ss_terminated s"
| "proper (Borrow i op) k \<longleftrightarrow> op \<noteq> PollChild \<and> op \<noteq> TerminateOp"
| "proper op k \<longleftrightarrow> True"

inductive kernel_reach :: "'p pty_ops \<Rightarrow> ('p \<Rightarrow> u32) \<Rightarrow> nat \<Rightarrow> 'p kernel \<Rightarrow> bool" for P pid grace where
  reach_new: "kernel_reach P pid grace kernel_new"
| reach_do: "kernel_reach P pid grace k \<Longrightarrow> proper op k \<Longrightarrow> kernel_do P pid grace op k = Some k' \<Longrightarrow>
    kernel_reach P pid grace k'"

inductive_cases reach_doE: "kernel_reach P pid grace k"

lemma layout_frame:
  "k_nodes (snd (layout_rows P pid is k)) = k_nodes k" "k_next (snd (layout_rows P pid is k)) = k_next k"
  "k_next_node (snd (layout_rows P pid is k)) = k_next_node k" "k_events (snd (layout_rows P pid is k)) = k_events k"
  "k_next_event (snd (layout_rows P pid is k)) = k_next_event k"
  "dom (k_leaves (snd (layout_rows P pid is k))) = dom (k_leaves k)"
  by (induction "is" arbitrary: k) (auto simp: split_beta Let_def put_leaf_def split: option.split)

lemma nav_leaves:
  "nav k \<Longrightarrow> k_nodes k' = k_nodes k \<Longrightarrow> k_next k' = k_next k \<Longrightarrow> k_next_node k' = k_next_node k \<Longrightarrow>
    dom (k_leaves k') = dom (k_leaves k) \<Longrightarrow> nav k'"
  by (simp add: nav_def)

lemma allocate_node_id_cases:
  assumes "allocate_node_id k = Some (i, k')" "k_next_node k \<noteq> 0"
  shows "k_nodes k i = None" "i \<noteq> NodeId 0" "k' = k\<lparr>k_next_node := bump (node_as_u64 i)\<rparr>"
proof -
  obtain n nx where "allocate_loop (\<lambda>n. k_nodes k (NodeId n) \<noteq> None) (k_next_node k) = Some (n, nx)" "i = NodeId n"
    "k' = k\<lparr>k_next_node := nx\<rparr>"
    using assms(1) by (auto simp: allocate_node_id_def bind_eq_Some_conv simp del: not_None_eq)
  with allocate_found [OF this(1)] assms(2)
  show "k_nodes k i = None" "i \<noteq> NodeId 0" "k' = k\<lparr>k_next_node := bump (node_as_u64 i)\<rparr>" by auto
qed

lemma allocate_id_cases:
  assumes "allocate_id k = Some (i, k')" "k_next k \<noteq> 0"
  shows "k_leaves k i = None" "i \<noteq> SessionId 0" "k' = k\<lparr>k_next := bump (session_as_u64 i)\<rparr>"
proof -
  obtain n nx where "allocate_loop (\<lambda>n. k_leaves k (SessionId n) \<noteq> None) (k_next k) = Some (n, nx)" "i = SessionId n"
    "k' = k\<lparr>k_next := nx\<rparr>"
    using assms(1) by (auto simp: allocate_id_def bind_eq_Some_conv simp del: not_None_eq)
  with allocate_found [OF this(1)] assms(2)
  show "k_leaves k i = None" "i \<noteq> SessionId 0" "k' = k\<lparr>k_next := bump (session_as_u64 i)\<rparr>" by auto
qed

lemma create_node_nav:
  assumes nav: "nav k" and r: "create_node kind parent k = Some (r, k')"
  shows "nav k'"
proof (cases "case parent of None \<Rightarrow> False | Some p \<Rightarrow> k_nodes k p = None")
  case True
  with r nav show ?thesis by (simp add: create_node_def)
next
  case False
  then have p: "case parent of None \<Rightarrow> True | Some p \<Rightarrow> k_nodes k p \<noteq> None" by (auto split: option.splits)
  have n: "nav_ok (k_nodes k)" "k_next_node k \<noteq> 0" using nav by (simp_all add: nav_def)
  obtain i k1 where a: "allocate_node_id k = Some (i, k1)"
    using r False by (auto simp: create_node_def bind_eq_Some_conv)
  note i = allocate_node_id_cases [OF a n(2)]
  have "k' = k\<lparr>k_next_node := bump (node_as_u64 i),
      k_nodes := push_child parent i ((k_nodes k)(i \<mapsto> \<lparr>cn_kind = kind, cn_parent = parent, cn_children = []\<rparr>))\<rparr>"
    using r False a i(3) p by (auto simp: create_node_def push_child_def Let_def split: option.splits)
  with create_pointers [OF i(1) p n(1), of kind] nav show ?thesis by (simp add: nav_def)
qed

lemma attach_leaf_nav: "nav k \<Longrightarrow> nav (snd (attach_leaf node leaf k))"
proof -
  assume nav: "nav k"
  show ?thesis
  proof (cases "k_leaves k leaf = None \<or> k_nodes k node = None")
    case True
    with nav show ?thesis by (auto simp: attach_leaf_def split: option.split)
  next
    case False
    then obtain n where n: "k_nodes k node = Some n" by auto
    let ?ns = "(k_nodes k)(node \<mapsto> n\<lparr>cn_children := cn_children n @ [Leaf leaf]\<rparr>)"
    have p: "parent_of ?ns c = parent_of (k_nodes k) c" "children_at ?ns c = children_at (k_nodes k) c"
      "set (leaves_at ?ns c) \<subseteq> insert leaf (set (leaves_at (k_nodes k) c))" for c
      using n by (auto simp: parent_of_def children_at_def leaves_at_def)
    have "finite (dom ?ns)" using nav by (simp add: nav_def nav_ok_def)
    with p nav have "nav_ok ?ns" by (auto simp: nav_def intro: nav_ok_cong)
    moreover have "above ?ns = above (k_nodes k)" by (rule above_cong) (rule p(1))
    moreover have "shown ?ns UNIV \<subseteq> insert leaf (shown (k_nodes k) UNIV)" using p(3) by (auto simp: shown_def)
    ultimately show ?thesis using nav False n by (auto simp: attach_leaf_def nav_def)
  qed
qed

lemma reparent_nav:
  assumes nav: "nav k" and p: "proper (Reparent node new_parent) k"
  shows "nav (snd (reparent_node node new_parent k))"
proof (cases "k_nodes k node = None \<or> (case new_parent of None \<Rightarrow> False | Some p \<Rightarrow> k_nodes k p = None \<or> p = node)")
  case True
  with nav show ?thesis by (auto simp: reparent_node_def)
next
  case False
  then have q: "k_nodes k node \<noteq> None" "case new_parent of None \<Rightarrow> True | Some p \<Rightarrow> k_nodes k p \<noteq> None \<and> p \<noteq> node"
    by (auto split: option.splits)
  have n: "nav_ok (k_nodes k)" "acyclic (above (k_nodes k))" using nav by (simp_all add: nav_def)
  show ?thesis
  proof (rule reparent_pointers [OF q n(1)])
  fix ns assume m: "reparent_node node new_parent k = (Inr (), k\<lparr>k_nodes := ns\<rparr>)"
    "\<And>c. parent_of ns c = (if c = node then new_parent else parent_of (k_nodes k) c)"
    "\<And>j. children_at ns j = filter (\<lambda>c. c \<noteq> node) (children_at (k_nodes k) j) @ (if new_parent = Some j then [node] else [])"
    "\<And>j. leaves_at ns j = leaves_at (k_nodes k) j"
    "\<And>j. map_option cn_kind (ns j) = map_option cn_kind (k_nodes k j)"
    "dom ns = dom (k_nodes k)"
  let ?ns = ns
  have "snd (reparent_node node new_parent k) = k\<lparr>k_nodes := ns\<rparr>" by (simp add: m(1))
  moreover have "nav_ok ?ns"
    using n(1) by (auto simp: nav_ok_def m(2,3,6))
  moreover have "acyclic (above ?ns)"
  proof -
    have sub: "above ?ns \<subseteq> (case new_parent of None \<Rightarrow> above (k_nodes k) | Some p \<Rightarrow> insert (p, node) (above (k_nodes k)))"
      by (auto simp: above_def m(2) split: option.split)
    show ?thesis
    proof (cases new_parent)
      case None
      with sub n(2) show ?thesis by (auto intro: acyclic_subset)
    next
      case (Some q)
      with p have "(node, q) \<notin> (above (k_nodes k))\<^sup>*" by (simp add: subtree_def)
      with n(2) have "acyclic (insert (q, node) (above (k_nodes k)))" by (simp add: acyclic_insert)
      with sub Some show ?thesis by (auto intro: acyclic_subset)
    qed
  qed
  moreover have "shown ?ns UNIV = shown (k_nodes k) UNIV"
    by (simp add: shown_def m(4))
  ultimately show ?thesis using nav by (simp add: nav_def)
  qed
qed

lemma dom_end_leaves: "dom (end_leaves P A ls) = dom ls"
  by (auto simp: end_leaves_def dom_def split: if_splits)

lemma close_nav:
  assumes nav: "nav k" and r: "close_node P node k = Some (r, k')"
  shows "nav k'"
proof (cases "k_nodes k node = None")
  case True
  with r nav show ?thesis by (simp add: close_node_def collect_subtree_def)
next
  case False
  let ?A = "subtree (k_nodes k) node"
  from nav False show ?thesis
  proof (cases rule: close_node_cases [where P = P])
    case (closed k1)
    have n: "nav_ok (k_nodes k)" using nav by (simp add: nav_def)
    have "shown (k_nodes k1) UNIV \<subseteq> shown (k_nodes k) UNIV"
      unfolding closed(2) shown_def by (auto simp: without_pointers(3) [OF n] split: if_splits)
    with closed r nav without_nav [OF n, of node] show ?thesis
      by (auto simp: nav_def dom_end_leaves intro: acyclic_subset)
  next
    case (failed e k1)
    with r ends_dom [OF failed(2)] nav show ?thesis
      by (intro nav_leaves [OF nav]) (auto simp: ends_def)
  qed
qed

lemma spawn_nav:
  assumes nav: "nav k" and r: "spawn_leaf_with sp k = Some (r, k')"
  shows "nav k'"
proof (cases sp)
  case (Inl e)
  with r nav show ?thesis by (simp add: spawn_leaf_with_def)
next
  case (Inr s)
  then obtain i k1 where a: "allocate_id k = Some (i, k1)"
    "k' = record_graph i EvSpawn (k1\<lparr>k_leaves := (k_leaves k1)(i \<mapsto> s)\<rparr>)"
    using r by (auto simp: spawn_leaf_with_def bind_eq_Some_conv)
  have "k_next k \<noteq> 0" using nav by (simp add: nav_def)
  from allocate_id_cases [OF a(1) this] a(2) nav show ?thesis
    by (auto simp: nav_def record_graph_def)
qed

lemma record_graph_frame [simp]:
  "k_leaves (record_graph i e k) = k_leaves k" "k_nodes (record_graph i e k) = k_nodes k"
  "k_next (record_graph i e k) = k_next k" "k_next_node (record_graph i e k) = k_next_node k"
  by (simp_all add: record_graph_def)

lemma put_leaf_frame [simp]:
  "k_nodes (put_leaf i s k) = k_nodes k" "k_next (put_leaf i s k) = k_next k"
  "k_next_node (put_leaf i s k) = k_next_node k" "k_events (put_leaf i s k) = k_events k"
  "k_next_event (put_leaf i s k) = k_next_event k"
  by (simp_all add: put_leaf_def)

lemma put_leaf_leaves [simp]: "k_leaves (put_leaf i s k) = (k_leaves k)(i \<mapsto> s)"
  by (simp add: put_leaf_def)

lemma step_nav:
  assumes nav: "nav k" and p: "proper op k" and d: "kernel_do P pid grace op k = Some k'"
  shows "nav k'"
proof (cases op)
  case (Reparent n q)
  with reparent_nav [OF nav, of n q] p d show ?thesis by simp
next
  case (ReapLeaf now i)
  with d show ?thesis
    by (intro nav_leaves [OF nav])
      (auto simp: reap_def Let_def split_beta split: option.splits sum.splits if_splits)
next
  case (FrameFor now i f)
  with d show ?thesis
    by (intro nav_leaves [OF nav])
      (auto simp: kernel_on_frame_def Let_def split_beta split: option.splits sum.splits if_splits)
next
  case (TerminateLeaf i)
  with d show ?thesis
    by (intro nav_leaves [OF nav])
      (auto simp: kernel_terminate_def Let_def split_beta split: option.splits sum.splits if_splits)
next
  case (LeafCwd i)
  with d show ?thesis
    by (intro nav_leaves [OF nav])
      (auto simp: kernel_cwd_def Let_def split_beta split: option.splits if_splits)
next
  case TakeLayout
  with d have "k' = snd (layout_rows P pid (sorted_list_of_set (dom (k_leaves k))) k)"
    by (simp add: layout_snapshot_def)
  then show ?thesis by (intro nav_leaves [OF nav]) (simp_all add: layout_frame)
next
  case (Borrow i o)
  with d show ?thesis
    by (intro nav_leaves [OF nav]) (auto simp: borrow_def split: option.splits if_splits)
qed (use d nav create_node_nav attach_leaf_nav close_nav spawn_nav in \<open>auto\<close>)

lemma nav_new: "nav kernel_new"
  by (simp add: nav_def kernel_new_def nav_ok_def children_at_def parent_of_def above_def shown_def leaves_at_def
      acyclic_def)

lemma reach_nav: "kernel_reach P pid grace k \<Longrightarrow> nav k"
  by (induction rule: kernel_reach.induct) (auto intro: nav_new step_nav)

lemma reach_returns:
  assumes nav: "nav k" and few: "card (dom (k_nodes k)) < u64_max" "card (dom (k_leaves k)) < u64_max"
  shows "kernel_do P pid grace op k \<noteq> None"
proof -
  have fin: "finite (dom (k_nodes k))" "finite (dom (k_leaves k))" "k_next_node k \<noteq> 0" "k_next k \<noteq> 0"
    using nav by (simp_all add: nav_def nav_ok_def)
  obtain n m where free: "n \<noteq> 0" "k_nodes k (NodeId n) = None" "m \<noteq> 0" "k_leaves k (SessionId m) = None"
    using few_leave_free [of NodeId "k_nodes k"] few_leave_free [of SessionId "k_leaves k"] fin few
    by (auto simp: inj_def)
  have a: "allocate_node_id k \<noteq> None" "allocate_id k \<noteq> None"
    using allocate_returns [OF fin(3) free(1), of "\<lambda>n. k_nodes k (NodeId n) \<noteq> None"] free(2)
      allocate_returns [OF fin(4) free(3), of "\<lambda>n. k_leaves k (SessionId n) \<noteq> None"] free(4)
    by (auto simp: allocate_node_id_def allocate_id_def)
  show ?thesis
  proof (cases op)
    case (CreateNode kd p)
    with a(1) show ?thesis by (auto simp: create_node_def bind_split Let_def split: option.split)
  next
    case (SpawnLeaf s)
    with a(2) show ?thesis by (cases s) (auto simp: spawn_leaf_with_def bind_split split: option.split)
  next
    case (CloseNode node)
    show ?thesis
    proof (cases "k_nodes k node = None")
      case True
      with CloseNode show ?thesis by (simp add: close_node_def collect_subtree_def)
    next
      case False
      from nav False have "close_node P node k \<noteq> None" by (cases rule: close_node_cases [where P = P]) auto
      with CloseNode show ?thesis by simp
    qed
  qed auto
qed

section \<open>The event log\<close>

text \<open>Session operations that neither observe an exit nor end the child.\<close>

definition same_life :: "'p session \<Rightarrow> 'p session \<Rightarrow> bool" where
  "same_life s s' \<longleftrightarrow> ss_child_exit s' = ss_child_exit s \<and> ss_terminated s' = ss_terminated s"

lemma same_life_refl [simp]: "same_life s s"
  by (simp add: same_life_def)

lemma same_life_trans: "same_life s s' \<Longrightarrow> same_life s' s'' \<Longrightarrow> same_life s s''"
  by (simp add: same_life_def)

lemma record_life [simp]: "ss_terminated (record_event e s) = ss_terminated s"
  by (simp add: record_event_def Let_def)

lemma input_life: "input_only s s' \<Longrightarrow> same_life s s'"
  by (simp add: same_life_def input_only_fields)

lemmas expire_life = expire_input [THEN input_life]
lemmas on_data_life = on_data_input [THEN input_life]
lemmas on_resize_life = on_resize_input [THEN input_life]

lemma on_frame_life: "same_life s (snd (on_frame P now grace f s))"
proof (cases f)
  case (Attach g i pr ob)
  then show ?thesis
    by (simp add: on_attach_def Let_def take_input_lease_def enqueue_outbound_def same_life_def split: option.split)
qed (simp_all add: on_data_life on_resize_life, simp_all add: same_life_def)

lemma take_in_life [simp]:
  "ss_child_exit (take_in bs s) = ss_child_exit s" "ss_terminated (take_in bs s) = ss_terminated s"
  by (simp_all add: take_in_def)

lemma do_life: "op \<noteq> PollChild \<Longrightarrow> op \<noteq> TerminateOp \<Longrightarrow> same_life s (session_do P grace op s)"
proof (cases op)
  case Readable
  then show ?thesis
    by (auto simp: on_pty_readable_def read_pty_def note_stalled_read_def enqueue_outbound_def same_life_def
        Let_def split_beta split: sum.split)
next
  case (Drain mx)
  then show ?thesis
    by (auto simp: drain_pty_at_most_def read_pty_def note_stalled_read_def same_life_def Let_def split_beta
        split: sum.split)
next
  case (LeasedInput now nonce bs)
  then show ?thesis using leased_input [THEN input_life] by simp
qed (simp_all add: on_frame_life expire_life,
    auto simp: detach_def release_observer_def pop_outbound_def take_resync_history_def cwd_def
      install_checkpoint_def same_life_def Let_def split: list.split sum.split)

text \<open>What the log says of one leaf.\<close>

definition life :: "session_id \<Rightarrow> 'p kernel \<Rightarrow> graph_event_kind list" where
  "life i k = map ge_kind (filter (\<lambda>e. ge_session e = i) (k_events k))"

definition told_right :: "'p session \<Rightarrow> graph_event_kind list \<Rightarrow> bool" where
  "told_right s evs \<longleftrightarrow> (\<exists>rest. evs = EvSpawn # rest \<and> EvSpawn \<notin> set rest) \<and>
     count_list evs EvExit = (if ss_child_exit s = None then 0 else 1) \<and>
     count_list evs EvTerminate \<le> (if ss_terminated s then 1 else 0)"

definition story :: "'p session option \<Rightarrow> graph_event_kind list \<Rightarrow> bool" where
  "story m evs \<longleftrightarrow> (case m of None \<Rightarrow> evs = [] | Some s \<Rightarrow> told_right s evs)"

definition ids_ok :: "'p kernel \<Rightarrow> bool" where
  "ids_ok k \<longleftrightarrow> map ge_id (k_events k) = map (min u64_max) [1..<length (k_events k) + 1] \<and>
     k_next_event k = min u64_max (length (k_events k) + 1)"

definition log_ok :: "'p kernel \<Rightarrow> bool" where
  "log_ok k \<longleftrightarrow> ids_ok k \<and> (\<forall>i. story (k_leaves k i) (life i k))"

lemma story_simps [simp]: "story None evs \<longleftrightarrow> evs = []" "story (Some s) evs \<longleftrightarrow> told_right s evs"
  by (simp_all add: story_def)

lemma life_record [simp]: "life j (record_graph i e k) = life j k @ (if j = i then [e] else [])"
  by (simp add: life_def record_graph_def)

lemma life_put [simp]: "life j (put_leaf i s k) = life j k"
  by (simp add: life_def)

lemma ids_put [simp]: "ids_ok (put_leaf i s k) = ids_ok k"
  by (simp add: ids_ok_def)

lemma ids_record: "ids_ok k \<Longrightarrow> ids_ok (record_graph i e k)"
  by (auto simp: ids_ok_def record_graph_def sat_add_def min_def)

text \<open>Storing a session back without an event, and with one.\<close>

lemma log_put:
  assumes "log_ok k" "k_leaves k i = Some s" "\<And>evs. told_right s evs \<Longrightarrow> told_right s' evs"
  shows "log_ok (put_leaf i s' k)"
proof -
  have "story (k_leaves k i) (life i k)" using assms(1) by (simp add: log_ok_def)
  with assms show ?thesis by (simp add: log_ok_def)
qed

lemma log_put_record:
  assumes "log_ok k" "k_leaves k i = Some s" "\<And>evs. told_right s evs \<Longrightarrow> told_right s' (evs @ [e])"
  shows "log_ok (record_graph i e (put_leaf i s' k))"
proof -
  have "story (k_leaves k i) (life i k)" using assms(1) by (simp add: log_ok_def)
  with assms show ?thesis by (simp add: log_ok_def ids_record)
qed

lemma told_same_life: "same_life s s' \<Longrightarrow> told_right s evs \<Longrightarrow> told_right s' evs"
  by (simp add: same_life_def told_right_def)

lemma told_event:
  "told_right s evs \<Longrightarrow> same_life s s' \<Longrightarrow> told_right s' (evs @ [EvAttach])"
  "told_right s evs \<Longrightarrow> ss_child_exit s = None \<Longrightarrow> ss_child_exit s' \<noteq> None \<Longrightarrow> ss_terminated s' = ss_terminated s \<Longrightarrow>
    told_right s' (evs @ [EvExit])"
  "told_right s evs \<Longrightarrow> \<not> ss_terminated s \<Longrightarrow> ss_terminated s' \<Longrightarrow> ss_child_exit s' = ss_child_exit s \<Longrightarrow>
    told_right s' (evs @ [EvTerminate])"
  by (auto simp: told_right_def same_life_def)

lemma log_same: "log_ok k \<Longrightarrow> k_events k' = k_events k \<Longrightarrow> k_next_event k' = k_next_event k \<Longrightarrow>
    k_leaves k' = k_leaves k \<Longrightarrow> log_ok k'"
  by (simp add: log_ok_def ids_ok_def life_def)

lemma poll_child_life:
  assumes "poll_child P s = (r, s')"
  shows "ss_terminated s' = ss_terminated s"
    and "r = Inr True \<Longrightarrow> ss_child_exit s = None \<and> ss_child_exit s' \<noteq> None"
    and "r \<noteq> Inr True \<Longrightarrow> ss_child_exit s' = ss_child_exit s"
  using assms
  by (auto simp: poll_child_def Let_def split_beta enqueue_outbound_def split: if_splits sum.splits option.splits)

lemma reap_log: "log_ok k \<Longrightarrow> log_ok (snd (reap P now i k))"
proof (cases "k_leaves k i")
  case (Some s)
  assume ok: "log_ok k"
  let ?s = "expire_input_lease_if_due now s"
  obtain r s' where p: "poll_child P ?s = (r, s')" by force
  note l = poll_child_life [OF p] expire_life [of s now]
  have quiet: "r \<noteq> Inr True \<Longrightarrow> log_ok (put_leaf i s' k)"
    using l by (intro log_put [OF ok Some]) (auto simp: same_life_def told_right_def)
  have died: "r = Inr True \<Longrightarrow> log_ok (record_graph i EvExit (put_leaf i s' k))"
    using l by (intro log_put_record [OF ok Some] told_event(2)) (auto simp: same_life_def)
  show ?thesis
    using Some p quiet died by (auto simp: reap_def Let_def split: sum.split)
qed (simp add: reap_def)

lemma frame_log: "log_ok k \<Longrightarrow> log_ok (snd (kernel_on_frame P now grace i f k))"
proof (cases "k_leaves k i")
  case (Some s)
  assume ok: "log_ok k"
  obtain r s' where p: "on_frame P now grace f s = (r, s')" by force
  then have l: "same_life s s'" using on_frame_life [of s P now grace f] by simp
  have "log_ok (put_leaf i s' k)" by (rule log_put [OF ok Some]) (rule told_same_life [OF l])
  moreover have "log_ok (record_graph i EvAttach (put_leaf i s' k))"
    by (rule log_put_record [OF ok Some]) (rule told_event(1) [OF _ l])
  ultimately show ?thesis
    using Some p by (simp add: kernel_on_frame_def Let_def split: sum.split)
qed (simp add: kernel_on_frame_def)

lemma terminate_log: "log_ok k \<Longrightarrow> log_ok (snd (kernel_terminate P i k))"
proof (cases "k_leaves k i")
  case (Some s)
  assume ok: "log_ok k"
  show ?thesis
  proof (cases "ss_terminated s")
    case False
    obtain r s' where p: "session_terminate P s = (r, s')" by force
    then have l: "ss_terminated s'" "ss_child_exit s' = ss_child_exit s"
      using False by (auto simp: session_terminate_def split_beta)
    have "log_ok (put_leaf i s' k)" using l False by (intro log_put [OF ok Some]) (auto simp: told_right_def)
    moreover have "log_ok (record_graph i EvTerminate (put_leaf i s' k))"
      using l False by (intro log_put_record [OF ok Some] told_event(3))
    ultimately show ?thesis
      using Some p False by (simp add: kernel_terminate_def Let_def split: sum.split)
  qed (use ok Some in \<open>simp add: kernel_terminate_def\<close>)
qed (simp add: kernel_terminate_def)

lemma terminate_all_log: "log_ok k \<Longrightarrow> log_ok (snd (terminate_all P is k))"
proof (induction "is" arbitrary: k)
  case (Cons i "is")
  with terminate_log [OF Cons.prems, of P i] show ?case
    by (auto split: prod.split sum.split)
qed simp

lemma layout_log: "log_ok k \<Longrightarrow> log_ok (snd (layout_rows P pid is k))"
proof (induction "is" arbitrary: k)
  case (Cons i "is")
  show ?case
  proof (cases "k_leaves k i")
    case None
    with Cons show ?thesis by simp
  next
    case (Some s)
    have "same_life s (snd (leaf_layout P pid i s))"
      by (auto simp: leaf_layout_def Let_def split_beta cwd_def same_life_def split: sum.split)
    then have "log_ok (put_leaf i (snd (leaf_layout P pid i s)) k)"
      by (intro log_put [OF Cons.prems Some]) (rule told_same_life)
    from Cons.IH [OF this] Some show ?thesis by (simp add: split_beta)
  qed
qed simp

lemma close_log:
  assumes "log_ok k" "close_node P node k = Some (r, k')"
  shows "log_ok k'"
proof -
  obtain c where c: "collect_subtree node k = Some c" using assms(2) by (auto simp: close_node_def bind_eq_Some_conv)
  show ?thesis
  proof (cases c)
    case (Inr nodes)
    have "log_ok (snd (terminate_all P (leaves_in nodes k) k))" by (rule terminate_all_log [OF assms(1)])
    with assms(2) c Inr show ?thesis
      by (auto simp: close_node_def remove_subtree_def Let_def intro: log_same split: prod.splits sum.splits)
  qed (use assms c in \<open>simp add: close_node_def\<close>)
qed

lemma create_log:
  assumes "log_ok k" "create_node kd p k = Some (r, k')"
  shows "log_ok k'"
proof (rule log_same [OF assms(1)])
  show "k_events k' = k_events k" "k_next_event k' = k_next_event k" "k_leaves k' = k_leaves k"
    using assms(2)
    by (auto simp: create_node_def allocate_node_id_def bind_eq_Some_conv Let_def split: if_splits option.splits)
qed

lemma spawn_log:
  assumes ok: "log_ok k" and nav: "nav k" and "proper (SpawnLeaf sp) k" and r: "spawn_leaf_with sp k = Some (r, k')"
  shows "log_ok k'"
proof (cases sp)
  case (Inl e)
  with r ok show ?thesis by (simp add: spawn_leaf_with_def)
next
  case (Inr s)
  then obtain i k1 where a: "allocate_id k = Some (i, k1)"
    "k' = record_graph i EvSpawn (k1\<lparr>k_leaves := (k_leaves k1)(i \<mapsto> s)\<rparr>)"
    using r by (auto simp: spawn_leaf_with_def bind_eq_Some_conv)
  have "k_next k \<noteq> 0" using nav by (simp add: nav_def)
  note i = allocate_id_cases [OF a(1) this]
  let ?k = "k1\<lparr>k_leaves := (k_leaves k1)(i \<mapsto> s)\<rparr>"
  have l: "life j ?k = life j k" "ids_ok ?k = ids_ok k" "k_leaves ?k = (k_leaves k)(i \<mapsto> s)" for j
    by (simp_all add: i(3) life_def ids_ok_def)
  have new: "told_right s [EvSpawn]" using assms(3) Inr by (simp add: told_right_def)
  have "life i k = []" using ok i(1) by (metis log_ok_def story_simps(1))
  with ok new show ?thesis by (simp add: a(2) log_ok_def ids_record l)
qed

lemma step_log:
  assumes ok: "log_ok k" and nav: "nav k" and p: "proper op k" and d: "kernel_do P pid grace op k = Some k'"
  shows "log_ok k'"
proof (cases op)
  case (LeafCwd i)
  have "same_life s (snd (cwd P s))" for s by (auto simp: cwd_def same_life_def split: sum.split)
  with LeafCwd d ok show ?thesis
    by (cases "k_leaves k i") (auto simp: kernel_cwd_def split_beta Let_def intro: log_put told_same_life)
next
  case (Borrow i x)
  then have "same_life s (session_do P grace x s)" for s using p by (intro do_life) auto
  with Borrow d ok show ?thesis
    by (cases "k_leaves k i") (auto simp: borrow_def intro: log_put told_same_life)
next
  case (AttachLeaf n i)
  with d ok show ?thesis by (auto simp: attach_leaf_def intro: log_same split: if_splits option.splits)
next
  case (Reparent n q)
  with d ok show ?thesis
    by (auto simp: reparent_node_def Let_def intro: log_same split: if_splits option.splits)
qed (use d ok nav p create_log close_log spawn_log reap_log frame_log terminate_log layout_log in
    \<open>auto simp: layout_snapshot_def\<close>)

lemma reach_log: "kernel_reach P pid grace k \<Longrightarrow> log_ok k"
proof (induction rule: kernel_reach.induct)
  case reach_new
  then show ?case by (simp add: log_ok_def ids_ok_def kernel_new_def life_def)
next
  case (reach_do k op k')
  with step_log reach_nav show ?case by blast
qed

section \<open>Properties\<close>

text \<open>A kernel with one window of one leaf, for the examples.\<close>

lemma allocate_now: "\<not> live n \<Longrightarrow> allocate_loop live n = Some (n, bump n)"
  by (simp add: allocate_loop.simps)

definition demo_leaf :: "byte list session" where
  "demo_leaf = session_new [] demo_size False"

definition demo_kernel :: "byte list kernel" where
  "demo_kernel =
     \<lparr>k_next = 2, k_leaves = [SessionId 1 \<mapsto> demo_leaf],
      k_events = [\<lparr>ge_id = 1, ge_session = SessionId 1, ge_kind = EvSpawn\<rparr>], k_next_event = 2,
      k_nodes = [NodeId 1 \<mapsto> \<lparr>cn_kind = Workspace, cn_parent = None, cn_children = [Node (NodeId 2)]\<rparr>,
        NodeId 2 \<mapsto> \<lparr>cn_kind = Tab, cn_parent = Some (NodeId 1), cn_children = [Leaf (SessionId 1)]\<rparr>],
      k_next_node = 3\<rparr>"

lemma demo_reach: "kernel_reach demo_pty (\<lambda>_. 0) 0 demo_kernel"
proof -
  let ?do = "kernel_do demo_pty (\<lambda>_. 0) 0"
  have b: "bump 1 = 2" "bump 2 = 3" by (simp_all add: bump_def)
  obtain k1 k2 k3 where k: "?do (CreateNode Workspace None) kernel_new = Some k1"
    "?do (CreateNode Tab (Some (NodeId 1))) k1 = Some k2" "?do (SpawnLeaf (Inr demo_leaf)) k2 = Some k3"
    "?do (AttachLeaf (NodeId 2) (SessionId 1)) k3 = Some demo_kernel"
    by (simp add: kernel_new_def create_node_def allocate_node_id_def allocate_id_def allocate_now b Let_def
        spawn_leaf_with_def record_graph_def attach_leaf_def sat_add_def demo_kernel_def fun_upd_twist)
  have leaf: "ss_child_exit demo_leaf = None" "\<not> ss_terminated demo_leaf" by (simp_all add: demo_leaf_def session_new_def)
  have "kernel_reach demo_pty (\<lambda>_. 0) 0 k1" by (rule reach_do [OF reach_new _ k(1)]) simp
  then have "kernel_reach demo_pty (\<lambda>_. 0) 0 k2" by (rule reach_do [OF _ _ k(2)]) simp
  then have "kernel_reach demo_pty (\<lambda>_. 0) 0 k3" by (rule reach_do [OF _ _ k(3)]) (simp add: leaf)
  then show ?thesis by (rule reach_do [OF _ _ k(4)]) simp
qed

text \<open>
  Identifiers are fresh and their allocation ends. The loops of \<open>allocate_node_id\<close> and
  \<open>allocate_id\<close> return exactly when some non-zero number is free, which they then hand out: the
  result is not live, is never zero, and only the counter changes, to the number after it.
\<close>

theorem allocation_ends_fresh:
  assumes "k_next_node k \<noteq> 0" and "k_next k \<noteq> 0"
  shows "(allocate_node_id k \<noteq> None \<longleftrightarrow> (\<exists>n. n \<noteq> 0 \<and> k_nodes k (NodeId n) = None)) \<and>
    (\<forall>i k'. allocate_node_id k = Some (i, k') \<longrightarrow>
      k_nodes k i = None \<and> i \<noteq> NodeId 0 \<and> k' = k\<lparr>k_next_node := bump (node_as_u64 i)\<rparr>) \<and>
    (allocate_id k \<noteq> None \<longleftrightarrow> (\<exists>n. n \<noteq> 0 \<and> k_leaves k (SessionId n) = None)) \<and>
    (\<forall>i k'. allocate_id k = Some (i, k') \<longrightarrow>
      k_leaves k i = None \<and> i \<noteq> SessionId 0 \<and> k' = k\<lparr>k_next := bump (session_as_u64 i)\<rparr>)"
proof -
  have "allocate_node_id k \<noteq> None \<longleftrightarrow> allocate_loop (\<lambda>n. k_nodes k (NodeId n) \<noteq> None) (k_next_node k) \<noteq> None"
    "allocate_id k \<noteq> None \<longleftrightarrow> allocate_loop (\<lambda>n. k_leaves k (SessionId n) \<noteq> None) (k_next k) \<noteq> None"
    by (auto simp: allocate_node_id_def allocate_id_def bind_eq_None_conv simp del: not_None_eq)
  then show ?thesis
    using allocate_iff [OF assms(1)] allocate_iff [OF assms(2)] allocate_node_id_cases [OF _ assms(1)]
      allocate_id_cases [OF _ assms(2)] by simp
qed

lemma allocation_ends_fresh_witness:
  "\<exists>i k'. allocate_node_id demo_kernel = Some (i, k') \<and> k_nodes demo_kernel i = None \<and> i \<noteq> NodeId 0"
proof -
  have nz: "k_next_node demo_kernel \<noteq> 0" "k_next demo_kernel \<noteq> 0" by (simp_all add: demo_kernel_def)
  have "\<exists>n. n \<noteq> 0 \<and> k_nodes demo_kernel (NodeId n) = None"
    by (rule exI [of _ 7]) (simp add: demo_kernel_def)
  with allocation_ends_fresh [OF nz] obtain i k' where "allocate_node_id demo_kernel = Some (i, k')" by auto
  with allocation_ends_fresh [OF nz] show ?thesis by blast
qed

text \<open>A container moved below itself is on a cycle afterwards; nothing else is out of order.\<close>

lemma move_below_cycles:
  assumes "kernel_reach P pid grace k" and "k_nodes k node \<noteq> None"
    and "below \<in> subtree (k_nodes k) node" and "below \<noteq> node"
  obtains ms where "reparent_node node (Some below) k = (Inr (), k\<lparr>k_nodes := ms\<rparr>)" "nav_ok ms" "dom ms = dom (k_nodes k)"
    "(node, node) \<in> (above ms)\<^sup>+"
proof -
  let ?ns = "k_nodes k"
  have n: "nav_ok ?ns" "acyclic (above ?ns)" using reach_nav [OF assms(1)] by (simp_all add: nav_def)
  have path: "(node, below) \<in> (above ?ns)\<^sup>+"
    using assms(3,4) by (auto simp: subtree_def dest: rtranclD)
  then have "below \<in> Range (above ?ns)" by (auto dest: tranclD2)
  then have live: "?ns below \<noteq> None" using parent_live by (auto simp: above_def)
  have np: "case Some below of None \<Rightarrow> True | Some p \<Rightarrow> ?ns p \<noteq> None \<and> p \<noteq> node" using live assms(4) by simp
  show thesis
  proof (rule reparent_pointers [OF assms(2) np n(1)])
    fix ms
    assume m: "reparent_node node (Some below) k = (Inr (), k\<lparr>k_nodes := ms\<rparr>)"
      "\<And>c. parent_of ms c = (if c = node then Some below else parent_of ?ns c)"
      "\<And>j. children_at ms j = filter (\<lambda>c. c \<noteq> node) (children_at ?ns j) @ (if Some below = Some j then [node] else [])"
      "dom ms = dom ?ns"
    have ok: "nav_ok ms" using n(1) by (auto simp: nav_ok_def m(2,3,4))
    have "(node, x) \<in> (above ms)\<^sup>+" if "(node, x) \<in> (above ?ns)\<^sup>+" for x
      using that
    proof (induction rule: trancl_induct)
      case (base y)
      then have "y \<noteq> node" using n(2) by (auto simp: acyclic_def)
      with base show ?case by (auto simp: above_def m(2))
    next
      case (step y z)
      then have "z \<noteq> node" using n(2) by (meson acyclic_def trancl_into_trancl)
      with step have "(y, z) \<in> above ms" by (simp add: above_def m(2))
      with step.IH show ?case by (rule trancl_into_trancl)
    qed
    from this [OF path] have "(node, node) \<in> (above ms)\<^sup>+"
      by (rule trancl_into_trancl) (simp add: above_def m(2))
    with m(1,4) ok show thesis by (intro that) simp_all
  qed
qed

text \<open>
  C22: the containers stay a forest, unless one is moved below itself. In every kernel reached by any
  sequence of operations without such a move, child lists and parent pointers name each other, no child is
  listed twice, no container is below itself, every leaf that is shown exists, and the snapshot lists
  every live container once, in the order of the ids; while an identifier of each kind is free, every
  further operation returns. The code does not check for such a move, and the condition is the weakest:
  every move of a container below itself is carried out and puts it on a cycle.
\<close>

theorem containers_stay_a_forest:
  assumes "kernel_reach P pid grace k"
  shows "(\<forall>i c. c \<in> set (children_at (k_nodes k) i) \<longleftrightarrow> parent_of (k_nodes k) c = Some i) \<and>
    (\<forall>i. distinct (children_at (k_nodes k) i)) \<and> (\<forall>i. (i, i) \<notin> (above (k_nodes k))\<^sup>+) \<and>
    shown (k_nodes k) UNIV \<subseteq> dom (k_leaves k) \<and>
    map sn_id (container_snapshot k) = sorted_list_of_set (dom (k_nodes k)) \<and>
    (card (dom (k_nodes k)) < u64_max \<and> card (dom (k_leaves k)) < u64_max \<longrightarrow>
      (\<forall>op. kernel_do P pid grace op k \<noteq> None)) \<and>
    (\<forall>node below. k_nodes k node \<noteq> None \<and> below \<in> subtree (k_nodes k) node \<and> below \<noteq> node \<longrightarrow>
      (\<exists>k'. reparent_node node (Some below) k = (Inr (), k') \<and> (node, node) \<in> (above (k_nodes k'))\<^sup>+))"
proof -
  have nav: "nav k" using assms by (rule reach_nav)
  have fin: "finite (dom (k_nodes k))" using nav by (simp add: nav_def nav_ok_def)
  have "map sn_id (concat (map (\<lambda>i. case k_nodes k i of None \<Rightarrow> []
       | Some n \<Rightarrow> [\<lparr>sn_id = i, sn_kind = cn_kind n, sn_parent = cn_parent n, sn_children = cn_children n\<rparr>]) is)) = is"
    if "set is \<subseteq> dom (k_nodes k)" for "is"
    using that by (induction "is") auto
  then have "map sn_id (container_snapshot k) = sorted_list_of_set (dom (k_nodes k))"
    using fin by (simp add: container_snapshot_def)
  moreover have "\<exists>k'. reparent_node node (Some below) k = (Inr (), k') \<and> (node, node) \<in> (above (k_nodes k'))\<^sup>+"
    if n: "k_nodes k node \<noteq> None" "below \<in> subtree (k_nodes k) node" "below \<noteq> node" for node below
    by (rule move_below_cycles [OF assms n]) auto
  moreover have "(\<forall>i c. c \<in> set (children_at (k_nodes k) i) \<longleftrightarrow> parent_of (k_nodes k) c = Some i)"
    "\<forall>i. distinct (children_at (k_nodes k) i)" "\<forall>i. (i, i) \<notin> (above (k_nodes k))\<^sup>+"
    "shown (k_nodes k) UNIV \<subseteq> dom (k_leaves k)"
    using nav by (auto simp: nav_def nav_ok_def acyclic_def)
  ultimately show ?thesis using reach_returns [OF nav] by blast
qed

lemma containers_stay_a_forest_witness:
  "map sn_id (container_snapshot demo_kernel) = [NodeId 1, NodeId 2] \<and>
   (\<forall>i. (i, i) \<notin> (above (k_nodes demo_kernel))\<^sup>+)"
proof -
  have "dom (k_nodes demo_kernel) = {NodeId 1, NodeId 2}" by (auto simp: demo_kernel_def)
  moreover have "sorted_list_of_set {NodeId 1, NodeId 2} = [NodeId 1, NodeId 2]"
    by (simp add: less_eq_node_id_def less_node_id_def)
  ultimately show ?thesis using containers_stay_a_forest [OF demo_reach] by simp
qed

text \<open>
  C23: closing a container ends its leaves and no other. On every kernel reached without a move of a
  container below itself (after one, the closing never ends) the operation returns. When it succeeds,
  the leaves shown in the subtree have been ended, every other leaf is untouched, the containers of the
  subtree are gone with the slot in their parent, and every other container is as it was. When ending a
  leaf fails, all containers are still there and no leaf outside the subtree was touched; the error is
  returned.
\<close>

theorem close_node_is_exact:
  assumes "kernel_reach P pid grace k" and "k_nodes k node \<noteq> None"
  shows "\<exists>r k'. close_node P node k = Some (r, k') \<and>
    (case r of
       Inr _ \<Rightarrow> k_nodes k' = without (subtree (k_nodes k) node) node (k_nodes k) \<and>
         k_leaves k' = end_leaves P (shown (k_nodes k) (subtree (k_nodes k) node)) (k_leaves k)
     | Inl _ \<Rightarrow> k_nodes k' = k_nodes k \<and>
         (\<forall>i. i \<notin> shown (k_nodes k) (subtree (k_nodes k) node) \<longrightarrow> k_leaves k' i = k_leaves k i))"
proof -
  from reach_nav [OF assms(1)] assms(2) show ?thesis
  proof (cases rule: close_node_cases [where P = P])
    case (closed k')
    then show ?thesis by (intro exI [of _ "Inr ()"] exI [of _ k']) simp
  next
    case (failed e k')
    then show ?thesis by (intro exI [of _ "Inl e"] exI [of _ k']) (auto simp: ends_def)
  qed
qed

lemma close_node_is_exact_witness:
  "\<exists>r k'. close_node demo_pty (NodeId 1) demo_kernel = Some (r, k') \<and>
    (case r of Inr _ \<Rightarrow> k_nodes k' (NodeId 1) = None | Inl _ \<Rightarrow> k_nodes k' = k_nodes demo_kernel)"
proof -
  have "k_nodes demo_kernel (NodeId 1) \<noteq> None" by (simp add: demo_kernel_def)
  from close_node_is_exact [OF demo_reach this] show ?thesis
    by (force simp: without_def subtree_def split: sum.splits)
qed

text \<open>
  C24: a container moved below itself can never be closed. \<open>reparent_node\<close> refuses only the
  container itself as its new parent. Given any container below it, it succeeds, and closing the
  moved container afterwards never returns: the walk of \<open>collect_subtree\<close> goes round the cycle.
\<close>

theorem move_below_itself_never_closes:
  assumes "kernel_reach P pid grace k" and "k_nodes k node \<noteq> None"
    and "below \<in> subtree (k_nodes k) node" and "below \<noteq> node"
  shows "\<exists>k'. reparent_node node (Some below) k = (Inr (), k') \<and> close_node P node k' = None"
proof -
  obtain ms where m: "reparent_node node (Some below) k = (Inr (), k\<lparr>k_nodes := ms\<rparr>)" "nav_ok ms"
    "dom ms = dom (k_nodes k)" "(node, node) \<in> (above ms)\<^sup>+"
    by (rule move_below_cycles [OF assms])
  from collect_loops [OF m(2,4), of "[node]"] m(1,3) assms(2) show ?thesis
    by (auto simp: close_node_def collect_subtree_def)
qed

lemma move_below_itself_never_closes_witness:
  "\<exists>k'. reparent_node (NodeId 1) (Some (NodeId 2)) demo_kernel = (Inr (), k') \<and> close_node demo_pty (NodeId 1) k' = None"
proof -
  have "(NodeId 1, NodeId 2) \<in> above (k_nodes demo_kernel)"
    by (simp add: above_def parent_of_def demo_kernel_def)
  then have "NodeId 2 \<in> subtree (k_nodes demo_kernel) (NodeId 1)" by (auto simp: subtree_def)
  moreover have "k_nodes demo_kernel (NodeId 1) \<noteq> None" by (simp add: demo_kernel_def)
  ultimately show ?thesis using move_below_itself_never_closes [OF demo_reach] by simp
qed

text \<open>
  C25: the event log tells the life of every leaf once. In every reached kernel the events carry
  consecutive numbers from one (up to the saturation of the counter); a number that is no leaf has
  no events; a leaf has exactly one spawn event, which is its first, exactly one exit event once
  its exit has been observed and none before, and a terminate event at most once and only if it
  was terminated.
\<close>

theorem event_log_tells_each_life_once:
  assumes "kernel_reach P pid grace k"
  shows "map ge_id (k_events k) = map (min u64_max) [1..<length (k_events k) + 1] \<and>
    (\<forall>i. k_leaves k i = None \<longrightarrow> life i k = []) \<and>
    (\<forall>i s. k_leaves k i = Some s \<longrightarrow>
      (\<exists>rest. life i k = EvSpawn # rest \<and> EvSpawn \<notin> set rest) \<and>
      count_list (life i k) EvExit = (if ss_child_exit s = None then 0 else 1) \<and>
      count_list (life i k) EvTerminate \<le> (if ss_terminated s then 1 else 0))"
proof -
  have ok: "log_ok k" using assms by (rule reach_log)
  then have "story (k_leaves k i) (life i k)" for i by (simp add: log_ok_def)
  then have "k_leaves k i = None \<longrightarrow> life i k = []" "k_leaves k i = Some s \<longrightarrow> told_right s (life i k)" for i s
    by (metis story_simps(1), metis story_simps(2))
  with ok show ?thesis by (simp add: log_ok_def ids_ok_def told_right_def)
qed

lemma event_log_tells_each_life_once_witness:
  "count_list (life (SessionId 1) demo_kernel) EvExit = 0 \<and> life (SessionId 2) demo_kernel = []"
  using event_log_tells_each_life_once [OF demo_reach]
  by (auto simp: demo_kernel_def demo_leaf_def session_new_def)

end
