(* ===== verification/Vt_Parser.thy ===== *)
theory Vt_Parser
  imports Vt_Types
begin

text \<open>
  The byte state machine of \<^verbatim>\<open>crates/vt-engine/src/parser.rs\<close>. It holds no grid: it reports what it
  recognises through the \<open>Actions\<close> trait, a record of callbacks over an arbitrary state \<open>'s\<close>
  here. Fixed arrays are lists whose length the invariant fixes; array writes and slices are
  bounds-checked, so a panic is the value \<open>None\<close>, as is a panic of a callback. Build-time
  mutation switches of the source (\<open>crate::mutate\<close>) are off.
\<close>

section \<open>State\<close>

datatype pstate = Ground | Escape | EscapeIntermediate | CsiEntry | CsiParam | CsiIntermediate
  | CsiIgnore | OscString | OscEscape | DcsPassthrough | DcsEscape | SosPmApc | SosEscape

definition MAX_PARAMS :: nat where "MAX_PARAMS = 32"
definition MAX_INTER :: nat where "MAX_INTER = 2"
definition MAX_OSC :: nat where "MAX_OSC = 1024"
definition MAX_UTF8 :: nat where "MAX_UTF8 = 4"

record 's actions =
  act_print :: "scalar \<Rightarrow> 's \<Rightarrow> 's option"
  act_execute :: "byte \<Rightarrow> 's \<Rightarrow> 's option"
  act_csi :: "nat list \<Rightarrow> byte list \<Rightarrow> bool \<Rightarrow> byte \<Rightarrow> 's \<Rightarrow> 's option"
  act_esc :: "byte list \<Rightarrow> byte \<Rightarrow> 's \<Rightarrow> 's option"
  act_osc :: "byte list \<Rightarrow> 's \<Rightarrow> 's option"

record parser =
  p_state :: pstate
  params :: "nat list"
  param_len :: nat
  param_acc :: nat
  intermediates :: "byte list"
  inter_len :: nat
  ignore :: bool
  osc :: "byte list"
  osc_len :: nat
  utf8 :: "byte list"
  utf8_len :: nat
  utf8_needed :: nat
  putback :: "byte option"

definition parser_new :: parser where
  "parser_new =
     \<lparr>p_state = Ground, params = replicate MAX_PARAMS 0, param_len = 0, param_acc = 0,
      intermediates = replicate MAX_INTER 0, inter_len = 0, ignore = False,
      osc = replicate MAX_OSC 0, osc_len = 0, utf8 = replicate MAX_UTF8 0, utf8_len = 0,
      utf8_needed = 0, putback = None\<rparr>"

definition is_idle :: "parser \<Rightarrow> bool" where
  "is_idle p \<longleftrightarrow> p_state p = Ground \<and> utf8_len p = 0 \<and> putback p = None"

lemma is_idle_new [simp]: "is_idle parser_new"
  by (simp add: is_idle_def parser_new_def)

type_synonym 's pstep = "(parser \<times> 's) option"

section \<open>Helpers\<close>

definition REPLACEMENT :: scalar where "REPLACEMENT = 0xFFFD"

definition goto :: "pstate \<Rightarrow> parser \<Rightarrow> parser" where
  "goto st p = p\<lparr>p_state := st\<rparr>"

definition reprocess :: "byte \<Rightarrow> parser \<Rightarrow> parser" where
  "reprocess b p = p\<lparr>putback := Some b\<rparr>"

definition reset_seq :: "parser \<Rightarrow> parser" where
  "reset_seq p = p\<lparr>params := replicate MAX_PARAMS 0, param_len := 0, param_acc := 0,
     intermediates := replicate MAX_INTER 0, inter_len := 0, ignore := False, osc_len := 0\<rparr>"

text \<open>Run a callback and pair its state with the parser's.\<close>

definition emit :: "'s option \<Rightarrow> parser \<Rightarrow> 's pstep" where
  "emit m p = m \<bind> (\<lambda>s. Some (p, s))"

definition abort_utf8 :: "'s actions \<Rightarrow> parser \<Rightarrow> 's \<Rightarrow> 's pstep" where
  "abort_utf8 a p s =
     (if utf8_needed p > 0
      then emit (act_print a REPLACEMENT s) (p\<lparr>utf8_len := 0, utf8_needed := 0\<rparr>)
      else Some (p, s))"

definition push_inter :: "byte \<Rightarrow> parser \<Rightarrow> parser option" where
  "push_inter b p =
     (if inter_len p < MAX_INTER
      then set_at (intermediates p) (inter_len p) b \<bind>
        (\<lambda>xs. Some (p\<lparr>intermediates := xs, inter_len := inter_len p + 1\<rparr>))
      else Some (p\<lparr>ignore := True\<rparr>))"

definition push_digit :: "byte \<Rightarrow> parser \<Rightarrow> parser" where
  "push_digit b p =
     (let d = unat (b - 0x30);
          acc = sat_add u32_max (min u32_max (param_acc p * 10)) d
      in p\<lparr>param_acc := (if acc > u16_max then u16_max else acc)\<rparr>)"

definition finish_param :: "parser \<Rightarrow> parser option" where
  "finish_param p =
     (if param_len p < MAX_PARAMS
      then set_at (params p) (param_len p) (min (param_acc p) u16_max) \<bind>
        (\<lambda>xs. Some (p\<lparr>params := xs, param_len := param_len p + 1, param_acc := 0\<rparr>))
      else Some (p\<lparr>ignore := True, param_acc := 0\<rparr>))"

definition push_osc :: "byte \<Rightarrow> parser \<Rightarrow> parser option" where
  "push_osc b p =
     (if osc_len p < MAX_OSC
      then set_at (osc p) (osc_len p) b \<bind> (\<lambda>xs. Some (p\<lparr>osc := xs, osc_len := osc_len p + 1\<rparr>))
      else Some (p\<lparr>ignore := True\<rparr>))"

text \<open>The C0 controls that every escape state executes in place: all but CAN, SUB and ESC.\<close>

definition c0_in_place :: "byte \<Rightarrow> bool" where
  "c0_in_place b \<longleftrightarrow> b \<le> 0x17 \<or> b = 0x19 \<or> 0x1c \<le> b \<and> b \<le> 0x1f"

definition between :: "byte \<Rightarrow> byte \<Rightarrow> byte \<Rightarrow> bool" where
  "between lo hi b \<longleftrightarrow> lo \<le> b \<and> b \<le> hi"

section \<open>UTF-8\<close>

text \<open>
  \<open>std::str::from_utf8\<close>: well-formed UTF-8 is decoded scalar by scalar; over-long forms,
  surrogates and values above 10FFFF are errors, as are stray or missing continuation bytes.
\<close>

definition cont :: "byte \<Rightarrow> bool" where
  "cont b \<longleftrightarrow> between 0x80 0xbf b"

definition cont_val :: "byte \<Rightarrow> nat" where
  "cont_val b = unat b - 0x80"

fun from_utf8 :: "byte list \<Rightarrow> nat list option" where
  "from_utf8 [] = Some []"
| "from_utf8 (b0 # bs) =
     (if b0 \<le> 0x7f then map_option ((#) (unat b0)) (from_utf8 bs)
      else if between 0xc2 0xdf b0 then
        (case bs of
           b1 # bs' \<Rightarrow>
             if cont b1
             then map_option ((#) ((unat b0 - 0xc0) * 64 + cont_val b1)) (from_utf8 bs')
             else None
         | _ \<Rightarrow> None)
      else if between 0xe0 0xef b0 then
        (case bs of
           b1 # b2 # bs' \<Rightarrow>
             if cont b1 \<and> cont b2 \<and> (b0 = 0xe0 \<longrightarrow> 0xa0 \<le> b1) \<and> (b0 = 0xed \<longrightarrow> b1 \<le> 0x9f)
             then map_option ((#) ((unat b0 - 0xe0) * 4096 + cont_val b1 * 64 + cont_val b2))
               (from_utf8 bs')
             else None
         | _ \<Rightarrow> None)
      else if between 0xf0 0xf4 b0 then
        (case bs of
           b1 # b2 # b3 # bs' \<Rightarrow>
             if cont b1 \<and> cont b2 \<and> cont b3 \<and> (b0 = 0xf0 \<longrightarrow> 0x90 \<le> b1) \<and> (b0 = 0xf4 \<longrightarrow> b1 \<le> 0x8f)
             then map_option ((#) ((unat b0 - 0xf0) * 262144 + cont_val b1 * 4096 + cont_val b2 * 64 +
                 cont_val b3)) (from_utf8 bs')
             else None
         | _ \<Rightarrow> None)
      else None)"

definition decode_utf8 :: "byte list \<Rightarrow> scalar option" where
  "decode_utf8 bs =
     (case from_utf8 bs of
        None \<Rightarrow> None
      | Some [] \<Rightarrow> None
      | Some (c # _) \<Rightarrow> Some (word_of_nat c))"

definition start_utf8 :: "byte \<Rightarrow> nat \<Rightarrow> parser \<Rightarrow> parser" where
  "start_utf8 lead needed p =
     p\<lparr>utf8 := lead # replicate (MAX_UTF8 - 1) 0, utf8_len := 1, utf8_needed := needed\<rparr>"

definition finish_utf8 :: "'s actions \<Rightarrow> parser \<Rightarrow> 's \<Rightarrow> 's pstep" where
  "finish_utf8 a p s =
     slice (utf8 p) 0 (utf8_needed p) \<bind>
     (\<lambda>buf. emit (act_print a (case decode_utf8 buf of Some c \<Rightarrow> c | None \<Rightarrow> REPLACEMENT) s)
        (p\<lparr>utf8_len := 0, utf8_needed := 0\<rparr>))"

section \<open>The states\<close>

definition ground :: "'s actions \<Rightarrow> byte \<Rightarrow> parser \<Rightarrow> 's \<Rightarrow> 's pstep" where
  "ground a b p s =
     (if utf8_needed p > 0 then
        (if cont b then
           set_at (utf8 p) (utf8_len p) b \<bind>
           (\<lambda>u. let p' = p\<lparr>utf8 := u, utf8_len := utf8_len p + 1\<rparr>
             in if utf8_len p' = utf8_needed p' then finish_utf8 a p' s else Some (p', s))
         else abort_utf8 a p s \<bind> (\<lambda>(p', s'). Some (reprocess b p', s')))
      else if c0_in_place b then emit (act_execute a b s) p
      else if b = 0x18 \<or> b = 0x1a then emit (act_execute a b s) (goto Ground (reset_seq p))
      else if b = 0x1b then Some (goto Escape (reset_seq p), s)
      else if between 0x20 0x7e b then emit (act_print a (ucast b) s) p
      else if b = 0x7f then Some (p, s)
      else if between 0x80 0xc1 b then emit (act_print a REPLACEMENT s) p
      else if between 0xc2 0xdf b then Some (start_utf8 b 2 p, s)
      else if between 0xe0 0xef b then Some (start_utf8 b 3 p, s)
      else if between 0xf0 0xf4 b then Some (start_utf8 b 4 p, s)
      else emit (act_print a REPLACEMENT s) p)"

definition dispatch_esc :: "'s actions \<Rightarrow> byte \<Rightarrow> parser \<Rightarrow> 's \<Rightarrow> 's pstep" where
  "dispatch_esc a b p s =
     slice (intermediates p) 0 (inter_len p) \<bind>
     (\<lambda>is. emit (act_esc a is b s) (reset_seq (goto Ground p)))"

definition escape :: "'s actions \<Rightarrow> byte \<Rightarrow> parser \<Rightarrow> 's \<Rightarrow> 's pstep" where
  "escape a b p s =
     (if c0_in_place b then emit (act_execute a b s) p
      else if b = 0x18 \<or> b = 0x1a then emit (act_execute a b s) (goto Ground p)
      else if b = 0x1b then Some (reset_seq p, s)
      else if between 0x20 0x2f b then
        push_inter b p \<bind> (\<lambda>p'. Some (goto EscapeIntermediate p', s))
      else if between 0x30 0x4f b \<or> between 0x51 0x57 b \<or> b = 0x59 \<or> b = 0x5a \<or> b = 0x5c \<or>
        between 0x60 0x7e b then dispatch_esc a b p s
      else if b = 0x50 then Some (goto DcsPassthrough (reset_seq p), s)
      else if b = 0x58 \<or> b = 0x5e \<or> b = 0x5f then Some (goto SosPmApc (reset_seq p), s)
      else if b = 0x5b then Some (goto CsiEntry (reset_seq p), s)
      else if b = 0x5d then Some (goto OscString (reset_seq p), s)
      else if b = 0x7f then Some (p, s)
      else Some (reset_seq (goto Ground p), s))"

definition escape_intermediate :: "'s actions \<Rightarrow> byte \<Rightarrow> parser \<Rightarrow> 's \<Rightarrow> 's pstep" where
  "escape_intermediate a b p s =
     (if c0_in_place b then emit (act_execute a b s) p
      else if b = 0x18 \<or> b = 0x1a then emit (act_execute a b s) (goto Ground p)
      else if b = 0x1b then Some (goto Escape (reset_seq p), s)
      else if between 0x20 0x2f b then push_inter b p \<bind> (\<lambda>p'. Some (p', s))
      else if between 0x30 0x7e b then dispatch_esc a b p s
      else Some (reset_seq (goto Ground p), s))"

definition dispatch_csi :: "'s actions \<Rightarrow> byte \<Rightarrow> parser \<Rightarrow> 's \<Rightarrow> 's pstep" where
  "dispatch_csi a b p s =
     slice (params p) 0 (param_len p) \<bind>
     (\<lambda>ps. slice (intermediates p) 0 (inter_len p) \<bind>
       (\<lambda>is. emit (act_csi a ps is (ignore p) b s) (reset_seq (goto Ground p))))"

definition csi_entry :: "'s actions \<Rightarrow> byte \<Rightarrow> parser \<Rightarrow> 's \<Rightarrow> 's pstep" where
  "csi_entry a b p s =
     (if c0_in_place b then emit (act_execute a b s) p
      else if b = 0x18 \<or> b = 0x1a then emit (act_execute a b s) (goto Ground p)
      else if b = 0x1b then Some (goto Escape (reset_seq p), s)
      else if between 0x20 0x2f b then
        push_inter b p \<bind> (\<lambda>p'. Some (goto CsiIntermediate p', s))
      else if between 0x30 0x39 b then Some (goto CsiParam (push_digit b p), s)
      else if b = 0x3a \<or> b = 0x3b then finish_param p \<bind> (\<lambda>p'. Some (goto CsiParam p', s))
      else if between 0x3c 0x3f b then push_inter b p \<bind> (\<lambda>p'. Some (goto CsiParam p', s))
      else if between 0x40 0x7e b then dispatch_csi a b p s
      else if b = 0x7f then Some (p, s)
      else Some (goto CsiParam (p\<lparr>ignore := True\<rparr>), s))"

definition csi_param :: "'s actions \<Rightarrow> byte \<Rightarrow> parser \<Rightarrow> 's \<Rightarrow> 's pstep" where
  "csi_param a b p s =
     (if c0_in_place b then emit (act_execute a b s) p
      else if b = 0x18 \<or> b = 0x1a then emit (act_execute a b s) (goto Ground p)
      else if b = 0x1b then Some (goto Escape (reset_seq p), s)
      else if between 0x20 0x2f b then
        finish_param p \<bind> (\<lambda>p'. push_inter b p' \<bind> (\<lambda>p''. Some (goto CsiIntermediate p'', s)))
      else if between 0x30 0x39 b then Some (push_digit b p, s)
      else if b = 0x3a \<or> b = 0x3b then finish_param p \<bind> (\<lambda>p'. Some (p', s))
      else if between 0x3c 0x3f b then Some (goto CsiIgnore p, s)
      else if between 0x40 0x7e b then finish_param p \<bind> (\<lambda>p'. dispatch_csi a b p' s)
      else if b = 0x7f then Some (p, s)
      else Some (p\<lparr>ignore := True\<rparr>, s))"

definition csi_intermediate :: "'s actions \<Rightarrow> byte \<Rightarrow> parser \<Rightarrow> 's \<Rightarrow> 's pstep" where
  "csi_intermediate a b p s =
     (if c0_in_place b then emit (act_execute a b s) p
      else if b = 0x18 \<or> b = 0x1a then emit (act_execute a b s) (goto Ground p)
      else if b = 0x1b then Some (goto Escape (reset_seq p), s)
      else if between 0x20 0x2f b then push_inter b p \<bind> (\<lambda>p'. Some (p', s))
      else if between 0x30 0x3f b then Some (goto CsiIgnore p, s)
      else if between 0x40 0x7e b then dispatch_csi a b p s
      else Some (goto CsiIgnore (p\<lparr>ignore := True\<rparr>), s))"

definition csi_ignore :: "'s actions \<Rightarrow> byte \<Rightarrow> parser \<Rightarrow> 's \<Rightarrow> 's pstep" where
  "csi_ignore a b p s =
     (if c0_in_place b then emit (act_execute a b s) p
      else if b = 0x18 \<or> b = 0x1a then emit (act_execute a b s) (goto Ground p)
      else if b = 0x1b then Some (goto Escape (reset_seq p), s)
      else if between 0x40 0x7e b then Some (reset_seq (goto Ground p), s)
      else Some (p, s))"

definition dispatch_osc :: "'s actions \<Rightarrow> parser \<Rightarrow> 's \<Rightarrow> 's pstep" where
  "dispatch_osc a p s =
     slice (osc p) 0 (osc_len p) \<bind>
     (\<lambda>payload. emit (act_osc a payload s) (reset_seq (goto Ground p)))"

definition osc_string :: "'s actions \<Rightarrow> byte \<Rightarrow> parser \<Rightarrow> 's \<Rightarrow> 's pstep" where
  "osc_string a b p s =
     (if b = 0x07 then dispatch_osc a p s
      else if b = 0x1b then Some (goto OscEscape p, s)
      else if b = 0x18 \<or> b = 0x1a then emit (act_execute a b s) (reset_seq (goto Ground p))
      else push_osc b p \<bind> (\<lambda>p'. Some (p', s)))"

definition osc_escape :: "'s actions \<Rightarrow> byte \<Rightarrow> parser \<Rightarrow> 's \<Rightarrow> 's pstep" where
  "osc_escape a b p s =
     (if b = 0x5c then dispatch_osc a p s
      else Some (reprocess b (reset_seq (goto Escape p)), s))"

definition dcs_passthrough :: "'s actions \<Rightarrow> byte \<Rightarrow> parser \<Rightarrow> 's \<Rightarrow> 's pstep" where
  "dcs_passthrough a b p s =
     (if b = 0x1b then Some (goto DcsEscape p, s)
      else if b = 0x18 \<or> b = 0x1a then emit (act_execute a b s) (reset_seq (goto Ground p))
      else Some (p, s))"

definition dcs_escape :: "byte \<Rightarrow> parser \<Rightarrow> 's \<Rightarrow> 's pstep" where
  "dcs_escape b p s =
     (if b = 0x5c then Some (reset_seq (goto Ground p), s)
      else Some (reprocess b (reset_seq (goto Escape p)), s))"

definition sos :: "byte \<Rightarrow> parser \<Rightarrow> 's \<Rightarrow> 's pstep" where
  "sos b p s =
     (if b = 0x1b then Some (goto SosEscape p, s)
      else if b = 0x18 \<or> b = 0x1a then Some (reset_seq (goto Ground p), s)
      else Some (p, s))"

definition sos_escape :: "byte \<Rightarrow> parser \<Rightarrow> 's \<Rightarrow> 's pstep" where
  "sos_escape b p s =
     (if b = 0x5c then Some (reset_seq (goto Ground p), s)
      else Some (reprocess b (reset_seq (goto Escape p)), s))"

definition state_step :: "'s actions \<Rightarrow> byte \<Rightarrow> parser \<Rightarrow> 's \<Rightarrow> 's pstep" where
  "state_step a b p s =
     (case p_state p of
        Ground \<Rightarrow> ground a b p s
      | Escape \<Rightarrow> escape a b p s
      | EscapeIntermediate \<Rightarrow> escape_intermediate a b p s
      | CsiEntry \<Rightarrow> csi_entry a b p s
      | CsiParam \<Rightarrow> csi_param a b p s
      | CsiIntermediate \<Rightarrow> csi_intermediate a b p s
      | CsiIgnore \<Rightarrow> csi_ignore a b p s
      | OscString \<Rightarrow> osc_string a b p s
      | OscEscape \<Rightarrow> osc_escape a b p s
      | DcsPassthrough \<Rightarrow> dcs_passthrough a b p s
      | DcsEscape \<Rightarrow> dcs_escape b p s
      | SosPmApc \<Rightarrow> sos b p s
      | SosEscape \<Rightarrow> sos_escape b p s)"

definition step :: "'s actions \<Rightarrow> byte \<Rightarrow> parser \<Rightarrow> 's \<Rightarrow> 's pstep" where
  "step a b p s =
     (if utf8_needed p > 0 \<and> p_state p \<noteq> Ground
      then abort_utf8 a p s \<bind> (\<lambda>(p', s'). state_step a b p' s')
      else state_step a b p s)"

section \<open>Feeding\<close>

lemmas state_defs = ground_def escape_def escape_intermediate_def csi_entry_def csi_param_def
  csi_intermediate_def csi_ignore_def osc_string_def osc_escape_def dcs_passthrough_def
  dcs_escape_def sos_def sos_escape_def

lemmas helper_defs = emit_def abort_utf8_def push_inter_def push_digit_def finish_param_def
  push_osc_def goto_def reprocess_def reset_seq_def start_utf8_def finish_utf8_def
  dispatch_esc_def dispatch_csi_def dispatch_osc_def

text \<open>
  How many times a put-back byte can still be put back: the string-escape states and an
  unfinished UTF-8 sequence hand the byte on once, every other state consumes it.
\<close>

definition hands_back :: "parser \<Rightarrow> bool" where
  "hands_back p \<longleftrightarrow> p_state p \<in> {OscEscape, DcsEscape, SosEscape} \<or> p_state p = Ground \<and> utf8_needed p > 0"

definition replay_rank :: "parser \<Rightarrow> nat" where
  "replay_rank p = (if putback p = None then 0 else if hands_back p then 2 else 1)"

lemma state_step_putback:
  assumes "putback p = None" and "p_state p \<noteq> Ground \<Longrightarrow> utf8_needed p = 0"
  shows "whenever (state_step a b p s) (\<lambda>(p', _). putback p' = None \<or>
    hands_back p \<and> \<not> hands_back p')"
  using assms
  by (cases "p_state p")
    (simp_all add: state_step_def state_defs helper_defs hands_back_def Let_def)

lemma step_putback:
  assumes "putback p = None"
  shows "whenever (step a b p s) (\<lambda>(p', _). putback p' = None \<or> hands_back p \<and> \<not> hands_back p')"
proof (cases "utf8_needed p > 0 \<and> p_state p \<noteq> Ground")
  case True
  have "whenever (state_step a b (p\<lparr>utf8_len := 0, utf8_needed := 0\<rparr>) s')
      (\<lambda>(p', _). putback p' = None \<or> hands_back p \<and> \<not> hands_back p')" for s'
    using state_step_putback [of "p\<lparr>utf8_len := 0, utf8_needed := 0\<rparr>" a b s'] assms True
    by (simp add: hands_back_def)
  with True show ?thesis by (simp add: step_def abort_utf8_def emit_def)
next
  case False
  with assms show ?thesis by (auto simp: step_def intro: state_step_putback)
qed

lemma step_replay_rank:
  assumes "putback p = Some b" and "step a b (p\<lparr>putback := None\<rparr>) s = Some (p', s')"
  shows "replay_rank p' < replay_rank p"
  using wheneverD [OF step_putback assms(2)] assms(1)
  by (auto simp: replay_rank_def hands_back_def)

function feed :: "'s actions \<Rightarrow> byte list \<Rightarrow> parser \<Rightarrow> 's \<Rightarrow> 's pstep" where
  "feed a bs p s =
     (case putback p of
        Some b \<Rightarrow>
          (case step a b (p\<lparr>putback := None\<rparr>) s of
             None \<Rightarrow> None
           | Some (p', s') \<Rightarrow> feed a bs p' s')
      | None \<Rightarrow>
          (case bs of
             [] \<Rightarrow> Some (p, s)
           | b # bs' \<Rightarrow>
               (case step a b p s of
                  None \<Rightarrow> None
                | Some (p', s') \<Rightarrow> feed a bs' p' s')))"
  by pat_completeness auto
termination
  by (relation "measures [\<lambda>(a, bs, p, s). length bs, \<lambda>(a, bs, p, s). replay_rank p]")
    (auto dest: step_replay_rank)

declare feed.simps [simp del]

section \<open>The invariant\<close>

definition wf_parser :: "parser \<Rightarrow> bool" where
  "wf_parser p \<longleftrightarrow>
     length (params p) = MAX_PARAMS \<and> (\<forall>x \<in> set (params p). x \<le> u16_max) \<and>
     param_len p \<le> MAX_PARAMS \<and> param_acc p \<le> u16_max \<and>
     length (intermediates p) = MAX_INTER \<and> inter_len p \<le> MAX_INTER \<and>
     length (osc p) = MAX_OSC \<and> osc_len p \<le> MAX_OSC \<and>
     length (utf8 p) = MAX_UTF8 \<and> utf8_needed p \<le> MAX_UTF8 \<and>
     (utf8_needed p = 0 \<longrightarrow> utf8_len p = 0) \<and>
     (0 < utf8_needed p \<longrightarrow> p_state p = Ground \<and> 0 < utf8_len p \<and> utf8_len p < utf8_needed p)"

lemma wf_parser_new [simp]: "wf_parser parser_new"
  by (simp add: wf_parser_def parser_new_def)

lemma wf_goto: "wf_parser p \<Longrightarrow> utf8_needed p = 0 \<or> st = Ground \<Longrightarrow> wf_parser (goto st p)"
  by (auto simp: wf_parser_def goto_def split: if_splits)

lemma wf_reset_seq: "wf_parser p \<Longrightarrow> wf_parser (reset_seq p)"
  by (simp add: wf_parser_def reset_seq_def)

lemma wf_reprocess: "wf_parser (reprocess b p) \<longleftrightarrow> wf_parser p"
  by (simp add: wf_parser_def reprocess_def)

lemma wf_ignore: "wf_parser (p\<lparr>ignore := i\<rparr>) \<longleftrightarrow> wf_parser p"
  by (simp add: wf_parser_def)

lemma wf_putback: "wf_parser (p\<lparr>putback := o'\<rparr>) \<longleftrightarrow> wf_parser p"
  by (simp add: wf_parser_def)

lemma wf_push_digit: "wf_parser p \<Longrightarrow> wf_parser (push_digit b p)"
  by (simp add: wf_parser_def push_digit_def Let_def)

lemma utf8_needed_helpers [simp]:
  "utf8_needed (goto st p) = utf8_needed p" "utf8_needed (reset_seq p) = utf8_needed p"
  "utf8_needed (push_digit b p) = utf8_needed p" "utf8_needed (reprocess b p) = utf8_needed p"
  by (simp_all add: goto_def reset_seq_def push_digit_def reprocess_def Let_def)

lemma wf_start_utf8:
  "wf_parser p \<Longrightarrow> p_state p = Ground \<Longrightarrow> 2 \<le> n \<Longrightarrow> n \<le> MAX_UTF8 \<Longrightarrow> wf_parser (start_utf8 b n p)"
  by (simp add: wf_parser_def start_utf8_def MAX_UTF8_def)

lemma wf_utf8_done: "wf_parser p \<Longrightarrow> wf_parser (p\<lparr>utf8_len := 0, utf8_needed := 0\<rparr>)"
  by (simp add: wf_parser_def)

text \<open>The buffer operations: they do not panic, keep the invariant and the UTF-8 state.\<close>

definition wf_seq :: "parser \<Rightarrow> bool" where
  "wf_seq p \<longleftrightarrow> wf_parser p \<and> utf8_needed p = 0"

lemma push_inter_runs: "wf_seq p \<Longrightarrow> runs (push_inter b p) wf_seq"
  by (auto simp: push_inter_def wf_parser_def wf_seq_def)

lemma finish_param_runs: "wf_seq p \<Longrightarrow> runs (finish_param p) wf_seq"
  by (auto simp: finish_param_def wf_parser_def wf_seq_def dest: set_update_subset_insert [THEN subsetD])

lemma push_osc_runs: "wf_seq p \<Longrightarrow> runs (push_osc b p) wf_seq"
  by (auto simp: push_osc_def wf_parser_def wf_seq_def)

lemma wf_seq_slices:
  assumes "wf_seq p"
  shows "slice (params p) 0 (param_len p) = Some (take (param_len p) (params p))"
    and "slice (intermediates p) 0 (inter_len p) = Some (take (inter_len p) (intermediates p))"
    and "slice (osc p) 0 (osc_len p) = Some (take (osc_len p) (osc p))"
    and "\<forall>x \<in> set (take (param_len p) (params p)). x \<le> u16_max"
    and "param_len p \<le> MAX_PARAMS" "inter_len p \<le> MAX_INTER" "osc_len p \<le> MAX_OSC"
  using assms by (auto simp: wf_seq_def wf_parser_def dest: in_set_takeD)

lemma wf_seq_goto: "wf_seq p \<Longrightarrow> wf_parser p \<and> wf_parser (goto st p)"
  by (simp add: wf_seq_def wf_goto)

text \<open>Buffer operations followed by a change of state.\<close>

lemma seq_then_goto:
  assumes "wf_seq p"
  shows "runs (push_inter b p) wf_parser" "runs (push_inter b p) (\<lambda>x. wf_parser (goto st x))"
    "runs (finish_param p) wf_parser" "runs (finish_param p) (\<lambda>x. wf_parser (goto st x))"
    "runs (push_osc b p) wf_parser"
    "runs (finish_param p) (\<lambda>x. runs (push_inter b x) (\<lambda>y. wf_parser (goto st y)))"
proof -
  note ops = push_inter_runs [OF assms, of b] finish_param_runs [OF assms] push_osc_runs [OF assms, of b]
  from ops show "runs (push_inter b p) wf_parser" "runs (push_inter b p) (\<lambda>x. wf_parser (goto st x))"
    "runs (finish_param p) wf_parser" "runs (finish_param p) (\<lambda>x. wf_parser (goto st x))"
    "runs (push_osc b p) wf_parser"
    by (auto elim!: runs_mono dest: wf_seq_goto)
  have "runs (push_inter b x) (\<lambda>y. wf_parser (goto st y))" if "wf_seq x" for x
    by (rule runs_mono [OF push_inter_runs [OF that]]) (simp add: wf_seq_goto)
  with ops(2) show "runs (finish_param p) (\<lambda>x. runs (push_inter b x) (\<lambda>y. wf_parser (goto st y)))"
    by (auto elim!: runs_mono)
qed

lemma wf_seq_ground: "wf_seq p \<Longrightarrow> wf_parser (reset_seq (goto Ground p))"
  by (simp add: wf_seq_def wf_reset_seq wf_goto)

text \<open>
  The contract of the \<open>Actions\<close> trait: a callback, given an argument the parser can produce,
  returns and keeps the invariant of its own state. Under it the parser never panics.
\<close>

locale vt_actions =
  fixes acts :: "'s actions" and inv :: "'s \<Rightarrow> bool"
  assumes print_inv: "inv s \<Longrightarrow> runs (act_print acts c s) inv"
    and execute_inv: "inv s \<Longrightarrow> runs (act_execute acts b s) inv"
    and csi_inv: "inv s \<Longrightarrow> length ps \<le> MAX_PARAMS \<Longrightarrow> \<forall>x \<in> set ps. x \<le> u16_max \<Longrightarrow>
      length is \<le> MAX_INTER \<Longrightarrow> runs (act_csi acts ps is ign b s) inv"
    and esc_inv: "inv s \<Longrightarrow> length is \<le> MAX_INTER \<Longrightarrow> runs (act_esc acts is b s) inv"
    and osc_inv: "inv s \<Longrightarrow> length payload \<le> MAX_OSC \<Longrightarrow> runs (act_osc acts payload s) inv"
begin

abbreviation good :: "parser \<times> 's \<Rightarrow> bool" where
  "good x \<equiv> wf_parser (fst x) \<and> inv (snd x)"

lemma emit_good: "runs (emit m p) good \<longleftrightarrow> wf_parser p \<and> runs m inv"
  by (simp add: emit_def)

lemma dispatch_esc_good: "wf_seq p \<Longrightarrow> inv s \<Longrightarrow> runs (dispatch_esc acts b p s) good"
  by (simp add: dispatch_esc_def emit_good wf_seq_ground wf_seq_slices esc_inv min_le_iff_disj)

lemma dispatch_csi_good: "wf_seq p \<Longrightarrow> inv s \<Longrightarrow> runs (dispatch_csi acts b p s) good"
  by (simp add: dispatch_csi_def emit_good wf_seq_ground wf_seq_slices csi_inv min_le_iff_disj)

lemma dispatch_osc_good: "wf_seq p \<Longrightarrow> inv s \<Longrightarrow> runs (dispatch_osc acts p s) good"
  by (simp add: dispatch_osc_def emit_good wf_seq_ground wf_seq_slices osc_inv min_le_iff_disj)

lemma finish_dispatch_good:
  "wf_seq p \<Longrightarrow> inv s \<Longrightarrow> runs (finish_param p) (\<lambda>p'. runs (dispatch_csi acts b p' s) good)"
  by (rule runs_mono [OF finish_param_runs]) (simp_all add: dispatch_csi_good)

lemma ground_good:
  assumes "wf_parser p" "p_state p = Ground" "inv s"
  shows "runs (ground acts b p s) good"
proof (cases "utf8_needed p > 0")
  case True
  have len: "utf8_len p < length (utf8 p)" using assms(1) True by (auto simp: wf_parser_def)
  let ?p = "p\<lparr>utf8 := (utf8 p)[utf8_len p := b], utf8_len := utf8_len p + 1\<rparr>"
  have "runs (finish_utf8 acts ?p s) good" if "utf8_len ?p = utf8_needed ?p"
    using assms True that by (simp add: finish_utf8_def emit_good print_inv) (simp add: wf_parser_def)
  moreover have "wf_parser ?p" if "utf8_len ?p \<noteq> utf8_needed ?p"
    using assms(1) True that by (auto simp: wf_parser_def)
  ultimately have "runs (ground acts b p s) good" if "cont b"
    using that True len assms(3) by (simp add: ground_def Let_def)
  moreover have "runs (ground acts b p s) good" if "\<not> cont b"
    using that True assms print_inv [of s REPLACEMENT]
    by (simp add: ground_def abort_utf8_def emit_def wf_reprocess wf_utf8_done)
  ultimately show ?thesis by blast
next
  case False
  with assms show ?thesis
    by (simp add: ground_def emit_good print_inv execute_inv wf_goto wf_reset_seq wf_start_utf8
        MAX_UTF8_def)
qed

lemmas seq_goods = emit_good execute_inv seq_then_goto dispatch_esc_good dispatch_csi_good
  dispatch_osc_good finish_dispatch_good wf_seq_goto wf_reset_seq wf_goto wf_ignore wf_push_digit
  wf_reprocess wf_seq_ground

lemma seq_state_good:
  assumes "wf_seq p" "inv s"
  shows "runs (escape acts b p s) good" "runs (escape_intermediate acts b p s) good"
    "runs (csi_entry acts b p s) good" "runs (csi_param acts b p s) good"
    "runs (csi_intermediate acts b p s) good" "runs (csi_ignore acts b p s) good"
    "runs (osc_string acts b p s) good" "runs (osc_escape acts b p s) good"
    "runs (dcs_passthrough acts b p s) good" "runs (dcs_escape b p s) good"
    "runs (sos b p s) good" "runs (sos_escape b p s) good"
  using assms wf_seq_def [THEN iffD1, OF assms(1)]
  by (simp_all add: state_defs seq_goods)

lemma step_good:
  assumes "wf_parser p" "inv s"
  shows "runs (step acts b p s) good"
proof (cases "p_state p = Ground")
  case True
  with assms show ?thesis by (simp add: step_def state_step_def ground_good)
next
  case False
  with assms(1) have "wf_seq p" by (auto simp: wf_parser_def wf_seq_def)
  note good = seq_state_good [OF this assms(2)]
  from \<open>wf_seq p\<close> False show ?thesis
    by (cases "p_state p") (simp_all add: step_def state_step_def good wf_seq_def)
qed

text \<open>
  Feeding never panics: it returns, keeps both invariants, and leaves no byte put back.
\<close>

lemma feed_good:
  "wf_parser p \<Longrightarrow> inv s \<Longrightarrow>
    runs (feed acts bs p s) (\<lambda>x. good x \<and> putback (fst x) = None)"
proof (induction a \<equiv> acts bs p s rule: feed.induct)
  case (1 bs p s)
  show ?case
  proof (cases "putback p")
    case (Some b)
    have "runs (step acts b (p\<lparr>putback := None\<rparr>) s) good"
      using "1.prems" by (simp add: step_good wf_putback)
    then obtain p' s' where "step acts b (p\<lparr>putback := None\<rparr>) s = Some (p', s')" "wf_parser p'" "inv s'"
      by (auto elim!: runsE)
    with "1"(2) [OF Some] Some show ?thesis by (subst feed.simps) simp
  next
    case None
    show ?thesis
    proof (cases bs)
      case Nil
      with None "1.prems" show ?thesis by (subst feed.simps) simp
    next
      case (Cons b bs')
      have "runs (step acts b p s) good" using "1.prems" by (simp add: step_good)
      then obtain p' s' where "step acts b p s = Some (p', s')" "wf_parser p'" "inv s'"
        by (auto elim!: runsE)
      with "1"(1) [OF None Cons] None Cons show ?thesis by (subst feed.simps) simp
    qed
  qed
qed

end

section \<open>Chunking\<close>

lemma feed_append:
  "feed a (xs @ ys) p s = feed a xs p s \<bind> (\<lambda>(p', s'). feed a ys p' s')"
proof (induction a xs p s rule: feed.induct)
  case (1 a bs p s)
  show ?case
  proof (cases "putback p")
    case (Some b)
    show ?thesis
    proof (cases "step a b (p\<lparr>putback := None\<rparr>) s")
      case None
      with Some show ?thesis by (simp add: feed.simps [of a _ p s])
    next
      case (Some x)
      with \<open>putback p = Some b\<close> "1.IH"(2) [OF \<open>putback p = Some b\<close> Some] show ?thesis
        by (cases x) (simp add: feed.simps [of a _ p s])
    qed
  next
    case None
    show ?thesis
    proof (cases bs)
      case Nil
      with None show ?thesis by (simp add: feed.simps [of a "[]" p s])
    next
      case (Cons b bs')
      show ?thesis
      proof (cases "step a b p s")
        case None
        with Cons \<open>putback p = None\<close> show ?thesis by (simp add: feed.simps [of a _ p s])
      next
        case (Some x)
        with None Cons "1.IH"(1) [OF None Cons Some] show ?thesis
          by (cases x) (simp add: feed.simps [of a _ p s])
      qed
    qed
  qed
qed

section \<open>A recording client\<close>

text \<open>The events of the \<open>Actions\<close> trait as data, and the client that records them.\<close>

datatype vt_event = EPrint scalar | EExecute byte | ECsi "nat list" "byte list" bool byte
  | EEsc "byte list" byte | EOsc "byte list"

definition recorder :: "vt_event list actions" where
  "recorder =
     \<lparr>act_print = (\<lambda>c es. Some (es @ [EPrint c])),
      act_execute = (\<lambda>b es. Some (es @ [EExecute b])),
      act_csi = (\<lambda>ps is ign b es. Some (es @ [ECsi ps is ign b])),
      act_esc = (\<lambda>is b es. Some (es @ [EEsc is b])),
      act_osc = (\<lambda>payload es. Some (es @ [EOsc payload]))\<rparr>"

text \<open>What the parser promises about every event it reports.\<close>

fun event_ok :: "vt_event \<Rightarrow> bool" where
  "event_ok (ECsi ps is ign b) \<longleftrightarrow>
     length ps \<le> MAX_PARAMS \<and> (\<forall>x \<in> set ps. x \<le> u16_max) \<and> length is \<le> MAX_INTER"
| "event_ok (EEsc is b) \<longleftrightarrow> length is \<le> MAX_INTER"
| "event_ok (EOsc payload) \<longleftrightarrow> length payload \<le> MAX_OSC"
| "event_ok _ \<longleftrightarrow> True"

interpretation recorder: vt_actions recorder "list_all event_ok"
  by unfold_locales (simp_all add: recorder_def)

text \<open>
  C5: the parser is total and its reports are bounded. On any byte sequence, from any state
  the parser can be in, feeding returns without a panic, keeps the parser's own buffers within
  their arrays, leaves no byte unprocessed, and every reported event is bounded: at most 32
  parameters of at most 65535, two intermediates and 1024 bytes of OSC payload.
\<close>

theorem feed_total_and_bounded:
  assumes "wf_parser p"
  shows "\<exists>p' es. feed recorder bs p [] = Some (p', es) \<and> wf_parser p' \<and> putback p' = None \<and>
    list_all event_ok es"
proof -
  have "runs (feed recorder bs p [])
      (\<lambda>x. (wf_parser (fst x) \<and> list_all event_ok (snd x)) \<and> putback (fst x) = None)"
    using recorder.feed_good [OF assms, of "[]" bs] by simp
  then show ?thesis by (auto elim!: runsE)
qed

lemma feed_total_and_bounded_witness:
  "\<exists>p' es. feed recorder [0x1b, 0x5b, 0x33, 0x6d, 0xe2, 0x1b] parser_new [] = Some (p', es) \<and>
    wf_parser p' \<and> putback p' = None \<and> list_all event_ok es"
  using feed_total_and_bounded [OF wf_parser_new] by simp

text \<open>
  The parser does not see how its input was cut into reads. Feeding two chunks one after
  the other is feeding their concatenation, for any client and from any parser state,
  including in the middle of an escape sequence or of a UTF-8 sequence.
\<close>

theorem feed_chunks:
  "feed a (xs @ ys) p s = feed a xs p s \<bind> (\<lambda>(p', s'). feed a ys p' s')"
  by (rule feed_append)

section \<open>Text\<close>

text \<open>\<open>char::encode_utf8\<close>, on scalar values.\<close>

definition is_scalar :: "nat \<Rightarrow> bool" where
  "is_scalar c \<longleftrightarrow> c < 0xD800 \<or> 0xE000 \<le> c \<and> c \<le> 0x10FFFF"

definition encode_utf8 :: "nat \<Rightarrow> byte list" where
  "encode_utf8 c =
     map word_of_nat
       (if c < 0x80 then [c]
        else if c < 0x800 then [0xc0 + c div 64, 0x80 + c mod 64]
        else if c < 0x10000 then [0xe0 + c div 4096, 0x80 + c div 64 mod 64, 0x80 + c mod 64]
        else [0xf0 + c div 262144, 0x80 + c div 4096 mod 64, 0x80 + c div 64 mod 64, 0x80 + c mod 64])"

lemma byte_cmp_nat:
  "n < 256 \<Longrightarrow> between lo hi (word_of_nat n) \<longleftrightarrow> unat lo \<le> n \<and> n \<le> unat hi"
  "n < 256 \<Longrightarrow> (word_of_nat n :: byte) \<le> b \<longleftrightarrow> n \<le> unat b"
  "n < 256 \<Longrightarrow> b \<le> (word_of_nat n :: byte) \<longleftrightarrow> unat b \<le> n"
  "n < 256 \<Longrightarrow> (word_of_nat n :: byte) = b \<longleftrightarrow> n = unat b"
  by (auto simp: between_def word_le_nat_alt word_unat_eq_iff)

lemma cont_byte:
  assumes "n < 64"
  shows "cont (word_of_nat (0x80 + n))" "cont_val (word_of_nat (0x80 + n)) = n"
    "unat (word_of_nat (0x80 + n) :: byte) = 0x80 + n"
  using assms by (simp_all add: cont_def byte_cmp_nat cont_val_def del: of_nat_add)

lemma base64_digits:
  fixes c :: nat
  shows "c div 4096 = c div 64 div 64" "c div 262144 = c div 4096 div 64"
    "c div 4096 * 4096 + c div 64 mod 64 * 64 + c mod 64 = c"
    "c div 262144 * 262144 + c div 4096 mod 64 * 4096 + c div 64 mod 64 * 64 + c mod 64 = c"
proof -
  show q: "c div 4096 = c div 64 div 64" "c div 262144 = c div 4096 div 64"
    by (simp_all add: div_mult2_eq [symmetric])
  have 1: "c div 64 * 64 + c mod 64 = c" by simp
  have 2: "c div 4096 * 64 + c div 64 mod 64 = c div 64" unfolding q by simp
  have 3: "c div 262144 * 64 + c div 4096 mod 64 = c div 4096" unfolding q(2) by simp
  from 1 2 show "c div 4096 * 4096 + c div 64 mod 64 * 64 + c mod 64 = c" by linarith
  from 1 2 3 show
    "c div 262144 * 262144 + c div 4096 mod 64 * 4096 + c div 64 mod 64 * 64 + c mod 64 = c"
    by linarith
qed

lemma decode_encode_utf8:
  assumes "is_scalar c" "0x80 \<le> c"
  shows "decode_utf8 (encode_utf8 c) = Some (word_of_nat c)"
proof -
  consider "c < 0x800" | "0x800 \<le> c" "c < 0x10000" | "0x10000 \<le> c" by linarith
  then have "from_utf8 (encode_utf8 c) = Some [c]"
  proof cases
    case 1
    have dec: "from_utf8 [word_of_nat (0xc0 + q), word_of_nat (0x80 + r)] = Some [q * 64 + r]"
      if "2 \<le> q" "q \<le> 31" "r < 64" for q r
      using that cont_byte [of r] by (simp add: byte_cmp_nat del: of_nat_add)
    have "encode_utf8 c = [word_of_nat (0xc0 + c div 64), word_of_nat (0x80 + c mod 64)]"
      using 1 assms by (simp add: encode_utf8_def)
    moreover have "2 \<le> c div 64" "c div 64 \<le> 31" using 1 assms by linarith+
    ultimately show ?thesis using dec [of "c div 64" "c mod 64"] by simp
  next
    case 2
    have dec: "from_utf8 [word_of_nat (0xe0 + q), word_of_nat (0x80 + m), word_of_nat (0x80 + r)] =
        Some [q * 4096 + m * 64 + r]"
      if "q < 16" "q = 0 \<Longrightarrow> 32 \<le> m" "q = 13 \<Longrightarrow> m < 32" "m < 64" "r < 64" for q m r
      using that cont_byte [of r] cont_byte [of m] by (auto simp: byte_cmp_nat simp del: of_nat_add)
    have "c div 4096 < 16" using 2 by linarith
    moreover have "32 \<le> c div 64 mod 64" if 0: "c div 4096 = 0"
    proof -
      have "c mod 64 < 64" by simp
      then show ?thesis using 2 0 base64_digits(3) [of c] by linarith
    qed
    moreover have "c div 64 mod 64 < 32" if 13: "c div 4096 = 13"
    proof -
      have "c < 55296" using 13 assms(1) by (auto simp: is_scalar_def)
      then show ?thesis using 13 base64_digits(3) [of c] by linarith
    qed
    moreover have "encode_utf8 c = [word_of_nat (0xe0 + c div 4096),
        word_of_nat (0x80 + c div 64 mod 64), word_of_nat (0x80 + c mod 64)]"
      using 2 by (simp add: encode_utf8_def)
    ultimately show ?thesis
      using dec [of "c div 4096" "c div 64 mod 64" "c mod 64"] base64_digits(3) [of c] by simp
  next
    case 3
    have dec: "from_utf8 [word_of_nat (0xf0 + q), word_of_nat (0x80 + n), word_of_nat (0x80 + m),
        word_of_nat (0x80 + r)] = Some [q * 262144 + n * 4096 + m * 64 + r]"
      if "q \<le> 4" "q = 0 \<Longrightarrow> 16 \<le> n" "q = 4 \<Longrightarrow> n < 16" "n < 64" "m < 64" "r < 64" for q n m r
      using that cont_byte [of r] cont_byte [of m] cont_byte [of n]
      by (auto simp: byte_cmp_nat simp del: of_nat_add)
    have c: "c \<le> 1114111" using assms(1) by (auto simp: is_scalar_def)
    have "c div 262144 \<le> 4" using c by linarith
    moreover have "16 \<le> c div 4096 mod 64" if 0: "c div 262144 = 0"
    proof -
      have "c div 64 mod 64 < 64" "c mod 64 < 64" by simp_all
      then show ?thesis using 3 0 base64_digits(4) [of c] by linarith
    qed
    moreover have "c div 4096 mod 64 < 16" if 4: "c div 262144 = 4"
      using c 4 base64_digits(4) [of c] by linarith
    moreover have "encode_utf8 c = [word_of_nat (0xf0 + c div 262144),
        word_of_nat (0x80 + c div 4096 mod 64), word_of_nat (0x80 + c div 64 mod 64),
        word_of_nat (0x80 + c mod 64)]"
      using 3 by (simp add: encode_utf8_def)
    ultimately show ?thesis
      using dec [of "c div 262144" "c div 4096 mod 64" "c div 64 mod 64" "c mod 64"]
        base64_digits(4) [of c] by simp
  qed
  then show ?thesis by (simp add: decode_utf8_def)
qed

text \<open>A complete UTF-8 sequence of the length its lead announces, in one go.\<close>

definition lead_len :: "byte \<Rightarrow> nat option" where
  "lead_len b =
     (if between 0xc2 0xdf b then Some 2 else if between 0xe0 0xef b then Some 3
      else if between 0xf0 0xf4 b then Some 4 else None)"

lemma ground_lead:
  assumes "lead_len b = Some n" "utf8_needed p = 0"
  shows "ground a b p s = Some (start_utf8 b n p, s)"
  using assms
  by (auto simp: ground_def lead_len_def between_def c0_in_place_def word_le_nat_alt word_unat_eq_iff
      split: if_splits)

lemma ground_cont:
  assumes "cont b" "0 < utf8_needed p" "utf8_len p < length (utf8 p)"
  shows "ground a b p s =
    (let p' = p\<lparr>utf8 := (utf8 p)[utf8_len p := b], utf8_len := utf8_len p + 1\<rparr>
     in if utf8_len p' = utf8_needed p' then finish_utf8 a p' s else Some (p', s))"
  using assms by (simp add: ground_def)

definition utf8_done :: "byte list \<Rightarrow> parser \<Rightarrow> parser" where
  "utf8_done bs p = p\<lparr>utf8 := bs @ replicate (MAX_UTF8 - length bs) 0, utf8_len := 0, utf8_needed := 0\<rparr>"

lemma feed_utf8_seq:
  assumes "lead_len b = Some n" "length cs = n - 1" "list_all cont cs"
    and "p_state p = Ground" "utf8_needed p = 0" "putback p = None"
  shows "feed a (b # cs) p s =
    emit (act_print a (case decode_utf8 (b # cs) of Some c \<Rightarrow> c | None \<Rightarrow> REPLACEMENT) s)
      (utf8_done (b # cs) p)"
proof -
  note simps = feed.simps step_def state_step_def ground_cont start_utf8_def finish_utf8_def
    utf8_done_def MAX_UTF8_def emit_def Let_def slice_def
  have st: "feed a (b # cs) p s = feed a cs (start_utf8 b n p) s"
    using assms by (subst feed.simps) (simp add: step_def state_step_def ground_lead)
  have "n = 2 \<or> n = 3 \<or> n = 4" using assms(1) by (auto simp: lead_len_def split: if_splits)
  then consider c1 where "n = 2" "cs = [c1]" | c1 c2 where "n = 3" "cs = [c1, c2]"
    | c1 c2 c3 where "n = 4" "cs = [c1, c2, c3]"
    using assms(2) by (auto simp: length_Suc_conv numeral_eq_Suc)
  then show ?thesis
    using assms(3-) unfolding st
    by cases (auto simp: simps numeral_eq_Suc bind_split split: option.splits)
qed

lemma encode_utf8_shape:
  assumes "is_scalar c" "0x80 \<le> c"
  shows "\<exists>b cs n. encode_utf8 c = b # cs \<and> lead_len b = Some n \<and> length cs = n - 1 \<and> list_all cont cs"
proof -
  have lead: "lead_len (word_of_nat n) = (if 0xc2 \<le> n \<and> n \<le> 0xdf then Some 2
      else if 0xe0 \<le> n \<and> n \<le> 0xef then Some 3 else if 0xf0 \<le> n \<and> n \<le> 0xf4 then Some 4 else None)"
    if "n < 256" for n
    using that by (simp add: lead_len_def byte_cmp_nat)
  have "c \<le> 1114111" using assms(1) by (auto simp: is_scalar_def)
  consider "c < 0x800" | "0x800 \<le> c" "c < 0x10000" | "0x10000 \<le> c" by linarith
  then show ?thesis
  proof cases
    case 1
    have "2 \<le> c div 64" "c div 64 \<le> 31" using 1 assms by linarith+
    then have "lead_len (word_of_nat (0xc0 + c div 64)) = Some 2" by (subst lead) auto
    moreover have "encode_utf8 c = [word_of_nat (0xc0 + c div 64), word_of_nat (0x80 + c mod 64)]"
      using 1 assms by (simp add: encode_utf8_def)
    ultimately show ?thesis using cont_byte(1) [of "c mod 64"] by simp
  next
    case 2
    have "c div 4096 < 16" using 2 by linarith
    then have "lead_len (word_of_nat (0xe0 + c div 4096)) = Some 3" by (subst lead) auto
    moreover have "encode_utf8 c = [word_of_nat (0xe0 + c div 4096),
        word_of_nat (0x80 + c div 64 mod 64), word_of_nat (0x80 + c mod 64)]"
      using 2 by (simp add: encode_utf8_def)
    ultimately show ?thesis
      using cont_byte(1) [of "c mod 64"] cont_byte(1) [of "c div 64 mod 64"] by simp
  next
    case 3
    have "c div 262144 \<le> 4" using \<open>c \<le> 1114111\<close> by linarith
    then have "lead_len (word_of_nat (0xf0 + c div 262144)) = Some 4" by (subst lead) auto
    moreover have "encode_utf8 c = [word_of_nat (0xf0 + c div 262144),
        word_of_nat (0x80 + c div 4096 mod 64), word_of_nat (0x80 + c div 64 mod 64),
        word_of_nat (0x80 + c mod 64)]"
      using 3 by (simp add: encode_utf8_def)
    ultimately show ?thesis
      using cont_byte(1) [of "c mod 64"] cont_byte(1) [of "c div 64 mod 64"]
        cont_byte(1) [of "c div 4096 mod 64"] by simp
  qed
qed

definition printable :: "nat \<Rightarrow> bool" where
  "printable c \<longleftrightarrow> is_scalar c \<and> (0x20 \<le> c \<and> c \<le> 0x7e \<or> 0x80 \<le> c)"

lemma idle_needs_nothing: "wf_parser p \<Longrightarrow> is_idle p \<Longrightarrow> utf8_needed p = 0"
  by (auto simp: wf_parser_def is_idle_def)

lemma feed_printable:
  assumes "printable c" "wf_parser p" "is_idle p"
  shows "\<exists>p'. feed a (encode_utf8 c) p s = emit (act_print a (word_of_nat c) s) p' \<and>
    wf_parser p' \<and> is_idle p'"
proof (cases "0x80 \<le> c")
  case True
  then have sc: "is_scalar c" using assms(1) by (simp add: printable_def)
  obtain b cs n where e: "encode_utf8 c = b # cs" "lead_len b = Some n" "length cs = n - 1"
    "list_all cont cs" using encode_utf8_shape [OF sc True] by blast
  have n: "Suc (length cs) \<le> MAX_UTF8"
    using e(2,3) by (auto simp: lead_len_def MAX_UTF8_def split: if_splits)
  have "feed a (encode_utf8 c) p s = emit (act_print a (word_of_nat c) s) (utf8_done (b # cs) p)"
    using feed_utf8_seq [OF e(2-4), of p a s] decode_encode_utf8 [OF sc True]
      idle_needs_nothing [OF assms(2,3)] assms(3) by (simp add: e(1) is_idle_def)
  moreover have "wf_parser (utf8_done (b # cs) p)" "is_idle (utf8_done (b # cs) p)"
    using assms(2,3) n by (auto simp: wf_parser_def is_idle_def utf8_done_def)
  ultimately show ?thesis by blast
next
  case False
  then have c: "0x20 \<le> c" "c \<le> 0x7e" using assms(1) by (auto simp: printable_def)
  have "ground a (word_of_nat c) p s = emit (act_print a (ucast (word_of_nat c :: byte)) s) p"
    using c idle_needs_nothing [OF assms(2,3)] by (simp add: ground_def c0_in_place_def byte_cmp_nat)
  moreover have "ucast (word_of_nat c :: byte) = (word_of_nat c :: scalar)"
    using c by (simp add: unsigned_of_nat take_bit_nat_eq_self)
  ultimately have "feed a (encode_utf8 c) p s = emit (act_print a (word_of_nat c) s) p"
    using c assms(3) idle_needs_nothing [OF assms(2,3)]
    by (simp add: encode_utf8_def feed.simps step_def state_step_def is_idle_def emit_def bind_split
        split: option.splits)
  with assms show ?thesis by blast
qed

text \<open>
  Text survives the parser. From an idle parser, the UTF-8 encoding of any sequence of
  printable scalar values (ASCII 20 to 7E and everything from 80 up, surrogates excluded) is
  reported as exactly those prints, in order and with nothing else, and the parser is idle
  again.
\<close>

theorem feed_text:
  assumes "\<forall>c \<in> set cs. printable c" "wf_parser p" "is_idle p"
  shows "\<exists>p'. feed recorder (concat (map encode_utf8 cs)) p es =
      Some (p', es @ map (\<lambda>c. EPrint (word_of_nat c)) cs) \<and> wf_parser p' \<and> is_idle p'"
  using assms
proof (induction cs arbitrary: p es)
  case Nil
  then show ?case by (simp add: feed.simps [of recorder "[]" p es] is_idle_def)
next
  case (Cons c cs)
  obtain q where q: "feed recorder (encode_utf8 c) p es = Some (q, es @ [EPrint (word_of_nat c)])"
    "wf_parser q" "is_idle q"
    using feed_printable [of c p recorder es] Cons.prems by (auto simp: emit_def recorder_def)
  obtain p' where "feed recorder (concat (map encode_utf8 cs)) q (es @ [EPrint (word_of_nat c)]) =
      Some (p', (es @ [EPrint (word_of_nat c)]) @ map (\<lambda>c. EPrint (word_of_nat c)) cs)"
    "wf_parser p'" "is_idle p'"
    using Cons.IH [OF _ q(2,3)] Cons.prems(1) by fastforce
  with q(1) show ?case by (simp add: feed_append)
qed

lemma feed_text_witness:
  "\<exists>p'. feed recorder (concat (map encode_utf8 [0x41, 0x20AC, 0x1F600])) parser_new [] =
      Some (p', [EPrint 0x41, EPrint 0x20AC, EPrint 0x1F600]) \<and> wf_parser p' \<and> is_idle p'"
  using feed_text [of "[0x41, 0x20AC, 0x1F600]" parser_new "[]"]
  by (simp add: printable_def is_scalar_def)

end
