(* ===== verification/Vt_Screen.thy ===== *)
theory Vt_Screen
  imports Vt_Parser Width
begin

text \<open>
  The visible grid of \<^verbatim>\<open>crates/vt-engine/src/screen.rs\<close>: cells, cursor, pen, scroll region,
  alternate screen, damage, reply queue, and the \<open>Actions\<close> implementation the parser drives.
  \<open>u8\<close> and \<open>u16\<close> fields are natural numbers whose bound is part of \<open>wf_screen\<close>. Indexing,
  slicing and checked \<open>u16\<close> arithmetic that panics in the source is \<open>None\<close> here. The mutation
  switches of the source (\<open>crate::mutate\<close>, feature \<open>mutate\<close>) are off.
\<close>

section \<open>State\<close>

record cell =
  c_codepoint :: u32
  c_fg :: color
  c_bg :: color
  c_attrs :: u16

definition cell_blank :: "color \<Rightarrow> cell" where
  "cell_blank bg = \<lparr>c_codepoint = 32, c_fg = Default, c_bg = bg, c_attrs = 0\<rparr>"

record saved_cursor =
  sc_col :: nat
  sc_row :: nat
  sc_pending_wrap :: bool
  sc_fg :: color
  sc_bg :: color
  sc_attrs :: u16

record open_cluster =
  oc_row :: nat
  oc_col :: nat
  oc_len :: nat
  oc_after_zwj :: bool
  oc_last_was_ri :: bool
  oc_width :: nat

definition RILL_GRAPHEME_MAX :: nat where "RILL_GRAPHEME_MAX = 32"

record screen =
  s_cols :: nat
  s_rows :: nat
  s_cells :: "cell list"
  s_cursor_col :: nat
  s_cursor_row :: nat
  s_cursor_visible :: bool
  s_pending_wrap :: bool
  s_autowrap :: bool
  s_full_damage :: bool
  s_damage_row0 :: nat
  s_damage_row1 :: nat
  s_scroll_top :: nat
  s_scroll_bottom :: nat
  s_palette :: palette
  s_pen_fg :: color
  s_pen_bg :: color
  s_pen_attrs :: u16
  s_saved_cursor :: "saved_cursor option"
  s_alt_cursor :: "saved_cursor option"
  s_saved_grid :: "cell list option"
  s_in_alt :: bool
  s_replies :: "byte list"
  s_replies_dropped :: nat
  s_discard_replies :: bool
  s_open_cluster :: "open_cluster option"
  s_grapheme_truncated :: nat
  s_application_cursor_keys :: bool
  s_application_keypad :: bool
  s_bracketed_paste :: bool
  s_mouse_x10 :: bool
  s_mouse_button :: bool
  s_mouse_any :: bool
  s_mouse_sgr :: bool
  s_focus_events :: bool
  s_scrolled_off :: "cell list list"

text \<open>Checked \<open>u16\<close> arithmetic and the truncating cast.\<close>

definition u16_add :: "nat \<Rightarrow> nat \<Rightarrow> nat option" where
  "u16_add a b = (if a + b \<le> u16_max then Some (a + b) else None)"

definition u16_mul :: "nat \<Rightarrow> nat \<Rightarrow> nat option" where
  "u16_mul a b = (if a * b \<le> u16_max then Some (a * b) else None)"

definition as_u16 :: "nat \<Rightarrow> nat" where
  "as_u16 n = n mod 65536"

section \<open>Construction, resizing and reading\<close>

definition screen_new :: "nat \<Rightarrow> nat \<Rightarrow> vt_error + screen" where
  "screen_new cs rs =
     (if cs = 0 \<or> rs = 0 then Inl (Vt ''empty grid'')
      else Inr
        \<lparr>s_cols = cs, s_rows = rs, s_cells = replicate (cs * rs) (cell_blank Default),
         s_cursor_col = 0, s_cursor_row = 0, s_cursor_visible = True, s_pending_wrap = False,
         s_autowrap = True, s_full_damage = True, s_damage_row0 = 0, s_damage_row1 = 0,
         s_scroll_top = 0, s_scroll_bottom = rs - 1, s_palette = vt_default,
         s_pen_fg = Default, s_pen_bg = Default, s_pen_attrs = 0, s_saved_cursor = None,
         s_alt_cursor = None, s_saved_grid = None, s_in_alt = False, s_replies = [],
         s_replies_dropped = 0, s_discard_replies = False, s_open_cluster = None,
         s_grapheme_truncated = 0, s_application_cursor_keys = False,
         s_application_keypad = False, s_bracketed_paste = False, s_mouse_x10 = False,
         s_mouse_button = False, s_mouse_any = False, s_mouse_sgr = False,
         s_focus_events = False, s_scrolled_off = []\<rparr>)"

definition resize_cells :: "cell list \<Rightarrow> nat \<Rightarrow> nat \<Rightarrow> nat \<Rightarrow> nat \<Rightarrow> cell list option" where
  "resize_cells old old_cols old_rows cs rs =
     (let next = replicate (cs * rs) (cell_blank Default);
          copy_cols = min old_cols cs;
          copy_rows = min old_rows rs
      in for_each [0..<copy_rows]
           (\<lambda>r. for_each [0..<copy_cols]
              (\<lambda>c next. let src = r * old_cols + c; dst = r * cs + c
                 in if src < length old
                    then get_at old src \<bind> set_at next dst
                    else Some next))
           next)"

definition clamp_saved :: "nat \<Rightarrow> nat \<Rightarrow> saved_cursor \<Rightarrow> saved_cursor" where
  "clamp_saved cs rs c = c\<lparr>sc_col := min (sc_col c) (cs - 1), sc_row := min (sc_row c) (rs - 1)\<rparr>"

definition screen_resize :: "nat \<Rightarrow> nat \<Rightarrow> screen \<Rightarrow> ((vt_error + unit) \<times> screen) option" where
  "screen_resize cs rs s =
     (if cs = 0 \<or> rs = 0 then Some (Inl (Vt ''empty grid''), s)
      else do {
        next \<leftarrow> resize_cells (s_cells s) (s_cols s) (s_rows s) cs rs;
        saved \<leftarrow> (case s_saved_grid s of
           None \<Rightarrow> Some None
         | Some g \<Rightarrow> map_option Some (resize_cells g (s_cols s) (s_rows s) cs rs));
        Some (Inr (),
          s\<lparr>s_saved_grid := saved, s_cols := cs, s_rows := rs, s_cells := next,
            s_cursor_col := min (s_cursor_col s) (cs - 1),
            s_cursor_row := min (s_cursor_row s) (rs - 1),
            s_scroll_top := 0, s_scroll_bottom := rs - 1, s_pending_wrap := False,
            s_full_damage := True,
            s_saved_cursor := map_option (clamp_saved cs rs) (s_saved_cursor s),
            s_alt_cursor := map_option (clamp_saved cs rs) (s_alt_cursor s),
            s_open_cluster := None\<rparr>)})"

definition mode_state :: "screen \<Rightarrow> terminal_mode_state" where
  "mode_state s =
     \<lparr>ms_application_cursor_keys = s_application_cursor_keys s,
      ms_application_keypad = s_application_keypad s,
      ms_bracketed_paste = s_bracketed_paste s, ms_mouse_x10 = s_mouse_x10 s,
      ms_mouse_button = s_mouse_button s, ms_mouse_any = s_mouse_any s,
      ms_mouse_sgr = s_mouse_sgr s, ms_focus_events = s_focus_events s,
      ms_alternate_screen = s_in_alt s, ms_cursor_visible = s_cursor_visible s\<rparr>"

definition idx :: "screen \<Rightarrow> nat \<Rightarrow> nat \<Rightarrow> nat" where
  "idx s col row = row * s_cols s + col"

definition resolve :: "screen \<Rightarrow> color \<Rightarrow> bool \<Rightarrow> rgb" where
  "resolve s c fg =
     (case c of
        Default \<Rightarrow> if fg then foreground (s_palette s) else background (s_palette s)
      | Indexed n \<Rightarrow> indexed n (s_palette s)
      | Rgb r g b \<Rightarrow> mk_rgb r g b)"

definition to_pod_cell :: "screen \<Rightarrow> cell \<Rightarrow> pod_cell" where
  "to_pod_cell s c =
     \<lparr>pc_codepoint = c_codepoint c, pc_fg = pack (resolve s (c_fg c) True),
      pc_bg = pack (resolve s (c_bg c) False), pc_attrs = c_attrs c\<rparr>"

definition snapshot :: "screen \<Rightarrow> pod_grid \<times> screen" where
  "snapshot s =
     (\<lparr>pg_cols = s_cols s, pg_rows = s_rows s, pg_cursor_col = s_cursor_col s,
       pg_cursor_row = s_cursor_row s, pg_cursor_visible = s_cursor_visible s,
       pg_full_damage = s_full_damage s, pg_damage_row0 = s_damage_row0 s,
       pg_damage_row1 = s_damage_row1 s, pg_default_fg = pack (foreground (s_palette s)),
       pg_default_bg = pack (background (s_palette s)),
       pg_grapheme_truncated = s_grapheme_truncated s, pg_replies_dropped = s_replies_dropped s,
       pg_cells = map (to_pod_cell s) (s_cells s)\<rparr>,
      s\<lparr>s_full_damage := False, s_damage_row0 := 1, s_damage_row1 := 0\<rparr>)"

definition color_at :: "screen \<Rightarrow> nat \<Rightarrow> nat \<Rightarrow> (color \<times> color) option option" where
  "color_at s col row =
     (if s_cols s \<le> col \<or> s_rows s \<le> row then Some None
      else get_at (s_cells s) (idx s col row) \<bind> (\<lambda>c. Some (Some (c_fg c, c_bg c))))"

definition set_palette :: "palette \<Rightarrow> screen \<Rightarrow> screen" where
  "set_palette p s = s\<lparr>s_palette := p, s_full_damage := True\<rparr>"

definition take_replies :: "screen \<Rightarrow> byte list \<times> screen" where
  "take_replies s = (s_replies s, s\<lparr>s_replies := []\<rparr>)"

definition take_scrolled_off :: "screen \<Rightarrow> pod_cell list list \<times> screen" where
  "take_scrolled_off s =
     (map (map (to_pod_cell s)) (s_scrolled_off s), s\<lparr>s_scrolled_off := []\<rparr>)"

definition has_replies :: "screen \<Rightarrow> bool" where
  "has_replies s \<longleftrightarrow> s_replies s \<noteq> []"

definition set_discard_replies :: "bool \<Rightarrow> screen \<Rightarrow> screen" where
  "set_discard_replies b s = s\<lparr>s_discard_replies := b\<rparr>"

section \<open>Replies\<close>

definition REPLY_CAP :: nat where "REPLY_CAP = 1024"

definition enqueue_reply :: "byte list \<Rightarrow> screen \<Rightarrow> screen" where
  "enqueue_reply bs s =
     (if s_discard_replies s \<or> REPLY_CAP < length (s_replies s) + length bs
      then s\<lparr>s_replies_dropped := sat_add u32_max (s_replies_dropped s) 1\<rparr>
      else s\<lparr>s_replies := s_replies s @ bs\<rparr>)"

text \<open>\<open>write_u16\<close>: the digits are produced backwards in a five-byte array, then copied out.\<close>

function digits_loop :: "byte list \<Rightarrow> nat \<Rightarrow> nat \<Rightarrow> (byte list \<times> nat) option" where
  "digits_loop tmp k x =
     set_at tmp k (0x30 + word_of_nat (x mod 10)) \<bind>
       (\<lambda>tmp. if x div 10 = 0 then Some (tmp, k + 1) else digits_loop tmp (k + 1) (x div 10))"
  by pat_completeness auto
termination by (relation "measure (\<lambda>(_, _, x). x)") auto

declare digits_loop.simps [simp del]

primrec rev_copy :: "byte list \<Rightarrow> nat \<Rightarrow> byte list \<Rightarrow> nat \<Rightarrow> (byte list \<times> nat) option" where
  "rev_copy tmp 0 out w = Some (out, w)"
| "rev_copy tmp (Suc k) out w =
     get_at tmp k \<bind> (\<lambda>d. set_at out w d \<bind> (\<lambda>out. rev_copy tmp k out (w + 1)))"

definition write_u16 :: "byte list \<Rightarrow> nat \<Rightarrow> (byte list \<times> nat) option" where
  "write_u16 out n = digits_loop (replicate 5 0) 0 n \<bind> (\<lambda>(tmp, k). rev_copy tmp k out 0)"

text \<open>\<open>write_u16(&mut buf[i..], n)\<close>.\<close>

definition write_u16_at :: "byte list \<Rightarrow> nat \<Rightarrow> nat \<Rightarrow> (byte list \<times> nat) option" where
  "write_u16_at buf i n =
     slice buf i (length buf) \<bind> (\<lambda>out. write_u16 out n \<bind> (\<lambda>(out, w). Some (take i buf @ out, w)))"

definition reply_primary_da :: "screen \<Rightarrow> screen" where
  "reply_primary_da = enqueue_reply [0x1b, 0x5b, 0x3f, 0x36, 0x63]"

definition reply_secondary_da :: "screen \<Rightarrow> screen" where
  "reply_secondary_da = enqueue_reply [0x1b, 0x5b, 0x3e, 0x30, 0x3b, 0x30, 0x3b, 0x30, 0x63]"

definition reply_dsr_status :: "screen \<Rightarrow> screen" where
  "reply_dsr_status = enqueue_reply [0x1b, 0x5b, 0x30, 0x6e]"

definition reply_dsr_cursor :: "screen \<Rightarrow> screen option" where
  "reply_dsr_cursor s = do {
     let row = sat_add u16_max (s_cursor_row s) 1;
     let col = sat_add u16_max (s_cursor_col s) 1;
     buf \<leftarrow> set_at (replicate 16 0) 0 0x1b;
     buf \<leftarrow> set_at buf 1 0x5b;
     (buf, w) \<leftarrow> write_u16_at buf 2 row;
     let i = 2 + w;
     buf \<leftarrow> set_at buf i 0x3b;
     let i = i + 1;
     (buf, w) \<leftarrow> write_u16_at buf i col;
     let i = i + w;
     buf \<leftarrow> set_at buf i 0x52;
     let i = i + 1;
     bs \<leftarrow> slice buf 0 i;
     Some (enqueue_reply bs s)}"

section \<open>Pen, damage and scrolling\<close>

definition paint_indexed :: "nat \<Rightarrow> color" where
  "paint_indexed n = Indexed (word_of_nat (min n 255))"

definition clamp_u8 :: "nat \<Rightarrow> byte" where
  "clamp_u8 n = word_of_nat (min n 255)"

definition set_pen :: "bool \<Rightarrow> color \<Rightarrow> screen \<Rightarrow> screen" where
  "set_pen fg c s = (if fg then s\<lparr>s_pen_fg := c\<rparr> else s\<lparr>s_pen_bg := c\<rparr>)"

text \<open>The arms of the \<open>match\<close> in \<open>apply_sgr\<close> that look at one parameter only.\<close>

definition sgr_one :: "nat \<Rightarrow> screen \<Rightarrow> screen" where
  "sgr_one n s =
     (if n = 0 then s\<lparr>s_pen_attrs := 0, s_pen_fg := Default, s_pen_bg := Default\<rparr>
      else if n = 1 then s\<lparr>s_pen_attrs := s_pen_attrs s OR 1\<rparr>
      else if n = 3 then s
      else if n = 4 then s\<lparr>s_pen_attrs := s_pen_attrs s OR 2\<rparr>
      else if n = 7 then s\<lparr>s_pen_attrs := s_pen_attrs s OR 4\<rparr>
      else if n = 22 then s\<lparr>s_pen_attrs := s_pen_attrs s AND NOT 1\<rparr>
      else if n = 24 then s\<lparr>s_pen_attrs := s_pen_attrs s AND NOT 2\<rparr>
      else if n = 27 then s\<lparr>s_pen_attrs := s_pen_attrs s AND NOT 4\<rparr>
      else if 30 \<le> n \<and> n \<le> 37 then s\<lparr>s_pen_fg := paint_indexed (n - 30)\<rparr>
      else if 90 \<le> n \<and> n \<le> 97 then s\<lparr>s_pen_fg := paint_indexed (n - 90 + 8)\<rparr>
      else if 40 \<le> n \<and> n \<le> 47 then s\<lparr>s_pen_bg := paint_indexed (n - 40)\<rparr>
      else if 100 \<le> n \<and> n \<le> 107 then s\<lparr>s_pen_bg := paint_indexed (n - 100 + 8)\<rparr>
      else if n = 39 then s\<lparr>s_pen_fg := Default\<rparr>
      else if n = 49 then s\<lparr>s_pen_bg := Default\<rparr>
      else s)"

text \<open>
  The \<open>while i < params.len()\<close> loop, over the parameters not yet read. An extended colour
  whose arguments are missing consumes its introducer and its mode only.
\<close>

fun sgr_loop :: "nat list \<Rightarrow> screen \<Rightarrow> screen" where
  "sgr_loop [] s = s"
| "sgr_loop (n # ps) s =
     (if n = 38 \<or> n = 48 then
        (case ps of
           [] \<Rightarrow> s
         | k # ps' \<Rightarrow>
             if k = 5 then
               (case ps' of [] \<Rightarrow> s | ix # ps'' \<Rightarrow> sgr_loop ps'' (set_pen (n = 38) (paint_indexed ix) s))
             else if k = 2 then
               (case ps' of
                  r # g # b # ps'' \<Rightarrow>
                    sgr_loop ps'' (set_pen (n = 38) (Rgb (clamp_u8 r) (clamp_u8 g) (clamp_u8 b)) s)
                | _ \<Rightarrow> sgr_loop ps' s)
             else sgr_loop ps s)
      else sgr_loop ps (sgr_one n s))"

definition apply_sgr :: "nat list \<Rightarrow> screen \<Rightarrow> screen" where
  "apply_sgr ps s = sgr_loop (if ps = [] then [0] else ps) s"

definition dirty :: "nat \<Rightarrow> screen \<Rightarrow> screen" where
  "dirty row s =
     (if s_full_damage s then s
      else if s_damage_row0 s > s_damage_row1 s
      then s\<lparr>s_damage_row0 := row, s_damage_row1 := row\<rparr>
      else s\<lparr>s_damage_row0 := (if row < s_damage_row0 s then row else s_damage_row0 s),
             s_damage_row1 := (if row > s_damage_row1 s then row else s_damage_row1 s)\<rparr>)"

definition clear_pending_wrap :: "screen \<Rightarrow> screen" where
  "clear_pending_wrap s = s\<lparr>s_pending_wrap := False\<rparr>"

text \<open>\<open>self.cells.copy_within(a..b, d)\<close> and \<open>for cell in &mut self.cells[a..b] { *cell = v }\<close>.\<close>

definition move_cells :: "nat \<Rightarrow> nat \<Rightarrow> nat \<Rightarrow> screen \<Rightarrow> screen option" where
  "move_cells a b d s = copy_within (s_cells s) a b d \<bind> (\<lambda>cs. Some (s\<lparr>s_cells := cs\<rparr>))"

definition fill_cells :: "nat \<Rightarrow> nat \<Rightarrow> cell \<Rightarrow> screen \<Rightarrow> screen option" where
  "fill_cells a b v s = fill_range (s_cells s) a b v \<bind> (\<lambda>cs. Some (s\<lparr>s_cells := cs\<rparr>))"

definition put_cell_at :: "nat \<Rightarrow> cell \<Rightarrow> screen \<Rightarrow> screen option" where
  "put_cell_at i v s = set_at (s_cells s) i v \<bind> (\<lambda>cs. Some (s\<lparr>s_cells := cs\<rparr>))"

definition scroll_up :: "screen \<Rightarrow> screen option" where
  "scroll_up s = do {
     let top = s_scroll_top s;
     let bot = s_scroll_bottom s;
     let cs = s_cols s;
     s \<leftarrow> (if \<not> s_in_alt s \<and> s_scroll_top s = 0 \<and> cs > 0
           then slice (s_cells s) (top * cs) (top * cs + cs) \<bind>
             (\<lambda>row. Some (s\<lparr>s_scrolled_off := s_scrolled_off s @ [row]\<rparr>))
           else Some s);
     s \<leftarrow> for_each [top..<bot] (\<lambda>r. move_cells ((r + 1) * cs) ((r + 1) * cs + cs) (r * cs)) s;
     let start = bot * cs;
     s \<leftarrow> fill_cells start (start + cs) (cell_blank (s_pen_bg s)) s;
     Some (s\<lparr>s_full_damage := True\<rparr>)}"

definition scroll_down :: "screen \<Rightarrow> screen option" where
  "scroll_down s = do {
     let top = s_scroll_top s;
     let bot = s_scroll_bottom s;
     let cs = s_cols s;
     s \<leftarrow> (if bot > top
           then for_each (rev [top + 1..<bot + 1])
             (\<lambda>r. move_cells ((r - 1) * cs) ((r - 1) * cs + cs) (r * cs)) s
           else Some s);
     let start = top * cs;
     s \<leftarrow> fill_cells start (start + cs) (cell_blank (s_pen_bg s)) s;
     Some (s\<lparr>s_full_damage := True\<rparr>)}"

definition index :: "screen \<Rightarrow> screen option" where
  "index s =
     (if s_cursor_row s < s_scroll_bottom s
      then u16_add (s_cursor_row s) 1 \<bind> (\<lambda>r. Some (s\<lparr>s_cursor_row := r\<rparr>))
      else scroll_up s)"

definition reverse_index :: "screen \<Rightarrow> screen option" where
  "reverse_index s =
     (if s_cursor_row s > s_scroll_top s then Some (s\<lparr>s_cursor_row := s_cursor_row s - 1\<rparr>)
      else scroll_down s)"

section \<open>Cursor and alternate screen\<close>

definition last_col :: "screen \<Rightarrow> nat" where "last_col s = s_cols s - 1"
definition last_row :: "screen \<Rightarrow> nat" where "last_row s = s_rows s - 1"

definition set_cursor :: "nat \<Rightarrow> nat \<Rightarrow> screen \<Rightarrow> screen" where
  "set_cursor row col s =
     (let s = (clear_pending_wrap s)\<lparr>s_open_cluster := None\<rparr>
      in s\<lparr>s_cursor_row := min row (last_row s), s_cursor_col := min col (last_col s)\<rparr>)"

definition capture_cursor :: "screen \<Rightarrow> saved_cursor" where
  "capture_cursor s =
     \<lparr>sc_col = s_cursor_col s, sc_row = s_cursor_row s, sc_pending_wrap = s_pending_wrap s,
      sc_fg = s_pen_fg s, sc_bg = s_pen_bg s, sc_attrs = s_pen_attrs s\<rparr>"

definition restore_cursor :: "saved_cursor \<Rightarrow> screen \<Rightarrow> screen" where
  "restore_cursor c s =
     (clear_pending_wrap s)
       \<lparr>s_cursor_col := min (sc_col c) (last_col s), s_cursor_row := min (sc_row c) (last_row s),
        s_pending_wrap := sc_pending_wrap c, s_pen_fg := sc_fg c, s_pen_bg := sc_bg c,
        s_pen_attrs := sc_attrs c\<rparr>"

definition blank_grid :: "screen \<Rightarrow> cell list" where
  "blank_grid s = replicate (s_cols s * s_rows s) (cell_blank (s_pen_bg s))"

definition enter_alt :: "bool \<Rightarrow> bool \<Rightarrow> screen \<Rightarrow> screen" where
  "enter_alt save_cursor clear s =
     (let s = (if \<not> s_in_alt s
               then s\<lparr>s_saved_grid := Some (s_cells s),
                      s_alt_cursor := (if save_cursor then Some (capture_cursor s) else None)\<rparr>
               else s);
          s = (if clear then set_cursor 0 0 (s\<lparr>s_cells := blank_grid s\<rparr>) else s)
      in s\<lparr>s_in_alt := True, s_full_damage := True\<rparr>)"

definition leave_alt :: "bool \<Rightarrow> screen \<Rightarrow> screen" where
  "leave_alt restore s =
     (if \<not> s_in_alt s then s
      else
        let s = (case s_saved_grid s of
                   None \<Rightarrow> s | Some g \<Rightarrow> s\<lparr>s_saved_grid := None, s_cells := g\<rparr>);
            s = (if restore
                 then (case s_alt_cursor s of
                         None \<Rightarrow> s | Some c \<Rightarrow> restore_cursor c (s\<lparr>s_alt_cursor := None\<rparr>))
                 else s\<lparr>s_alt_cursor := None\<rparr>)
        in s\<lparr>s_in_alt := False, s_full_damage := True\<rparr>)"

text \<open>\<open>csi_n\<close>: an absent or zero parameter is the default.\<close>

definition csi_n :: "nat list \<Rightarrow> nat \<Rightarrow> nat \<Rightarrow> nat" where
  "csi_n ps i d = (case get_at ps i of None \<Rightarrow> d | Some n \<Rightarrow> if n = 0 then d else n)"

definition set_scroll_region :: "nat list \<Rightarrow> screen \<Rightarrow> screen" where
  "set_scroll_region ps s =
     (let top = csi_n ps 0 1; bot = csi_n ps 1 (s_rows s)
      in if top < 1 \<or> bot > s_rows s \<or> top \<ge> bot then s
         else set_cursor 0 0 (s\<lparr>s_scroll_top := top - 1, s_scroll_bottom := bot - 1\<rparr>))"

definition private_mode_one :: "bool \<Rightarrow> nat \<Rightarrow> screen \<Rightarrow> screen" where
  "private_mode_one on p s =
     (if p = 1 then s\<lparr>s_application_cursor_keys := on\<rparr>
      else if p = 7 then s\<lparr>s_autowrap := on\<rparr>
      else if p = 25 then s\<lparr>s_cursor_visible := on\<rparr>
      else if p = 2004 then s\<lparr>s_bracketed_paste := on\<rparr>
      else if p = 1000 then s\<lparr>s_mouse_x10 := on\<rparr>
      else if p = 1002 then s\<lparr>s_mouse_button := on\<rparr>
      else if p = 1003 then s\<lparr>s_mouse_any := on\<rparr>
      else if p = 1004 then s\<lparr>s_focus_events := on\<rparr>
      else if p = 1006 then s\<lparr>s_mouse_sgr := on\<rparr>
      else if p = 1047 then (if on then enter_alt False True s else leave_alt False s)
      else if p = 1049 then (if on then enter_alt True True s else leave_alt True s)
      else s)"

definition private_mode :: "nat list \<Rightarrow> bool \<Rightarrow> screen \<Rightarrow> screen" where
  "private_mode ps on s = fold (private_mode_one on) ps s"

section \<open>Printing\<close>

definition ZWJ :: scalar where "ZWJ = 0x200d"

definition is_cluster_continuer :: "scalar \<Rightarrow> bool" where
  "is_cluster_continuer c \<longleftrightarrow>
     is_mark (unat c) \<or> c = ZWJ \<or> 0xfe00 \<le> c \<and> c \<le> 0xfe0f \<or> 0xe0100 \<le> c \<and> c \<le> 0xe01ef"

definition is_regional_indicator :: "scalar \<Rightarrow> bool" where
  "is_regional_indicator c \<longleftrightarrow> 0x1f1e6 \<le> c \<and> c \<le> 0x1f1ff"

definition should_append :: "scalar \<Rightarrow> screen \<Rightarrow> bool" where
  "should_append c s =
     (case s_open_cluster s of
        None \<Rightarrow> False
      | Some cl \<Rightarrow> is_cluster_continuer c \<or> oc_after_zwj cl \<or>
          (oc_last_was_ri cl \<and> is_regional_indicator c))"

definition cluster_width :: "scalar \<Rightarrow> nat" where
  "cluster_width c = (if is_wide (unat c) then 2 else 1)"

definition remaining_cols :: "screen \<Rightarrow> nat" where
  "remaining_cols s = s_cols s - s_cursor_col s"

definition wrap_if_needed_width :: "nat \<Rightarrow> screen \<Rightarrow> screen option" where
  "wrap_if_needed_width width s =
     (if \<not> (s_pending_wrap s \<or> remaining_cols s < width) then Some s
      else if \<not> s_autowrap s then Some (s\<lparr>s_pending_wrap := False\<rparr>)
      else index (s\<lparr>s_pending_wrap := False, s_cursor_col := 0\<rparr>))"

text \<open>The inner \<open>if\<close> of \<open>smash_wide_at\<close>: the other half is blanked if it carries its mark.\<close>

definition blank_if :: "u16 \<Rightarrow> nat \<Rightarrow> nat \<Rightarrow> screen \<Rightarrow> screen option" where
  "blank_if m col row s = do {
     d \<leftarrow> get_at (s_cells s) (idx s col row);
     if c_attrs d AND m \<noteq> 0 then put_cell_at (idx s col row) (cell_blank (s_pen_bg s)) s
     else Some s}"

definition smash_wide_at :: "nat \<Rightarrow> nat \<Rightarrow> screen \<Rightarrow> screen option" where
  "smash_wide_at col row s =
     (if s_cols s \<le> col \<or> s_rows s \<le> row then Some s
      else do {
        c \<leftarrow> get_at (s_cells s) (idx s col row);
        let attrs = c_attrs c;
        s \<leftarrow> (if attrs AND ATTR_WIDE_LEAD \<noteq> 0
              then u16_add col 1 \<bind>
                (\<lambda>col1. if col1 < s_cols s then blank_if ATTR_WIDE_TAIL col1 row s else Some s)
              else Some s);
        if attrs AND ATTR_WIDE_TAIL \<noteq> 0 \<and> col > 0 then blank_if ATTR_WIDE_LEAD (col - 1) row s
        else Some s})"

definition advance_after_width :: "nat \<Rightarrow> screen \<Rightarrow> screen" where
  "advance_after_width width s =
     (let next = sat_add u16_max (s_cursor_col s) width
      in if next < s_cols s then s\<lparr>s_cursor_col := next, s_pending_wrap := False\<rparr>
         else s\<lparr>s_cursor_col := last_col s, s_pending_wrap := s_autowrap s\<rparr>)"

definition append_to_cluster :: "scalar \<Rightarrow> screen \<Rightarrow> bool \<times> screen" where
  "append_to_cluster c s =
     (case s_open_cluster s of
        None \<Rightarrow> (False, s)
      | Some cl \<Rightarrow>
          let full = RILL_GRAPHEME_MAX \<le> oc_len cl;
              s = (if full
                   then s\<lparr>s_grapheme_truncated := sat_add u32_max (s_grapheme_truncated s) 1\<rparr>
                   else s);
              cl = (if full then cl else cl\<lparr>oc_len := sat_add u8_max (oc_len cl) 1\<rparr>);
              cl = cl\<lparr>oc_after_zwj := c = ZWJ, oc_last_was_ri := is_regional_indicator c\<rparr>
          in (True, (dirty (oc_row cl) s)\<lparr>s_open_cluster := Some cl\<rparr>))"

definition maybe_expand_ri_pair :: "screen \<Rightarrow> screen option" where
  "maybe_expand_ri_pair s =
     (case s_open_cluster s of
        None \<Rightarrow> Some s
      | Some cl \<Rightarrow>
          if 2 \<le> oc_width cl then Some s
          else
            let tail_col = sat_add u16_max (oc_col cl) 1
            in if s_cols s \<le> tail_col \<or> oc_row cl \<noteq> s_cursor_row s then Some s
               else do {
                 s \<leftarrow> smash_wide_at tail_col (oc_row cl) s;
                 let lead_i = idx s (oc_col cl) (oc_row cl);
                 let tail_i = idx s tail_col (oc_row cl);
                 lead \<leftarrow> get_at (s_cells s) lead_i;
                 s \<leftarrow> put_cell_at lead_i (lead\<lparr>c_attrs := (c_attrs lead AND 7) OR ATTR_WIDE_LEAD\<rparr>) s;
                 s \<leftarrow> put_cell_at tail_i
                   (lead\<lparr>c_attrs := (c_attrs lead AND 7) OR ATTR_WIDE_TAIL\<rparr>) s;
                 let s = dirty (oc_row cl) (s\<lparr>s_open_cluster := Some (cl\<lparr>oc_width := 2\<rparr>)\<rparr>);
                 Some (if s_cursor_col s \<le> tail_col \<and> s_cursor_row s = oc_row cl
                       then advance_after_width 1 (s\<lparr>s_cursor_col := tail_col\<rparr>)
                       else s)})"

definition write_glyph :: "scalar \<Rightarrow> nat \<Rightarrow> screen \<Rightarrow> screen option" where
  "write_glyph c width s = do {
     let row = s_cursor_row s;
     let col = s_cursor_col s;
     s \<leftarrow> smash_wide_at col row s;
     s \<leftarrow> (if width = 2 then u16_add col 1 \<bind> (\<lambda>col1. smash_wide_at col1 row s) else Some s);
     let sgr = s_pen_attrs s AND 7;
     s \<leftarrow> put_cell_at (idx s col row)
       \<lparr>c_codepoint = c, c_fg = s_pen_fg s, c_bg = s_pen_bg s,
        c_attrs = sgr OR (if width = 2 then ATTR_WIDE_LEAD else 0)\<rparr> s;
     s \<leftarrow> (if width = 2
           then u16_add col 1 \<bind> (\<lambda>col1. put_cell_at (idx s col1 row)
             \<lparr>c_codepoint = c, c_fg = s_pen_fg s, c_bg = s_pen_bg s,
              c_attrs = sgr OR ATTR_WIDE_TAIL\<rparr> s)
           else Some s);
     let s = s\<lparr>s_open_cluster := Some
       \<lparr>oc_row = row, oc_col = col, oc_len = 1, oc_after_zwj = (c = ZWJ),
        oc_last_was_ri = is_regional_indicator c, oc_width = width\<rparr>\<rparr>;
     Some (advance_after_width width (dirty row s))}"

definition write_char :: "scalar \<Rightarrow> screen \<Rightarrow> screen option" where
  "write_char c s =
     (let (appended, s) = (if should_append c s then append_to_cluster c s else (False, s))
      in if appended then (if is_regional_indicator c then maybe_expand_ri_pair s else Some s)
         else
           let width = cluster_width c
           in wrap_if_needed_width width s \<bind> (\<lambda>s.
                if s_cols s < width \<or> remaining_cols s < width then Some s
                else write_glyph c width s))"

section \<open>Erasing, inserting and deleting\<close>

definition erase_span :: "nat \<Rightarrow> nat \<Rightarrow> screen \<Rightarrow> screen option" where
  "erase_span from to s = do {
     let to = min to (length (s_cells s));
     let from = min from to;
     let cs = max (s_cols s) 1;
     s \<leftarrow> for_each [from..<to] (\<lambda>i. smash_wide_at (as_u16 (i mod cs)) (as_u16 (i div cs))) s;
     s \<leftarrow> fill_cells from to (cell_blank (s_pen_bg s)) s;
     Some (if from < to
           then fold dirty [as_u16 (from div cs)..<Suc (as_u16 ((to - 1) div cs))] s
           else s)}"

definition erase_display :: "nat \<Rightarrow> screen \<Rightarrow> screen option" where
  "erase_display mode s =
     (let cur = idx s (s_cursor_col s) (s_cursor_row s)
      in if mode = 0 then erase_span cur (length (s_cells s)) s
         else if mode = 1 then erase_span 0 (cur + 1) s
         else erase_span 0 (length (s_cells s)) s \<bind> (\<lambda>s. Some (s\<lparr>s_full_damage := True\<rparr>)))"

definition erase_line :: "nat \<Rightarrow> screen \<Rightarrow> screen option" where
  "erase_line mode s =
     (let row_start = idx s 0 (s_cursor_row s);
          row_end = row_start + s_cols s;
          cur = idx s (s_cursor_col s) (s_cursor_row s)
      in if mode = 0 then erase_span cur row_end s
         else if mode = 1 then erase_span row_start (cur + 1) s
         else erase_span row_start row_end s)"

definition erase_chars :: "nat \<Rightarrow> screen \<Rightarrow> screen option" where
  "erase_chars n s =
     (let n = min n (s_cols s - s_cursor_col s);
          from = idx s (s_cursor_col s) (s_cursor_row s)
      in erase_span from (from + n) s)"

definition insert_lines :: "nat \<Rightarrow> screen \<Rightarrow> screen option" where
  "insert_lines n s =
     (if s_cursor_row s < s_scroll_top s \<or> s_cursor_row s > s_scroll_bottom s then Some s
      else do {
        avail \<leftarrow> u16_add (s_scroll_bottom s - s_cursor_row s) 1;
        let n = min n avail;
        let cs = s_cols s;
        let first = s_cursor_row s;
        let last = s_scroll_bottom s;
        if n = 0 then Some s
        else do {
          s \<leftarrow> (if first + n \<le> last
                then for_each (rev [first..<Suc (last - n)])
                  (\<lambda>r. move_cells (r * cs) (r * cs + cs) (r * cs + n * cs)) s
                else Some s);
          s \<leftarrow> for_each [first..<first + n]
            (\<lambda>r s. fill_cells (r * cs) (r * cs + cs) (cell_blank (s_pen_bg s)) s) s;
          Some (fold dirty [s_cursor_row s..<Suc (s_scroll_bottom s)] s)}})"

definition delete_lines :: "nat \<Rightarrow> screen \<Rightarrow> screen option" where
  "delete_lines n s =
     (if s_cursor_row s < s_scroll_top s \<or> s_cursor_row s > s_scroll_bottom s then Some s
      else do {
        avail \<leftarrow> u16_add (s_scroll_bottom s - s_cursor_row s) 1;
        let n = min n avail;
        let cs = s_cols s;
        let first = s_cursor_row s;
        let last = s_scroll_bottom s;
        if n = 0 then Some s
        else do {
          s \<leftarrow> (if first + n \<le> last
                then for_each [first..<Suc (last - n)]
                  (\<lambda>r. move_cells ((r + n) * cs) ((r + n) * cs + cs) (r * cs)) s
                else Some s);
          s \<leftarrow> for_each [last + 1 - n..<Suc last]
            (\<lambda>r s. fill_cells (r * cs) (r * cs + cs) (cell_blank (s_pen_bg s)) s) s;
          Some (fold dirty [s_cursor_row s..<Suc (s_scroll_bottom s)] s)}})"

definition insert_cells :: "nat \<Rightarrow> screen \<Rightarrow> screen option" where
  "insert_cells n s =
     (let n = min n (s_cols s - s_cursor_col s)
      in if n = 0 then Some s
         else do {
           let cs = s_cols s;
           let col = s_cursor_col s;
           let row_start = idx s 0 (s_cursor_row s);
           s \<leftarrow> (if col + n < cs
                 then move_cells (row_start + col) (row_start + cs - n) (row_start + col + n) s
                 else Some s);
           s \<leftarrow> fill_cells (row_start + col) (row_start + col + n) (cell_blank (s_pen_bg s)) s;
           Some (dirty (s_cursor_row s) s)})"

definition delete_cells :: "nat \<Rightarrow> screen \<Rightarrow> screen option" where
  "delete_cells n s =
     (let n = min n (s_cols s - s_cursor_col s)
      in if n = 0 then Some s
         else do {
           let row = s_cursor_row s;
           stop \<leftarrow> u16_add (s_cursor_col s) n;
           s \<leftarrow> for_each [s_cursor_col s..<stop] (\<lambda>c. smash_wide_at c row) s;
           let cs = s_cols s;
           let col = s_cursor_col s;
           let row_start = idx s 0 (s_cursor_row s);
           s \<leftarrow> (if col + n < cs
                 then move_cells (row_start + col + n) (row_start + cs) (row_start + col) s
                 else Some s);
           s \<leftarrow> fill_cells (row_start + cs - n) (row_start + cs) (cell_blank (s_pen_bg s)) s;
           Some (dirty (s_cursor_row s) s)})"

section \<open>Dispatch\<close>

text \<open>
  The final byte of a control sequence is matched as a character of the source: \<open>'A'\<close> is 41
  hexadecimal, and so on in the order of the arms of \<open>csi_dispatch\<close>.
\<close>

definition csi_dispatch :: "nat list \<Rightarrow> byte \<Rightarrow> screen \<Rightarrow> screen option" where
  "csi_dispatch ps action s =
     (if action = 0x41 then
        Some (set_cursor (s_cursor_row s - csi_n ps 0 1) (s_cursor_col s) s)
      else if action = 0x42 then
        Some (set_cursor (sat_add u16_max (s_cursor_row s) (csi_n ps 0 1)) (s_cursor_col s) s)
      else if action = 0x43 then
        Some (set_cursor (s_cursor_row s) (sat_add u16_max (s_cursor_col s) (csi_n ps 0 1)) s)
      else if action = 0x44 then
        Some (set_cursor (s_cursor_row s) (s_cursor_col s - csi_n ps 0 1) s)
      else if action = 0x45 then
        Some (set_cursor (sat_add u16_max (s_cursor_row s) (csi_n ps 0 1)) 0 s)
      else if action = 0x46 then Some (set_cursor (s_cursor_row s - csi_n ps 0 1) 0 s)
      else if action = 0x47 then Some (set_cursor (s_cursor_row s) (csi_n ps 0 1 - 1) s)
      else if action = 0x48 \<or> action = 0x66 then
        Some (set_cursor (csi_n ps 0 1 - 1) (csi_n ps 1 1 - 1) s)
      else if action = 0x64 then Some (set_cursor (csi_n ps 0 1 - 1) (s_cursor_col s) s)
      else if action = 0x4a then erase_display (csi_n ps 0 0) s
      else if action = 0x4b then erase_line (csi_n ps 0 0) s
      else if action = 0x58 then erase_chars (csi_n ps 0 1) s
      else if action = 0x4c then insert_lines (csi_n ps 0 1) s
      else if action = 0x4d then delete_lines (csi_n ps 0 1) s
      else if action = 0x40 then insert_cells (csi_n ps 0 1) s
      else if action = 0x50 then delete_cells (csi_n ps 0 1) s
      else if action = 0x72 then Some (set_scroll_region ps s)
      else if action = 0x53 then for_each [0..<csi_n ps 0 1] (\<lambda>_. scroll_up) s
      else if action = 0x54 then for_each [0..<csi_n ps 0 1] (\<lambda>_. scroll_down) s
      else if action = 0x6d then Some (apply_sgr ps s)
      else if action = 0x63 then
        Some (if ps = [] \<or> hd ps = 0 then reply_primary_da s else s)
      else if action = 0x6e then
        (case ps of
           [] \<Rightarrow> Some s
         | p # _ \<Rightarrow> if p = 6 then reply_dsr_cursor s
                    else if p = 5 then Some (reply_dsr_status s) else Some s)
      else Some s)"

definition close_cluster :: "screen \<Rightarrow> screen" where
  "close_cluster s = (clear_pending_wrap s)\<lparr>s_open_cluster := None\<rparr>"

definition execute :: "byte \<Rightarrow> screen \<Rightarrow> screen option" where
  "execute b s =
     (if b = 0x08 then
        (let s = close_cluster s
         in Some (if s_cursor_col s > 0 then s\<lparr>s_cursor_col := s_cursor_col s - 1\<rparr> else s))
      else if b = 0x09 then
        (let s = close_cluster s
         in u16_mul (s_cursor_col s div 8 + 1) 8 \<bind>
              (\<lambda>next. Some (s\<lparr>s_cursor_col := min next (s_cols s - 1)\<rparr>)))
      else if 0x0a \<le> b \<and> b \<le> 0x0c then index (close_cluster s)
      else if b = 0x0d then Some ((close_cluster s)\<lparr>s_cursor_col := 0\<rparr>)
      else Some s)"

definition csi :: "nat list \<Rightarrow> byte list \<Rightarrow> bool \<Rightarrow> byte \<Rightarrow> screen \<Rightarrow> screen option" where
  "csi ps ims ign action s =
     (if ign then Some s
      else if ims = [0x3f] \<and> (action = 0x68 \<or> action = 0x6c)
      then Some (private_mode ps (action = 0x68) s)
      else if ims = [0x3e] \<and> action = 0x63 then Some (reply_secondary_da s)
      else if ims \<noteq> [] then Some s
      else csi_dispatch ps action s)"

definition esc :: "byte list \<Rightarrow> byte \<Rightarrow> screen \<Rightarrow> screen option" where
  "esc ims b s =
     (if b = 0x37 then Some (s\<lparr>s_saved_cursor := Some (capture_cursor s)\<rparr>)
      else if b = 0x38 then
        Some (case s_saved_cursor s of None \<Rightarrow> s | Some c \<Rightarrow> restore_cursor c s)
      else if b = 0x44 then index (clear_pending_wrap s)
      else if b = 0x45 then index ((clear_pending_wrap s)\<lparr>s_cursor_col := 0\<rparr>)
      else if b = 0x4d then reverse_index (clear_pending_wrap s)
      else if b = 0x3d \<and> ims = [] then Some (s\<lparr>s_application_keypad := True\<rparr>)
      else if b = 0x3e \<and> ims = [] then Some (s\<lparr>s_application_keypad := False\<rparr>)
      else Some s)"

text \<open>\<open>osc\<close> is the trait's default, which does nothing.\<close>

definition screen_actions :: "screen actions" where
  "screen_actions =
     \<lparr>act_print = write_char, act_execute = execute, act_csi = csi, act_esc = esc,
      act_osc = (\<lambda>_ s. Some s)\<rparr>"

end
