(* ===== verification/Vt_Damage.thy ===== *)
theory Vt_Damage
  imports Vt_Screen
begin

text \<open>
  The invariant of the screen of \<^verbatim>\<open>screen.rs\<close> and its damage contract. Every operation the parser can call
  returns (no index, slice or arithmetic panic), keeps the invariant and the grid's size, and
  records in the damage range every row whose cells it changed. The proofs are organised by
  two relations: \<open>edits R s s'\<close>, the screen with cells changed in the rows \<open>R\<close> only, for the
  steps inside an operation, and \<open>keeps s s'\<close> for whole operations.
\<close>

section \<open>Invariant\<close>

definition wf_cursor :: "saved_cursor \<Rightarrow> bool" where
  "wf_cursor c \<longleftrightarrow> sc_col c \<le> u16_max \<and> sc_row c \<le> u16_max"

definition wf_cluster :: "open_cluster \<Rightarrow> bool" where
  "wf_cluster c \<longleftrightarrow> oc_row c \<le> u16_max \<and> oc_col c \<le> u16_max \<and> oc_len c \<le> u8_max \<and> oc_width c \<le> u8_max"

definition wf_screen :: "screen \<Rightarrow> bool" where
  "wf_screen s \<longleftrightarrow>
     0 < s_cols s \<and> s_cols s \<le> u16_max \<and> 0 < s_rows s \<and> s_rows s \<le> u16_max \<and>
     length (s_cells s) = s_rows s * s_cols s \<and>
     s_cursor_col s < s_cols s \<and> s_cursor_row s < s_rows s \<and>
     s_scroll_top s \<le> s_scroll_bottom s \<and> s_scroll_bottom s < s_rows s \<and>
     wf_palette (s_palette s) \<and>
     pred_option (\<lambda>g. length g = s_rows s * s_cols s) (s_saved_grid s) \<and>
     pred_option wf_cursor (s_saved_cursor s) \<and> pred_option wf_cursor (s_alt_cursor s) \<and>
     pred_option wf_cluster (s_open_cluster s) \<and>
     length (s_replies s) \<le> REPLY_CAP \<and> s_replies_dropped s \<le> u32_max \<and>
     s_grapheme_truncated s \<le> u32_max"

lemma wf_screenD:
  assumes "wf_screen s"
  shows "0 < s_cols s" "s_cols s \<le> u16_max" "0 < s_rows s" "s_rows s \<le> u16_max"
    "length (s_cells s) = s_rows s * s_cols s" "s_cursor_col s < s_cols s"
    "s_cursor_row s < s_rows s" "s_scroll_top s \<le> s_scroll_bottom s"
    "s_scroll_bottom s < s_rows s"
  using assms by (simp_all add: wf_screen_def)

text \<open>The fields the invariant does not look at, and the ones it bounds on their own.\<close>

lemma wf_update [simp]:
    "wf_screen (s\<lparr>s_full_damage := x0\<rparr>) = wf_screen s"
    "wf_screen (s\<lparr>s_damage_row0 := x1\<rparr>) = wf_screen s"
    "wf_screen (s\<lparr>s_damage_row1 := x2\<rparr>) = wf_screen s"
    "wf_screen (s\<lparr>s_pending_wrap := x3\<rparr>) = wf_screen s"
    "wf_screen (s\<lparr>s_autowrap := x4\<rparr>) = wf_screen s"
    "wf_screen (s\<lparr>s_cursor_visible := x5\<rparr>) = wf_screen s"
    "wf_screen (s\<lparr>s_pen_fg := x6\<rparr>) = wf_screen s"
    "wf_screen (s\<lparr>s_pen_bg := x7\<rparr>) = wf_screen s"
    "wf_screen (s\<lparr>s_pen_attrs := x8\<rparr>) = wf_screen s"
    "wf_screen (s\<lparr>s_in_alt := x9\<rparr>) = wf_screen s"
    "wf_screen (s\<lparr>s_discard_replies := x10\<rparr>) = wf_screen s"
    "wf_screen (s\<lparr>s_application_cursor_keys := x11\<rparr>) = wf_screen s"
    "wf_screen (s\<lparr>s_application_keypad := x12\<rparr>) = wf_screen s"
    "wf_screen (s\<lparr>s_bracketed_paste := x13\<rparr>) = wf_screen s"
    "wf_screen (s\<lparr>s_mouse_x10 := x14\<rparr>) = wf_screen s"
    "wf_screen (s\<lparr>s_mouse_button := x15\<rparr>) = wf_screen s"
    "wf_screen (s\<lparr>s_mouse_any := x16\<rparr>) = wf_screen s"
    "wf_screen (s\<lparr>s_mouse_sgr := x17\<rparr>) = wf_screen s"
    "wf_screen (s\<lparr>s_focus_events := x18\<rparr>) = wf_screen s"
    "wf_screen (s\<lparr>s_scrolled_off := x19\<rparr>) = wf_screen s"
  by (simp_all add: wf_screen_def)

lemma wf_set [wf_intros]:
  assumes "wf_screen s"
  shows "c < s_cols s \<Longrightarrow> wf_screen (s\<lparr>s_cursor_col := c\<rparr>)"
    "r < s_rows s \<Longrightarrow> wf_screen (s\<lparr>s_cursor_row := r\<rparr>)"
    "n \<le> u32_max \<Longrightarrow> wf_screen (s\<lparr>s_grapheme_truncated := n\<rparr>)"
    "pred_option wf_cluster cl \<Longrightarrow> wf_screen (s\<lparr>s_open_cluster := cl\<rparr>)"
    "pred_option wf_cursor sc \<Longrightarrow> wf_screen (s\<lparr>s_saved_cursor := sc\<rparr>)"
    "pred_option wf_cursor sc \<Longrightarrow> wf_screen (s\<lparr>s_alt_cursor := sc\<rparr>)"
    "length cs = s_rows s * s_cols s \<Longrightarrow> wf_screen (s\<lparr>s_cells := cs\<rparr>)"
    "pred_option (\<lambda>g. length g = s_rows s * s_cols s) sg \<Longrightarrow> wf_screen (s\<lparr>s_saved_grid := sg\<rparr>)"
  using assms by (simp_all add: wf_screen_def)

text \<open>A row is damaged when the next snapshot tells its reader to redraw it.\<close>

definition damaged :: "screen \<Rightarrow> nat \<Rightarrow> bool" where
  "damaged s r \<longleftrightarrow> s_full_damage s \<or> s_damage_row0 s \<le> r \<and> r \<le> s_damage_row1 s"

definition tracks :: "screen \<Rightarrow> screen \<Rightarrow> bool" where
  "tracks s s' \<longleftrightarrow> (\<forall>r. damaged s r \<longrightarrow> damaged s' r) \<and>
     (\<forall>i < length (s_cells s). s_cells s' ! i \<noteq> s_cells s ! i \<longrightarrow> damaged s' (i div s_cols s))"

definition keeps :: "screen \<Rightarrow> screen \<Rightarrow> bool" where
  "keeps s s' \<longleftrightarrow> wf_screen s' \<and> s_cols s' = s_cols s \<and> s_rows s' = s_rows s \<and>
     s_palette s' = s_palette s \<and> tracks s s'"

lemma keepsD: "keeps s s' \<Longrightarrow> wf_screen s'" "keeps s s' \<Longrightarrow> s_cols s' = s_cols s"
  "keeps s s' \<Longrightarrow> s_rows s' = s_rows s" "keeps s s' \<Longrightarrow> s_palette s' = s_palette s"
  by (simp_all add: keeps_def)

lemma keeps_refl [simp]: "keeps s s \<longleftrightarrow> wf_screen s"
  by (simp add: keeps_def tracks_def)

lemma keeps_trans:
  assumes "wf_screen s" "keeps s s'" "keeps s' s''"
  shows "keeps s s''"
proof -
  have len: "length (s_cells s') = length (s_cells s)"
    using assms by (simp add: keeps_def wf_screen_def)
  have "damaged s'' (i div s_cols s)"
    if "i < length (s_cells s)" "s_cells s'' ! i \<noteq> s_cells s ! i" for i
  proof (cases "s_cells s' ! i = s_cells s ! i")
    case True
    with that assms len show ?thesis by (auto simp: keeps_def tracks_def)
  next
    case False
    with that assms have "damaged s' (i div s_cols s)" by (auto simp: keeps_def tracks_def)
    with assms show ?thesis by (auto simp: keeps_def tracks_def)
  qed
  with assms show ?thesis by (auto simp: keeps_def tracks_def)
qed

lemma runs_keeps_bind:
  assumes "wf_screen s" "runs m (keeps s)" "\<And>s'. keeps s s' \<Longrightarrow> runs (f s') (keeps s')"
  shows "runs (m \<bind> f) (keeps s)"
  using assms by (simp, elim runs_mono) (blast intro: runs_mono keeps_trans)

lemma runs_keeps_after:
  assumes "wf_screen s" "keeps s s'" "runs m (keeps s')"
  shows "runs m (keeps s)"
  using assms(3) by (rule runs_mono) (rule keeps_trans [OF assms(1,2)])

section \<open>Editing rows\<close>

definition edits :: "nat set \<Rightarrow> screen \<Rightarrow> screen \<Rightarrow> bool" where
  "edits R s s' \<longleftrightarrow> s' = s\<lparr>s_cells := s_cells s'\<rparr> \<and> length (s_cells s') = length (s_cells s) \<and>
     (\<forall>i < length (s_cells s). i div s_cols s \<notin> R \<longrightarrow> s_cells s' ! i = s_cells s ! i)"

lemma edits_refl [simp]: "edits R s s"
  by (simp add: edits_def)

lemma edits_cells: "edits R s s' \<Longrightarrow> \<exists>cs. s' = s\<lparr>s_cells := cs\<rparr> \<and> length cs = length (s_cells s)"
  by (auto simp: edits_def)

lemma edits_frame:
  assumes "edits R s s'"
  shows "s_cols s' = s_cols s" "s_rows s' = s_rows s" "length (s_cells s') = length (s_cells s)"
    "s_pen_bg s' = s_pen_bg s" "s_pen_fg s' = s_pen_fg s" "s_pen_attrs s' = s_pen_attrs s"
    "s_cursor_col s' = s_cursor_col s" "s_cursor_row s' = s_cursor_row s"
    "s_scroll_top s' = s_scroll_top s" "s_scroll_bottom s' = s_scroll_bottom s"
    "s_full_damage s' = s_full_damage s" "s_damage_row0 s' = s_damage_row0 s"
    "s_damage_row1 s' = s_damage_row1 s" "s_open_cluster s' = s_open_cluster s"
    "idx s' col row = idx s col row" "s_in_alt s' = s_in_alt s"
    "s_scrolled_off s' = s_scrolled_off s" "s_autowrap s' = s_autowrap s"
    "s_palette s' = s_palette s"
  using edits_cells [OF assms] by (auto simp: idx_def)

lemma edits_trans:
  assumes "edits R s s'" "edits R s' s''"
  shows "edits R s s''"
proof -
  obtain cs cs' where "s' = s\<lparr>s_cells := cs\<rparr>" "s'' = s'\<lparr>s_cells := cs'\<rparr>"
    using edits_cells [OF assms(1)] edits_cells [OF assms(2)] by blast
  then show ?thesis using assms by (simp add: edits_def)
qed

lemma edits_mono: "edits R s s' \<Longrightarrow> R \<subseteq> R' \<Longrightarrow> edits R' s s'"
  unfolding edits_def by (meson subsetD)

lemma edits_wf: "edits R s s' \<Longrightarrow> wf_screen s' \<longleftrightarrow> wf_screen s"
  by (drule edits_cells) (auto simp: wf_screen_def)

lemma runs_edits_bind:
  assumes "runs m (edits R s)" "\<And>s'. edits R s s' \<Longrightarrow> runs (f s') (edits R s')"
  shows "runs (m \<bind> f) (edits R s)"
  using assms by (simp, elim runs_mono) (blast intro: runs_mono edits_trans)

text \<open>Sequencing edits before the step that records the damage.\<close>

lemma runs_edits_then:
  assumes "runs m (edits R s)" "\<And>s'. edits R s s' \<Longrightarrow> runs (f s') P"
  shows "runs (m \<bind> f) P"
  using assms by (auto simp: runs_iff)

lemma for_each_edits:
  assumes "\<And>i s'. i \<in> set is \<Longrightarrow> edits R s s' \<Longrightarrow> runs (f i s') (edits R s')"
  shows "runs (for_each is f s) (edits R s)"
  by (rule for_each_inv) (use assms in \<open>auto intro: runs_mono edits_trans\<close>)

lemma idx_bound: "wf_screen s \<Longrightarrow> col < s_cols s \<Longrightarrow> row < s_rows s \<Longrightarrow> idx s col row < length (s_cells s)"
proof -
  assume a: "wf_screen s" "col < s_cols s" "row < s_rows s"
  have "idx s col row < Suc row * s_cols s" using a by (simp add: idx_def)
  also have "\<dots> \<le> s_rows s * s_cols s" using a by (intro mult_le_mono1) simp
  finally show ?thesis using a by (simp add: wf_screen_def)
qed

lemma idx_div: "col < s_cols s \<Longrightarrow> idx s col row div s_cols s = row"
  by (simp add: idx_def)

lemma idx_mod: "col < s_cols s \<Longrightarrow> idx s col row mod s_cols s = col"
  by (simp add: idx_def)

lemma put_cell_at_edits:
  assumes "wf_screen s" "col < s_cols s" "row < s_rows s"
  shows "runs (put_cell_at (idx s col row) v s) (edits {row} s)"
  using idx_bound [OF assms] idx_div [OF assms(2)]
  by (auto simp: put_cell_at_def edits_def nth_list_update)

lemma get_cell: "wf_screen s \<Longrightarrow> col < s_cols s \<Longrightarrow> row < s_rows s \<Longrightarrow>
    get_at (s_cells s) (idx s col row) = Some (s_cells s ! idx s col row)"
  by (simp add: idx_bound)

lemma blank_if_edits:
  assumes "wf_screen s" "col < s_cols s" "row < s_rows s"
  shows "runs (blank_if m col row s) (edits {row} s)"
  using assms by (simp add: blank_if_def get_cell put_cell_at_edits)

lemma smash_wide_at_edits:
  assumes "wf_screen s"
  shows "runs (smash_wide_at col row s) (edits {row} s)"
proof (cases "col < s_cols s \<and> row < s_rows s")
  case False
  then show ?thesis by (auto simp: smash_wide_at_def)
next
  case True
  let ?c = "s_cells s ! idx s col row"
  let ?lead = "if c_attrs ?c AND ATTR_WIDE_LEAD \<noteq> 0 \<and> col + 1 < s_cols s
    then blank_if ATTR_WIDE_TAIL (col + 1) row s else Some s"
  have "smash_wide_at col row s = ?lead \<bind>
      (\<lambda>s. if c_attrs ?c AND ATTR_WIDE_TAIL \<noteq> 0 \<and> col > 0
           then blank_if ATTR_WIDE_LEAD (col - 1) row s else Some s)"
    using True assms wf_screenD(2) [OF assms]
    by (simp add: smash_wide_at_def get_cell Let_def u16_add_def)
  moreover have "runs ?lead (edits {row} s)"
    using True assms by (simp add: blank_if_edits)
  ultimately show ?thesis
    using True assms by (auto simp: edits_wf edits_frame intro!: runs_edits_bind blank_if_edits
        simp del: runs_bind)
qed

section \<open>Damage\<close>

lemma dirty_frame [simp]:
  "s_cols (dirty r s) = s_cols s" "s_rows (dirty r s) = s_rows s" "s_cells (dirty r s) = s_cells s"
  "wf_screen (dirty r s) = wf_screen s" "s_cursor_col (dirty r s) = s_cursor_col s"
  "s_cursor_row (dirty r s) = s_cursor_row s" "s_scroll_bottom (dirty r s) = s_scroll_bottom s"
  "s_palette (dirty r s) = s_palette s" "s_open_cluster (dirty r s) = s_open_cluster s" "s_autowrap (dirty r s) = s_autowrap s"
  by (simp_all add: dirty_def wf_screen_def)

lemma damaged_dirty [simp]: "damaged s r' \<Longrightarrow> damaged (dirty r s) r'" "damaged (dirty r s) r"
  by (auto simp: damaged_def dirty_def)

lemma dirty_fold [simp]:
  "s_cols (fold dirty rs s) = s_cols s" "s_rows (fold dirty rs s) = s_rows s"
  "s_palette (fold dirty rs s) = s_palette s" "s_cells (fold dirty rs s) = s_cells s" "wf_screen (fold dirty rs s) = wf_screen s"
  by (induction rs arbitrary: s) simp_all

lemma damaged_fold: "damaged s r \<or> r \<in> set rs \<Longrightarrow> damaged (fold dirty rs s) r"
  by (induction rs arbitrary: s) auto

text \<open>An edit is a whole operation once the rows it touched are recorded.\<close>

lemma edits_fold_dirty_keeps:
  assumes "wf_screen s" "edits R s s'" "R \<subseteq> set rs"
  shows "keeps s (fold dirty rs s')"
proof -
  have "damaged (fold dirty rs s') r" if "damaged s r \<or> r \<in> R" for r
    using that assms edits_frame(11-13) [OF assms(2)]
    by (intro damaged_fold) (auto simp: damaged_def)
  then show ?thesis
    using assms edits_wf [OF assms(2)] edits_frame(1,2,19) [OF assms(2)]
    by (auto simp: keeps_def tracks_def edits_def)
qed

lemma edits_dirty_keeps: "wf_screen s \<Longrightarrow> edits {r} s s' \<Longrightarrow> keeps s (dirty r s')"
  using edits_fold_dirty_keeps [of s "{r}" s' "[r]"] by simp

lemma full_damage_keeps:
  assumes "wf_screen s'" "s_cols s' = s_cols s" "s_rows s' = s_rows s" "s_palette s' = s_palette s"
    "s_full_damage s'"
  shows "keeps s s'"
  using assms by (simp add: keeps_def tracks_def damaged_def)

text \<open>Operations that leave the cells and the damage range alone only have to keep the invariant.\<close>

lemma same_grid_keeps:
  assumes "wf_screen s'" "s_cols s' = s_cols s" "s_rows s' = s_rows s" "s_palette s' = s_palette s"
    "s_cells s' = s_cells s" and "\<And>r. damaged s r \<Longrightarrow> damaged s' r"
  shows "keeps s s'"
  using assms by (simp add: keeps_def tracks_def)

end
