(* ===== verification/Vt_Rows.thy ===== *)
theory Vt_Rows
  imports Vt_Damage
begin

text \<open>
  Scrolling and line editing of \<^verbatim>\<open>screen.rs\<close>, seen as operations on the list of rows. The source
  moves blocks of a flat vector in loops whose direction matters; the lemmas here show that the
  loops implement \<open>rows_up\<close> and \<open>rows_down\<close> on \<open>grid s\<close>.
\<close>

section \<open>Rows\<close>

definition row_of :: "screen \<Rightarrow> nat \<Rightarrow> cell list" where
  "row_of s r = map (\<lambda>c. s_cells s ! idx s c r) [0..<s_cols s]"

definition blank_row :: "screen \<Rightarrow> cell list" where
  "blank_row s = replicate (s_cols s) (cell_blank (s_pen_bg s))"

lemma length_row_of [simp]: "length (row_of s r) = s_cols s"
  by (simp add: row_of_def)

lemma row_of_eqI:
  assumes "s_cols s' = s_cols s" "\<And>c. c < s_cols s \<Longrightarrow> s_cells s' ! idx s c r' = s_cells s ! idx s c r"
  shows "row_of s' r' = row_of s r"
  using assms by (simp add: row_of_def idx_def)

lemma row_of_blankI:
  assumes "s_cols s' = s_cols s" "\<And>c. c < s_cols s \<Longrightarrow> s_cells s' ! idx s c r = cell_blank (s_pen_bg s)"
  shows "row_of s' r = blank_row s"
  using assms by (intro nth_equalityI) (simp_all add: row_of_def blank_row_def idx_def)

lemma row_span: "wf_screen s \<Longrightarrow> r < s_rows s \<Longrightarrow> r * s_cols s + s_cols s \<le> length (s_cells s)"
  using mult_le_mono1 [of "Suc r" "s_rows s" "s_cols s"] by (simp add: wf_screen_def)

lemma idx_in_row: "c < s_cols s \<Longrightarrow> b * s_cols s \<le> idx s c r \<and> idx s c r < b * s_cols s + s_cols s \<longleftrightarrow> r = b"
proof
  assume c: "c < s_cols s" and "b * s_cols s \<le> idx s c r \<and> idx s c r < b * s_cols s + s_cols s"
  then have "idx s c r div s_cols s = b" by (intro div_nat_eqI) (simp_all add: algebra_simps)
  with c show "r = b" by (simp add: idx_div)
qed (simp add: idx_def)

text \<open>Block moves and fills of cells, then of whole rows.\<close>

abbreviation rows_touched :: "screen \<Rightarrow> nat \<Rightarrow> nat \<Rightarrow> nat set" where
  "rows_touched s a b \<equiv> (\<lambda>i. i div s_cols s) ` {a..<b}"

lemma move_cells_spec:
  assumes "a \<le> b" "b \<le> length (s_cells s)" "d + (b - a) \<le> length (s_cells s)"
  shows "runs (move_cells a b d s) (\<lambda>s'. edits (rows_touched s d (d + (b - a))) s s' \<and>
    (\<forall>i < length (s_cells s). s_cells s' ! i =
       (if d \<le> i \<and> i < d + (b - a) then s_cells s ! (a + (i - d)) else s_cells s ! i)))"
  unfolding move_cells_def runs_bind runs_Some
  by (rule runs_mono [OF copy_within_runs [OF assms]]) (auto simp: edits_def)

lemma fill_cells_spec:
  assumes "a \<le> b" "b \<le> length (s_cells s)"
  shows "runs (fill_cells a b v s) (\<lambda>s'. edits (rows_touched s a b) s s' \<and>
    (\<forall>i < length (s_cells s). s_cells s' ! i = (if a \<le> i \<and> i < b then v else s_cells s ! i)))"
  unfolding fill_cells_def runs_bind runs_Some
  by (rule runs_mono [OF fill_range_runs [OF assms]]) (auto simp: edits_def)

lemma rows_touched_row: "rows_touched s (b * s_cols s) (b * s_cols s + s_cols s) \<subseteq> {b}"
  by (auto intro!: div_nat_eqI simp: algebra_simps)

lemma move_row:
  assumes wf: "wf_screen s" and a: "a < s_rows s" and b: "b < s_rows s"
  shows "runs (move_cells (a * s_cols s) (a * s_cols s + s_cols s) (b * s_cols s) s)
    (\<lambda>s'. edits {b} s s' \<and> (\<forall>r < s_rows s. row_of s' r = row_of s (if r = b then a else r)))"
proof (rule runs_mono [OF move_cells_spec], goal_cases)
  case (4 s')
  have "row_of s' r = row_of s (if r = b then a else r)" if "r < s_rows s" for r
    using 4 edits_frame(1) [of _ s s'] idx_bound [OF wf _ that] idx_in_row [of _ s b r]
    by (intro row_of_eqI) (auto simp: idx_def)
  with 4 show ?case using rows_touched_row [of s b] by (auto intro: edits_mono)
qed (use row_span [OF wf a] row_span [OF wf b] in simp_all)

lemma fill_row:
  assumes wf: "wf_screen s" and b: "b < s_rows s"
  shows "runs (fill_cells (b * s_cols s) (b * s_cols s + s_cols s) (cell_blank (s_pen_bg s)) s)
    (\<lambda>s'. edits {b} s s' \<and> (\<forall>r < s_rows s. row_of s' r = (if r = b then blank_row s else row_of s r)))"
proof (rule runs_mono [OF fill_cells_spec], goal_cases)
  case (3 s')
  have "row_of s' r = (if r = b then blank_row s else row_of s r)" if "r < s_rows s" for r
  proof -
    have "s_cells s' ! idx s c r = (if r = b then cell_blank (s_pen_bg s) else s_cells s ! idx s c r)"
      if "c < s_cols s" for c
      using 3 idx_bound [OF wf that \<open>r < s_rows s\<close>] idx_in_row [OF that, of b r] by auto
    then show ?thesis
      using 3 edits_frame(1) [of _ s s'] row_of_blankI [of s' s r] row_of_eqI [of s' s r r]
      by (cases "r = b") auto
  qed
  with 3 show ?case using rows_touched_row [of s b] by (auto intro: edits_mono)
qed (use row_span [OF wf b] in simp_all)

text \<open>
  A loop that copies rows, as \<open>scroll_up\<close> and \<open>delete_lines\<close> (upwards by \<open>n\<close>) and
  \<open>scroll_down\<close> and \<open>insert_lines\<close> (downwards by \<open>n\<close>) run it: the order of the loop is what
  makes each row read before it is overwritten.
\<close>

definition shifted :: "nat set \<Rightarrow> (nat \<Rightarrow> nat) \<Rightarrow> screen \<Rightarrow> screen \<Rightarrow> bool" where
  "shifted R f s s' \<longleftrightarrow> edits R s s' \<and> (\<forall>r < s_rows s. row_of s' r = row_of s (f r))"

lemma edits_row: "edits R s s' \<Longrightarrow> edits {b} s' s'' \<Longrightarrow> b \<in> R \<Longrightarrow> edits R s s''"
  by (blast intro: edits_trans edits_mono)

lemma move_row_shifted:
  assumes "wf_screen s" "shifted R f s s'" "a < s_rows s" "b < s_rows s" "b \<in> R" "cs = s_cols s"
  shows "runs (move_cells (a * cs) (a * cs + cs) (b * cs) s') (shifted R (f(b := f a)) s)"
proof -
  have e: "edits R s s'" and wf': "wf_screen s'" and fr: "s_cols s' = s_cols s" "s_rows s' = s_rows s"
    using assms by (auto simp: shifted_def edits_wf edits_frame)
  show ?thesis
    using move_row [OF wf', of a b] assms fr e
    by (auto simp: shifted_def elim!: runs_mono intro: edits_row)
qed

lemma shift_up_loop:
  assumes wf: "wf_screen s" and l: "hi < s_rows s" and n: "lo + n \<le> hi"
  shows "runs (for_each [lo..<Suc (hi - n)]
      (\<lambda>r. move_cells ((r + n) * s_cols s) ((r + n) * s_cols s + s_cols s) (r * s_cols s)) s)
    (shifted {lo..hi} (\<lambda>r. if lo \<le> r \<and> r + n \<le> hi then r + n else r) s)"
proof -
  let ?f = "\<lambda>i r. if lo \<le> r \<and> r < i then r + n else r"
  have "runs (for_each [lo..<Suc (hi - n)]
      (\<lambda>r. move_cells ((r + n) * s_cols s) ((r + n) * s_cols s + s_cols s) (r * s_cols s)) s)
    (shifted {lo..hi} (?f (Suc (hi - n))) s)"
  proof (rule for_each_upt)
    fix i s' assume i: "lo \<le> i" "i < Suc (hi - n)" and sh: "shifted {lo..hi} (?f i) s s'"
    have "(?f i)(i := ?f i (i + n)) = ?f (Suc i)" using i by (auto simp: fun_eq_iff)
    with move_row_shifted [OF wf sh, of "i + n" i "s_cols s"] i l n
    show "runs (move_cells ((i + n) * s_cols s) ((i + n) * s_cols s + s_cols s) (i * s_cols s) s')
      (shifted {lo..hi} (?f (Suc i)) s)" by simp
  qed (use n in \<open>auto simp: shifted_def\<close>)
  moreover have "?f (Suc (hi - n)) = (\<lambda>r. if lo \<le> r \<and> r + n \<le> hi then r + n else r)"
    using n by (auto simp: fun_eq_iff)
  ultimately show ?thesis by simp
qed

lemma shift_down_loop:
  assumes wf: "wf_screen s" and l: "hi < s_rows s" and n: "lo + n \<le> hi"
  shows "runs (for_each (rev [lo..<Suc (hi - n)])
      (\<lambda>r. move_cells (r * s_cols s) (r * s_cols s + s_cols s) ((r + n) * s_cols s)) s)
    (shifted {lo..hi} (\<lambda>r. if lo + n \<le> r \<and> r \<le> hi then r - n else r) s)"
proof -
  let ?f = "\<lambda>i r. if i + n \<le> r \<and> r \<le> hi then r - n else r"
  show ?thesis
  proof (rule for_each_rev_upt [where P = "\<lambda>i. shifted {lo..hi} (?f i) s"])
    show "shifted {lo..hi} (?f (Suc (hi - n))) s s" using n by (auto simp: shifted_def)
    fix i s' assume i: "lo \<le> i" "i < Suc (hi - n)" and sh: "shifted {lo..hi} (?f (Suc i)) s s'"
    have "(?f (Suc i))(i + n := ?f (Suc i) i) = ?f i" using i n by (auto simp: fun_eq_iff)
    with move_row_shifted [OF wf sh, of i "i + n" "s_cols s"] i l n
    show "runs (move_cells (i * s_cols s) (i * s_cols s + s_cols s) ((i + n) * s_cols s) s')
      (shifted {lo..hi} (?f i) s)" by simp
  qed (use n in auto)
qed

text \<open>Filling the rows that the shift vacated.\<close>

lemma fill_rows_loop:
  assumes wf: "wf_screen s" and e: "edits R s s0" and ab: "a \<le> b" "b \<le> s_rows s" "{a..<b} \<subseteq> R"
  shows "runs (for_each [a..<b]
      (\<lambda>r s. fill_cells (r * s_cols s0) (r * s_cols s0 + s_cols s0) (cell_blank (s_pen_bg s)) s) s0)
    (\<lambda>s'. edits R s s' \<and>
      (\<forall>r < s_rows s. row_of s' r = (if a \<le> r \<and> r < b then blank_row s else row_of s0 r)))"
proof (rule for_each_upt [where P = "\<lambda>i s'. edits R s s' \<and>
    (\<forall>r < s_rows s. row_of s' r = (if a \<le> r \<and> r < i then blank_row s else row_of s0 r))"])
  fix i s' assume i: "a \<le> i" "i < b" and inv: "edits R s s' \<and>
    (\<forall>r < s_rows s. row_of s' r = (if a \<le> r \<and> r < i then blank_row s else row_of s0 r))"
  then have wf': "wf_screen s'" and fr: "s_cols s' = s_cols s0" "s_rows s' = s_rows s" "blank_row s' = blank_row s"
    using wf e by (auto simp: edits_wf edits_frame blank_row_def)
  have "runs (fill_cells (i * s_cols s') (i * s_cols s' + s_cols s') (cell_blank (s_pen_bg s')) s')
    (\<lambda>s''. edits {i} s' s'' \<and> (\<forall>r < s_rows s'. row_of s'' r = (if r = i then blank_row s' else row_of s' r)))"
    using i ab fr by (intro fill_row [OF wf']) simp
  then show "runs (fill_cells (i * s_cols s0) (i * s_cols s0 + s_cols s0) (cell_blank (s_pen_bg s')) s')
    (\<lambda>s'. edits R s s' \<and>
      (\<forall>r < s_rows s. row_of s' r = (if a \<le> r \<and> r < Suc i then blank_row s else row_of s0 r)))"
    unfolding fr
  proof (rule runs_mono, intro conjI allI impI)
    fix s'' assume h: "edits {i} s' s'' \<and>
      (\<forall>r < s_rows s. row_of s'' r = (if r = i then blank_row s else row_of s' r))"
    have "i \<in> R" using ab i by auto
    with h inv show "edits R s s''" by (blast intro: edits_row)
    fix r assume r: "r < s_rows s"
    show "row_of s'' r = (if a \<le> r \<and> r < Suc i then blank_row s else row_of s0 r)"
    proof (cases "r = i")
      case True
      with h i r show ?thesis by simp
    next
      case False
      then have "r < Suc i \<longleftrightarrow> r < i" by auto
      with h inv i r False show ?thesis by simp
    qed
  qed
qed (use ab e in auto)

section \<open>Scrolling and line editing on the list of rows\<close>

definition grid :: "screen \<Rightarrow> cell list list" where
  "grid s = map (row_of s) [0..<s_rows s]"

text \<open>
  What the operations promise: within the rows \<open>lo\<close> to \<open>hi\<close> (inclusive), \<open>n\<close> rows leave at one
  end, the others move, and \<open>n\<close> blank rows come in at the other end.
\<close>

definition rows_up :: "nat \<Rightarrow> nat \<Rightarrow> nat \<Rightarrow> 'r \<Rightarrow> 'r list \<Rightarrow> 'r list" where
  "rows_up lo hi n b g =
     take lo g @ take (Suc hi - lo - n) (drop (lo + n) g) @ replicate n b @ drop (Suc hi) g"

definition rows_down :: "nat \<Rightarrow> nat \<Rightarrow> nat \<Rightarrow> 'r \<Rightarrow> 'r list \<Rightarrow> 'r list" where
  "rows_down lo hi n b g =
     take lo g @ replicate n b @ take (Suc hi - lo - n) (drop lo g) @ drop (Suc hi) g"

lemma grid_rows_up:
  assumes "hi < s_rows s" "lo + n \<le> Suc hi" "s_rows s' = s_rows s"
    and "\<And>r. r < s_rows s \<Longrightarrow> row_of s' r =
      (if lo \<le> r \<and> r + n \<le> hi then row_of s (r + n) else if lo \<le> r \<and> r \<le> hi then b else row_of s r)"
  shows "grid s' = rows_up lo hi n b (grid s)"
proof (rule nth_equalityI)
  show "length (grid s') = length (rows_up lo hi n b (grid s))"
    using assms by (simp add: grid_def rows_up_def)
  fix r assume "r < length (grid s')"
  then have r: "r < s_rows s" using assms by (simp add: grid_def)
  consider "r < lo" | "lo \<le> r" "r + n \<le> hi" | "lo \<le> r" "hi < r + n" "r \<le> hi" | "hi < r" "lo \<le> r"
    by linarith
  then show "grid s' ! r = rows_up lo hi n b (grid s) ! r"
    by cases (use assms r in \<open>auto simp: grid_def rows_up_def nth_append min_def add.commute [of n]\<close>)
qed

lemma grid_rows_down:
  assumes "hi < s_rows s" "lo + n \<le> Suc hi" "s_rows s' = s_rows s"
    and "\<And>r. r < s_rows s \<Longrightarrow> row_of s' r =
      (if lo \<le> r \<and> r < lo + n then b else if lo + n \<le> r \<and> r \<le> hi then row_of s (r - n) else row_of s r)"
  shows "grid s' = rows_down lo hi n b (grid s)"
proof (rule nth_equalityI)
  show "length (grid s') = length (rows_down lo hi n b (grid s))"
    using assms by (simp add: grid_def rows_down_def)
  fix r assume "r < length (grid s')"
  then have r: "r < s_rows s" using assms by (simp add: grid_def)
  consider "r < lo" | "lo \<le> r" "r < lo + n" | "lo + n \<le> r" "r \<le> hi" | "hi < r" "lo \<le> r"
    by linarith
  then show "grid s' ! r = rows_down lo hi n b (grid s) ! r"
    by cases (use assms r in \<open>auto simp: grid_def rows_down_def nth_append min_def\<close>)
qed

text \<open>The optional copying loop followed by the filling loop, on either side.\<close>

lemma shift_up_fill:
  assumes wf: "wf_screen s" and h: "hi < s_rows s" and n: "lo + n \<le> Suc hi" and cs: "cs = s_cols s"
  shows "runs ((if lo + n \<le> hi then for_each [lo..<Suc (hi - n)]
        (\<lambda>r. move_cells ((r + n) * cs) ((r + n) * cs + cs) (r * cs)) s else Some s) \<bind>
      for_each [Suc hi - n..<Suc hi]
        (\<lambda>r s. fill_cells (r * cs) (r * cs + cs) (cell_blank (s_pen_bg s)) s))
    (\<lambda>s'. edits {lo..hi} s s' \<and> grid s' = rows_up lo hi n (blank_row s) (grid s))"
proof -
  let ?f = "\<lambda>r. if lo \<le> r \<and> r + n \<le> hi then r + n else r"
  have move: "runs (if lo + n \<le> hi then for_each [lo..<Suc (hi - n)]
      (\<lambda>r. move_cells ((r + n) * cs) ((r + n) * cs + cs) (r * cs)) s else Some s) (shifted {lo..hi} ?f s)"
    using shift_up_loop [OF wf h, of lo n] by (auto simp: cs shifted_def)
  have result: "grid s' = rows_up lo hi n (blank_row s) (grid s)"
    if "shifted {lo..hi} ?f s s0" "edits {lo..hi} s s'"
      "\<forall>r < s_rows s. row_of s' r = (if Suc hi - n \<le> r \<and> r < Suc hi then blank_row s else row_of s0 r)"
    for s0 s'
  proof (rule grid_rows_up [OF h n edits_frame(2) [OF that(2)]])
    fix r assume r: "r < s_rows s"
    have "row_of s' r = (if Suc hi - n \<le> r \<and> r < Suc hi then blank_row s else row_of s (?f r))"
      using that r by (simp add: shifted_def)
    moreover have "Suc hi - n \<le> r \<longleftrightarrow> \<not> r + n \<le> hi" using n by linarith
    ultimately show "row_of s' r = (if lo \<le> r \<and> r + n \<le> hi then row_of s (r + n)
        else if lo \<le> r \<and> r \<le> hi then blank_row s else row_of s r)"
      using n by (cases "lo \<le> r \<and> r + n \<le> hi") auto
  qed
  have fill: "runs (for_each [Suc hi - n..<Suc hi]
      (\<lambda>r s. fill_cells (r * cs) (r * cs + cs) (cell_blank (s_pen_bg s)) s) s0)
    (\<lambda>s'. edits {lo..hi} s s' \<and> (\<forall>r < s_rows s. row_of s' r =
       (if Suc hi - n \<le> r \<and> r < Suc hi then blank_row s else row_of s0 r)))"
    if "shifted {lo..hi} ?f s s0" for s0
  proof -
    have e: "edits {lo..hi} s s0" using that by (simp add: shifted_def)
    have sub: "{Suc hi - n..<Suc hi} \<subseteq> {lo..hi}" using n by auto
    show ?thesis
      using fill_rows_loop [OF wf e _ _ sub] h n edits_frame(1) [OF e] by (simp add: cs)
  qed
  show ?thesis
    unfolding runs_bind by (rule runs_mono [OF move], rule runs_mono [OF fill]) (simp_all add: result)
qed

lemma shift_down_fill:
  assumes wf: "wf_screen s" and h: "hi < s_rows s" and n: "lo + n \<le> Suc hi" and cs: "cs = s_cols s"
  shows "runs ((if lo + n \<le> hi then for_each (rev [lo..<Suc (hi - n)])
        (\<lambda>r. move_cells (r * cs) (r * cs + cs) ((r + n) * cs)) s else Some s) \<bind>
      for_each [lo..<lo + n]
        (\<lambda>r s. fill_cells (r * cs) (r * cs + cs) (cell_blank (s_pen_bg s)) s))
    (\<lambda>s'. edits {lo..hi} s s' \<and> grid s' = rows_down lo hi n (blank_row s) (grid s))"
proof -
  let ?f = "\<lambda>r. if lo + n \<le> r \<and> r \<le> hi then r - n else r"
  have move: "runs (if lo + n \<le> hi then for_each (rev [lo..<Suc (hi - n)])
      (\<lambda>r. move_cells (r * cs) (r * cs + cs) ((r + n) * cs)) s else Some s) (shifted {lo..hi} ?f s)"
    using shift_down_loop [OF wf h, of lo n] n by (auto simp: cs shifted_def)
  have result: "grid s' = rows_down lo hi n (blank_row s) (grid s)"
    if "shifted {lo..hi} ?f s s0" "edits {lo..hi} s s'"
      "\<forall>r < s_rows s. row_of s' r = (if lo \<le> r \<and> r < lo + n then blank_row s else row_of s0 r)"
    for s0 s'
  proof (rule grid_rows_down [OF h n edits_frame(2) [OF that(2)]])
    fix r assume r: "r < s_rows s"
    show "row_of s' r = (if lo \<le> r \<and> r < lo + n then blank_row s
        else if lo + n \<le> r \<and> r \<le> hi then row_of s (r - n) else row_of s r)"
      using that r by (simp add: shifted_def)
  qed
  have fill: "runs (for_each [lo..<lo + n]
      (\<lambda>r s. fill_cells (r * cs) (r * cs + cs) (cell_blank (s_pen_bg s)) s) s0)
    (\<lambda>s'. edits {lo..hi} s s' \<and> (\<forall>r < s_rows s. row_of s' r =
       (if lo \<le> r \<and> r < lo + n then blank_row s else row_of s0 r)))"
    if "shifted {lo..hi} ?f s s0" for s0
  proof -
    have e: "edits {lo..hi} s s0" using that by (simp add: shifted_def)
    have sub: "{lo..<lo + n} \<subseteq> {lo..hi}" using n by auto
    show ?thesis
      using fill_rows_loop [OF wf e _ _ sub] h n edits_frame(1) [OF e] by (simp add: cs)
  qed
  show ?thesis
    unfolding runs_bind by (rule runs_mono [OF move], rule runs_mono [OF fill]) (simp_all add: result)
qed

text \<open>The screen after \<open>scroll_up\<close> has handed the departing row to \<open>scrolled_off\<close>.\<close>

definition pushed :: "screen \<Rightarrow> screen" where
  "pushed s = (if \<not> s_in_alt s \<and> s_scroll_top s = 0
     then s\<lparr>s_scrolled_off := s_scrolled_off s @ [row_of s 0]\<rparr> else s)"

lemma pushed_frame [simp]:
  "wf_screen (pushed s) = wf_screen s" "s_cols (pushed s) = s_cols s" "s_rows (pushed s) = s_rows s"
  "s_pen_bg (pushed s) = s_pen_bg s" "s_cells (pushed s) = s_cells s"
  "s_palette (pushed s) = s_palette s" "s_cursor_col (pushed s) = s_cursor_col s" "s_cursor_row (pushed s) = s_cursor_row s"
  "row_of (pushed s) r = row_of s r" "grid (pushed s) = grid s" "blank_row (pushed s) = blank_row s"
  by (simp_all add: pushed_def wf_screen_def row_of_def idx_def grid_def blank_row_def cong: map_cong)

lemma scroll_up_push:
  assumes "wf_screen s"
  shows "(if \<not> s_in_alt s \<and> s_scroll_top s = 0 \<and> s_cols s > 0
      then slice (s_cells s) (s_scroll_top s * s_cols s) (s_scroll_top s * s_cols s + s_cols s) \<bind>
        (\<lambda>row. Some (s\<lparr>s_scrolled_off := s_scrolled_off s @ [row]\<rparr>))
      else Some s) = Some (pushed s)"
proof -
  have len: "s_cols s \<le> length (s_cells s)" using row_span [OF assms, of 0] wf_screenD [OF assms] by simp
  then have "take (s_cols s) (s_cells s) = row_of s 0"
    by (intro nth_equalityI) (simp_all add: row_of_def idx_def)
  with len show ?thesis using wf_screenD(1) [OF assms] by (simp add: pushed_def)
qed

lemma scroll_up_spec:
  assumes wf: "wf_screen s"
  shows "runs (scroll_up s) (\<lambda>s'. keeps s s' \<and>
    (\<exists>s1. edits {s_scroll_top s..s_scroll_bottom s} (pushed s) s1 \<and> s' = s1\<lparr>s_full_damage := True\<rparr>) \<and>
    grid s' = rows_up (s_scroll_top s) (s_scroll_bottom s) 1 (blank_row s) (grid s))"
proof -
  let ?lo = "s_scroll_top s" and ?hi = "s_scroll_bottom s" and ?cs = "s_cols s"
  have b: "?lo \<le> ?hi" "?hi < s_rows s" using wf_screenD [OF wf] by simp_all
  have eq: "scroll_up s = (if ?lo + 1 \<le> ?hi then for_each [?lo..<Suc (?hi - 1)]
        (\<lambda>r. move_cells ((r + 1) * ?cs) ((r + 1) * ?cs + ?cs) (r * ?cs)) (pushed s) else Some (pushed s)) \<bind>
      for_each [Suc ?hi - 1..<Suc ?hi]
        (\<lambda>r s. fill_cells (r * ?cs) (r * ?cs + ?cs) (cell_blank (s_pen_bg s)) s) \<bind>
      (\<lambda>s. Some (s\<lparr>s_full_damage := True\<rparr>))"
    unfolding scroll_up_def Let_def scroll_up_push [OF wf] using b(1) by (simp add: algebra_simps)
  have "keeps s (s'\<lparr>s_full_damage := True\<rparr>)" if "edits {?lo..?hi} (pushed s) s'" for s'
  proof (rule full_damage_keeps)
    show "wf_screen (s'\<lparr>s_full_damage := True\<rparr>)" using edits_wf [OF that] wf by simp
  qed (use edits_frame(1,2,19) [OF that] in simp_all)
  moreover have "grid (s'\<lparr>s_full_damage := True\<rparr>) = grid s'" for s'
    by (simp add: grid_def row_of_def idx_def cong: map_cong)
  ultimately show ?thesis
    unfolding eq runs_bind runs_Some
    using shift_up_fill [of "pushed s" ?hi ?lo 1 ?cs, unfolded runs_bind] wf b
    by (auto elim!: runs_mono)
qed

lemma for_each_map: "for_each (map g xs) f s = for_each xs (\<lambda>i. f (g i)) s"
  by (induction xs arbitrary: s) (simp_all add: fun_eq_iff, metis (no_types, lifting) ext)

lemma scroll_down_spec:
  assumes wf: "wf_screen s"
  shows "runs (scroll_down s) (\<lambda>s'. keeps s s' \<and>
    (\<exists>s1. edits {s_scroll_top s..s_scroll_bottom s} s s1 \<and> s' = s1\<lparr>s_full_damage := True\<rparr>) \<and>
    grid s' = rows_down (s_scroll_top s) (s_scroll_bottom s) 1 (blank_row s) (grid s))"
proof -
  let ?lo = "s_scroll_top s" and ?hi = "s_scroll_bottom s" and ?cs = "s_cols s"
  have b: "?lo \<le> ?hi" "?hi < s_rows s" using wf_screenD [OF wf] by simp_all
  have "rev [?lo + 1..<?hi + 1] = map Suc (rev [?lo..<?hi])"
    by (simp del: upt_Suc add: rev_map [symmetric] map_Suc_upt)
  then have loop: "for_each (rev [?lo + 1..<?hi + 1])
      (\<lambda>r. move_cells ((r - 1) * ?cs) ((r - 1) * ?cs + ?cs) (r * ?cs)) s =
    for_each (rev [?lo..<?hi]) (\<lambda>r. move_cells (r * ?cs) (r * ?cs + ?cs) ((r + 1) * ?cs)) s"
    by (simp add: for_each_map)
  have eq: "scroll_down s = (if ?lo + 1 \<le> ?hi then for_each (rev [?lo..<Suc (?hi - 1)])
        (\<lambda>r. move_cells (r * ?cs) (r * ?cs + ?cs) ((r + 1) * ?cs)) s else Some s) \<bind>
      for_each [?lo..<?lo + 1]
        (\<lambda>r s. fill_cells (r * ?cs) (r * ?cs + ?cs) (cell_blank (s_pen_bg s)) s) \<bind>
      (\<lambda>s. Some (s\<lparr>s_full_damage := True\<rparr>))"
    unfolding scroll_down_def Let_def loop using b(1) by simp
  have "keeps s (s'\<lparr>s_full_damage := True\<rparr>)" if "edits {?lo..?hi} s s'" for s'
  proof (rule full_damage_keeps)
    show "wf_screen (s'\<lparr>s_full_damage := True\<rparr>)" using edits_wf [OF that] wf by simp
  qed (use edits_frame(1,2,19) [OF that] in simp_all)
  moreover have "grid (s'\<lparr>s_full_damage := True\<rparr>) = grid s'" for s'
    by (simp add: grid_def row_of_def idx_def cong: map_cong)
  ultimately show ?thesis
    unfolding eq runs_bind runs_Some
    using shift_down_fill [of s ?hi ?lo 1 ?cs, unfolded runs_bind] wf b
    by (auto elim!: runs_mono)
qed

text \<open>Line insertion and deletion act on the region from the cursor down, or not at all.\<close>

definition lines_at_cursor :: "screen \<Rightarrow> nat \<Rightarrow> nat" where
  "lines_at_cursor s n =
     (if s_scroll_top s \<le> s_cursor_row s \<and> s_cursor_row s \<le> s_scroll_bottom s
      then min n (Suc (s_scroll_bottom s) - s_cursor_row s) else 0)"

lemma u16_add_some: "a + b \<le> u16_max \<Longrightarrow> u16_add a b = Some (a + b)"
  by (simp add: u16_add_def)

lemma no_lines:
  assumes "lines_at_cursor s n = 0"
  obtains "s_cursor_row s < s_scroll_top s" | "s_cursor_row s > s_scroll_bottom s" | "n = 0"
  using assms by (force simp: lines_at_cursor_def split: if_splits)

lemma rows_none [simp]: "lo \<le> Suc hi \<Longrightarrow> rows_up lo hi 0 b g = g" "lo \<le> Suc hi \<Longrightarrow> rows_down lo hi 0 b g = g"
  by (simp_all add: rows_up_def rows_down_def take_drop_join)

lemma grid_fold_dirty [simp]: "grid (fold dirty rs s) = grid s"
  by (simp add: grid_def row_of_def idx_def cong: map_cong)

lemma edits_region_keeps:
  assumes "wf_screen s" "edits {s_cursor_row s..s_scroll_bottom s} s s'"
  shows "keeps s (fold dirty [s_cursor_row s'..<Suc (s_scroll_bottom s')] s')"
  using assms edits_frame(8,10) [OF assms(2)]
  by (intro edits_fold_dirty_keeps [OF assms]) (simp del: upt_Suc add: atLeastLessThanSuc_atLeastAtMost)

lemma insert_lines_spec:
  assumes wf: "wf_screen s"
  shows "runs (insert_lines n s) (\<lambda>s'. keeps s s' \<and>
    (lines_at_cursor s n = 0 \<longrightarrow> s' = s) \<and> (lines_at_cursor s n \<noteq> 0 \<longrightarrow>
      grid s' = rows_down (s_cursor_row s) (s_scroll_bottom s) (lines_at_cursor s n) (blank_row s) (grid s)))"
proof (cases "lines_at_cursor s n = 0")
  case True
  have u: "u16_add (s_scroll_bottom s - s_cursor_row s) 1 = Some (s_scroll_bottom s - s_cursor_row s + 1)"
    using wf_screenD(4,9) [OF wf] by (intro u16_add_some) linarith
  from True have "insert_lines n s = Some s"
    using u by (elim no_lines) (simp_all add: insert_lines_def)
  with True wf show ?thesis by simp
next
  case False
  let ?lo = "s_cursor_row s" and ?hi = "s_scroll_bottom s" and ?cs = "s_cols s" and ?n = "lines_at_cursor s n"
  have in_region: "s_scroll_top s \<le> ?lo" "?lo \<le> ?hi" "?hi < s_rows s" and k: "?lo + ?n \<le> Suc ?hi"
    and n: "?n = min n (?hi - ?lo + 1)"
    using False wf_screenD [OF wf] by (auto simp: lines_at_cursor_def split: if_splits)
  have u: "u16_add (?hi - ?lo) 1 = Some (?hi - ?lo + 1)"
    using wf_screenD(4,9) [OF wf] by (intro u16_add_some) linarith
  have eq: "insert_lines n s = (if ?lo + ?n \<le> ?hi then for_each (rev [?lo..<Suc (?hi - ?n)])
        (\<lambda>r. move_cells (r * ?cs) (r * ?cs + ?cs) ((r + ?n) * ?cs)) s else Some s) \<bind>
      for_each [?lo..<?lo + ?n] (\<lambda>r s. fill_cells (r * ?cs) (r * ?cs + ?cs) (cell_blank (s_pen_bg s)) s) \<bind>
      (\<lambda>s. Some (fold dirty [s_cursor_row s..<Suc (s_scroll_bottom s)] s))"
    using in_region False unfolding insert_lines_def u n by (simp add: Let_def add_mult_distrib)
  from False show ?thesis
    unfolding eq runs_bind runs_Some
    using shift_down_fill [of s ?hi ?lo ?n ?cs, unfolded runs_bind] wf in_region k
    by (auto elim!: runs_mono intro: edits_region_keeps [OF wf] simp del: upt_Suc)
qed

lemma delete_lines_spec:
  assumes wf: "wf_screen s"
  shows "runs (delete_lines n s) (\<lambda>s'. keeps s s' \<and>
    (lines_at_cursor s n = 0 \<longrightarrow> s' = s) \<and> (lines_at_cursor s n \<noteq> 0 \<longrightarrow>
      grid s' = rows_up (s_cursor_row s) (s_scroll_bottom s) (lines_at_cursor s n) (blank_row s) (grid s)))"
proof (cases "lines_at_cursor s n = 0")
  case True
  have u: "u16_add (s_scroll_bottom s - s_cursor_row s) 1 = Some (s_scroll_bottom s - s_cursor_row s + 1)"
    using wf_screenD(4,9) [OF wf] by (intro u16_add_some) linarith
  from True have "delete_lines n s = Some s"
    using u by (elim no_lines) (simp_all add: delete_lines_def)
  with True wf show ?thesis by simp
next
  case False
  let ?lo = "s_cursor_row s" and ?hi = "s_scroll_bottom s" and ?cs = "s_cols s" and ?n = "lines_at_cursor s n"
  have in_region: "s_scroll_top s \<le> ?lo" "?lo \<le> ?hi" "?hi < s_rows s" and k: "?lo + ?n \<le> Suc ?hi"
    and n: "?n = min n (?hi - ?lo + 1)"
    using False wf_screenD [OF wf] by (auto simp: lines_at_cursor_def split: if_splits)
  have u: "u16_add (?hi - ?lo) 1 = Some (?hi - ?lo + 1)"
    using wf_screenD(4,9) [OF wf] by (intro u16_add_some) linarith
  have eq: "delete_lines n s = (if ?lo + ?n \<le> ?hi then for_each [?lo..<Suc (?hi - ?n)]
        (\<lambda>r. move_cells ((r + ?n) * ?cs) ((r + ?n) * ?cs + ?cs) (r * ?cs)) s else Some s) \<bind>
      for_each [Suc ?hi - ?n..<Suc ?hi]
        (\<lambda>r s. fill_cells (r * ?cs) (r * ?cs + ?cs) (cell_blank (s_pen_bg s)) s) \<bind>
      (\<lambda>s. Some (fold dirty [s_cursor_row s..<Suc (s_scroll_bottom s)] s))"
    using in_region False unfolding delete_lines_def u n by (simp add: Let_def)
  from False show ?thesis
    unfolding eq runs_bind runs_Some
    using shift_up_fill [of s ?hi ?lo ?n ?cs, unfolded runs_bind] wf in_region k
    by (auto elim!: runs_mono intro: edits_region_keeps [OF wf] simp del: upt_Suc)
qed

section \<open>What the operations promise\<close>

lemma screen_new_wf:
  assumes "0 < c" "c \<le> u16_max" "0 < r" "r \<le> u16_max"
  obtains s where "screen_new c r = Inr s" "wf_screen s" "s_cols s = c" "s_rows s = r"
    "\<not> s_in_alt s" "s_scroll_top s = 0" "s_scroll_bottom s = r - 1" "s_cursor_row s = 0"
    "s_cursor_col s = 0"
  using assms by (simp add: screen_new_def wf_screen_def mult.commute REPLY_CAP_def)

text \<open>
  C6: scrolling the whole primary screen loses no line. The rows handed to the scrollback
  followed by the visible rows are, after a scroll, the same list with one blank row appended.
\<close>

theorem scroll_up_loses_no_line:
  assumes "wf_screen s" and "\<not> s_in_alt s" and "s_scroll_top s = 0"
    and "s_scroll_bottom s = s_rows s - 1"
  shows "runs (scroll_up s) (\<lambda>s'.
    s_scrolled_off s' @ grid s' = s_scrolled_off s @ grid s @ [blank_row s])"
proof -
  obtain n where n: "s_rows s = Suc n" using wf_screenD(3) [OF assms(1)] by (cases "s_rows s") auto
  then have g: "grid s = row_of s 0 # map (row_of s) [Suc 0..<Suc n]"
    by (simp add: grid_def upt_conv_Cons del: upt_Suc)
  have "s_scrolled_off s' = s_scrolled_off s @ [row_of s 0]"
    if "edits R (pushed s) s1" "s' = s1\<lparr>s_full_damage := True\<rparr>" for R s1 s'
    using that edits_frame(17) [OF that(1)] assms by (simp add: pushed_def)
  then show ?thesis
    using assms(3,4) n g
    by (intro runs_mono [OF scroll_up_spec [OF assms(1)]]) (auto simp: rows_up_def simp del: upt_Suc)
qed

lemma scroll_up_loses_no_line_witness:
  "\<exists>s. screen_new 3 2 = Inr s \<and> runs (scroll_up s) (\<lambda>s'.
    s_scrolled_off s' @ grid s' = s_scrolled_off s @ grid s @ [blank_row s])"
proof -
  obtain s where "screen_new 3 2 = Inr s" "wf_screen s" "s_rows s = 2"
    "\<not> s_in_alt s" "s_scroll_top s = 0" "s_scroll_bottom s = 2 - 1"
    by (rule screen_new_wf [of 3 2]) simp_all
  with scroll_up_loses_no_line [of s] show ?thesis by auto
qed

text \<open>
  C7: the region operations. Scrolling moves exactly the rows of the scroll region by one, and
  inserting or deleting \<open>n\<close> lines moves exactly the rows from the cursor to the bottom of the
  region by \<open>n\<close>, cut off at the region's height; outside the region they do nothing. The rows
  that come in are blank in the pen's background and no other row changes.
\<close>

theorem region_operations:
  assumes wf: "wf_screen s"
  shows "runs (scroll_up s) (\<lambda>s'. grid s' =
      rows_up (s_scroll_top s) (s_scroll_bottom s) 1 (blank_row s) (grid s)) \<and>
    runs (scroll_down s) (\<lambda>s'. grid s' =
      rows_down (s_scroll_top s) (s_scroll_bottom s) 1 (blank_row s) (grid s)) \<and>
    runs (insert_lines n s) (\<lambda>s'. if lines_at_cursor s n = 0 then s' = s else grid s' =
      rows_down (s_cursor_row s) (s_scroll_bottom s) (lines_at_cursor s n) (blank_row s) (grid s)) \<and>
    runs (delete_lines n s) (\<lambda>s'. if lines_at_cursor s n = 0 then s' = s else grid s' =
      rows_up (s_cursor_row s) (s_scroll_bottom s) (lines_at_cursor s n) (blank_row s) (grid s))"
  by (intro conjI runs_mono [OF scroll_up_spec [OF wf]] runs_mono [OF scroll_down_spec [OF wf]]
      runs_mono [OF insert_lines_spec [OF wf, of n]] runs_mono [OF delete_lines_spec [OF wf, of n]]) auto

lemma region_operations_witness:
  "\<exists>s. screen_new 2 3 = Inr s \<and> lines_at_cursor s 2 = 2 \<and>
    runs (insert_lines 2 s) (\<lambda>s'. grid s' = rows_down 0 2 2 (blank_row s) (grid s))"
proof -
  obtain s where s: "screen_new 2 3 = Inr s" "wf_screen s" "s_rows s = 3"
    "s_scroll_top s = 0" "s_scroll_bottom s = 3 - 1" "s_cursor_row s = 0"
    by (rule screen_new_wf [of 2 3]) simp_all
  then have "lines_at_cursor s 2 = 2" by (simp add: lines_at_cursor_def)
  with region_operations [of s 2] s show ?thesis by auto
qed

end
