(* ===== verification/Vt_Screen_Safe.thy ===== *)
theory Vt_Screen_Safe
  imports Vt_Rows
begin

text \<open>
  Every operation of \<^verbatim>\<open>screen.rs\<close> that the parser can call keeps the screen well-formed and its
  damage range sound, and none panics. The interpretation of \<open>vt_actions\<close> at the end carries
  this to whole byte streams.
\<close>

section \<open>Erasing and cell editing\<close>

lemma cell_row: "wf_screen s \<Longrightarrow> i < length (s_cells s) \<Longrightarrow> i div s_cols s < s_rows s"
  by (simp add: wf_screen_def less_mult_imp_div_less)

lemma as_u16_row: "wf_screen s \<Longrightarrow> i < length (s_cells s) \<Longrightarrow> as_u16 (i div s_cols s) = i div s_cols s"
  using cell_row [of s i] by (simp add: as_u16_def wf_screen_def)

lemma as_u16_col: "wf_screen s \<Longrightarrow> as_u16 (i mod s_cols s) = i mod s_cols s"
  using less_le_trans [OF mod_less_divisor [OF wf_screenD(1)] wf_screenD(2), of s i]
  by (simp add: as_u16_def)

lemma erase_span_keeps:
  assumes wf: "wf_screen s"
  shows "runs (erase_span from to s) (keeps s)"
proof -
  define to' where "to' = min to (length (s_cells s))"
  define from' where "from' = min from to'"
  let ?cs = "s_cols s"
  let ?R = "rows_touched s from' to'"
  have b: "from' \<le> to'" "to' \<le> length (s_cells s)" by (auto simp: from'_def to'_def)
  have cs: "max ?cs 1 = ?cs" using wf_screenD(1) [OF wf] by simp
  have loop: "runs (for_each [from'..<to']
      (\<lambda>i. smash_wide_at (as_u16 (i mod ?cs)) (as_u16 (i div ?cs))) s) (edits ?R s)"
  proof (rule for_each_edits)
    fix i s' assume i: "i \<in> set [from'..<to']" and e: "edits ?R s s'"
    then have "as_u16 (i div ?cs) = i div ?cs" "{i div ?cs} \<subseteq> ?R"
      using b by (auto intro: as_u16_row [OF wf])
    then show "runs (smash_wide_at (as_u16 (i mod ?cs)) (as_u16 (i div ?cs)) s') (edits ?R s')"
      using smash_wide_at_edits [of s'] e wf
      by (simp add: edits_wf) (blast intro: runs_mono edits_mono)
  qed
  have fill: "runs (fill_cells from' to' v s') (edits ?R s)" if e: "edits ?R s s'" for s' v
    using fill_cells_spec [of from' to' s' v] b edits_frame(1,3) [OF e]
    by (auto elim!: runs_mono intro: edits_trans [OF e])
  have finish: "keeps s (if from' < to'
      then fold dirty [as_u16 (from' div ?cs)..<Suc (as_u16 ((to' - 1) div ?cs))] s' else s')"
    if e: "edits ?R s s'" for s'
  proof (cases "from' < to'")
    case True
    then have "as_u16 (from' div ?cs) = from' div ?cs" "as_u16 ((to' - 1) div ?cs) = (to' - 1) div ?cs"
      using b by (simp_all add: as_u16_row [OF wf])
    moreover have "?R \<subseteq> {from' div ?cs..(to' - 1) div ?cs}" by (auto intro!: div_le_mono)
    ultimately show ?thesis
      using True edits_fold_dirty_keeps [OF wf e]
      by (simp del: upt_Suc add: atLeastLessThanSuc_atLeastAtMost)
  next
    case False
    with edits_fold_dirty_keeps [OF wf e, of "[]"] show ?thesis by simp
  qed
  show ?thesis
    unfolding erase_span_def Let_def runs_bind runs_Some
    by (simp only: to'_def [symmetric] from'_def [symmetric] cs,
        rule runs_mono [OF loop], erule runs_mono [OF fill], erule finish)
qed

lemma erase_display_keeps: "wf_screen s \<Longrightarrow> runs (erase_display mode s) (keeps s)"
proof -
  assume wf: "wf_screen s"
  have "runs (erase_span 0 (length (s_cells s)) s \<bind> (\<lambda>s. Some (s\<lparr>s_full_damage := True\<rparr>))) (keeps s)"
    using erase_span_keeps [OF wf, of 0 "length (s_cells s)"]
    unfolding runs_bind runs_Some by (rule runs_mono) (auto intro!: full_damage_keeps dest: keepsD)
  then show ?thesis by (simp add: erase_display_def erase_span_keeps [OF wf] Let_def)
qed

lemma erase_line_keeps: "wf_screen s \<Longrightarrow> runs (erase_line mode s) (keeps s)"
  and erase_chars_keeps: "wf_screen s \<Longrightarrow> runs (erase_chars n s) (keeps s)"
  by (simp_all add: erase_line_def erase_chars_def erase_span_keeps Let_def)

text \<open>Operations inside the cursor's row.\<close>

lemma rows_touched_within:
  "r * s_cols s \<le> a \<Longrightarrow> b \<le> r * s_cols s + s_cols s \<Longrightarrow> rows_touched s a b \<subseteq> {r}"
  by (auto intro!: div_nat_eqI simp: algebra_simps)

lemma move_in_row:
  assumes wf: "wf_screen s" and r: "r < s_rows s" and ab: "a \<le> b" "b \<le> s_cols s" "d + (b - a) \<le> s_cols s"
  shows "runs (move_cells (r * s_cols s + a) (r * s_cols s + b) (r * s_cols s + d) s)
    (\<lambda>s'. edits {r} s s' \<and> (\<forall>c < s_cols s. s_cells s' ! idx s c r =
       (if d \<le> c \<and> c < d + (b - a) then s_cells s ! idx s (a + (c - d)) r else s_cells s ! idx s c r)))"
proof (rule runs_mono [OF move_cells_spec], goal_cases)
  case (4 s')
  let ?st = "r * s_cols s"
  have "rows_touched s (?st + d) (?st + d + (?st + b - (?st + a))) \<subseteq> {r}"
    using ab by (intro rows_touched_within) simp_all
  with 4 have "edits {r} s s'" by (blast intro: edits_mono)
  moreover have "s_cells s' ! idx s c r = (if d \<le> c \<and> c < d + (b - a)
      then s_cells s ! idx s (a + (c - d)) r else s_cells s ! idx s c r)" if "c < s_cols s" for c
    using 4 idx_bound [OF wf that r] by (simp add: idx_def add.assoc)
  ultimately show ?case by blast
qed (use row_span [OF wf r] ab in simp_all)

lemma fill_in_row:
  assumes wf: "wf_screen s" and r: "r < s_rows s" and ab: "a \<le> b" "b \<le> s_cols s"
  shows "runs (fill_cells (r * s_cols s + a) (r * s_cols s + b) v s)
    (\<lambda>s'. edits {r} s s' \<and> (\<forall>c < s_cols s. s_cells s' ! idx s c r =
       (if a \<le> c \<and> c < b then v else s_cells s ! idx s c r)))"
proof (rule runs_mono [OF fill_cells_spec], goal_cases)
  case (3 s')
  have "rows_touched s (r * s_cols s + a) (r * s_cols s + b) \<subseteq> {r}"
    using ab by (intro rows_touched_within) simp_all
  with 3 have "edits {r} s s'" by (blast intro: edits_mono)
  moreover have "s_cells s' ! idx s c r = (if a \<le> c \<and> c < b then v else s_cells s ! idx s c r)"
    if "c < s_cols s" for c
    using 3 idx_bound [OF wf that r] by (simp add: idx_def)
  ultimately show ?case by blast
qed (use row_span [OF wf r] ab in simp_all)

text \<open>The same steps inside a larger edit of the row.\<close>

lemma move_in_row_edits:
  assumes wf: "wf_screen s" and e: "edits {r} s s'" and r: "r < s_rows s"
    and ab: "a \<le> b" "b \<le> s_cols s" "d + (b - a) \<le> s_cols s"
  shows "runs (move_cells (r * s_cols s + a) (r * s_cols s + b) (r * s_cols s + d) s') (edits {r} s)"
  using move_in_row [of s' r a b d] edits_frame(1,2) [OF e] edits_wf [OF e] assms
  by (auto elim!: runs_mono intro: edits_trans)

lemma fill_in_row_edits:
  assumes wf: "wf_screen s" and e: "edits {r} s s'" and r: "r < s_rows s" and ab: "a \<le> b" "b \<le> s_cols s"
  shows "runs (fill_cells (r * s_cols s + a) (r * s_cols s + b) v s') (edits {r} s)"
  using fill_in_row [of s' r a b v] edits_frame(1,2) [OF e] edits_wf [OF e] assms
  by (auto elim!: runs_mono intro: edits_trans)

lemma insert_cells_keeps:
  assumes wf: "wf_screen s"
  shows "runs (insert_cells n s) (keeps s)"
proof -
  define k where "k = min n (s_cols s - s_cursor_col s)"
  let ?r = "s_cursor_row s" and ?c = "s_cursor_col s" and ?cs = "s_cols s"
  have k: "?c + k \<le> ?cs" and r: "?r < s_rows s" using wf_screenD(6,7) [OF wf] by (simp_all add: k_def)
  have move: "runs (if ?c + k < ?cs then move_cells (?r * ?cs + ?c) (?r * ?cs + ?cs - k) (?r * ?cs + (?c + k)) s
      else Some s) (edits {?r} s)"
    using move_in_row_edits [OF wf edits_refl r, of ?c "?cs - k" "?c + k"] k by simp
  have fill: "runs (fill_cells (?r * ?cs + ?c) (?r * ?cs + (?c + k)) v s') (edits {?r} s)"
    if "edits {?r} s s'" for s' v
    using k r that by (intro fill_in_row_edits [OF wf]) simp_all
  show ?thesis
  proof (cases "k = 0")
    case True
    with wf show ?thesis by (simp add: insert_cells_def Let_def k_def [symmetric])
  next
    case False
    then show ?thesis
      unfolding insert_cells_def Let_def k_def [symmetric]
      by (simp only: if_False runs_bind runs_Some idx_def add_0_right add.assoc)
        (rule runs_mono [OF move], erule runs_mono [OF fill],
         simp add: edits_frame(8) edits_dirty_keeps [OF wf])
  qed
qed

lemma delete_cells_keeps:
  assumes wf: "wf_screen s"
  shows "runs (delete_cells n s) (keeps s)"
proof -
  define k where "k = min n (s_cols s - s_cursor_col s)"
  let ?r = "s_cursor_row s" and ?c = "s_cursor_col s" and ?cs = "s_cols s"
  have k: "?c + k \<le> ?cs" and r: "?r < s_rows s" using wf_screenD(6,7) [OF wf] by (simp_all add: k_def)
  have u: "u16_add ?c k = Some (?c + k)" using k wf_screenD(2) [OF wf] by (simp add: u16_add_def)
  have eq: "?r * ?cs + ?cs - k = ?r * ?cs + (?cs - k)" using k by simp
  have smash: "runs (for_each [?c..<?c + k] (\<lambda>c. smash_wide_at c ?r) s) (edits {?r} s)"
    by (rule for_each_edits) (use wf smash_wide_at_edits in \<open>simp add: edits_wf\<close>)
  have move: "runs (if ?c + k < ?cs then move_cells (?r * ?cs + (?c + k)) (?r * ?cs + ?cs) (?r * ?cs + ?c) s'
      else Some s') (edits {?r} s)" if "edits {?r} s s'" for s'
    using k r that by (simp add: move_in_row_edits [OF wf])
  have fill: "runs (fill_cells (?r * ?cs + ?cs - k) (?r * ?cs + ?cs) v s') (edits {?r} s)"
    if "edits {?r} s s'" for s' v
    unfolding eq using k r that by (intro fill_in_row_edits [OF wf]) simp_all
  show ?thesis
  proof (cases "k = 0")
    case True
    with wf show ?thesis by (simp add: delete_cells_def Let_def k_def [symmetric])
  next
    case False
    then show ?thesis
      unfolding delete_cells_def Let_def k_def [symmetric] u
      by (simp only: if_False Option.bind.bind_lunit runs_bind runs_Some idx_def add_0_right)
        (rule runs_mono [OF smash], simp only: edits_frame add.assoc,
         erule runs_mono [OF move], erule runs_mono [OF fill],
         simp add: edits_frame(8) edits_dirty_keeps [OF wf])
  qed
qed

section \<open>Cursor, pen, modes and replies\<close>

lemma damaged_frame [simp]:
  "damaged (s\<lparr>s_pending_wrap := a\<rparr>) r = damaged s r" "damaged (s\<lparr>s_open_cluster := cl\<rparr>) r = damaged s r"
  "damaged (s\<lparr>s_cursor_row := n\<rparr>) r = damaged s r" "damaged (s\<lparr>s_cursor_col := n\<rparr>) r = damaged s r"
  "damaged (s\<lparr>s_pen_fg := col\<rparr>) r = damaged s r" "damaged (s\<lparr>s_pen_bg := col\<rparr>) r = damaged s r"
  "damaged (s\<lparr>s_pen_attrs := w\<rparr>) r = damaged s r" "damaged (s\<lparr>s_saved_cursor := sc\<rparr>) r = damaged s r"
  "damaged (s\<lparr>s_replies := bs\<rparr>) r = damaged s r" "damaged (s\<lparr>s_replies_dropped := n\<rparr>) r = damaged s r"
  "damaged (s\<lparr>s_grapheme_truncated := n\<rparr>) r = damaged s r"
  "damaged (s\<lparr>s_scroll_top := n\<rparr>) r = damaged s r" "damaged (s\<lparr>s_scroll_bottom := n\<rparr>) r = damaged s r"
  "damaged (s\<lparr>s_application_cursor_keys := a\<rparr>) r = damaged s r"
  "damaged (s\<lparr>s_application_keypad := a\<rparr>) r = damaged s r"
  "damaged (s\<lparr>s_autowrap := a\<rparr>) r = damaged s r" "damaged (s\<lparr>s_cursor_visible := a\<rparr>) r = damaged s r"
  "damaged (s\<lparr>s_bracketed_paste := a\<rparr>) r = damaged s r" "damaged (s\<lparr>s_mouse_x10 := a\<rparr>) r = damaged s r"
  "damaged (s\<lparr>s_mouse_button := a\<rparr>) r = damaged s r" "damaged (s\<lparr>s_mouse_any := a\<rparr>) r = damaged s r"
  "damaged (s\<lparr>s_focus_events := a\<rparr>) r = damaged s r" "damaged (s\<lparr>s_mouse_sgr := a\<rparr>) r = damaged s r"
  by (simp_all add: damaged_def)

lemma set_cursor_keeps: "wf_screen s \<Longrightarrow> keeps s (set_cursor r c s)"
  by (rule same_grid_keeps)
    (auto simp: set_cursor_def clear_pending_wrap_def last_col_def last_row_def Let_def
      dest: wf_screenD intro!: wf_set)

lemma capture_cursor_wf: "wf_screen s \<Longrightarrow> wf_cursor (capture_cursor s)"
  by (auto simp: capture_cursor_def wf_cursor_def wf_screen_def)

lemma restore_cursor_keeps: "wf_screen s \<Longrightarrow> keeps s (restore_cursor c s)"
  by (rule same_grid_keeps)
    (auto simp: restore_cursor_def clear_pending_wrap_def last_col_def last_row_def
      dest: wf_screenD intro!: wf_set)

lemma enter_alt_keeps:
  assumes "wf_screen s"
  shows "keeps s (enter_alt save clear s)"
proof (rule full_damage_keeps)
  show "wf_screen (enter_alt save clear s)"
    using assms capture_cursor_wf [OF assms] wf_screenD(5) [OF assms]
    by (auto simp: enter_alt_def Let_def blank_grid_def mult.commute
        intro!: wf_set keepsD(1) [OF set_cursor_keeps])
qed (auto simp: enter_alt_def Let_def set_cursor_def clear_pending_wrap_def)

lemma leave_alt_keeps:
  assumes wf: "wf_screen s"
  shows "keeps s (leave_alt restore s)"
proof (cases "s_in_alt s")
  case True
  let ?g = "case s_saved_grid s of None \<Rightarrow> s | Some g \<Rightarrow> s\<lparr>s_saved_grid := None, s_cells := g\<rparr>"
  have g: "wf_screen ?g" "s_cols ?g = s_cols s" "s_rows ?g = s_rows s" "s_palette ?g = s_palette s"
    using wf by (auto simp: wf_screen_def split: option.splits)
  let ?c = "if restore then case s_alt_cursor ?g of None \<Rightarrow> ?g
      | Some c \<Rightarrow> restore_cursor c (?g\<lparr>s_alt_cursor := None\<rparr>) else ?g\<lparr>s_alt_cursor := None\<rparr>"
  have "wf_screen (?g\<lparr>s_alt_cursor := None\<rparr>)" using g by (simp add: wf_set)
  then have "wf_screen ?c" "s_cols ?c = s_cols s" "s_rows ?c = s_rows s" "s_palette ?c = s_palette s"
    using g keepsD [OF restore_cursor_keeps [of "?g\<lparr>s_alt_cursor := None\<rparr>"]]
    by (auto split: option.splits simp del: option.case_distrib)
  moreover have "leave_alt restore s = ?c\<lparr>s_in_alt := False, s_full_damage := True\<rparr>"
    using True by (simp add: leave_alt_def Let_def)
  ultimately show ?thesis by (auto intro!: full_damage_keeps)
qed (simp add: leave_alt_def wf)

lemma set_scroll_region_keeps:
  assumes wf: "wf_screen s"
  shows "keeps s (set_scroll_region ps s)"
proof -
  let ?t = "csi_n ps 0 1" and ?b = "csi_n ps 1 (s_rows s)"
  have "keeps s (s\<lparr>s_scroll_top := ?t - 1, s_scroll_bottom := ?b - 1\<rparr>)"
    if "\<not> (?t < 1 \<or> ?b > s_rows s \<or> ?t \<ge> ?b)"
    using wf that by (intro same_grid_keeps) (auto simp: wf_screen_def)
  then show ?thesis
    using wf keeps_trans [OF wf] set_cursor_keeps keepsD(1)
    unfolding set_scroll_region_def Let_def by (smt (verit) keeps_refl)
qed

lemma keeps_fold:
  assumes "wf_screen s" "\<And>x s. wf_screen s \<Longrightarrow> keeps s (f x s)"
  shows "keeps s (fold f xs s)"
  using assms(1)
proof (induction xs arbitrary: s)
  case (Cons x xs)
  have k: "keeps s (f x s)" by (rule assms(2) [OF Cons.prems])
  with Cons.IH [OF keepsD(1) [OF k]] Cons.prems show ?case by (simp add: keeps_trans)
qed simp

lemma private_mode_one_keeps: "wf_screen s \<Longrightarrow> keeps s (private_mode_one on p s)"
  unfolding private_mode_one_def
  by (auto intro!: same_grid_keeps enter_alt_keeps leave_alt_keeps)

lemma private_mode_keeps: "wf_screen s \<Longrightarrow> keeps s (private_mode ps on s)"
  unfolding private_mode_def by (rule keeps_fold) (simp_all add: private_mode_one_keeps)

text \<open>SGR touches the pen and nothing else.\<close>

definition plain_pen :: "screen \<Rightarrow> screen" where
  "plain_pen s = s\<lparr>s_pen_fg := Default, s_pen_bg := Default, s_pen_attrs := 0\<rparr>"

lemma plain_pen_step: "plain_pen (sgr_one n s) = plain_pen s" "plain_pen (set_pen fg c s) = plain_pen s"
  by (simp_all add: plain_pen_def sgr_one_def set_pen_def)

lemma plain_pen_sgr_loop: "plain_pen (sgr_loop ps s) = plain_pen s"
proof (induction ps s rule: sgr_loop.induct)
  case (2 n ps s)
  then show ?case
    by (subst sgr_loop.simps) (simp add: plain_pen_step del: sgr_loop.simps split: list.split)
qed simp

lemma plain_pen_eq:
  assumes "plain_pen s' = plain_pen s"
  shows "s' = s\<lparr>s_pen_fg := s_pen_fg s', s_pen_bg := s_pen_bg s', s_pen_attrs := s_pen_attrs s'\<rparr>"
proof -
  have "s' = (plain_pen s')\<lparr>s_pen_fg := s_pen_fg s', s_pen_bg := s_pen_bg s', s_pen_attrs := s_pen_attrs s'\<rparr>"
    by (simp add: plain_pen_def)
  then show ?thesis unfolding assms by (simp add: plain_pen_def)
qed

lemma apply_sgr_keeps: "wf_screen s \<Longrightarrow> keeps s (apply_sgr ps s)"
  unfolding apply_sgr_def by (subst plain_pen_eq [OF plain_pen_sgr_loop], rule same_grid_keeps) simp_all

lemma enqueue_reply_keeps: "wf_screen s \<Longrightarrow> keeps s (enqueue_reply bs s)"
  unfolding enqueue_reply_def by (auto intro!: same_grid_keeps simp: wf_screen_def)

section \<open>Decimal output\<close>

fun dec :: "nat \<Rightarrow> nat list" where
  "dec n = (if n < 10 then [n] else dec (n div 10) @ [n mod 10])"

declare dec.simps [simp del]

definition digits :: "nat \<Rightarrow> byte list" where
  "digits n = map (\<lambda>d. 0x30 + word_of_nat d) (dec n)"

lemma length_dec_pos: "0 < length (dec n)"
  by (subst dec.simps) simp

lemma length_dec: "0 < k \<Longrightarrow> n < 10 ^ k \<Longrightarrow> length (dec n) \<le> k"
proof (induction k arbitrary: n)
  case (Suc k)
  show ?case
  proof (cases "n < 10")
    case False
    then have "0 < k" using Suc.prems by (cases k) auto
    moreover have "n div 10 < 10 ^ k" using Suc.prems by (simp add: less_mult_imp_div_less mult.commute)
    ultimately have "length (dec (n div 10)) \<le> k" by (rule Suc.IH)
    with False show ?thesis by (subst dec.simps) simp
  qed (subst dec.simps, simp)
qed simp

lemma length_dec_u16: "n \<le> u16_max \<Longrightarrow> length (dec n) \<le> 5"
  by (rule length_dec) simp_all

lemma digits_loop_spec:
  assumes "k + length (dec x) \<le> length tmp"
  shows "digits_loop tmp k x =
    Some (take k tmp @ rev (digits x) @ drop (k + length (dec x)) tmp, k + length (dec x))"
  using assms
proof (induction tmp k x rule: digits_loop.induct)
  case (1 tmp k x)
  have k: "k < length tmp" using 1(2) length_dec_pos [of x] by linarith
  show ?case
  proof (cases "x < 10")
    case True
    then have d: "dec x = [x]" by (subst dec.simps) simp
    with True k show ?thesis
      by (subst digits_loop.simps) (simp add: digits_def upd_conv_take_nth_drop)
  next
    case False
    then have d: "dec x = dec (x div 10) @ [x mod 10]" by (subst dec.simps) simp
    let ?t = "tmp[k := 0x30 + word_of_nat (x mod 10)]"
    have "digits_loop ?t (k + 1) (x div 10) = Some (take (k + 1) ?t @ rev (digits (x div 10)) @
        drop (k + 1 + length (dec (x div 10))) ?t, k + 1 + length (dec (x div 10)))"
      using 1(1) [of ?t] 1(2) False k d by (simp add: set_at_def)
    moreover have "take (k + 1) ?t = take k tmp @ [0x30 + word_of_nat (x mod 10)]"
      using k by (simp add: take_Suc_conv_app_nth)
    moreover have "x div 10 \<noteq> 0" using False by simp
    ultimately show ?thesis
      using k by (subst digits_loop.simps) (simp add: digits_def d del: div_eq_0_iff)
  qed
qed

lemma rev_copy_spec:
  "k \<le> length tmp \<Longrightarrow> w + k \<le> length out \<Longrightarrow>
    rev_copy tmp k out w = Some (take w out @ rev (take k tmp) @ drop (w + k) out, w + k)"
proof (induction k arbitrary: out w)
  case (Suc k)
  let ?o = "out[w := tmp ! k]"
  have "rev_copy tmp k ?o (w + 1) = Some (take (w + 1) ?o @ rev (take k tmp) @ drop (w + 1 + k) ?o, w + 1 + k)"
    using Suc by simp
  moreover have "take (w + 1) ?o = take w out @ [tmp ! k]"
    using Suc.prems by (simp add: take_Suc_conv_app_nth)
  ultimately show ?case using Suc.prems by (simp add: take_Suc_conv_app_nth)
qed simp

lemma write_u16_spec:
  assumes "n \<le> u16_max" "length (dec n) \<le> length out"
  shows "write_u16 out n = Some (digits n @ drop (length (dec n)) out, length (dec n))"
proof -
  have l: "length (digits n) = length (dec n)" by (simp add: digits_def)
  have "write_u16 out n = rev_copy (rev (digits n) @ drop (length (dec n)) (replicate 5 0)) (length (dec n)) out 0"
    using digits_loop_spec [of 0 n "replicate 5 0"] length_dec_u16 [OF assms(1)] by (simp add: write_u16_def)
  with assms l show ?thesis by (simp add: rev_copy_spec)
qed

lemma write_u16_at_spec:
  assumes "n \<le> u16_max" "i + length (dec n) \<le> length buf"
  shows "write_u16_at buf i n =
    Some (take i buf @ digits n @ drop (i + length (dec n)) buf, length (dec n))"
  using assms by (simp add: write_u16_at_def slice_def write_u16_spec add.commute)

text \<open>Writing at the end of what is already in a zeroed buffer.\<close>

lemma length_digits [simp]: "length (digits n) = length (dec n)"
  by (simp add: digits_def)

lemma set_at_end: "length pre = i \<Longrightarrow> 0 < m \<Longrightarrow>
    set_at (pre @ replicate m z) i v = Some ((pre @ [v]) @ replicate (m - 1) z)"
  by (cases m) (simp_all add: set_at_def list_update_append)

lemma write_u16_end: "length pre = i \<Longrightarrow> length (dec n) \<le> m \<Longrightarrow> n \<le> u16_max \<Longrightarrow>
    write_u16_at (pre @ replicate m 0) i n =
      Some ((pre @ digits n) @ replicate (m - length (dec n)) 0, length (dec n))"
  by (simp add: write_u16_at_spec)

lemma reply_dsr_cursor_eq:
  "reply_dsr_cursor s = Some (enqueue_reply ([0x1b, 0x5b] @ digits (sat_add u16_max (s_cursor_row s) 1) @
     [0x3b] @ digits (sat_add u16_max (s_cursor_col s) 1) @ [0x52]) s)"
proof -
  define row where "row = sat_add u16_max (s_cursor_row s) 1"
  define col where "col = sat_add u16_max (s_cursor_col s) 1"
  have d: "length (dec row) \<le> 5" "length (dec col) \<le> 5" "row \<le> u16_max" "col \<le> u16_max"
    by (simp_all add: row_def col_def length_dec_u16)
  define p2 :: "byte list" where "p2 = [0x1b] @ [0x5b]"
  define p3 where "p3 = p2 @ digits row"
  define p4 where "p4 = p3 @ [0x3b]"
  define p5 where "p5 = p4 @ digits col"
  define p6 where "p6 = p5 @ [0x52]"
  let ?r = "length (dec row)" and ?c = "length (dec col)"
  have l: "length p2 = 2" "length p3 = 2 + ?r" "length p4 = 2 + ?r + 1" "length p5 = 2 + ?r + 1 + ?c"
    "length p6 = 2 + ?r + 1 + ?c + 1"
    by (simp_all add: p2_def p3_def p4_def p5_def p6_def)
  have "set_at (replicate 16 0) 0 (0x1b :: byte) = Some ([0x1b] @ replicate 15 0)"
    using set_at_end [of "[]" 0 16] by simp
  moreover have "set_at ([0x1b] @ replicate 15 0) 1 0x5b = Some (p2 @ replicate 14 0)"
    using set_at_end [of "[0x1b]" 1 15] by (simp add: p2_def)
  moreover have "write_u16_at (p2 @ replicate 14 0) 2 row = Some (p3 @ replicate (14 - ?r) 0, ?r)"
    using write_u16_end [OF l(1), of row 14] d by (simp add: p3_def)
  moreover have "set_at (p3 @ replicate (14 - ?r) 0) (2 + ?r) 0x3b = Some (p4 @ replicate (13 - ?r) 0)"
    using set_at_end [OF l(2), of "14 - ?r"] d by (simp add: p4_def)
  moreover have "write_u16_at (p4 @ replicate (13 - ?r) 0) (2 + ?r + 1) col = Some (p5 @ replicate (13 - ?r - ?c) 0, ?c)"
    using write_u16_end [OF l(3), of col "13 - ?r"] d by (simp add: p5_def)
  moreover have "set_at (p5 @ replicate (13 - ?r - ?c) 0) (2 + ?r + 1 + ?c) 0x52 = Some (p6 @ replicate (12 - ?r - ?c) 0)"
    using set_at_end [OF l(4), of "13 - ?r - ?c"] d by (simp add: p6_def)
  moreover have "slice (p6 @ replicate (12 - ?r - ?c) 0) 0 (2 + ?r + 1 + ?c + 1) = Some p6"
    using l(5) by simp
  ultimately have "reply_dsr_cursor s = Some (enqueue_reply p6 s)"
    unfolding reply_dsr_cursor_def row_def [symmetric] col_def [symmetric]
    by (simp only: Let_def Option.bind.bind_lunit prod.case)
  then show ?thesis
    by (simp add: p2_def p3_def p4_def p5_def p6_def row_def col_def)
qed

section \<open>Printing\<close>

lemma index_keeps:
  assumes wf: "wf_screen s"
  shows "runs (index s) (keeps s)"
proof (cases "s_cursor_row s < s_scroll_bottom s")
  case True
  with wf_screenD [OF wf] have "u16_add (s_cursor_row s) 1 = Some (s_cursor_row s + 1)"
    by (intro u16_add_some) linarith
  moreover have "wf_screen (s\<lparr>s_cursor_row := s_cursor_row s + 1\<rparr>)"
    using True wf wf_screenD(9) [OF wf] by (intro wf_set) linarith+
  ultimately show ?thesis using True by (auto simp: index_def intro!: same_grid_keeps)
next
  case False
  with scroll_up_spec [OF wf] show ?thesis by (auto simp: index_def elim: runs_mono)
qed

lemma reverse_index_keeps:
  assumes wf: "wf_screen s"
  shows "runs (reverse_index s) (keeps s)"
proof (cases "s_cursor_row s > s_scroll_top s")
  case True
  with wf wf_screenD(7) [OF wf] show ?thesis
    by (auto simp: reverse_index_def intro!: same_grid_keeps wf_set)
next
  case False
  with scroll_down_spec [OF wf] show ?thesis by (auto simp: reverse_index_def elim: runs_mono)
qed

lemma wrap_keeps:
  assumes wf: "wf_screen s"
  shows "runs (wrap_if_needed_width w s) (keeps s)"
proof -
  let ?s = "s\<lparr>s_pending_wrap := False, s_cursor_col := 0\<rparr>"
  have "wf_screen ?s" "keeps s ?s" "keeps s (s\<lparr>s_pending_wrap := False\<rparr>)"
    using wf wf_screenD(1) [OF wf] by (auto intro!: same_grid_keeps wf_set)
  with wf show ?thesis
    by (auto simp: wrap_if_needed_width_def intro: runs_keeps_after [OF wf] index_keeps)
qed

lemma advance_keeps:
  assumes wf: "wf_screen s"
  shows "keeps s (advance_after_width w s)"
  using wf wf_screenD(1) [OF wf]
  by (auto simp: advance_after_width_def Let_def last_col_def intro!: same_grid_keeps wf_set)

lemma append_to_cluster_keeps:
  assumes "wf_screen s"
  shows "keeps s (snd (append_to_cluster c s))"
proof (cases "s_open_cluster s")
  case None
  with assms show ?thesis by (simp add: append_to_cluster_def)
next
  case (Some cl)
  then have "wf_cluster cl" using assms by (simp add: wf_screen_def)
  with Some assms show ?thesis
    by (auto simp: append_to_cluster_def Let_def wf_cluster_def RILL_GRAPHEME_MAX_def
        intro!: same_grid_keeps wf_set)
qed

lemma write_glyph_keeps:
  assumes wf: "wf_screen s" and room: "w \<le> s_cols s - s_cursor_col s" and w: "w = 1 \<or> w = 2"
  shows "runs (write_glyph c w s) (keeps s)"
proof -
  let ?r = "s_cursor_row s" and ?c = "s_cursor_col s"
  have b: "?r < s_rows s" "?c < s_cols s" "w = 2 \<Longrightarrow> ?c + 1 < s_cols s"
    using wf_screenD(6,7) [OF wf] room by auto
  have u: "u16_add ?c 1 = Some (?c + 1)"
    using b(2) wf_screenD(2) [OF wf] by (intro u16_add_some) linarith
  have smash: "runs (smash_wide_at col ?r s') (edits {?r} s)" if "edits {?r} s s'" for s' col
    using smash_wide_at_edits [of s' col ?r] that wf
    by (auto simp: edits_wf elim!: runs_mono intro: edits_trans)
  have put: "runs (put_cell_at (idx s' col ?r) v s') (edits {?r} s)"
    if "edits {?r} s s'" "col < s_cols s" for s' col v
    using put_cell_at_edits [of s' col ?r v] that wf b(1)
    by (auto simp: edits_wf edits_frame elim!: runs_mono intro: edits_trans)
  have finish: "keeps s (advance_after_width w (dirty ?r (s'\<lparr>s_open_cluster := Some
      \<lparr>oc_row = ?r, oc_col = ?c, oc_len = 1, oc_after_zwj = z, oc_last_was_ri = ri, oc_width = w\<rparr>\<rparr>)))"
    if e: "edits {?r} s s'" for s' z ri
  proof -
    let ?s = "dirty ?r (s'\<lparr>s_open_cluster := Some
      \<lparr>oc_row = ?r, oc_col = ?c, oc_len = 1, oc_after_zwj = z, oc_last_was_ri = ri, oc_width = w\<rparr>\<rparr>)"
    have "?s = (dirty ?r s')\<lparr>s_open_cluster := Some
      \<lparr>oc_row = ?r, oc_col = ?c, oc_len = 1, oc_after_zwj = z, oc_last_was_ri = ri, oc_width = w\<rparr>\<rparr>"
      by (simp add: dirty_def)
    moreover have k: "keeps s (dirty ?r s')" by (rule edits_dirty_keeps [OF wf e])
    moreover have "keeps (dirty ?r s') ((dirty ?r s')\<lparr>s_open_cluster := Some
      \<lparr>oc_row = ?r, oc_col = ?c, oc_len = 1, oc_after_zwj = z, oc_last_was_ri = ri, oc_width = w\<rparr>\<rparr>)"
      using keepsD(1) [OF k] wf_screenD(2,4) [OF wf] b w
      by (intro same_grid_keeps) (auto intro!: wf_set simp: wf_cluster_def)
    ultimately have "keeps s ?s" using keeps_trans [OF wf] by simp
    with keeps_trans [OF wf this] advance_keeps [OF keepsD(1) [OF this]] show ?thesis by blast
  qed
  have smash2: "runs (if w = 2 then u16_add ?c 1 \<bind> (\<lambda>c1. smash_wide_at c1 ?r s') else Some s') (edits {?r} s)"
    if "edits {?r} s s'" for s'
    using smash [OF that] that u by simp
  have put2: "runs (if w = 2 then u16_add ?c 1 \<bind> (\<lambda>c1. put_cell_at (idx s' c1 ?r) v s') else Some s')
      (edits {?r} s)" if "edits {?r} s s'" for s' v
    using put [OF that] that u b by simp
  show ?thesis
    unfolding write_glyph_def Let_def runs_bind runs_Some
    by (rule runs_mono [OF smash [OF edits_refl]], erule runs_mono [OF smash2],
        erule runs_mono [OF put [OF _ b(2)]], erule runs_mono [OF put2], erule finish)
qed

lemma maybe_expand_keeps:
  assumes wf: "wf_screen s"
  shows "runs (maybe_expand_ri_pair s) (keeps s)"
proof (cases "s_open_cluster s")
  case None
  with wf show ?thesis by (simp add: maybe_expand_ri_pair_def)
next
  case (Some cl)
  define t where "t = sat_add u16_max (oc_col cl) 1"
  let ?r = "oc_row cl"
  show ?thesis
  proof (cases "2 \<le> oc_width cl \<or> s_cols s \<le> t \<or> ?r \<noteq> s_cursor_row s")
    case True
    with Some wf show ?thesis by (auto simp: maybe_expand_ri_pair_def Let_def t_def)
  next
    case False
    then have b: "t < s_cols s" "oc_col cl < s_cols s" "?r < s_rows s" "?r = s_cursor_row s"
      using wf_screenD [OF wf] by (auto simp: t_def sat_add_def min_def split: if_splits)
    have cl: "wf_cluster cl" using Some wf by (simp add: wf_screen_def)
    have put: "runs (put_cell_at (idx s0 col ?r) v s') (edits {?r} s)"
      if "edits {?r} s s'" "edits {?r} s s0" "col < s_cols s" for s' s0 col v
      using put_cell_at_edits [of s' col ?r v] that wf b(3)
      by (auto simp: edits_wf edits_frame elim!: runs_mono intro: edits_trans)
    have get: "runs (get_at (s_cells s') (idx s' (oc_col cl) ?r)) (\<lambda>_. True)" if "edits {?r} s s'" for s'
      using idx_bound [OF wf b(2,3)] edits_frame [OF that] by simp
    have finish: "keeps s (let s' = dirty ?r (s'\<lparr>s_open_cluster := Some (cl\<lparr>oc_width := 2\<rparr>)\<rparr>)
        in if s_cursor_col s' \<le> t \<and> s_cursor_row s' = ?r
           then advance_after_width 1 (s'\<lparr>s_cursor_col := t\<rparr>) else s')" if e: "edits {?r} s s'" for s'
    proof -
      let ?s = "(dirty ?r s')\<lparr>s_open_cluster := Some (cl\<lparr>oc_width := 2\<rparr>)\<rparr>"
      have eq: "dirty ?r (s'\<lparr>s_open_cluster := Some (cl\<lparr>oc_width := 2\<rparr>)\<rparr>) = ?s" by (simp add: dirty_def)
      have k: "keeps s (dirty ?r s')" by (rule edits_dirty_keeps [OF wf e])
      have "keeps (dirty ?r s') ?s"
        using keepsD(1) [OF k] cl by (intro same_grid_keeps) (auto intro!: wf_set simp: wf_cluster_def)
      then have k2: "keeps s ?s" by (rule keeps_trans [OF wf k])
      then have k3: "keeps ?s (?s\<lparr>s_cursor_col := t\<rparr>)"
        using keepsD(2) [OF k2] b(1)
        by (intro same_grid_keeps wf_set(1) [OF keepsD(1) [OF k2]]) simp_all
      have "keeps s (advance_after_width 1 (?s\<lparr>s_cursor_col := t\<rparr>))"
        using keeps_trans [OF wf keeps_trans [OF wf k2 k3] advance_keeps [OF keepsD(1) [OF k3]]] .
      with k2 show ?thesis unfolding Let_def eq by simp
    qed
    have "maybe_expand_ri_pair s = do {
        s' \<leftarrow> smash_wide_at t ?r s;
        lead \<leftarrow> get_at (s_cells s') (idx s' (oc_col cl) ?r);
        s'' \<leftarrow> put_cell_at (idx s' (oc_col cl) ?r) (lead\<lparr>c_attrs := (c_attrs lead AND 7) OR ATTR_WIDE_LEAD\<rparr>) s';
        s'' \<leftarrow> put_cell_at (idx s' t ?r) (lead\<lparr>c_attrs := (c_attrs lead AND 7) OR ATTR_WIDE_TAIL\<rparr>) s'';
        Some (let s' = dirty ?r (s''\<lparr>s_open_cluster := Some (cl\<lparr>oc_width := 2\<rparr>)\<rparr>)
          in if s_cursor_col s' \<le> t \<and> s_cursor_row s' = ?r
             then advance_after_width 1 (s'\<lparr>s_cursor_col := t\<rparr>) else s')}"
      unfolding maybe_expand_ri_pair_def Some option.case t_def [symmetric] Let_def using False by simp
    then show ?thesis
      by (simp only: runs_bind runs_Some)
        (rule runs_mono [OF smash_wide_at_edits [OF wf]], rule runs_mono [OF get], assumption,
         rule runs_mono [OF put], assumption, assumption, rule b(2),
         rule runs_mono [OF put], assumption, assumption, rule b(1), erule finish)
  qed
qed

lemma write_char_keeps:
  assumes wf: "wf_screen s"
  shows "runs (write_char c s) (keeps s)"
proof -
  let ?a = "if should_append c s then append_to_cluster c s else (False, s)"
  let ?w = "cluster_width c"
  have a: "keeps s (snd ?a)" using wf append_to_cluster_keeps by simp
  have glyph: "runs (if s_cols s' < ?w \<or> remaining_cols s' < ?w then Some s' else write_glyph c ?w s') (keeps s')"
    if "keeps s0 s'" for s0 s'
    using keepsD(1) [OF that] write_glyph_keeps [of s' ?w c]
    by (auto simp: remaining_cols_def cluster_width_def)
  have "runs (wrap_if_needed_width ?w s' \<bind> (\<lambda>s'. if s_cols s' < ?w \<or> remaining_cols s' < ?w
      then Some s' else write_glyph c ?w s')) (keeps s')" if "wf_screen s'" for s'
    by (rule runs_keeps_bind [OF that wrap_keeps [OF that]]) (rule glyph)
  then have "runs (if fst ?a then if is_regional_indicator c then maybe_expand_ri_pair (snd ?a) else Some (snd ?a)
      else wrap_if_needed_width ?w (snd ?a) \<bind> (\<lambda>s'. if s_cols s' < ?w \<or> remaining_cols s' < ?w
        then Some s' else write_glyph c ?w s')) (keeps (snd ?a))"
    using maybe_expand_keeps keepsD(1) [OF a] by (simp del: runs_bind)
  then have "runs (write_char c s) (keeps (snd ?a))"
    by (simp only: write_char_def Let_def case_prod_beta)
  then show ?thesis by (rule runs_mono) (rule keeps_trans [OF wf a])
qed

section \<open>Dispatch\<close>

lemma for_each_keeps:
  assumes "wf_screen s" "\<And>i s. wf_screen s \<Longrightarrow> runs (f i s) (keeps s)"
  shows "runs (for_each is f s) (keeps s)"
proof (rule for_each_inv)
  fix i s' assume k: "keeps s s'"
  show "runs (f i s') (keeps s)"
    by (rule runs_mono [OF assms(2) [OF keepsD(1) [OF k]]]) (rule keeps_trans [OF assms(1) k])
qed (simp add: assms(1))

lemmas pure_keeps = set_cursor_keeps restore_cursor_keeps set_scroll_region_keeps apply_sgr_keeps
  private_mode_keeps enqueue_reply_keeps

lemmas run_keeps = erase_display_keeps erase_line_keeps erase_chars_keeps insert_cells_keeps
  delete_cells_keeps

lemma csi_dispatch_keeps:
  assumes wf: "wf_screen s"
  shows "runs (csi_dispatch ps a s) (keeps s)"
proof -
  have "runs (scroll_up s) (keeps s)" "runs (scroll_down s) (keeps s)" if "wf_screen s" for s
    by (auto intro: runs_mono [OF scroll_up_spec [OF that]] runs_mono [OF scroll_down_spec [OF that]])
  then have scroll: "runs (for_each is (\<lambda>_. scroll_up) s) (keeps s)"
    "runs (for_each is (\<lambda>_. scroll_down) s) (keeps s)" for "is" :: "nat list"
    by (simp_all add: for_each_keeps wf)
  have lines: "runs (insert_lines n s) (keeps s)" "runs (delete_lines n s) (keeps s)" for n
    by (auto intro: runs_mono [OF insert_lines_spec [OF wf]] runs_mono [OF delete_lines_spec [OF wf]])
  have replies: "keeps s (reply_primary_da s)" "keeps s (reply_dsr_status s)"
    using wf by (simp_all add: reply_primary_da_def reply_dsr_status_def enqueue_reply_keeps)
  show ?thesis
    unfolding csi_dispatch_def using wf
    by (simp add: pure_keeps run_keeps scroll lines replies reply_dsr_cursor_eq split: list.split)
qed

lemma close_cluster_keeps: "wf_screen s \<Longrightarrow> keeps s (close_cluster s)"
  by (auto simp: close_cluster_def clear_pending_wrap_def intro!: same_grid_keeps wf_set)

lemma clear_pending_wrap_keeps: "wf_screen s \<Longrightarrow> keeps s (clear_pending_wrap s)"
  by (auto simp: clear_pending_wrap_def intro!: same_grid_keeps)

lemma set_col_keeps: "wf_screen s \<Longrightarrow> c < s_cols s \<Longrightarrow> keeps s (s\<lparr>s_cursor_col := c\<rparr>)"
  by (auto intro!: same_grid_keeps wf_set)

text \<open>
  TAB is the one operation with a precondition of its own: \<open>(cursor_col / 8 + 1) * 8\<close> fits a
  \<open>u16\<close> exactly when the cursor is left of column 65528.
\<close>

lemma execute_keeps:
  assumes wf: "wf_screen s" and narrow: "s_cols s \<le> 65528"
  shows "runs (execute b s) (keeps s)"
proof -
  let ?s = "close_cluster s"
  have k: "keeps s ?s" by (rule close_cluster_keeps [OF wf])
  then have wf': "wf_screen ?s" by (rule keepsD(1))
  have c: "s_cursor_col ?s = s_cursor_col s" "s_cols ?s = s_cols s"
    by (simp_all add: close_cluster_def clear_pending_wrap_def)
  have "s_cursor_col s div 8 \<le> 8190" using wf_screenD(6) [OF wf] narrow by linarith
  then have tab: "u16_mul (s_cursor_col ?s div 8 + 1) 8 = Some ((s_cursor_col ?s div 8 + 1) * 8)"
    unfolding c by (simp add: u16_mul_def)
  have then_s: "keeps s s'" if "keeps ?s s'" for s' by (rule keeps_trans [OF wf k that])
  have "keeps s (?s\<lparr>s_cursor_col := j\<rparr>)" if "j < s_cols s" for j
    using set_col_keeps [OF wf'] that c by (intro then_s) simp
  moreover have "runs (index ?s) (keeps s)"
    by (rule runs_keeps_after [OF wf k index_keeps [OF wf']])
  ultimately show ?thesis
    using wf wf_screenD(1,6) [OF wf] k c tab by (simp add: execute_def Let_def del: mult_Suc)
qed

lemma csi_keeps: "wf_screen s \<Longrightarrow> runs (csi ps is ign a s) (keeps s)"
  by (simp add: csi_def csi_dispatch_keeps private_mode_keeps reply_secondary_da_def enqueue_reply_keeps)

lemma esc_keeps:
  assumes wf: "wf_screen s"
  shows "runs (esc is b s) (keeps s)"
proof -
  let ?s = "clear_pending_wrap s"
  have k: "keeps s ?s" by (rule clear_pending_wrap_keeps [OF wf])
  then have wf': "wf_screen ?s" by (rule keepsD(1))
  have k': "keeps s (?s\<lparr>s_cursor_col := 0\<rparr>)"
    using set_col_keeps [OF wf', of 0] wf_screenD(1) [OF wf'] keeps_trans [OF wf k] by simp
  note cases = runs_keeps_after [OF wf k index_keeps [OF wf']]
    runs_keeps_after [OF wf k reverse_index_keeps [OF wf']]
    runs_keeps_after [OF wf k' index_keeps [OF keepsD(1) [OF k']]]
  have "keeps s (s\<lparr>s_saved_cursor := Some (capture_cursor s)\<rparr>)"
    using wf capture_cursor_wf [OF wf] by (intro same_grid_keeps wf_set) simp_all
  moreover have "keeps s (s\<lparr>s_application_keypad := x\<rparr>)" for x
    using wf by (intro same_grid_keeps) simp_all
  ultimately show ?thesis
    using cases wf by (simp add: esc_def restore_cursor_keeps split: option.split)
qed

text \<open>
  The screen is a client the parser can drive: from any well-formed screen whose width leaves
  room for TAB, every callback returns a screen that \<open>keeps\<close> the starting one.
\<close>

definition screen_inv :: "screen \<Rightarrow> screen \<Rightarrow> bool" where
  "screen_inv s0 s \<longleftrightarrow> wf_screen s0 \<and> s_cols s0 \<le> 65528 \<and> keeps s0 s"

lemma screen_inv_step:
  assumes "screen_inv s0 s" "wf_screen s \<Longrightarrow> s_cols s \<le> 65528 \<Longrightarrow> runs m (keeps s)"
  shows "runs m (screen_inv s0)"
proof -
  have i: "wf_screen s0" "s_cols s0 \<le> 65528" "keeps s0 s" using assms(1) by (simp_all add: screen_inv_def)
  then have "runs m (keeps s)" using assms(2) keepsD(1,2) [OF i(3)] by simp
  then show ?thesis
    by (rule runs_mono) (use i in \<open>auto simp: screen_inv_def intro: keeps_trans\<close>)
qed

interpretation screen: vt_actions screen_actions "screen_inv s0" for s0
  by unfold_locales
    (auto simp: screen_actions_def intro: screen_inv_step write_char_keeps execute_keeps csi_keeps esc_keeps)

section \<open>What the engine promises for a byte stream\<close>

text \<open>
  C8: no byte stream makes the engine panic. From any well-formed parser and screen, feeding any
  bytes returns; the parser's arrays stay in bounds, the screen's invariant holds, its size and
  palette are unchanged and the damage range covers every row that changed. The width bound is
  what TAB needs.
\<close>

theorem screen_feed_safe:
  assumes "wf_parser p" and "wf_screen s" and "s_cols s \<le> 65528"
  shows "runs (feed screen_actions bs p s) (\<lambda>(p', s'). wf_parser p' \<and> keeps s s')"
proof -
  have "screen_inv s s" using assms by (simp add: screen_inv_def)
  from screen.feed_good [OF assms(1) this] show ?thesis
    by (rule runs_mono) (auto simp: screen_inv_def)
qed

lemma screen_feed_safe_witness:
  "\<exists>s. screen_new 80 24 = Inr s \<and>
    runs (feed screen_actions [0x1b, 0x5b, 0x32, 0x4a, 0x41, 0xff, 0x09] parser_new s)
      (\<lambda>(p', s'). wf_parser p' \<and> keeps s s')"
proof -
  obtain s where "screen_new 80 24 = Inr s" "wf_screen s" "s_cols s = 80"
    by (rule screen_new_wf [of 80 24]) simp_all
  with screen_feed_safe [OF wf_parser_new, of s] show ?thesis by auto
qed

end
