(* ===== verification/Vt_Text.thy ===== *)
theory Vt_Text
  imports Vt_Screen_Safe
begin

text \<open>
  What a reader of the grid sees: the damage range of successive snapshots is sound
  (\<open>snapshot\<close> of \<^verbatim>\<open>screen.rs\<close>), and plain text fed to the engine appears in the cells.
\<close>

section \<open>Plain text\<close>

text \<open>
  A plain character is one column wide and starts a cluster of its own. A cell is narrow when
  it carries no wide mark.
\<close>

definition plain :: "scalar \<Rightarrow> bool" where
  "plain c \<longleftrightarrow> \<not> is_wide (unat c) \<and> \<not> is_cluster_continuer c \<and> \<not> is_regional_indicator c"

definition narrow :: "cell \<Rightarrow> bool" where
  "narrow c \<longleftrightarrow> c_attrs c AND ATTR_WIDE_LEAD = 0 \<and> c_attrs c AND ATTR_WIDE_TAIL = 0"

definition glyph :: "screen \<Rightarrow> scalar \<Rightarrow> cell" where
  "glyph s c = \<lparr>c_codepoint = c, c_fg = s_pen_fg s, c_bg = s_pen_bg s, c_attrs = s_pen_attrs s AND 7\<rparr>"

text \<open>The screen is ready to take text at the cursor.\<close>

definition ready :: "screen \<Rightarrow> bool" where
  "ready s \<longleftrightarrow> \<not> s_pending_wrap s \<and> pred_option (\<lambda>cl. \<not> oc_after_zwj cl) (s_open_cluster s) \<and>
     (\<forall>col. s_cursor_col s \<le> col \<and> col < s_cols s \<longrightarrow> narrow (s_cells s ! idx s col (s_cursor_row s)))"

lemma plain_starts_cluster:
  "plain c \<Longrightarrow> pred_option (\<lambda>cl. \<not> oc_after_zwj cl) (s_open_cluster s) \<Longrightarrow> \<not> should_append c s"
  by (auto simp: plain_def should_append_def split: option.splits)

lemma plain_not_zwj: "plain c \<Longrightarrow> c \<noteq> ZWJ"
  by (auto simp: plain_def is_cluster_continuer_def)

lemma smash_narrow:
  assumes "wf_screen s" "col < s_cols s" "row < s_rows s" "narrow (s_cells s ! idx s col row)"
  shows "smash_wide_at col row s = Some s"
  using assms by (simp add: smash_wide_at_def get_cell narrow_def Let_def)

lemma write_plain:
  assumes wf: "wf_screen s" and r: "ready s" and c: "plain c"
  shows "write_char c s = Some (advance_after_width 1 (dirty (s_cursor_row s)
    (s\<lparr>s_cells := (s_cells s)[idx s (s_cursor_col s) (s_cursor_row s) := glyph s c],
       s_open_cluster := Some \<lparr>oc_row = s_cursor_row s, oc_col = s_cursor_col s, oc_len = 1,
         oc_after_zwj = False, oc_last_was_ri = False, oc_width = 1\<rparr>\<rparr>)))"
proof -
  note b = wf_screenD(6,7) [OF wf]
  have "narrow (s_cells s ! idx s (s_cursor_col s) (s_cursor_row s))" using r b by (simp add: ready_def)
  then have "smash_wide_at (s_cursor_col s) (s_cursor_row s) s = Some s"
    by (rule smash_narrow [OF wf b])
  moreover have "\<not> should_append c s" "cluster_width c = 1"
    using c r plain_starts_cluster by (auto simp: ready_def plain_def cluster_width_def)
  moreover have "wrap_if_needed_width 1 s = Some s"
    using r b by (simp add: wrap_if_needed_width_def ready_def remaining_cols_def)
  moreover have "\<not> is_regional_indicator c" using c by (simp add: plain_def)
  ultimately show ?thesis
    using b plain_not_zwj [OF c] idx_bound [OF wf b]
    by (simp add: write_char_def write_glyph_def put_cell_at_def glyph_def Let_def remaining_cols_def)
qed

text \<open>All that writing text may change: cells, cursor column, pending wrap, the open cluster, damage.\<close>

definition only_writes :: "screen \<Rightarrow> screen \<Rightarrow> bool" where
  "only_writes s s' \<longleftrightarrow>
     s'\<lparr>s_cells := s_cells s, s_cursor_col := s_cursor_col s, s_pending_wrap := s_pending_wrap s,
        s_open_cluster := s_open_cluster s, s_damage_row0 := s_damage_row0 s, s_damage_row1 := s_damage_row1 s\<rparr> = s"

lemma only_writes_refl [simp]: "only_writes s s"
  by (simp add: only_writes_def)

lemma only_writes_trans: "only_writes s t \<Longrightarrow> only_writes t u \<Longrightarrow> only_writes s u"
  unfolding only_writes_def by (cases s, cases t, cases u) simp

lemma dirty_damaged: "damaged (dirty r s) r" "damaged s q \<Longrightarrow> damaged (dirty r s) q"
  by (auto simp: dirty_def damaged_def)

lemma write_plain_step:
  assumes wf: "wf_screen s" and r: "ready s" and c: "plain c"
  obtains s' where "write_char c s = Some s'" "wf_screen s'" "s_cols s' = s_cols s"
    "s_cells s' = (s_cells s)[idx s (s_cursor_col s) (s_cursor_row s) := glyph s c]"
    "s_cursor_row s' = s_cursor_row s" "s_autowrap s' = s_autowrap s" "glyph s' = glyph s"
    "s_cursor_col s' = min (s_cursor_col s + 1) (s_cols s - 1)"
    "s_pending_wrap s' \<longleftrightarrow> s_autowrap s \<and> s_cursor_col s + 1 = s_cols s"
    "s_cursor_col s + 1 < s_cols s \<Longrightarrow> ready s'"
    "only_writes s s'" "damaged s' (s_cursor_row s)" "\<forall>r. damaged s r \<longrightarrow> damaged s' r"
proof -
  note b = wf_screenD(2,6,7) [OF wf]
  let ?cl = "Some \<lparr>oc_row = s_cursor_row s, oc_col = s_cursor_col s, oc_len = 1,
         oc_after_zwj = False, oc_last_was_ri = False, oc_width = 1\<rparr>"
  let ?i = "idx s (s_cursor_col s) (s_cursor_row s)"
  define d where "d = dirty (s_cursor_row s) (s\<lparr>s_cells := (s_cells s)[?i := glyph s c], s_open_cluster := ?cl\<rparr>)"
  define s' where "s' = advance_after_width 1 d"
  have w: "write_char c s = Some s'" using write_plain [OF assms] by (simp add: s'_def d_def)
  then have "wf_screen s'" using write_char_keeps [OF wf, of c] by (auto dest: keepsD)
  moreover have d: "s_cols d = s_cols s" "s_cells d = (s_cells s)[?i := glyph s c]" "s_cursor_row d = s_cursor_row s"
    "s_cursor_col d = s_cursor_col s" "s_autowrap d = s_autowrap s" "s_open_cluster d = ?cl" "glyph d = glyph s"
    by (simp_all add: d_def dirty_def glyph_def fun_eq_iff)
  moreover have "s_cols s' = s_cols d" "s_cells s' = s_cells d" "s_cursor_row s' = s_cursor_row d"
    "s_autowrap s' = s_autowrap d" "s_open_cluster s' = s_open_cluster d" "glyph s' = glyph d"
    by (simp_all add: s'_def advance_after_width_def glyph_def fun_eq_iff Let_def)
  moreover have "s_cursor_col s' = min (s_cursor_col s + 1) (s_cols s - 1)"
    "s_pending_wrap s' \<longleftrightarrow> s_autowrap s \<and> s_cursor_col s + 1 = s_cols s"
    using b d by (auto simp: s'_def advance_after_width_def last_col_def sat_add_def Let_def)
  moreover have "ready s'" if "s_cursor_col s + 1 < s_cols s"
    using that r calculation idx_bound [OF wf b(2,3)]
    by (auto simp: ready_def idx_def nth_list_update)
  moreover have "only_writes s d" by (simp add: only_writes_def d_def dirty_def)
  then have "only_writes s s'"
    by (rule only_writes_trans) (simp add: s'_def only_writes_def advance_after_width_def Let_def)
  moreover have "damaged s' (s_cursor_row s)"
    using dirty_damaged(1) [of "s_cursor_row s"] by (simp add: s'_def d_def advance_after_width_def damaged_def Let_def)
  moreover have "\<forall>r. damaged s r \<longrightarrow> damaged s' r"
  proof (intro allI impI)
    fix r assume "damaged s r"
    then have "damaged d r" unfolding d_def by (intro dirty_damaged) (simp add: damaged_def)
    then show "damaged s' r" by (simp add: s'_def advance_after_width_def damaged_def Let_def)
  qed
  ultimately show thesis using that [OF w] by metis
qed

lemma feed_plain_text:
  assumes "list_all (\<lambda>c. printable c \<and> plain (word_of_nat c)) cs"
    and "wf_parser p" "is_idle p" "wf_screen s" "cs \<noteq> [] \<longrightarrow> ready s"
    and "s_cursor_col s + length cs \<le> s_cols s"
  shows "\<exists>p' s'. feed screen_actions (concat (map encode_utf8 cs)) p s = Some (p', s') \<and>
    wf_parser p' \<and> is_idle p' \<and>
    s_cells s' = (let i = idx s (s_cursor_col s) (s_cursor_row s)
      in take i (s_cells s) @ map (\<lambda>c. glyph s (word_of_nat c)) cs @ drop (i + length cs) (s_cells s)) \<and>
    s_cursor_row s' = s_cursor_row s \<and>
    s_cursor_col s' = (if cs = [] then s_cursor_col s else min (s_cursor_col s + length cs) (s_cols s - 1)) \<and>
    (s_pending_wrap s' \<longleftrightarrow> (if cs = [] then s_pending_wrap s
       else s_autowrap s \<and> s_cursor_col s + length cs = s_cols s)) \<and>
    only_writes s s' \<and> (cs \<noteq> [] \<longrightarrow> damaged s' (s_cursor_row s)) \<and> (\<forall>r. damaged s r \<longrightarrow> damaged s' r)"
  using assms
proof (induction cs arbitrary: p s)
  case Nil
  then show ?case
    by (simp add: feed.simps [of screen_actions "[]" p s] is_idle_def)
next
  case (Cons c cs)
  have c: "ready s" "plain (word_of_nat c)" using Cons.prems by simp_all
  obtain s1 where s1: "write_char (word_of_nat c) s = Some s1" "wf_screen s1" "s_cols s1 = s_cols s"
    "s_cells s1 = (s_cells s)[idx s (s_cursor_col s) (s_cursor_row s) := glyph s (word_of_nat c)]"
    "s_cursor_row s1 = s_cursor_row s" "s_autowrap s1 = s_autowrap s" "glyph s1 = glyph s"
    "s_cursor_col s1 = min (s_cursor_col s + 1) (s_cols s - 1)"
    "s_pending_wrap s1 \<longleftrightarrow> s_autowrap s \<and> s_cursor_col s + 1 = s_cols s"
    "s_cursor_col s + 1 < s_cols s \<Longrightarrow> ready s1" "only_writes s s1" "damaged s1 (s_cursor_row s)"
    "\<forall>r. damaged s r \<longrightarrow> damaged s1 r"
    by (rule write_plain_step [OF Cons.prems(4) c]) blast
  obtain p1 where p1: "feed screen_actions (encode_utf8 c) p s = Some (p1, s1)" "wf_parser p1" "is_idle p1"
    using feed_printable [of c p screen_actions s] Cons.prems s1(1)
    by (auto simp: emit_def screen_actions_def)
  let ?i = "idx s (s_cursor_col s) (s_cursor_row s)"
  have i: "?i < length (s_cells s)" using idx_bound wf_screenD(6,7) Cons.prems(4) by blast
  have room: "s_cursor_col s1 + length cs \<le> s_cols s1" "cs \<noteq> [] \<longrightarrow> s_cursor_col s + 1 < s_cols s"
    using Cons.prems(6) s1(3,8) by (cases cs; simp)+
  obtain p' s' where r: "feed screen_actions (concat (map encode_utf8 cs)) p1 s1 = Some (p', s')"
    "wf_parser p'" "is_idle p'"
    "s_cells s' = (let i = idx s1 (s_cursor_col s1) (s_cursor_row s1)
      in take i (s_cells s1) @ map (\<lambda>c. glyph s1 (word_of_nat c)) cs @ drop (i + length cs) (s_cells s1))"
    "s_cursor_row s' = s_cursor_row s1"
    "s_cursor_col s' = (if cs = [] then s_cursor_col s1 else min (s_cursor_col s1 + length cs) (s_cols s1 - 1))"
    "s_pending_wrap s' \<longleftrightarrow> (if cs = [] then s_pending_wrap s1
       else s_autowrap s1 \<and> s_cursor_col s1 + length cs = s_cols s1)"
    "only_writes s1 s'" "\<forall>r. damaged s1 r \<longrightarrow> damaged s' r"
    using Cons.IH [OF _ p1(2,3) s1(2) _ room(1)] Cons.prems(1) room(2) s1(10) by auto
  have "s_cells s' = take ?i (s_cells s) @ glyph s (word_of_nat c) #
      map (\<lambda>c. glyph s (word_of_nat c)) cs @ drop (Suc (?i + length cs)) (s_cells s)"
  proof (cases "cs = []")
    case True
    then have "s_cells s' = s_cells s1" using r(4) by (simp add: Let_def)
    then show ?thesis using True s1(4) i by (simp add: upd_conv_take_nth_drop)
  next
    case False
    then have "idx s1 (s_cursor_col s1) (s_cursor_row s1) = Suc ?i" using room(2) s1(3,5,8) by (simp add: idx_def)
    then show ?thesis using r(4) s1(4,7) i by (simp add: take_Suc_conv_app_nth Let_def)
  qed
  moreover have "s_cursor_col s' = min (s_cursor_col s + length (c # cs)) (s_cols s - 1)"
    "s_pending_wrap s' \<longleftrightarrow> s_autowrap s \<and> s_cursor_col s + length (c # cs) = s_cols s"
    using r(6,7) s1(3,6,8,9) room(2) by (cases cs; auto)+
  moreover have "only_writes s s'" "damaged s' (s_cursor_row s)" "\<forall>r. damaged s r \<longrightarrow> damaged s' r"
    using only_writes_trans [OF s1(11) r(8)] s1(12,13) r(9) by simp_all
  ultimately show ?case
    using p1(1) r(1,2,3,5) s1(5) by (simp add: feed_append Let_def)
qed

lemma ranges_above_ascii: "list_all (\<lambda>r. 0x7e < fst r) WIDE_RANGES" "list_all (\<lambda>r. 0x7e < fst r) MARK_RANGES"
  by (simp_all add: WIDE_RANGES_def MARK_RANGES_def)

lemma ascii_plain:
  assumes "0x20 \<le> c" "c \<le> 0x7e"
  shows "printable c \<and> plain (word_of_nat c)"
proof -
  have u: "unat (word_of_nat c :: scalar) = c" using assms by (simp add: unat_of_nat)
  have "\<not> in_ranges WIDE_RANGES c" "\<not> in_ranges MARK_RANGES c"
    using ranges_above_ascii assms(2) by (force simp: in_ranges_def list_all_iff)+
  then have "\<not> is_wide c" "\<not> is_mark c"
    by (simp_all add: is_wide_def is_mark_def contains_in_ranges sorted_WIDE_RANGES sorted_MARK_RANGES)
  then show ?thesis
    using assms(2) u word_unat_eq_iff [of "word_of_nat c :: scalar" ZWJ] assms(1)
    by (simp add: printable_def is_scalar_def plain_def is_cluster_continuer_def
        is_regional_indicator_def ZWJ_def word_le_nat_alt del: word_of_nat_eq_iff)
qed

lemma new_screen_ready:
  assumes "screen_new c r = Inr s"
  shows "ready s"
proof -
  have "narrow (cell_blank Default)" by (simp add: narrow_def cell_blank_def)
  moreover have "s_cells s = replicate (c * r) (cell_blank Default)" "s_cols s = c" "0 < r" "s_cursor_row s = 0"
    "\<not> s_pending_wrap s" "s_open_cluster s = None"
    using assms by (auto simp: screen_new_def split: if_splits)
  moreover have "col < c * r" if "col < c" "0 < r" for col
    using that by (metis less_le_trans mult.right_neutral mult_le_mono2 One_nat_def Suc_leI)
  ultimately show ?thesis by (simp add: ready_def idx_def)
qed

text \<open>
  C10: text appears on the screen. From an idle parser, and where the screen is ready for text (no wrap
  pending, no joiner before the cursor, no wide mark in the cells of its row from the cursor on), the UTF-8
  encoding of one or more single-width characters that fit in the rest of the row puts exactly those
  characters, in the pen's colours and attributes, into the cells from the cursor on, and no other cell
  changes. The cursor moves behind the text; reaching the right edge leaves it on the last column with
  the wrap pending (when autowrap is on). The row is marked as damaged and no mark is lost. Beyond the
  cells, the cursor column, the pending wrap, the open cluster and the damage marks nothing changes: modes,
  pen, saved state, scroll region, replies, palette, size and scrolled-off rows are as they were.
\<close>

theorem text_appears:
  assumes "list_all (\<lambda>c. printable c \<and> plain (word_of_nat c)) cs"
    and "wf_parser p" and "is_idle p" and "wf_screen s" and "ready s"
    and "cs \<noteq> []" and "s_cursor_col s + length cs \<le> s_cols s"
  shows "\<exists>p' s'. feed screen_actions (concat (map encode_utf8 cs)) p s = Some (p', s') \<and> is_idle p' \<and>
    s_cells s' = (let i = idx s (s_cursor_col s) (s_cursor_row s)
      in take i (s_cells s) @ map (\<lambda>c. glyph s (word_of_nat c)) cs @ drop (i + length cs) (s_cells s)) \<and>
    s_cursor_row s' = s_cursor_row s \<and>
    s_cursor_col s' = min (s_cursor_col s + length cs) (s_cols s - 1) \<and>
    (s_pending_wrap s' \<longleftrightarrow> s_autowrap s \<and> s_cursor_col s + length cs = s_cols s) \<and>
    damaged s' (s_cursor_row s) \<and> (\<forall>r. damaged s r \<longrightarrow> damaged s' r) \<and>
    s'\<lparr>s_cells := s_cells s, s_cursor_col := s_cursor_col s, s_pending_wrap := s_pending_wrap s,
       s_open_cluster := s_open_cluster s, s_damage_row0 := s_damage_row0 s, s_damage_row1 := s_damage_row1 s\<rparr> = s"
  using feed_plain_text [OF assms(1-4) _ assms(7)] assms(5,6) unfolding only_writes_def by auto

lemma text_appears_witness:
  "\<exists>s p' s'. screen_new 3 2 = Inr s \<and>
    feed screen_actions (concat (map encode_utf8 [0x48, 0x69, 0x21])) parser_new s = Some (p', s') \<and>
    map c_codepoint (s_cells s') = [0x48, 0x69, 0x21, 0x20, 0x20, 0x20] \<and>
    s_cursor_col s' = 2 \<and> s_pending_wrap s'"
proof -
  obtain s where s: "screen_new 3 2 = Inr s" "wf_screen s" "s_cols s = 3" "s_cursor_row s = 0" "s_cursor_col s = 0"
    by (rule screen_new_wf [of 3 2]) simp_all
  have "s_cells s = replicate 6 (cell_blank Default)" "s_autowrap s"
    using s(1) by (auto simp: screen_new_def split: if_splits)
  moreover have "list_all (\<lambda>c. printable c \<and> plain (word_of_nat c)) [0x48, 0x69, 0x21]"
    using ascii_plain [of "0x48"] ascii_plain [of "0x69"] ascii_plain [of "0x21"] by simp
  ultimately obtain p' s' where
    "feed screen_actions (concat (map encode_utf8 [0x48, 0x69, 0x21])) parser_new s = Some (p', s')"
    "s_cells s' = map (\<lambda>c. glyph s (word_of_nat c)) [0x48, 0x69, 0x21] @ replicate 3 (cell_blank Default)"
    "s_cursor_col s' = 2" "s_pending_wrap s'"
    using text_appears [of "[0x48, 0x69, 0x21]" parser_new s] s new_screen_ready [OF s(1)]
    by (auto simp: idx_def Let_def)
  with s(1) show ?thesis by (intro exI conjI) (simp_all add: glyph_def cell_blank_def numeral_3_eq_3)
qed

section \<open>Snapshots\<close>

lemma row_major: "c < cs \<Longrightarrow> (r * cs + c) div cs = (r :: nat)"
  by simp

text \<open>
  C9: a host that redraws only the damaged rows shows the true grid. Take a snapshot, feed any
  bytes, take the next snapshot: every cell outside the rows it reports as damaged is the cell of
  the previous snapshot.
\<close>

theorem undamaged_rows_are_unchanged:
  assumes "wf_parser p" and "wf_screen s" and "s_cols s \<le> 65528"
    and "feed screen_actions bs p (snd (snapshot s)) = Some (p', s')"
    and "g = fst (snapshot s')" and "\<not> pg_full_damage g"
    and "row < pg_damage_row0 g \<or> pg_damage_row1 g < row" and "row < s_rows s" and "col < s_cols s"
  shows "pod_grid_cell g col row = pod_grid_cell (fst (snapshot s)) col row"
proof -
  let ?s = "snd (snapshot s)"
  have wf: "wf_screen ?s" using assms(2) by (simp add: snapshot_def)
  have cols: "s_cols ?s = s_cols s" "s_rows ?s = s_rows s" "s_cells ?s = s_cells s" "s_palette ?s = s_palette s"
    by (simp_all add: snapshot_def)
  have "screen_inv ?s ?s" using wf assms(3) cols by (simp add: screen_inv_def)
  from screen.feed_good [OF assms(1) this, of bs] assms(4)
  have k: "keeps ?s s'" by (simp add: screen_inv_def)
  have i: "row * s_cols s + col < length (s_cells s)"
    using idx_bound [OF assms(2,9,8)] by (simp add: idx_def)
  have "\<not> damaged s' row" using assms(5-7) by (auto simp: damaged_def snapshot_def)
  then have same: "s_cells s' ! (row * s_cols s + col) = s_cells s ! (row * s_cols s + col)"
    using k i cols row_major [OF assms(9), of row] by (auto simp: keeps_def tracks_def)
  have "length (s_cells s') = length (s_cells s)"
    using k wf assms(2) cols by (simp add: keeps_def wf_screen_def)
  moreover have "to_pod_cell s' c = to_pod_cell s c" for c
    using k cols by (simp add: to_pod_cell_def resolve_def keeps_def split: color.split)
  ultimately show ?thesis
    using same i k cols assms(5) by (simp add: pod_grid_cell_def snapshot_def keeps_def Let_def)
qed

lemma undamaged_rows_are_unchanged_witness:
  "\<exists>s p' s'. screen_new 3 2 = Inr s \<and>
    feed screen_actions (encode_utf8 0x41) parser_new (snd (snapshot s)) = Some (p', s') \<and>
    \<not> pg_full_damage (fst (snapshot s')) \<and> pg_damage_row1 (fst (snapshot s')) = 0 \<and>
    pod_grid_cell (fst (snapshot s')) 2 1 = pod_grid_cell (fst (snapshot s)) 2 1"
proof -
  obtain s where s: "screen_new 3 2 = Inr s" "wf_screen s" "s_cols s = 3" "s_rows s = 2" "s_cursor_row s = 0"
    by (rule screen_new_wf [of 3 2]) simp_all
  let ?s = "snd (snapshot s)"
  have w: "wf_screen ?s" "ready ?s" "s_cursor_row ?s = 0"
    using s new_screen_ready [OF s(1)] by (simp_all add: snapshot_def ready_def idx_def)
  obtain p' where f: "feed screen_actions (encode_utf8 0x41) parser_new ?s = emit (write_char 0x41 ?s) p'"
    using feed_printable [of "0x41" parser_new screen_actions ?s] ascii_plain [of "0x41"]
    by (auto simp: screen_actions_def)
  obtain s' where s': "write_char 0x41 ?s = Some s'" "\<not> s_full_damage s'" "s_damage_row1 s' = 0"
    using write_plain [OF w(1,2), of "0x41"] ascii_plain [of "0x41"] w(3)
    by (simp add: dirty_def advance_after_width_def Let_def snapshot_def)
  have "feed screen_actions (encode_utf8 0x41) parser_new ?s = Some (p', s')"
    using f s'(1) by (simp add: emit_def)
  moreover from undamaged_rows_are_unchanged [OF wf_parser_new s(2) _ this refl, of 1 2]
  have "pod_grid_cell (fst (snapshot s')) 2 1 = pod_grid_cell (fst (snapshot s)) 2 1"
    using s s' by (simp add: snapshot_def)
  moreover have "\<not> pg_full_damage (fst (snapshot s'))" "pg_damage_row1 (fst (snapshot s')) = 0"
    using s' by (simp_all add: snapshot_def)
  ultimately show ?thesis using s(1) by blast
qed

end
