(* ===== verification/Vt_Checkpoint.thy ===== *)
theory Vt_Checkpoint
  imports Vt_Text
begin

text \<open>
  The checkpoint format of \<^verbatim>\<open>screen.rs\<close>: \<open>export_checkpoint\<close>, \<open>import_checkpoint\<close>, their
  \<open>put_\<close> and \<open>take_\<close> helpers and the FNV-1a hash. The interface between the helpers and the two
  operations is the locale \<open>prefix_codec\<close>. Allocation is not modelled (\<open>Vec::with_capacity\<close>
  reserves memory for the announced grid before its bytes are seen), and the product of two
  16-bit sizes cannot overflow a 64-bit \<open>usize\<close>.
\<close>

section \<open>Little parsers\<close>

text \<open>
  A \<open>take_\<close> function consumes bytes from the front of \<open>rest\<close>. \<open>and_then\<close> is the sequencing
  that \<open>?\<close> gives in the source: the first error ends the import.
\<close>

type_synonym 'a taker = "byte list \<Rightarrow> vt_error + ('a \<times> byte list)"

definition and_then :: "'a taker \<Rightarrow> ('a \<Rightarrow> 'b taker) \<Rightarrow> 'b taker" where
  "and_then m f bs = (case m bs of Inl e \<Rightarrow> Inl e | Inr (a, rest) \<Rightarrow> f a rest)"

definition give :: "'a \<Rightarrow> 'a taker" where
  "give a bs = Inr (a, bs)"

definition refuse :: "string \<Rightarrow> 'a taker" where
  "refuse msg bs = Inl (Vt msg)"

primrec take_many :: "nat \<Rightarrow> 'a taker \<Rightarrow> 'a list taker" where
  "take_many 0 t = give []"
| "take_many (Suc n) t = and_then t (\<lambda>x. and_then (take_many n t) (\<lambda>xs. give (x # xs)))"

text \<open>
  A \<open>put_\<close> function with the \<open>take_\<close> function that reads it back, on the values \<open>ok\<close> that fit.
\<close>

locale prefix_codec =
  fixes put :: "'a \<Rightarrow> byte list" and tk :: "'a taker" and ok :: "'a \<Rightarrow> bool"
  assumes take_put: "ok a \<Longrightarrow> tk (put a @ rest) = Inr (a, rest)"
begin

lemma then_put: "ok a \<Longrightarrow> and_then tk f (put a @ rest) = f a rest"
  by (simp add: and_then_def take_put)

lemma many_put:
  "list_all ok xs \<Longrightarrow> take_many (length xs) tk (concat (map put xs) @ rest) = Inr (xs, rest)"
proof (induction xs)
  case Nil
  show ?case by (simp add: give_def)
next
  case (Cons x xs)
  then have "take_many (length xs) tk (concat (map put xs) @ rest) = Inr (xs, rest)" by simp
  with Cons.prems show ?case by (simp add: then_put) (simp add: and_then_def give_def)
qed

lemma then_many_put:
  "list_all ok xs \<Longrightarrow> length xs = n \<Longrightarrow>
    and_then (take_many n tk) f (concat (map put xs) @ rest) = f xs rest"
  using many_put [of xs rest] by (auto simp: and_then_def)

end

section \<open>Encoders and decoders\<close>

definition put_u8 :: "nat \<Rightarrow> byte list" where "put_u8 n = [word_of_nat n]"
definition put_u16 :: "nat \<Rightarrow> byte list" where "put_u16 n = le_bytes 2 n"
definition put_u32 :: "nat \<Rightarrow> byte list" where "put_u32 n = le_bytes 4 n"
definition put_u64 :: "nat \<Rightarrow> byte list" where "put_u64 n = le_bytes 8 n"

definition put_bool :: "bool \<Rightarrow> byte list" where "put_bool b = [if b then 1 else 0]"

definition put_w16 :: "u16 \<Rightarrow> byte list" where "put_w16 w = put_u16 (unat w)"
definition put_w32 :: "u32 \<Rightarrow> byte list" where "put_w32 w = put_u32 (unat w)"

definition put_color :: "color \<Rightarrow> byte list" where
  "put_color c = (case c of Default \<Rightarrow> [0] | Indexed i \<Rightarrow> [1, i] | Rgb r g b \<Rightarrow> [2, r, g, b])"

definition put_rgb :: "rgb \<Rightarrow> byte list" where
  "put_rgb c = [rgb_r c, rgb_g c, rgb_b c]"

definition put_palette :: "palette \<Rightarrow> byte list" where
  "put_palette p = concat (map put_rgb (ansi p)) @ put_rgb (foreground p) @ put_rgb (background p) @
     put_rgb (pal_cursor p)"

definition put_cell :: "cell \<Rightarrow> byte list" where
  "put_cell c = put_w32 (c_codepoint c) @ put_w16 (c_attrs c) @ put_color (c_fg c) @ put_color (c_bg c)"

definition put_saved :: "saved_cursor option \<Rightarrow> byte list" where
  "put_saved sc =
     (case sc of None \<Rightarrow> [0]
      | Some c \<Rightarrow> [1] @ put_u16 (sc_col c) @ put_u16 (sc_row c) @ put_bool (sc_pending_wrap c) @
          put_color (sc_fg c) @ put_color (sc_bg c) @ put_w16 (sc_attrs c))"

definition put_open_cluster :: "open_cluster option \<Rightarrow> byte list" where
  "put_open_cluster oc =
     (case oc of None \<Rightarrow> [0]
      | Some c \<Rightarrow> [1] @ put_u16 (oc_row c) @ put_u16 (oc_col c) @ put_u8 (oc_len c) @
          put_bool (oc_after_zwj c) @ put_bool (oc_last_was_ri c) @ put_u8 (oc_width c))"

definition take_u8 :: "byte taker" where
  "take_u8 bs = (case bs of [] \<Rightarrow> Inl (Vt ''truncated checkpoint'') | b # tail \<Rightarrow> Inr (b, tail))"

definition take_u16 :: "nat taker" where
  "take_u16 bs = (if length bs < 2 then Inl (Vt ''truncated checkpoint'')
     else Inr (le_val (take 2 bs), drop 2 bs))"

definition take_u32 :: "nat taker" where
  "take_u32 bs = (if length bs < 4 then Inl (Vt ''truncated checkpoint'')
     else Inr (le_val (take 4 bs), drop 4 bs))"

definition take_byte :: "nat taker" where
  "take_byte = and_then take_u8 (\<lambda>b. give (unat b))"

definition take_bool :: "bool taker" where
  "take_bool = and_then take_u8 (\<lambda>b. give (b \<noteq> 0))"

definition take_w16 :: "u16 taker" where
  "take_w16 = and_then take_u16 (\<lambda>n. give (word_of_nat n))"

definition take_w32 :: "u32 taker" where
  "take_w32 = and_then take_u32 (\<lambda>n. give (word_of_nat n))"

definition take_color :: "color taker" where
  "take_color = and_then take_u8 (\<lambda>t.
     if t = 0 then give Default
     else if t = 1 then and_then take_u8 (\<lambda>i. give (Indexed i))
     else if t = 2 then
       and_then take_u8 (\<lambda>r. and_then take_u8 (\<lambda>g. and_then take_u8 (\<lambda>b. give (Rgb r g b))))
     else refuse ''bad colour tag'')"

definition take_rgb :: "rgb taker" where
  "take_rgb = and_then take_u8 (\<lambda>r. and_then take_u8 (\<lambda>g. and_then take_u8 (\<lambda>b. give (mk_rgb r g b))))"

definition take_palette :: "palette taker" where
  "take_palette = and_then (take_many 16 take_rgb) (\<lambda>a. and_then take_rgb (\<lambda>f.
     and_then take_rgb (\<lambda>b. and_then take_rgb (\<lambda>c.
       give \<lparr>ansi = a, foreground = f, background = b, pal_cursor = c\<rparr>))))"

definition take_cell :: "cell taker" where
  "take_cell = and_then take_w32 (\<lambda>cp. and_then take_w16 (\<lambda>at. and_then take_color (\<lambda>f.
     and_then take_color (\<lambda>b. give \<lparr>c_codepoint = cp, c_fg = f, c_bg = b, c_attrs = at\<rparr>))))"

definition take_saved :: "saved_cursor option taker" where
  "take_saved = and_then take_u8 (\<lambda>t.
     if t = 0 then give None
     else if t = 1 then and_then take_u16 (\<lambda>col. and_then take_u16 (\<lambda>row. and_then take_bool (\<lambda>pw.
       and_then take_color (\<lambda>f. and_then take_color (\<lambda>b. and_then take_w16 (\<lambda>at.
         give (Some \<lparr>sc_col = col, sc_row = row, sc_pending_wrap = pw, sc_fg = f, sc_bg = b,
           sc_attrs = at\<rparr>)))))))
     else refuse ''bad saved cursor tag'')"

definition take_open_cluster :: "open_cluster option taker" where
  "take_open_cluster = and_then take_u8 (\<lambda>t.
     if t = 0 then give None
     else if t = 1 then and_then take_u16 (\<lambda>row. and_then take_u16 (\<lambda>col. and_then take_byte (\<lambda>len.
       and_then take_bool (\<lambda>z. and_then take_bool (\<lambda>ri. and_then take_byte (\<lambda>w.
         give (Some \<lparr>oc_row = row, oc_col = col, oc_len = len, oc_after_zwj = z,
           oc_last_was_ri = ri, oc_width = w\<rparr>)))))))
     else refuse ''bad open cluster tag'')"

text \<open>Each pair is a prefix codec on the values of its Rust type.\<close>

named_theorems codec_steps

lemma u8_step [codec_steps]: "and_then take_u8 f (b # rest) = f b rest"
  by (simp add: and_then_def take_u8_def)

interpretation byte: prefix_codec put_u8 take_byte "\<lambda>n. n \<le> u8_max"
  by unfold_locales (simp add: put_u8_def take_byte_def u8_step give_def)

interpretation bool: prefix_codec put_bool take_bool "\<lambda>_. True"
  by unfold_locales (simp add: put_bool_def take_bool_def u8_step give_def)

interpretation u16: prefix_codec put_u16 take_u16 "\<lambda>n. n \<le> u16_max"
  by unfold_locales (simp add: put_u16_def take_u16_def)

interpretation u32: prefix_codec put_u32 take_u32 "\<lambda>n. n \<le> u32_max"
  by unfold_locales (simp add: put_u32_def take_u32_def)

lemma unat_u16_le: "unat (w :: u16) \<le> u16_max"
proof -
  have "unat w < 2 ^ 16" by (rule order_less_le_trans [OF unsigned_less]) simp
  then show ?thesis by simp
qed

lemma unat_u32_le: "unat (w :: u32) \<le> u32_max"
proof -
  have "unat w < 2 ^ 32" by (rule order_less_le_trans [OF unsigned_less]) simp
  then show ?thesis by simp
qed

interpretation w16: prefix_codec put_w16 take_w16 "\<lambda>_. True"
  by unfold_locales (simp add: put_w16_def take_w16_def u16.then_put unat_u16_le give_def)

interpretation w32: prefix_codec put_w32 take_w32 "\<lambda>_. True"
  by unfold_locales (simp add: put_w32_def take_w32_def u32.then_put unat_u32_le give_def)

interpretation color: prefix_codec put_color take_color "\<lambda>_. True"
  by unfold_locales (simp add: put_color_def take_color_def u8_step give_def split: color.split)

interpretation rgb: prefix_codec put_rgb take_rgb "\<lambda>_. True"
  by unfold_locales (simp add: put_rgb_def take_rgb_def u8_step give_def mk_rgb_def)

lemmas codec_then [codec_steps] = byte.then_put bool.then_put [OF TrueI] u16.then_put u32.then_put
  w16.then_put [OF TrueI] w32.then_put [OF TrueI] color.then_put [OF TrueI] rgb.then_put [OF TrueI]

lemma palette_ansi_step:
  "wf_palette p \<Longrightarrow>
    and_then (take_many 16 take_rgb) f (concat (map put_rgb (ansi p)) @ rest) = f (ansi p) rest"
  by (intro rgb.then_many_put) (simp_all add: wf_palette_def list_all_iff)

interpretation palette: prefix_codec put_palette take_palette wf_palette
  by unfold_locales
    (simp add: take_palette_def put_palette_def codec_steps palette_ansi_step give_def)

interpretation cell: prefix_codec put_cell take_cell "\<lambda>_. True"
  by unfold_locales (simp add: put_cell_def take_cell_def codec_steps give_def)

interpretation saved: prefix_codec put_saved take_saved "pred_option wf_cursor"
  by unfold_locales
    (auto simp: put_saved_def take_saved_def codec_steps give_def wf_cursor_def split: option.split)

interpretation cluster: prefix_codec put_open_cluster take_open_cluster "pred_option wf_cluster"
  by unfold_locales
    (auto simp: put_open_cluster_def take_open_cluster_def codec_steps give_def wf_cluster_def
      split: option.split)

section \<open>Mode flags\<close>

definition flag :: "nat \<Rightarrow> bool \<Rightarrow> u32 \<Rightarrow> u32" where
  "flag k b f = (if b then f OR push_bit k 1 else f)"

definition checkpoint_flags :: "screen \<Rightarrow> u32" where
  "checkpoint_flags s =
     flag 11 (s_focus_events s) (flag 10 (s_mouse_sgr s) (flag 9 (s_mouse_any s)
       (flag 8 (s_mouse_button s) (flag 7 (s_mouse_x10 s) (flag 6 (s_bracketed_paste s)
         (flag 5 (s_application_keypad s) (flag 4 (s_application_cursor_keys s)
           (flag 3 (s_in_alt s) (flag 2 (s_cursor_visible s) (flag 1 (s_autowrap s)
             (flag 0 (s_pending_wrap s) 0)))))))))))"

definition has_flag :: "nat \<Rightarrow> u32 \<Rightarrow> bool" where
  "has_flag k f \<longleftrightarrow> f AND push_bit k 1 \<noteq> 0"

definition apply_checkpoint_flags :: "u32 \<Rightarrow> screen \<Rightarrow> screen" where
  "apply_checkpoint_flags f s =
     s\<lparr>s_pending_wrap := has_flag 0 f, s_autowrap := has_flag 1 f, s_cursor_visible := has_flag 2 f,
       s_in_alt := has_flag 3 f, s_application_cursor_keys := has_flag 4 f,
       s_application_keypad := has_flag 5 f, s_bracketed_paste := has_flag 6 f,
       s_mouse_x10 := has_flag 7 f, s_mouse_button := has_flag 8 f, s_mouse_any := has_flag 9 f,
       s_mouse_sgr := has_flag 10 f, s_focus_events := has_flag 11 f\<rparr>"

lemma has_flag_bit: "has_flag k f = bit f k"
  by (simp add: has_flag_def push_bit_eq_mult and_exp_eq_0_iff_not_bit)

lemma has_flag_flag: "j < 32 \<Longrightarrow> has_flag j (flag k b f) \<longleftrightarrow> has_flag j f \<or> (b \<and> j = k)"
  by (auto simp: has_flag_bit flag_def bit_or_iff bit_exp_iff possible_bit_word)

lemma has_flag_0 [simp]: "\<not> has_flag k 0"
  by (simp add: has_flag_def)

lemma checkpoint_flags_bits:
  "has_flag 0 (checkpoint_flags s) = s_pending_wrap s" "has_flag 1 (checkpoint_flags s) = s_autowrap s"
  "has_flag 2 (checkpoint_flags s) = s_cursor_visible s" "has_flag 3 (checkpoint_flags s) = s_in_alt s"
  "has_flag 4 (checkpoint_flags s) = s_application_cursor_keys s"
  "has_flag 5 (checkpoint_flags s) = s_application_keypad s"
  "has_flag 6 (checkpoint_flags s) = s_bracketed_paste s" "has_flag 7 (checkpoint_flags s) = s_mouse_x10 s"
  "has_flag 8 (checkpoint_flags s) = s_mouse_button s" "has_flag 9 (checkpoint_flags s) = s_mouse_any s"
  "has_flag 10 (checkpoint_flags s) = s_mouse_sgr s" "has_flag 11 (checkpoint_flags s) = s_focus_events s"
  by (simp_all add: checkpoint_flags_def has_flag_flag)

section \<open>Export and import\<close>

definition MAGIC :: "byte list" where "MAGIC = [0x52, 0x31, 0x43, 0x4b]"
definition VERSION :: nat where "VERSION = 1"
definition HASH_OFF :: nat where "HASH_OFF = 14"

definition FNV_OFFSET :: u64 where "FNV_OFFSET = 0xcbf29ce484222325"
definition FNV_PRIME :: u64 where "FNV_PRIME = 0x100000001b3"

definition fnv_step :: "u64 \<Rightarrow> nat \<times> byte \<Rightarrow> u64" where
  "fnv_step h = (\<lambda>(i, b). (h XOR (if HASH_OFF \<le> i \<and> i < HASH_OFF + 8 then 0 else ucast b)) * FNV_PRIME)"

definition fnv1a64_with_zero_hash :: "byte list \<Rightarrow> u64" where
  "fnv1a64_with_zero_hash blob = foldl fnv_step FNV_OFFSET (enumerate 0 blob)"

definition put_grid :: "cell list option \<Rightarrow> byte list" where
  "put_grid g = (case g of Some cs \<Rightarrow> [1] @ concat (map put_cell cs) | None \<Rightarrow> [0])"

definition checkpoint_payload :: "screen \<Rightarrow> byte list" where
  "checkpoint_payload s =
     put_u16 (s_cols s) @ put_u16 (s_rows s) @ put_u16 (s_cursor_col s) @ put_u16 (s_cursor_row s) @
     put_u16 (s_scroll_top s) @ put_u16 (s_scroll_bottom s) @ put_w16 (s_pen_attrs s) @
     put_w32 (checkpoint_flags s) @ put_color (s_pen_fg s) @ put_color (s_pen_bg s) @
     put_palette (s_palette s) @ put_u32 (s_grapheme_truncated s) @
     concat (map put_cell (s_cells s)) @ put_grid (s_saved_grid s) @
     put_saved (s_saved_cursor s) @ put_saved (s_alt_cursor s) @ put_open_cluster (s_open_cluster s)"

definition export_checkpoint :: "nat \<Rightarrow> screen \<Rightarrow> vt_error + byte list" where
  "export_checkpoint ending_offset s =
     (let out = MAGIC @ put_u16 VERSION @ put_u64 ending_offset @ put_u64 0 @ checkpoint_payload s;
          hash = fnv1a64_with_zero_hash out
      in Inr (take HASH_OFF out @ word_to_le 8 hash @ drop (HASH_OFF + 8) out))"

definition take_grid :: "nat \<Rightarrow> cell list option taker" where
  "take_grid n = and_then take_u8 (\<lambda>t.
     if t = 0 then give None
     else if t = 1 then and_then (take_many n take_cell) (\<lambda>g. give (Some g))
     else refuse ''bad saved grid tag'')"

text \<open>The fields of the payload, as the assignment to \<open>self\<close> they end in.\<close>

definition take_screen :: "(screen \<Rightarrow> screen) taker" where
  "take_screen =
     and_then take_u16 (\<lambda>cs. and_then take_u16 (\<lambda>rs.
     if cs = 0 \<or> rs = 0 then refuse ''empty grid'' else
     and_then take_u16 (\<lambda>cursor_col. and_then take_u16 (\<lambda>cursor_row.
     and_then take_u16 (\<lambda>scroll_top. and_then take_u16 (\<lambda>scroll_bottom.
     and_then take_w16 (\<lambda>pen_attrs. and_then take_w32 (\<lambda>flags.
     and_then take_color (\<lambda>pen_fg. and_then take_color (\<lambda>pen_bg.
     and_then take_palette (\<lambda>pal. and_then take_u32 (\<lambda>truncated.
     and_then (take_many (cs * rs) take_cell) (\<lambda>cells. and_then (take_grid (cs * rs)) (\<lambda>saved_grid.
     and_then take_saved (\<lambda>saved. and_then take_saved (\<lambda>alt. and_then take_open_cluster (\<lambda>cl.
     give (\<lambda>s. (apply_checkpoint_flags flags
       (s\<lparr>s_cols := cs, s_rows := rs, s_cells := cells, s_cursor_col := min cursor_col (cs - 1),
          s_cursor_row := min cursor_row (rs - 1), s_scroll_top := scroll_top,
          s_scroll_bottom := scroll_bottom, s_pen_attrs := pen_attrs, s_pen_fg := pen_fg,
          s_pen_bg := pen_bg, s_palette := pal, s_grapheme_truncated := truncated\<rparr>))
       \<lparr>s_saved_grid := saved_grid, s_saved_cursor := saved, s_alt_cursor := alt,
        s_open_cluster := cl, s_full_damage := True, s_damage_row0 := 0, s_damage_row1 := 0,
        s_replies := [], s_discard_replies := False\<rparr>))))))))))))))))))"

definition import_checkpoint :: "byte list \<Rightarrow> screen \<Rightarrow> (vt_error + nat) \<times> screen" where
  "import_checkpoint bytes s =
     (if length bytes < 22 then (Inl (Vt ''truncated checkpoint''), s)
      else if take 4 bytes \<noteq> MAGIC then (Inl (Vt ''bad checkpoint magic''), s)
      else if le_val (take 2 (drop 4 bytes)) \<noteq> VERSION
      then (Inl (Vt ''unsupported checkpoint version''), s)
      else if word_from_le (take 8 (drop HASH_OFF bytes)) \<noteq> fnv1a64_with_zero_hash bytes
      then (Inl (Vt ''checkpoint hash mismatch''), s)
      else case take_screen (drop 22 bytes) of
             Inl e \<Rightarrow> (Inl e, s)
           | Inr (restore, rest) \<Rightarrow>
               if rest \<noteq> [] then (Inl (Vt ''trailing checkpoint bytes''), s)
               else (Inr (le_val (take 8 (drop 6 bytes))), restore s))"

section \<open>Round trip\<close>

text \<open>What export needs: every field within the width it is written at.\<close>

definition encodable :: "screen \<Rightarrow> bool" where
  "encodable s \<longleftrightarrow>
     0 < s_cols s \<and> s_cols s \<le> u16_max \<and> 0 < s_rows s \<and> s_rows s \<le> u16_max \<and>
     length (s_cells s) = s_cols s * s_rows s \<and> s_cursor_col s < s_cols s \<and>
     s_cursor_row s < s_rows s \<and> s_scroll_top s \<le> u16_max \<and> s_scroll_bottom s \<le> u16_max \<and>
     wf_palette (s_palette s) \<and>
     pred_option (\<lambda>g. length g = s_cols s * s_rows s) (s_saved_grid s) \<and>
     pred_option wf_cursor (s_saved_cursor s) \<and> pred_option wf_cursor (s_alt_cursor s) \<and>
     pred_option wf_cluster (s_open_cluster s) \<and> s_grapheme_truncated s \<le> u32_max"

lemma wf_encodable: "wf_screen s \<Longrightarrow> encodable s"
  by (auto simp: wf_screen_def encodable_def mult.commute)

lemma cells_step:
  "length xs = n \<Longrightarrow> and_then (take_many n take_cell) f (concat (map put_cell xs) @ rest) = f xs rest"
  by (intro cell.then_many_put) (simp_all add: list_all_iff)

interpretation saved_grid: prefix_codec put_grid "take_grid n" "pred_option (\<lambda>g. length g = n)" for n
  by unfold_locales
    (auto simp: take_grid_def put_grid_def codec_steps cells_step give_def split: option.split)

definition restored :: "screen \<Rightarrow> screen \<Rightarrow> screen" where
  "restored s t = s\<lparr>s_full_damage := True, s_damage_row0 := 0, s_damage_row1 := 0,
     s_replies := [], s_discard_replies := False, s_replies_dropped := s_replies_dropped t,
     s_scrolled_off := s_scrolled_off t\<rparr>"

lemma take_screen_payload:
  assumes e: "encodable s"
  shows "\<exists>f. take_screen (checkpoint_payload s) = Inr (f, []) \<and> (\<forall>t. f t = restored s t)"
proof -
  have w: "s_cols s \<le> u16_max" "s_rows s \<le> u16_max" "s_cursor_col s \<le> u16_max" "s_cursor_row s \<le> u16_max"
    "s_scroll_top s \<le> u16_max" "s_scroll_bottom s \<le> u16_max" "s_grapheme_truncated s \<le> u32_max"
    using e by (auto simp: encodable_def)
  have g: "\<not> (s_cols s = 0 \<or> s_rows s = 0)" "length (s_cells s) = s_cols s * s_rows s"
    "pred_option (\<lambda>g. length g = s_cols s * s_rows s) (s_saved_grid s)" "wf_palette (s_palette s)"
    "pred_option wf_cursor (s_saved_cursor s)" "pred_option wf_cursor (s_alt_cursor s)"
    "pred_option wf_cluster (s_open_cluster s)"
    using e by (auto simp: encodable_def)
  note cl = cluster.then_put [OF g(7), of _ "[]", unfolded append_Nil2]
  have m: "min (s_cursor_col s) (s_cols s - 1) = s_cursor_col s"
    "min (s_cursor_row s) (s_rows s - 1) = s_cursor_row s"
    using e by (auto simp: encodable_def)
  show ?thesis
    unfolding take_screen_def checkpoint_payload_def
    by (simp only: codec_steps w palette.then_put [OF g(4)] cells_step [OF g(2)]
        saved_grid.then_put [OF g(3)] saved.then_put [OF g(5)] saved.then_put [OF g(6)] cl g(1) if_False m)
      (simp add: give_def restored_def apply_checkpoint_flags_def
        checkpoint_flags_bits checkpoint_flags_bits(2) [unfolded One_nat_def] screen.equality)
qed

text \<open>The hash does not see the hash field.\<close>

lemma fnv_hash_field:
  assumes "length h = 8" "length h' = 8" "length pre = HASH_OFF"
  shows "fnv1a64_with_zero_hash (pre @ h @ post) = fnv1a64_with_zero_hash (pre @ h' @ post)"
proof -
  have field: "foldl fnv_step x (enumerate n h) = foldl fnv_step x (enumerate n (replicate (length h) 0))"
    if "HASH_OFF \<le> n" "n + length h \<le> HASH_OFF + 8" for n x and h :: "byte list"
    using that by (induction h arbitrary: n x) (simp_all add: fnv_step_def)
  show ?thesis
    using assms field [of 14 h] field [of 14 h'] 
    by (simp add: fnv1a64_with_zero_hash_def enumerate_append_eq HASH_OFF_def)
qed

lemma export_shape:
  "\<exists>h. export_checkpoint off s = Inr (MAGIC @ put_u16 VERSION @ put_u64 off @ h @ checkpoint_payload s) \<and>
    length h = 8 \<and> word_from_le h =
      fnv1a64_with_zero_hash (MAGIC @ put_u16 VERSION @ put_u64 off @ h @ checkpoint_payload s)"
proof -
  let ?pre = "MAGIC @ put_u16 VERSION @ put_u64 off"
  let ?out = "?pre @ put_u64 0 @ checkpoint_payload s"
  let ?h = "word_to_le 8 (fnv1a64_with_zero_hash ?out)"
  have l: "length ?pre = 14" "length (put_u64 n) = 8" for n
    by (simp_all add: MAGIC_def put_u16_def put_u64_def)
  have "export_checkpoint off s = Inr (?pre @ ?h @ checkpoint_payload s)"
    using l by (simp add: export_checkpoint_def HASH_OFF_def Let_def)
  moreover have "word_from_le ?h = fnv1a64_with_zero_hash ?out"
    by (simp add: word_from_to_le)
  moreover have "fnv1a64_with_zero_hash ?out = fnv1a64_with_zero_hash (?pre @ ?h @ checkpoint_payload s)"
    using fnv_hash_field [of "put_u64 0" ?h ?pre "checkpoint_payload s"] l by (simp add: HASH_OFF_def)
  ultimately show ?thesis by (intro exI [of _ ?h]) simp
qed

lemma import_export:
  assumes "encodable s" "off \<le> u64_max"
  shows "\<exists>blob. export_checkpoint off s = Inr blob \<and> import_checkpoint blob t = (Inr off, restored s t)"
proof -
  obtain h where h: "export_checkpoint off s = Inr (MAGIC @ put_u16 VERSION @ put_u64 off @ h @ checkpoint_payload s)"
    "length h = 8" "word_from_le h =
      fnv1a64_with_zero_hash (MAGIC @ put_u16 VERSION @ put_u64 off @ h @ checkpoint_payload s)"
    using export_shape by blast
  let ?b = "MAGIC @ put_u16 VERSION @ put_u64 off @ h @ checkpoint_payload s"
  have l: "length MAGIC = 4" "length (put_u16 VERSION) = 2" "length (put_u64 off) = 8"
    by (simp_all add: MAGIC_def put_u16_def put_u64_def)
  obtain f where f: "take_screen (checkpoint_payload s) = Inr (f, [])" "\<forall>t. f t = restored s t"
    using take_screen_payload [OF assms(1)] by blast
  have parts: "take 4 ?b = MAGIC" "take 2 (drop 4 ?b) = put_u16 VERSION" "take 8 (drop 6 ?b) = put_u64 off"
    "take 8 (drop HASH_OFF ?b) = h" "drop 22 ?b = checkpoint_payload s" "\<not> length ?b < 22"
    using l h(2) by (simp_all add: HASH_OFF_def)
  have vals: "le_val (put_u16 VERSION) = VERSION" "le_val (put_u64 off) = off"
    using assms(2) by (simp_all add: put_u16_def put_u64_def VERSION_def)
  have "import_checkpoint ?b t = (Inr off, restored s t)"
    unfolding import_checkpoint_def parts vals using h(2,3) f l by simp
  with h(1) show ?thesis by blast
qed

text \<open>The multiplier of FNV-1a is odd, so every step of the hash is injective in both arguments.\<close>

lemma fnv_prime_inj:
  assumes "a * FNV_PRIME = b * FNV_PRIME"
  shows "a = b"
proof -
  have inv: "FNV_PRIME * 0xce965057aff6957b = 1" by (simp add: FNV_PRIME_def)
  from assms have "a * FNV_PRIME * 0xce965057aff6957b = b * FNV_PRIME * 0xce965057aff6957b" by simp
  then show ?thesis by (simp only: mult.assoc inv mult_1_right)
qed

lemma byte_widen_inj: "ucast (b :: byte) = (ucast b' :: u64) \<Longrightarrow> b = b'"
  by transfer (simp add: take_bit_eq_mod)

lemma xor_cancel_right: "a XOR c = b XOR c \<Longrightarrow> a = (b :: u64)"
  by (drule arg_cong [of _ _ "\<lambda>x. x XOR c"]) (simp add: xor.assoc)

lemma fnv_step_inj: "fnv_step h x = fnv_step h' x \<Longrightarrow> h = h'"
  by (auto simp: fnv_step_def split: prod.splits dest!: fnv_prime_inj xor_cancel_right)

lemma foldl_fnv_inj: "foldl fnv_step h xs = foldl fnv_step h' xs \<Longrightarrow> h = h'"
  by (induction xs arbitrary: h h') (auto dest: fnv_step_inj)

lemma fnv_step_byte: "\<not> (HASH_OFF \<le> i \<and> i < HASH_OFF + 8) \<Longrightarrow> fnv_step h (i, b) = fnv_step h (i, b') \<Longrightarrow> b = b'"
  by (auto simp: fnv_step_def xor.commute [of h] dest!: fnv_prime_inj xor_cancel_right byte_widen_inj)

lemma fnv_one_byte:
  assumes "i < length blob" "\<not> (HASH_OFF \<le> i \<and> i < HASH_OFF + 8)" "b \<noteq> blob ! i"
  shows "fnv1a64_with_zero_hash (blob[i := b]) \<noteq> fnv1a64_with_zero_hash blob"
proof
  assume eq: "fnv1a64_with_zero_hash (blob[i := b]) = fnv1a64_with_zero_hash blob"
  define h where "h = foldl fnv_step FNV_OFFSET (enumerate 0 (take i blob))"
  have "fnv1a64_with_zero_hash (take i blob @ x # drop (Suc i) blob) =
      foldl fnv_step (fnv_step h (i, x)) (enumerate (Suc i) (drop (Suc i) blob))" for x
    using assms(1) by (simp add: fnv1a64_with_zero_hash_def enumerate_append_eq h_def)
  then have "fnv_step h (i, b) = fnv_step h (i, blob ! i)"
    using eq assms(1) foldl_fnv_inj id_take_nth_drop [of i blob] by (metis upd_conv_take_nth_drop)
  with fnv_step_byte [OF assms(2)] assms(3) show False by blast
qed

section \<open>Properties\<close>

text \<open>
  C11: a checkpoint restores the terminal. Exporting a well-formed screen and importing the bytes
  into any screen gives back the offset and every field of the exported screen, except that the
  grid is fully damaged, the reply queue is empty and replies are no longer discarded, and the
  counters the format leaves out (dropped replies, rows scrolled off) stay those of the importer.
\<close>

theorem checkpoint_round_trip:
  assumes "wf_screen s" and "off \<le> u64_max"
  shows "\<exists>blob. export_checkpoint off s = Inr blob \<and>
    import_checkpoint blob t = (Inr off, s\<lparr>s_full_damage := True, s_damage_row0 := 0,
      s_damage_row1 := 0, s_replies := [], s_discard_replies := False,
      s_replies_dropped := s_replies_dropped t, s_scrolled_off := s_scrolled_off t\<rparr>)"
  using import_export [OF wf_encodable [OF assms(1)] assms(2)] by (simp add: restored_def)

lemma checkpoint_round_trip_witness:
  "\<exists>s blob t'. screen_new 80 24 = Inr s \<and> export_checkpoint 7 s = Inr blob \<and>
    import_checkpoint blob s = (Inr 7, t') \<and> s_cells t' = s_cells s"
proof -
  obtain s where "screen_new 80 24 = Inr s" "wf_screen s" by (rule screen_new_wf [of 80 24]) simp_all
  with checkpoint_round_trip [of s 7 s] show ?thesis by fastforce
qed

text \<open>
  C12: no single corrupted byte goes unnoticed. If a blob is accepted, the blob with any one byte
  replaced by a different one is refused, and the screen it was imported into is left as it was.
  The reason is that every FNV-1a step is a bijection of the running hash.
\<close>

theorem corrupted_checkpoint_is_refused:
  assumes "import_checkpoint blob t = (Inr off, t')" and "i < length blob" and "b \<noteq> blob ! i"
  shows "\<exists>e. import_checkpoint (blob[i := b]) u = (Inl e, u)"
proof (cases "fst (import_checkpoint (blob[i := b]) u)")
  case (Inl e)
  then show ?thesis
    by (auto simp: import_checkpoint_def split: if_splits sum.splits prod.splits)
next
  case (Inr off')
  let ?field = "\<lambda>bs. take 8 (drop HASH_OFF bs)"
  have len: "\<not> length blob < 22" and stored: "word_from_le (?field blob) = fnv1a64_with_zero_hash blob"
    using assms(1) by (auto simp: import_checkpoint_def split: if_splits)
  have stored': "word_from_le (?field (blob[i := b])) = fnv1a64_with_zero_hash (blob[i := b])"
    using Inr by (auto simp: import_checkpoint_def split: if_splits)
  show ?thesis
  proof (cases "HASH_OFF \<le> i \<and> i < HASH_OFF + 8")
    case False
    then have "?field (blob[i := b]) = ?field blob"
      by (intro nth_equalityI) (auto simp: HASH_OFF_def)
    with stored stored' fnv_one_byte [OF assms(2) False assms(3)] show ?thesis by simp
  next
    case True
    have split: "bs = take 14 bs @ ?field bs @ drop 22 bs" if "\<not> length bs < 22" for bs :: "byte list"
      by (simp add: HASH_OFF_def take_drop_join)
    have outer: "take 14 (blob[i := b]) = take 14 blob" "drop 22 (blob[i := b]) = drop 22 blob"
      using True by (simp_all add: HASH_OFF_def)
    have l: "length (?field blob) = 8" "length (?field (blob[i := b])) = 8" "length (take 14 blob) = HASH_OFF"
      using len by (simp_all add: HASH_OFF_def)
    have "fnv1a64_with_zero_hash (blob[i := b]) =
        fnv1a64_with_zero_hash (take 14 blob @ ?field (blob[i := b]) @ drop 22 blob)"
      using split [of "blob[i := b]"] outer len by simp
    also have "\<dots> = fnv1a64_with_zero_hash (take 14 blob @ ?field blob @ drop 22 blob)"
      by (rule fnv_hash_field [OF l(2,1,3)])
    also have "\<dots> = fnv1a64_with_zero_hash blob" using split [OF len] by simp
    finally have "(word_from_le (?field (blob[i := b])) :: u64) = word_from_le (?field blob)"
      using stored stored' by simp
    then have "?field (blob[i := b]) = ?field blob"
      using word_to_from_le [OF l(1), where 'a = 64] word_to_from_le [OF l(2), where 'a = 64] by simp
    moreover obtain j where j: "i = 14 + j" "j < 8"
      using True le_Suc_ex by (fastforce simp: HASH_OFF_def)
    ultimately have "take 8 (drop 14 (blob[i := b])) ! j = take 8 (drop 14 blob) ! j"
      by (simp add: HASH_OFF_def)
    with j len assms(2,3) show ?thesis by simp
  qed
qed

lemma corrupted_checkpoint_is_refused_witness:
  "\<exists>s blob t' e b. screen_new 80 24 = Inr s \<and> import_checkpoint blob s = (Inr 7, t') \<and>
    import_checkpoint (blob[30 := b]) s = (Inl e, s)"
proof -
  obtain s where s: "screen_new 80 24 = Inr s" "wf_screen s" by (rule screen_new_wf [of 80 24]) simp_all
  obtain blob where blob: "export_checkpoint 7 s = Inr blob" "import_checkpoint blob s = (Inr 7, restored s s)"
    using import_export [OF wf_encodable [OF s(2)], of 7 s] by auto
  have "22 + 10 \<le> length blob"
    using export_shape [of 7 s] blob(1)
    by (auto simp: MAGIC_def put_u16_def put_u64_def checkpoint_payload_def)
  then show ?thesis
    using corrupted_checkpoint_is_refused [OF blob(2), of 30 "blob ! 30 + 1" s] s(1) blob(2) by auto
qed

text \<open>
  The scroll region of a checkpoint is not checked against its grid: there is a blob that is
  imported without an error and makes the next scroll panic.
\<close>

lemma imported_scroll_region_unchecked:
  "\<exists>blob t t'. import_checkpoint blob t = (Inr 0, t') \<and> scroll_up t' = None"
proof -
  obtain s where s: "screen_new 2 2 = Inr s" "wf_screen s" "s_cols s = 2" "s_rows s = 2"
    by (rule screen_new_wf [of 2 2]) simp_all
  let ?s = "s\<lparr>s_scroll_top := 5, s_scroll_bottom := 5\<rparr>"
  have "encodable ?s" using wf_encodable [OF s(2)] by (simp add: encodable_def)
  from import_export [OF this, of 0 s] obtain blob where
    "import_checkpoint blob s = (Inr 0, restored ?s s)" by auto
  moreover have "scroll_up (restored ?s s) = None"
    using s wf_screenD(5) [OF s(2)]
    by (simp add: scroll_up_def restored_def fill_cells_def fill_range_def)
  ultimately show ?thesis by blast
qed

end
