(* ===== verification/Vt_Repaint.thy ===== *)
theory Vt_Repaint imports Vt_Text begin

text \<open>
  The repaint of \<open>src/crates/vt-engine/src/screen.rs\<close>: \<open>repaint_bytes\<close> and the helpers that write
  colours, attributes and characters as terminal bytes. The first part shows that control
  sequences survive the parser, the last that a fresh screen fed a repaint shows the same cells.
\<close>

section \<open>Control sequences\<close>

text \<open>
  A control sequence as a writer spells it: \<open>ESC [\<close>, an optional private marker, decimal
  parameters separated by semicolons, and the final byte.
\<close>

fun join_params :: "nat list \<Rightarrow> byte list" where
  "join_params [] = []"
| "join_params [n] = digits n"
| "join_params (n # ns) = digits n @ [0x3b] @ join_params ns"

definition csi_bytes :: "byte list \<Rightarrow> nat list \<Rightarrow> byte \<Rightarrow> byte list" where
  "csi_bytes ims ns fin = [0x1b, 0x5b] @ ims @ join_params ns @ [fin]"

text \<open>The parser inside a control sequence: what it has collected so far.\<close>

definition csi_at :: "byte list \<Rightarrow> nat list \<Rightarrow> nat \<Rightarrow> parser \<Rightarrow> bool" where
  "csi_at ims ns acc p \<longleftrightarrow> wf_seq p \<and> putback p = None \<and> \<not> ignore p \<and>
     take (param_len p) (params p) = ns \<and> take (inter_len p) (intermediates p) = ims \<and> param_acc p = acc"

lemma csi_at_len: "csi_at ims ns acc p \<Longrightarrow> param_len p = length ns"
  by (auto simp: csi_at_def wf_seq_def wf_parser_def)

lemma feed_step:
  assumes "putback p = None" "utf8_needed p = 0"
  shows "feed a (b # bs) p s = state_step a b p s \<bind> (\<lambda>(p', s'). feed a bs p' s')"
  using assms by (subst feed.simps) (auto simp: step_def bind_split split: option.splits)

lemma csi_start:
  assumes "wf_parser p" "is_idle p"
  shows "\<exists>p'. feed a ([0x1b, 0x5b] @ bs) p s = feed a bs p' s \<and> p_state p' = CsiEntry \<and> csi_at [] [] 0 p'"
proof -
  let ?p = "goto CsiEntry (reset_seq (goto Escape (reset_seq p)))"
  have u: "utf8_needed p = 0" using assms by (rule idle_needs_nothing)
  have "feed a ([0x1b, 0x5b] @ bs) p s = feed a bs ?p s"
    using assms(2) u
    by (simp add: feed_step is_idle_def state_step_def state_defs c0_in_place_def between_def)
      (simp add: feed_step reset_seq_def goto_def state_step_def state_defs c0_in_place_def between_def)
  moreover have "csi_at [] [] 0 ?p"
    using assms u by (simp add: csi_at_def wf_seq_def wf_goto wf_reset_seq)
      (simp add: reset_seq_def goto_def is_idle_def)
  ultimately show ?thesis by (intro exI [of _ ?p]) (simp add: goto_def)
qed

lemma csi_private_marker:
  assumes "p_state p = CsiEntry" "csi_at [] [] 0 p"
  shows "\<exists>p'. feed a (0x3f # bs) p s = feed a bs p' s \<and> p_state p' = CsiParam \<and> csi_at [0x3f] [] 0 p'"
proof -
  let ?p = "goto CsiParam (p\<lparr>intermediates := (intermediates p)[0 := 0x3f], inter_len := 1\<rparr>)"
  have i: "inter_len p = 0" "0 < length (intermediates p)"
    using assms(2) by (auto simp: csi_at_def wf_seq_def wf_parser_def MAX_INTER_def)
  have "feed a (0x3f # bs) p s = feed a bs ?p s"
    using assms i by (simp add: feed_step csi_at_def wf_seq_def state_step_def csi_entry_def
        c0_in_place_def between_def push_inter_def MAX_INTER_def)
  moreover have "csi_at [0x3f] [] 0 ?p"
    using assms(2) i by (auto simp: csi_at_def wf_seq_def wf_parser_def goto_def MAX_INTER_def take_Suc_conv_app_nth)
  ultimately show ?thesis by (intro exI [of _ ?p]) (simp add: goto_def)
qed

lemma goto_same: "p_state p = st \<Longrightarrow> goto st p = p"
  by (cases p) (simp add: goto_def)

lemma csi_digit:
  assumes "p_state p = CsiEntry \<or> p_state p = CsiParam" "csi_at ims ns acc p"
    and "d < 10" "acc * 10 + d \<le> u16_max"
  shows "\<exists>p'. feed a ((0x30 + word_of_nat d) # bs) p s = feed a bs p' s \<and> p_state p' = CsiParam \<and>
    csi_at ims ns (acc * 10 + d) p'"
proof -
  let ?b = "0x30 + word_of_nat d :: byte"
  let ?p = "goto CsiParam (push_digit ?b p)"
  have b: "?b = word_of_nat (0x30 + d)" by simp
  have cls: "between 0x30 0x39 ?b" "\<not> c0_in_place ?b" "?b \<noteq> 0x18" "?b \<noteq> 0x1a" "?b \<noteq> 0x1b" "\<not> between 0x20 0x2f ?b"
    using assms(3) unfolding b by (auto simp: byte_cmp_nat c0_in_place_def simp del: of_nat_add)
  have "feed a (?b # bs) p s = feed a bs ?p s"
    using assms(1)
  proof
    assume "p_state p = CsiEntry"
    then show ?thesis
      using assms(2) cls by (simp add: feed_step csi_at_def wf_seq_def state_step_def csi_entry_def)
  next
    assume st: "p_state p = CsiParam"
    then have "goto CsiParam (push_digit ?b p) = push_digit ?b p"
      by (intro goto_same) (simp add: push_digit_def Let_def)
    then show ?thesis
      using st assms(2) cls by (simp add: feed_step csi_at_def wf_seq_def state_step_def csi_param_def)
  qed
  moreover have "param_acc (push_digit ?b p) = acc * 10 + d"
    using assms(2-4) by (simp add: push_digit_def csi_at_def sat_add_def)
  moreover have "csi_at ims ns (acc * 10 + d) ?p"
    using assms(2) calculation(2) by (auto simp: csi_at_def wf_seq_def wf_goto wf_push_digit)
      (simp_all add: goto_def push_digit_def Let_def)
  ultimately show ?thesis by (intro exI [of _ ?p]) (simp add: goto_def)
qed

lemma csi_number:
  assumes "p_state p = CsiEntry \<or> p_state p = CsiParam" "csi_at ims ns 0 p" "n \<le> u16_max"
  shows "\<exists>p'. feed a (digits n @ bs) p s = feed a bs p' s \<and> p_state p' = CsiParam \<and> csi_at ims ns n p'"
  using assms(3)
proof (induction n arbitrary: bs rule: dec.induct)
  case (1 n)
  show ?case
  proof (cases "n < 10")
    case True
    then have "digits n = [0x30 + word_of_nat n]" by (subst digits_def, subst dec.simps) simp
    with csi_digit [OF assms(1,2) True] 1(2) show ?thesis by simp
  next
    case False
    then have d: "digits n = digits (n div 10) @ [0x30 + word_of_nat (n mod 10)]"
      unfolding digits_def by (subst dec.simps) simp
    obtain p1 where p1: "feed a (digits (n div 10) @ (0x30 + word_of_nat (n mod 10)) # bs) p s =
        feed a ((0x30 + word_of_nat (n mod 10)) # bs) p1 s" "p_state p1 = CsiParam" "csi_at ims ns (n div 10) p1"
      using 1(1) [OF False, of "(0x30 + word_of_nat (n mod 10)) # bs"]
        order_trans [OF div_le_dividend 1(2), of 10] by auto
    have "n div 10 * 10 + n mod 10 = n" by simp
    with csi_digit [of p1 ims ns "n div 10" "n mod 10" a bs s] p1 1(2) d show ?thesis by auto
  qed
qed

lemma finish_param_at:
  assumes "csi_at ims ns acc p" "length ns < MAX_PARAMS"
  shows "\<exists>p'. finish_param p = Some p' \<and> p_state p' = p_state p \<and> csi_at ims (ns @ [acc]) 0 p'"
proof -
  have l: "param_len p < length (params p)" "param_len p < MAX_PARAMS" "param_acc p \<le> u16_max"
    using assms csi_at_len [OF assms(1)] by (auto simp: csi_at_def wf_seq_def wf_parser_def)
  obtain p' where p': "finish_param p = Some p'" "wf_seq p'"
    using finish_param_runs [of p] assms(1) by (auto simp: csi_at_def runs_iff)
  moreover have "p' = p\<lparr>params := (params p)[param_len p := param_acc p], param_len := param_len p + 1, param_acc := 0\<rparr>"
    using p'(1) l by (simp add: finish_param_def min_absorb1)
  ultimately show ?thesis
    using assms(1) l by (auto simp: csi_at_def take_Suc_conv_app_nth)
qed

lemma csi_semicolon:
  assumes "p_state p = CsiParam" "csi_at ims ns acc p" "length ns < MAX_PARAMS"
  shows "\<exists>p'. feed a (0x3b # bs) p s = feed a bs p' s \<and> p_state p' = CsiParam \<and> csi_at ims (ns @ [acc]) 0 p'"
  using finish_param_at [OF assms(2,3)] assms(1,2)
  by (auto simp: feed_step csi_at_def wf_seq_def state_step_def csi_param_def c0_in_place_def between_def)

text \<open>The final byte hands everything collected to the client and leaves the parser idle.\<close>

lemma csi_final:
  assumes "p_state p = CsiParam" "csi_at ims ns acc p" "length ns < MAX_PARAMS" "0x40 \<le> fin" "fin \<le> 0x7e"
  shows "\<exists>p'. wf_parser p' \<and> is_idle p' \<and> feed a (fin # bs) p s =
    act_csi a (ns @ [acc]) ims False fin s \<bind> (\<lambda>s'. feed a bs p' s')"
proof -
  obtain q where q: "finish_param p = Some q" "csi_at ims (ns @ [acc]) 0 q"
    using finish_param_at [OF assms(2,3)] by blast
  have sl: "slice (params q) 0 (param_len q) = Some (ns @ [acc])" "slice (intermediates q) 0 (inter_len q) = Some ims"
    using q(2) wf_seq_slices(1,2) [of q] by (auto simp: csi_at_def)
  have "\<not> c0_in_place fin" "fin \<noteq> 0x18" "fin \<noteq> 0x1a" "fin \<noteq> 0x1b" "\<not> between 0x20 0x2f fin" "\<not> between 0x30 0x39 fin"
    "fin \<noteq> 0x3a" "fin \<noteq> 0x3b" "\<not> between 0x3c 0x3f fin" "between 0x40 0x7e fin"
    using assms(4,5) by (auto simp: c0_in_place_def between_def word_le_nat_alt word_unat_eq_iff)
  then have "feed a (fin # bs) p s = dispatch_csi a fin q s \<bind> (\<lambda>(p', s'). feed a bs p' s')"
    using assms(1,2) q(1) by (simp add: feed_step csi_at_def wf_seq_def state_step_def csi_param_def)
  also have "\<dots> = act_csi a (ns @ [acc]) ims False fin s \<bind> (\<lambda>s'. feed a bs (reset_seq (goto Ground q)) s')"
    using q(2) sl by (simp add: dispatch_csi_def emit_def csi_at_def)
  finally have "feed a (fin # bs) p s = \<dots>" .
  moreover have "wf_parser (reset_seq (goto Ground q))" "is_idle (reset_seq (goto Ground q))"
    using q(2) wf_seq_ground [of q]
    by (auto simp: csi_at_def is_idle_def reset_seq_def goto_def wf_seq_def wf_parser_def)
  ultimately show ?thesis by blast
qed

lemma csi_params_final:
  assumes "p_state p = CsiEntry \<or> p_state p = CsiParam" "csi_at ims ms 0 p"
    and "ns \<noteq> []" "\<forall>n \<in> set ns. n \<le> u16_max" "length ms + length ns \<le> MAX_PARAMS" "0x40 \<le> fin" "fin \<le> 0x7e"
  shows "\<exists>p'. wf_parser p' \<and> is_idle p' \<and> feed a (join_params ns @ fin # bs) p s =
    act_csi a (ms @ ns) ims False fin s \<bind> (\<lambda>s'. feed a bs p' s')"
  using assms(1-5)
proof (induction ns arbitrary: p ms rule: join_params.induct)
  case 1
  then show ?case by simp
next
  case (2 n)
  obtain p1 where p1: "feed a (digits n @ fin # bs) p s = feed a (fin # bs) p1 s" "p_state p1 = CsiParam" "csi_at ims ms n p1"
    using csi_number [OF 2(1,2), of n a "fin # bs" s] 2 by auto
  with csi_final [OF p1(2,3) _ assms(6,7), of a bs s] 2(5) show ?case by simp
next
  case (3 n m ns)
  obtain p1 where p1: "feed a (digits n @ 0x3b # join_params (m # ns) @ fin # bs) p s =
      feed a (0x3b # join_params (m # ns) @ fin # bs) p1 s" "p_state p1 = CsiParam" "csi_at ims ms n p1"
    using csi_number [OF 3(2,3), of n a "0x3b # join_params (m # ns) @ fin # bs" s] 3(5) by auto
  obtain p2 where p2: "feed a (0x3b # join_params (m # ns) @ fin # bs) p1 s = feed a (join_params (m # ns) @ fin # bs) p2 s"
    "p_state p2 = CsiParam" "csi_at ims (ms @ [n]) 0 p2"
    using csi_semicolon [OF p1(2,3), of a "join_params (m # ns) @ fin # bs" s] 3(6) by auto
  have "\<exists>p'. wf_parser p' \<and> is_idle p' \<and> feed a (join_params (m # ns) @ fin # bs) p2 s =
    act_csi a ((ms @ [n]) @ m # ns) ims False fin s \<bind> (\<lambda>s'. feed a bs p' s')"
    using p2 3(5,6) by (intro 3(1)) auto
  with p1(1) p2(1) show ?case by simp
qed

text \<open>The whole sequence, with and without the private marker.\<close>

lemma feed_csi:
  assumes "wf_parser p" "is_idle p" "ims = [] \<or> ims = [0x3f]" "ns \<noteq> []" "\<forall>n \<in> set ns. n \<le> u16_max"
    and "length ns \<le> MAX_PARAMS" "0x40 \<le> fin" "fin \<le> 0x7e"
  shows "\<exists>p'. wf_parser p' \<and> is_idle p' \<and> feed a (csi_bytes ims ns fin @ bs) p s =
    act_csi a ns ims False fin s \<bind> (\<lambda>s'. feed a bs p' s')"
proof -
  let ?rest = "join_params ns @ fin # bs"
  obtain p1 where p1: "feed a ([0x1b, 0x5b] @ ims @ ?rest) p s = feed a (ims @ ?rest) p1 s"
    "p_state p1 = CsiEntry" "csi_at [] [] 0 p1"
    using csi_start [OF assms(1,2), of a "ims @ ?rest" s] by blast
  have "\<exists>p2. feed a (ims @ ?rest) p1 s = feed a ?rest p2 s \<and>
    (p_state p2 = CsiEntry \<or> p_state p2 = CsiParam) \<and> csi_at ims [] 0 p2"
    using assms(3) p1(2,3) csi_private_marker [OF p1(2,3), of a ?rest s] by auto
  then obtain p2 where p2: "feed a (ims @ ?rest) p1 s = feed a ?rest p2 s"
    "p_state p2 = CsiEntry \<or> p_state p2 = CsiParam" "csi_at ims [] 0 p2" by blast
  show ?thesis
    using csi_params_final [OF p2(2,3) assms(4,5) _ assms(7,8), of a bs s] assms(6) p1(1) p2(1)
    by (simp add: csi_bytes_def)
qed

text \<open>
  Control sequences survive the parser. From an idle parser, writing \<open>ESC [\<close>, an optional
  \<open>?\<close>, one to 32 parameters in decimal and a final byte is reported as exactly that control
  sequence, with the same parameters, and the parser is idle again.
\<close>

theorem csi_round_trip:
  assumes "wf_parser p" and "is_idle p" and "ims = [] \<or> ims = [0x3f]" and "ns \<noteq> []"
    and "\<forall>n \<in> set ns. n \<le> u16_max" and "length ns \<le> MAX_PARAMS" and "0x40 \<le> fin" and "fin \<le> 0x7e"
  shows "\<exists>p'. feed recorder (csi_bytes ims ns fin) p es = Some (p', es @ [ECsi ns ims False fin]) \<and>
    wf_parser p' \<and> is_idle p'"
  using feed_csi [OF assms, of recorder "[]" es]
  by (auto simp: recorder_def feed.simps [of _ "[]"] is_idle_def)

lemma csi_round_trip_witness:
  "\<exists>p'. feed recorder (csi_bytes [0x3f] [1049, 25] 0x68) parser_new [] =
    Some (p', [ECsi [1049, 25] [0x3f] False 0x68]) \<and> wf_parser p' \<and> is_idle p'"
  using csi_round_trip [of parser_new "[0x3f]" "[1049, 25]" "0x68" "[]"] by (simp add: MAX_PARAMS_def)

text \<open>
  The cursor report tells the truth. On a screen with room in the reply queue, \<open>CSI 6 n\<close>
  appends one reply, and a reader that parses it finds the control sequence \<open>R\<close> with the cursor's
  row and column, counted from one.
\<close>

theorem cursor_report_round_trip:
  assumes "wf_screen s" and "\<not> s_discard_replies s" and "length (s_replies s) + 14 \<le> REPLY_CAP"
  shows "\<exists>reply s' p'. csi [6] [] False 0x6e s = Some s' \<and> s_replies s' = s_replies s @ reply \<and>
    feed recorder reply parser_new [] =
      Some (p', [ECsi [s_cursor_row s + 1, s_cursor_col s + 1] [] False 0x52])"
proof -
  let ?r = "s_cursor_row s + 1" and ?c = "s_cursor_col s + 1"
  have b: "?r \<le> u16_max" "?c \<le> u16_max"
    using wf_screenD(2,4,6,7) [OF assms(1)] by linarith+
  have reply: "csi_bytes [] [?r, ?c] 0x52 = [0x1b, 0x5b] @ digits ?r @ [0x3b] @ digits ?c @ [0x52]"
    by (simp add: csi_bytes_def)
  have sat: "sat_add u16_max (s_cursor_row s) 1 = ?r" "sat_add u16_max (s_cursor_col s) 1 = ?c"
    using b by (simp_all add: sat_add_exact)
  have "length (csi_bytes [] [?r, ?c] 0x52) \<le> 14"
    unfolding reply using length_dec_u16 [OF b(1)] length_dec_u16 [OF b(2)] by simp
  then have "enqueue_reply (csi_bytes [] [?r, ?c] 0x52) s =
      s\<lparr>s_replies := s_replies s @ csi_bytes [] [?r, ?c] 0x52\<rparr>"
    using assms(2,3) by (simp add: enqueue_reply_def)
  moreover have "csi [6] [] False 0x6e s = reply_dsr_cursor s"
    by (simp add: csi_def csi_dispatch_def)
  ultimately have "csi [6] [] False 0x6e s = Some (s\<lparr>s_replies := s_replies s @ csi_bytes [] [?r, ?c] 0x52\<rparr>)"
    unfolding reply_dsr_cursor_eq sat reply by simp
  moreover obtain p' where "feed recorder (csi_bytes [] [?r, ?c] 0x52 @ []) parser_new [] =
      act_csi recorder [?r, ?c] [] False 0x52 [] \<bind> (\<lambda>s'. feed recorder [] p' s')" "is_idle p'"
    using feed_csi [of parser_new "[]" "[?r, ?c]" "0x52" recorder "[]" "[]"] b by (auto simp: MAX_PARAMS_def)
  ultimately show ?thesis
    by (intro exI conjI) (auto simp: recorder_def feed.simps [of _ "[]"] is_idle_def)
qed

lemma cursor_report_round_trip_witness:
  "\<exists>s reply s' p'. screen_new 80 24 = Inr s \<and> csi [6] [] False 0x6e s = Some s' \<and> s_replies s' = reply \<and>
    feed recorder reply parser_new [] = Some (p', [ECsi [1, 1] [] False 0x52])"
proof -
  obtain s where s: "screen_new 80 24 = Inr s" "wf_screen s" "s_cursor_row s = 0" "s_cursor_col s = 0"
    by (rule screen_new_wf [of 80 24]) simp_all
  then have "\<not> s_discard_replies s" "s_replies s = []" by (auto simp: screen_new_def)
  with cursor_report_round_trip [OF s(2)] s show ?thesis by (auto simp: REPLY_CAP_def)
qed


section \<open>Repaint\<close>

definition cell_is_blank :: "cell \<Rightarrow> bool" where
  "cell_is_blank c \<longleftrightarrow> c_codepoint c = 32 \<and> c_attrs c = 0 \<and> c_fg c = Default \<and> c_bg c = Default"

definition push_codepoint :: "byte list \<Rightarrow> scalar \<Rightarrow> byte list" where
  "push_codepoint out cp = (if is_scalar (unat cp) then out @ encode_utf8 (unat cp) else out)"

definition push_u16 :: "byte list \<Rightarrow> nat \<Rightarrow> byte list option" where
  "push_u16 out n = do {
     (buf, k) \<leftarrow> write_u16 (replicate 5 0) n;
     bs \<leftarrow> slice buf 0 k;
     Some (out @ bs)}"

definition emit_attrs :: "byte list \<Rightarrow> u16 \<Rightarrow> byte list" where
  "emit_attrs out attrs =
     (let out = (if attrs AND 1 \<noteq> 0 then out @ [0x1b, 0x5b, 0x31, 0x6d] else out);
          out = (if attrs AND 2 \<noteq> 0 then out @ [0x1b, 0x5b, 0x34, 0x6d] else out)
      in if attrs AND 4 \<noteq> 0 then out @ [0x1b, 0x5b, 0x37, 0x6d] else out)"

definition emit_color :: "byte list \<Rightarrow> bool \<Rightarrow> color \<Rightarrow> byte list option" where
  "emit_color out fg c =
     (case c of
        Default \<Rightarrow> Some out
      | Indexed n \<Rightarrow>
          if n < 8 then do {
            out \<leftarrow> push_u16 (out @ [0x1b, 0x5b]) ((if fg then 30 else 40) + unat n);
            Some (out @ [0x6d])}
          else if n < 16 then do {
            out \<leftarrow> push_u16 (out @ [0x1b, 0x5b]) ((if fg then 90 else 100) + (unat n - 8));
            Some (out @ [0x6d])}
          else do {
            out \<leftarrow> push_u16 (out @ (if fg then [0x1b, 0x5b, 0x33, 0x38, 0x3b, 0x35, 0x3b]
                               else [0x1b, 0x5b, 0x34, 0x38, 0x3b, 0x35, 0x3b])) (unat n);
            Some (out @ [0x6d])}
      | Rgb r g b \<Rightarrow> do {
          out \<leftarrow> push_u16 (out @ (if fg then [0x1b, 0x5b, 0x33, 0x38, 0x3b, 0x32, 0x3b]
                             else [0x1b, 0x5b, 0x34, 0x38, 0x3b, 0x32, 0x3b])) (unat r);
          out \<leftarrow> push_u16 (out @ [0x3b]) (unat g);
          out \<leftarrow> push_u16 (out @ [0x3b]) (unat b);
          Some (out @ [0x6d])})"

type_synonym brush = "byte list \<times> color \<times> color \<times> u16"

definition sgr_reset :: "byte list" where
  "sgr_reset = [0x1b, 0x5b, 0x30, 0x6d]"

definition paint_cell :: "screen \<Rightarrow> nat \<Rightarrow> nat \<Rightarrow> brush \<Rightarrow> brush option" where
  "paint_cell s r c = (\<lambda>(out, last_fg, last_bg, last_attrs). do {
     cell \<leftarrow> get_at (s_cells s) (idx s c r);
     (out, last_fg, last_bg, last_attrs) \<leftarrow>
       (if c_fg cell \<noteq> last_fg \<or> c_bg cell \<noteq> last_bg \<or> c_attrs cell AND 7 \<noteq> last_attrs
        then do {
          out \<leftarrow> emit_color (emit_attrs (out @ sgr_reset) (c_attrs cell)) True (c_fg cell);
          out \<leftarrow> emit_color out False (c_bg cell);
          Some (out, c_fg cell, c_bg cell, c_attrs cell AND 7)}
        else Some (out, last_fg, last_bg, last_attrs));
     Some (if c_attrs cell AND ATTR_WIDE_TAIL \<noteq> 0 then out else push_codepoint out (c_codepoint cell),
       last_fg, last_bg, last_attrs)})"

definition row_end :: "screen \<Rightarrow> nat \<Rightarrow> nat option" where
  "row_end s r = for_each [0..<s_cols s]
     (\<lambda>c last. get_at (s_cells s) (idx s c r) \<bind>
        (\<lambda>cell. if \<not> cell_is_blank cell then u16_add c 1 else Some last)) 0"

definition paint_row :: "screen \<Rightarrow> nat \<Rightarrow> brush \<Rightarrow> brush option" where
  "paint_row s r b = do {
     n \<leftarrow> row_end s r;
     (out, last_fg, last_bg, last_attrs) \<leftarrow> for_each [0..<n] (paint_cell s r) b;
     r1 \<leftarrow> u16_add r 1;
     Some (if r1 < s_rows s then (out @ [0x0d, 0x0a] @ sgr_reset, Default, Default, 0)
           else (out, last_fg, last_bg, last_attrs))}"

definition repaint_bytes :: "screen \<Rightarrow> byte list option" where
  "repaint_bytes s = do {
     let out = (if s_in_alt s then [0x1b, 0x5b, 0x3f, 0x31, 0x30, 0x34, 0x39, 0x68] else []);
     (out, _, _, _) \<leftarrow> for_each [0..<s_rows s] (paint_row s) (out @ sgr_reset, Default, Default, 0);
     out \<leftarrow> push_u16 (out @ [0x1b, 0x5b]) (sat_add u16_max (s_cursor_row s) 1);
     out \<leftarrow> push_u16 (out @ [0x3b]) (sat_add u16_max (s_cursor_col s) 1);
     let out = out @ [0x48];
     Some (if s_cursor_visible s then out else out @ [0x1b, 0x5b, 0x3f, 0x32, 0x35, 0x6c])}"

section \<open>The pen\<close>

lemma push_u16_eq: "n \<le> u16_max \<Longrightarrow> push_u16 out n = Some (out @ digits n)"
  using length_dec_u16 [of n] by (simp add: push_u16_def write_u16_spec)

lemma digits_small:
  "digits 0 = [0x30]" "digits 1 = [0x31]" "digits 2 = [0x32]" "digits 4 = [0x34]" "digits 5 = [0x35]"
  "digits 7 = [0x37]" "digits 25 = [0x32, 0x35]" "digits 38 = [0x33, 0x38]" "digits 48 = [0x34, 0x38]"
  "digits 1049 = [0x31, 0x30, 0x34, 0x39]"
  by (simp_all add: digits_def dec.simps)

text \<open>The parameters \<open>emit_color\<close> writes for a colour.\<close>

definition color_params :: "bool \<Rightarrow> color \<Rightarrow> nat list" where
  "color_params fg c =
     (case c of
        Default \<Rightarrow> []
      | Indexed n \<Rightarrow>
          if n < 8 then [(if fg then 30 else 40) + unat n]
          else if n < 16 then [(if fg then 90 else 100) + (unat n - 8)]
          else [if fg then 38 else 48, 5, unat n]
      | Rgb r g b \<Rightarrow> [if fg then 38 else 48, 2, unat r, unat g, unat b])"

lemma byte_room: "k \<le> 1000 \<Longrightarrow> k + unat (b :: byte) \<le> u16_max" "k \<le> 1000 \<Longrightarrow> k + (unat (b :: byte) - j) \<le> u16_max"
  using unat_byte_less [of b] by linarith+

lemma color_params_bound: "\<forall>n \<in> set (color_params fg c). n \<le> u16_max" "length (color_params fg c) \<le> MAX_PARAMS"
  using byte_room(1) [of 0]
  by (auto simp: color_params_def MAX_PARAMS_def byte_room split: color.split)

lemma byte_le_255: "unat (b :: byte) \<le> 255"
  using unat_byte_less [of b] by linarith

lemma emit_color_eq:
  "emit_color out fg c =
    Some (out @ (if c = Default then [] else csi_bytes [] (color_params fg c) 0x6d))"
  using byte_room(1) [of 0]
  by (auto simp: emit_color_def color_params_def csi_bytes_def push_u16_eq byte_room digits_small
      split: color.split)

lemma paint_byte: "clamp_u8 (unat b) = b" "paint_indexed (unat b) = Indexed b"
  by (simp_all add: clamp_u8_def paint_indexed_def min_absorb1 byte_le_255)

definition with_pen :: "color \<Rightarrow> color \<Rightarrow> u16 \<Rightarrow> screen \<Rightarrow> screen" where
  "with_pen fg bg at t = t\<lparr>s_pen_fg := fg, s_pen_bg := bg, s_pen_attrs := at\<rparr>"

lemma apply_color_params:
  assumes "c \<noteq> Default"
  shows "apply_sgr (color_params fg c) t = set_pen fg c t"
proof (cases c)
  case (Indexed n)
  consider "n < 8" | "\<not> n < 8" "n < 16" | "\<not> n < 8" "\<not> n < 16" by blast
  then show ?thesis
  proof cases
    case 1
    then have "unat n < 8" by (simp add: word_less_nat_alt)
    with 1 Indexed show ?thesis
      by (simp add: apply_sgr_def color_params_def sgr_one_def set_pen_def paint_byte)
  next
    case 2
    then have "unat n - 8 + 8 = unat n" "unat n < 16" "8 \<le> unat n" by (simp_all add: word_less_nat_alt)
    with 2 Indexed show ?thesis
      by (simp add: apply_sgr_def color_params_def sgr_one_def set_pen_def paint_byte del: One_nat_def)
  next
    case 3
    with Indexed show ?thesis by (simp add: apply_sgr_def color_params_def paint_byte)
  qed
qed (use assms in \<open>simp_all add: apply_sgr_def color_params_def paint_byte\<close>)

lemma feed_sgr:
  assumes "wf_parser p" "is_idle p" "ns \<noteq> []" "\<forall>n \<in> set ns. n \<le> u16_max" "length ns \<le> MAX_PARAMS"
  shows "\<exists>p'. wf_parser p' \<and> is_idle p' \<and>
    feed screen_actions (csi_bytes [] ns 0x6d @ bs) p t = feed screen_actions bs p' (apply_sgr ns t)"
  using feed_csi [OF assms(1,2) _ assms(3-5), of "[]" "0x6d" screen_actions bs t]
  by (simp add: screen_actions_def csi_def csi_dispatch_def)

lemma bit_and_1: "(a :: u16) AND 1 \<noteq> 0 \<longleftrightarrow> bit a 0" "a AND 2 \<noteq> 0 \<longleftrightarrow> bit a 1" "a AND 4 \<noteq> 0 \<longleftrightarrow> bit a 2"
  using and_exp_eq_0_iff_not_bit [of a 0] and_exp_eq_0_iff_not_bit [of a 1] and_exp_eq_0_iff_not_bit [of a 2] by simp_all
lemma attr_bits: "a AND 7 = (if a AND 1 \<noteq> 0 then 1 else 0) OR (if a AND 2 \<noteq> 0 then 2 else 0) OR
    (if a AND 4 \<noteq> 0 then 4 else (0 :: u16))"
proof (rule bit_word_eqI)
  fix n assume "n < LENGTH(16)"
  consider "n = 0" | "n = 1" | "n = 2" | m where "n = Suc (Suc (Suc m))"
    by (metis One_nat_def Suc_1 not0_implies_Suc)
  then show "bit (a AND 7) n = bit ((if a AND 1 \<noteq> 0 then 1 else 0) OR (if a AND 2 \<noteq> 0 then 2 else 0) OR
    (if a AND 4 \<noteq> 0 then 4 else (0 :: u16))) n"
    unfolding bit_and_1
    by cases (auto simp: bit_simps bit_numeral_rec bit_1_iff)
qed


definition attr_bytes :: "u16 \<Rightarrow> byte list" where
  "attr_bytes a = (if a AND 1 \<noteq> 0 then csi_bytes [] [1] 0x6d else []) @
     (if a AND 2 \<noteq> 0 then csi_bytes [] [4] 0x6d else []) @ (if a AND 4 \<noteq> 0 then csi_bytes [] [7] 0x6d else [])"

definition color_bytes :: "bool \<Rightarrow> color \<Rightarrow> byte list" where
  "color_bytes fg c = (if c \<noteq> Default then csi_bytes [] (color_params fg c) 0x6d else [])"

definition brush_bytes :: "color \<Rightarrow> color \<Rightarrow> u16 \<Rightarrow> byte list" where
  "brush_bytes fg bg a = sgr_reset @ attr_bytes a @ color_bytes True fg @ color_bytes False bg"

lemma sgr_reset_eq: "sgr_reset = csi_bytes [] [0] 0x6d"
  by (simp add: sgr_reset_def csi_bytes_def digits_small)

lemma emit_attrs_eq: "emit_attrs out a = out @ attr_bytes a"
  by (simp add: emit_attrs_def attr_bytes_def csi_bytes_def digits_small Let_def
      digits_small(2) [unfolded One_nat_def])

lemma emit_brush:
  "emit_color (emit_attrs (out @ sgr_reset) a) True fg \<bind> (\<lambda>out. emit_color out False bg) =
    Some (out @ brush_bytes fg bg a)"
  by (simp add: emit_color_eq emit_attrs_eq brush_bytes_def color_bytes_def)

text \<open>Feeding an optional SGR.\<close>

lemma feed_opt_sgr:
  assumes "wf_parser p" "is_idle p" "ns \<noteq> []" "\<forall>n \<in> set ns. n \<le> u16_max" "length ns \<le> MAX_PARAMS"
  shows "\<exists>p'. wf_parser p' \<and> is_idle p' \<and>
    feed screen_actions ((if b then csi_bytes [] ns 0x6d else []) @ bs) p t =
    feed screen_actions bs p' (if b then apply_sgr ns t else t)"
  using feed_sgr [OF assms, of bs t] assms(1,2) by auto

lemma color_params_nonempty: "c \<noteq> Default \<Longrightarrow> color_params fg c \<noteq> []"
  by (auto simp: color_params_def split: color.split)

lemma feed_color:
  assumes "wf_parser p" "is_idle p"
  shows "\<exists>p'. wf_parser p' \<and> is_idle p' \<and> feed screen_actions (color_bytes fg c @ bs) p t =
    feed screen_actions bs p' (if c \<noteq> Default then set_pen fg c t else t)"
proof (cases "c = Default")
  case True
  with assms show ?thesis by (auto simp: color_bytes_def)
next
  case False
  from feed_sgr [OF assms color_params_nonempty [OF this] color_params_bound]
    apply_color_params [OF this] False show ?thesis by (auto simp: color_bytes_def)
qed

lemma feed_brush:
  assumes "wf_parser p" "is_idle p"
  shows "\<exists>p'. wf_parser p' \<and> is_idle p' \<and> feed screen_actions (brush_bytes fg bg a @ bs) p t =
    feed screen_actions bs p' (with_pen fg bg (a AND 7) t)"
proof -
  let ?cols = "color_bytes True fg @ color_bytes False bg @ bs"
  let ?t0 = "apply_sgr [0] t"
  let ?t1 = "if a AND 1 \<noteq> 0 then apply_sgr [1] ?t0 else ?t0"
  let ?t2 = "if a AND 2 \<noteq> 0 then apply_sgr [4] ?t1 else ?t1"
  let ?t3 = "if a AND 4 \<noteq> 0 then apply_sgr [7] ?t2 else ?t2"
  let ?t4 = "if fg \<noteq> Default then set_pen True fg ?t3 else ?t3"
  let ?t5 = "if bg \<noteq> Default then set_pen False bg ?t4 else ?t4"
  let ?r3 = "(if a AND 4 \<noteq> 0 then csi_bytes [] [7] 0x6d else []) @ ?cols"
  let ?r2 = "(if a AND 2 \<noteq> 0 then csi_bytes [] [4] 0x6d else []) @ ?r3"
  let ?r1 = "(if a AND 1 \<noteq> 0 then csi_bytes [] [1] 0x6d else []) @ ?r2"
  obtain p0 where p0: "wf_parser p0" "is_idle p0"
    "feed screen_actions (csi_bytes [] [0] 0x6d @ ?r1) p t = feed screen_actions ?r1 p0 ?t0"
    using feed_sgr [OF assms, of "[0]" ?r1 t] by (auto simp: MAX_PARAMS_def)
  obtain p1 where p1: "wf_parser p1" "is_idle p1" "feed screen_actions ?r1 p0 ?t0 = feed screen_actions ?r2 p1 ?t1"
    using feed_opt_sgr [OF p0(1,2), of "[1]" "a AND 1 \<noteq> 0" ?r2 ?t0] by (auto simp: MAX_PARAMS_def)
  obtain p2 where p2: "wf_parser p2" "is_idle p2" "feed screen_actions ?r2 p1 ?t1 = feed screen_actions ?r3 p2 ?t2"
    using feed_opt_sgr [OF p1(1,2), of "[4]" "a AND 2 \<noteq> 0" ?r3 ?t1] by (auto simp: MAX_PARAMS_def)
  obtain p3 where p3: "wf_parser p3" "is_idle p3" "feed screen_actions ?r3 p2 ?t2 = feed screen_actions ?cols p3 ?t3"
    using feed_opt_sgr [OF p2(1,2), of "[7]" "a AND 4 \<noteq> 0" ?cols ?t2] by (auto simp: MAX_PARAMS_def)
  obtain p4 where p4: "wf_parser p4" "is_idle p4"
    "feed screen_actions ?cols p3 ?t3 = feed screen_actions (color_bytes False bg @ bs) p4 ?t4"
    using feed_color [OF p3(1,2), of True fg "color_bytes False bg @ bs" ?t3] by blast
  obtain p5 where p5: "wf_parser p5" "is_idle p5"
    "feed screen_actions (color_bytes False bg @ bs) p4 ?t4 = feed screen_actions bs p5 ?t5"
    using feed_color [OF p4(1,2), of False bg bs ?t4] by blast
  have pen: "?t5 = with_pen fg bg (a AND 7) t"
    unfolding attr_bits
    by (simp add: apply_sgr_def sgr_one_def set_pen_def with_pen_def or.assoc)
  have bytes: "brush_bytes fg bg a @ bs = csi_bytes [] [0] 0x6d @ ?r1"
    by (simp add: brush_bytes_def attr_bytes_def sgr_reset_eq)
  have "feed screen_actions (brush_bytes fg bg a @ bs) p t = feed screen_actions bs p5 ?t5"
    unfolding bytes
    by (rule trans [OF p0(3) trans [OF p1(3) trans [OF p2(3) trans [OF p3(3) trans [OF p4(3) p5(3)]]]]])
  with p5(1,2) show ?thesis unfolding pen by blast
qed


section \<open>Painting a canvas\<close>

text \<open>
  A cell that a byte repaint can express: a plain character with only SGR attributes. The canvas
  is the screen that has received the bytes painted so far: the cells before column \<open>c\<close> of row
  \<open>r\<close> are those of the source, the rest is blank, and the cursor waits there.
\<close>

definition repaintable :: "cell \<Rightarrow> bool" where
  "repaintable c \<longleftrightarrow> c_attrs c AND 7 = c_attrs c \<and> printable (unat (c_codepoint c)) \<and> plain (c_codepoint c)"

definition painted_cells :: "screen \<Rightarrow> nat \<Rightarrow> nat \<Rightarrow> screen \<Rightarrow> bool" where
  "painted_cells s r c t \<longleftrightarrow> (\<forall>r' < s_rows s. \<forall>c' < s_cols s. s_cells t ! idx t c' r' =
     (if r' < r \<or> r' = r \<and> c' < c then s_cells s ! idx s c' r' else cell_blank Default))"

definition canvas :: "screen \<Rightarrow> nat \<Rightarrow> nat \<Rightarrow> screen \<Rightarrow> bool" where
  "canvas s r c t \<longleftrightarrow> wf_screen t \<and> s_cols t = s_cols s \<and> s_rows t = s_rows s \<and>
     s_scroll_bottom t = s_rows s - 1 \<and> s_cursor_visible t \<and> s_in_alt t = s_in_alt s \<and> s_cursor_row t = r \<and>
     s_cursor_col t = min c (s_cols s - 1) \<and> (c < s_cols s \<longrightarrow> \<not> s_pending_wrap t) \<and>
     pred_option (\<lambda>cl. \<not> oc_after_zwj cl) (s_open_cluster t) \<and> painted_cells s r c t"

text \<open>What the bytes emitted so far have done to a screen \<open>t0\<close>, and the brush they left.\<close>

definition painted :: "parser \<Rightarrow> screen \<Rightarrow> screen \<Rightarrow> nat \<Rightarrow> nat \<Rightarrow> brush \<Rightarrow> bool" where
  "painted p0 t0 s r c = (\<lambda>(out, fg, bg, at). \<exists>p t. feed screen_actions out p0 t0 = Some (p, t) \<and>
     wf_parser p \<and> is_idle p \<and> canvas s r c t \<and> s_pen_fg t = fg \<and> s_pen_bg t = bg \<and> s_pen_attrs t = at)"

lemma feed_idle_nil: "is_idle p \<Longrightarrow> feed a [] p t = Some (p, t)"
  by (simp add: feed.simps [of a "[]"] is_idle_def)

lemma with_pen_frame [simp]:
  "canvas s r c (with_pen fg bg at t) = canvas s r c t"
  "s_pen_fg (with_pen fg bg at t) = fg" "s_pen_bg (with_pen fg bg at t) = bg"
  "s_pen_attrs (with_pen fg bg at t) = at"
  by (simp_all add: canvas_def painted_cells_def with_pen_def idx_def)

lemma feed_brush_nil:
  assumes "wf_parser p" "is_idle p"
  shows "\<exists>p'. wf_parser p' \<and> is_idle p' \<and>
    feed screen_actions (brush_bytes fg bg a) p t = Some (p', with_pen fg bg (a AND 7) t)"
  using feed_brush [OF assms, of fg bg a "[]" t] by (auto simp: feed_idle_nil)

lemma canvas_ready:
  assumes "canvas s r c t" "c < s_cols s" "r < s_rows s"
  shows "ready t"
proof -
  have "narrow (cell_blank Default)" by (simp add: narrow_def cell_blank_def)
  moreover have "s_cursor_col t = c" using assms by (auto simp: canvas_def)
  ultimately show ?thesis
    using assms by (auto simp: ready_def canvas_def painted_cells_def)
qed

lemma canvas_write:
  assumes cv: "canvas s r c t" and b: "c < s_cols s" "r < s_rows s"
    and cell: "repaintable (s_cells s ! idx s c r)" "cl = s_cells s ! idx s c r"
    and pen: "s_pen_fg t = c_fg cl" "s_pen_bg t = c_bg cl" "s_pen_attrs t = c_attrs cl AND 7"
  shows "\<exists>t'. write_char (c_codepoint cl) t = Some t' \<and> canvas s r (Suc c) t' \<and>
    s_pen_fg t' = s_pen_fg t \<and> s_pen_bg t' = s_pen_bg t \<and> s_pen_attrs t' = s_pen_attrs t"
proof -
  have wf: "wf_screen t" and cur: "s_cursor_col t = c" "s_cursor_row t = r"
    and dims: "s_cols t = s_cols s" "s_rows t = s_rows s"
    using cv b by (auto simp: canvas_def)
  have pl: "plain (c_codepoint cl)" using cell by (simp add: repaintable_def)
  obtain t' where t': "write_char (c_codepoint cl) t = Some t'" "wf_screen t'" "s_cols t' = s_cols t"
    "s_cells t' = (s_cells t)[idx t c r := glyph t (c_codepoint cl)]" "s_cursor_row t' = s_cursor_row t"
    "s_cursor_col t' = min (c + 1) (s_cols t - 1)"
    "s_pending_wrap t' \<longleftrightarrow> s_autowrap t \<and> c + 1 = s_cols t"
    using write_plain_step [OF wf canvas_ready [OF cv b] pl] cur by metis
  have fr: "s_rows t' = s_rows t" "s_scroll_bottom t' = s_scroll_bottom t" "s_cursor_visible t' = s_cursor_visible t"
    "pred_option (\<lambda>cl. \<not> oc_after_zwj cl) (s_open_cluster t')" "s_pen_fg t' = s_pen_fg t"
    "s_pen_bg t' = s_pen_bg t" "s_pen_attrs t' = s_pen_attrs t" "s_in_alt t' = s_in_alt t"
    using write_plain [OF wf canvas_ready [OF cv b] pl] t'(1)
    by (auto simp: advance_after_width_def dirty_def Let_def)
  have g: "glyph t (c_codepoint cl) = cl"
    using pen cell by (simp add: glyph_def repaintable_def)
  have i: "idx t c r < length (s_cells t)" using idx_bound [OF wf] b dims by simp
  have "painted_cells s r (Suc c) t'"
    unfolding painted_cells_def
  proof (intro allI impI)
    fix r' c' assume rc: "r' < s_rows s" "c' < s_cols s"
    have same: "idx t' c' r' = idx t c' r'" using t'(3) by (simp add: idx_def)
    have "idx t c' r' = idx t c r \<longleftrightarrow> c' = c \<and> r' = r"
      using idx_div [of c' t r'] idx_div [of c t r] idx_mod [of c' t r'] idx_mod [of c t r] rc b dims by metis
    moreover have "s_cells t ! idx t c' r' =
        (if r' < r \<or> r' = r \<and> c' < c then s_cells s ! idx s c' r' else cell_blank Default)"
      using cv rc by (simp add: canvas_def painted_cells_def)
    moreover have "c' < Suc c \<longleftrightarrow> c' < c \<or> c' = c" by auto
    ultimately show "s_cells t' ! idx t' c' r' =
        (if r' < r \<or> r' = r \<and> c' < Suc c then s_cells s ! idx s c' r' else cell_blank Default)"
      using cell(2) i g unfolding t'(4) same by (cases "c' = c \<and> r' = r") auto
  qed
  then have "canvas s r (Suc c) t'"
    using cv t' fr cur dims b by (auto simp: canvas_def)
  with t'(1) fr show ?thesis by blast
qed

lemma paint_cell_step:
  assumes wf: "wf_screen s" and b: "c < s_cols s" "r < s_rows s"
    and cell: "repaintable (s_cells s ! idx s c r)" and pd: "painted p0 t0 s r c br"
  shows "runs (paint_cell s r c br) (painted p0 t0 s r (Suc c))"
proof -
  obtain out fg bg at where br: "br = (out, fg, bg, at)" by (cases br)
  obtain p t where t: "feed screen_actions out p0 t0 = Some (p, t)" "wf_parser p" "is_idle p" "canvas s r c t"
    "s_pen_fg t = fg" "s_pen_bg t = bg" "s_pen_attrs t = at"
    using pd br by (auto simp: painted_def)
  define cl where "cl = s_cells s ! idx s c r"
  define change where "change \<longleftrightarrow> c_fg cl \<noteq> fg \<or> c_bg cl \<noteq> bg \<or> c_attrs cl AND 7 \<noteq> at"
  define out1 where "out1 = (if change then out @ brush_bytes (c_fg cl) (c_bg cl) (c_attrs cl) else out)"
  define t1 where "t1 = (if change then with_pen (c_fg cl) (c_bg cl) (c_attrs cl AND 7) t else t)"
  obtain p1 where p1: "feed screen_actions out1 p0 t0 = Some (p1, t1)" "wf_parser p1" "is_idle p1"
  proof (cases change)
    case True
    with feed_brush_nil [OF t(2,3), of "c_fg cl" "c_bg cl" "c_attrs cl" t] t(1) that show ?thesis
      by (auto simp: out1_def t1_def feed_append)
  next
    case False
    with t(1-3) that show ?thesis by (simp add: out1_def t1_def)
  qed
  have pen: "s_pen_fg t1 = c_fg cl" "s_pen_bg t1 = c_bg cl" "s_pen_attrs t1 = c_attrs cl AND 7" "canvas s r c t1"
    using t(4-7) by (auto simp: t1_def change_def)
  obtain t2 where t2: "write_char (c_codepoint cl) t1 = Some t2" "canvas s r (Suc c) t2"
    "s_pen_fg t2 = c_fg cl" "s_pen_bg t2 = c_bg cl" "s_pen_attrs t2 = c_attrs cl AND 7"
    using canvas_write [OF pen(4) b cell cl_def pen(1-3)] pen by auto
  have scalar: "printable (unat (c_codepoint cl))" "is_scalar (unat (c_codepoint cl))"
    and notail: "c_attrs cl AND ATTR_WIDE_TAIL = 0"
  proof -
    have a: "c_attrs cl AND 7 = c_attrs cl" "printable (unat (c_codepoint cl))"
      using cell by (simp_all add: cl_def repaintable_def)
    then show "printable (unat (c_codepoint cl))" "is_scalar (unat (c_codepoint cl))"
      by (simp_all add: printable_def)
    have "c_attrs cl AND ATTR_WIDE_TAIL = c_attrs cl AND (7 AND ATTR_WIDE_TAIL)"
      by (subst a(1) [symmetric]) (simp add: and.assoc)
    then show "c_attrs cl AND ATTR_WIDE_TAIL = 0" by (simp add: ATTR_WIDE_TAIL_def)
  qed
  obtain p2 where p2: "feed screen_actions (encode_utf8 (unat (c_codepoint cl))) p1 t1 = Some (p2, t2)"
    "wf_parser p2" "is_idle p2"
    using feed_printable [OF scalar(1) p1(2,3), of screen_actions t1] t2(1)
    by (auto simp: emit_def screen_actions_def)
  have "paint_cell s r c br =
      Some (out1 @ encode_utf8 (unat (c_codepoint cl)), c_fg cl, c_bg cl, c_attrs cl AND 7)"
  proof (cases change)
    case True
    then have "c_fg cl \<noteq> fg \<or> c_bg cl \<noteq> bg \<or> c_attrs cl AND 7 \<noteq> at" by (simp add: change_def)
    moreover have "emit_color (emit_attrs (out @ sgr_reset) (c_attrs cl)) True (c_fg cl) \<bind>
        (\<lambda>out. emit_color out False (c_bg cl) \<bind> f) = f (out @ brush_bytes (c_fg cl) (c_bg cl) (c_attrs cl))"
      for f :: "byte list \<Rightarrow> brush option"
      using emit_brush [of out "c_attrs cl" "c_fg cl" "c_bg cl"] by (auto simp: bind_eq_Some_conv)
    ultimately show ?thesis
      using True wf b notail scalar(2)
      by (simp add: paint_cell_def br get_cell cl_def [symmetric] out1_def push_codepoint_def)
  next
    case False
    with wf b notail scalar(2) show ?thesis
      by (simp add: paint_cell_def br get_cell cl_def [symmetric] out1_def push_codepoint_def change_def)
  qed
  moreover have "feed screen_actions (out1 @ encode_utf8 (unat (c_codepoint cl))) p0 t0 = Some (p2, t2)"
    using p1(1) p2(1) by (simp add: feed_append)
  ultimately show ?thesis using p2(2,3) t2 by (auto simp: painted_def)
qed


lemma blank_cell_eq: "cell_is_blank c \<longleftrightarrow> c = cell_blank Default"
  by (cases c) (auto simp: cell_is_blank_def cell_blank_def)

lemma row_end_spec:
  assumes wf: "wf_screen s" and r: "r < s_rows s"
  shows "runs (row_end s r) (\<lambda>n. n \<le> s_cols s \<and>
    (\<forall>c. n \<le> c \<and> c < s_cols s \<longrightarrow> s_cells s ! idx s c r = cell_blank Default))"
  unfolding row_end_def
proof (rule for_each_upt [where P = "\<lambda>i n. n \<le> i \<and>
    (\<forall>c. n \<le> c \<and> c < i \<longrightarrow> s_cells s ! idx s c r = cell_blank Default)"])
  fix i n assume i: "i < s_cols s" and inv: "n \<le> i \<and>
    (\<forall>c. n \<le> c \<and> c < i \<longrightarrow> s_cells s ! idx s c r = cell_blank Default)"
  have "u16_add i 1 = Some (Suc i)" using i wf_screenD(2) [OF wf] by (simp add: u16_add_def)
  then show "runs (get_at (s_cells s) (idx s i r) \<bind> (\<lambda>cell. if \<not> cell_is_blank cell then u16_add i 1 else Some n))
    (\<lambda>n. n \<le> Suc i \<and> (\<forall>c. n \<le> c \<and> c < Suc i \<longrightarrow> s_cells s ! idx s c r = cell_blank Default))"
    using inv by (auto simp: get_cell [OF wf i r] blank_cell_eq less_Suc_eq)
qed simp_all

text \<open>Carriage return and line feed, fed from a finished row.\<close>

lemma feed_c0:
  assumes "wf_parser p" "is_idle p" "b = 0x0d \<or> b = 0x0a"
  shows "feed a (b # bs) p t = act_execute a b t \<bind> feed a bs p"
  using assms idle_needs_nothing [OF assms(1,2)]
  by (auto simp: feed_step is_idle_def state_step_def ground_def c0_in_place_def emit_def)

lemma canvas_newline:
  assumes p: "wf_parser p" "is_idle p" and cv: "canvas s r n t" and r: "Suc r < s_rows s"
    and rest: "\<forall>c. n \<le> c \<and> c < s_cols s \<longrightarrow> s_cells s ! idx s c r = cell_blank Default" and n: "n \<le> s_cols s"
  shows "\<exists>p' t'. wf_parser p' \<and> is_idle p' \<and>
    feed screen_actions ([0x0d, 0x0a] @ sgr_reset) p t = Some (p', with_pen Default Default 0 t') \<and> canvas s (Suc r) 0 t'"
proof -
  let ?t1 = "(close_cluster t)\<lparr>s_cursor_col := 0\<rparr>"
  let ?t2 = "(close_cluster ?t1)\<lparr>s_cursor_row := Suc r\<rparr>"
  have wf: "wf_screen t" and row: "s_cursor_row t = r" and hi: "s_scroll_bottom t = s_rows s - 1"
    and dims: "s_cols t = s_cols s" "s_rows t = s_rows s"
    using cv by (simp_all add: canvas_def)
  have "u16_add r 1 = Some (Suc r)" using r wf_screenD(4) [OF wf] dims by (simp add: u16_add_def)
  moreover have "r < s_rows s - 1" using r by linarith
  ultimately have "execute 0x0a ?t1 = Some ?t2"
    using row hi by (simp add: execute_def index_def close_cluster_def clear_pending_wrap_def)
  moreover have "execute 0x0d t = Some ?t1" by (simp add: execute_def)
  ultimately have "feed screen_actions ([0x0d, 0x0a] @ sgr_reset) p t = feed screen_actions sgr_reset p ?t2"
    using p by (simp add: feed_c0 screen_actions_def)
  moreover obtain p' where "wf_parser p'" "is_idle p'"
    "feed screen_actions sgr_reset p ?t2 = Some (p', with_pen Default Default 0 ?t2)"
    using feed_sgr [OF p, of "[0]" "[]" ?t2]
    by (auto simp: sgr_reset_eq feed_idle_nil apply_sgr_def sgr_one_def with_pen_def MAX_PARAMS_def)
  moreover have "canvas s (Suc r) 0 ?t2"
  proof -
    have "wf_screen ?t2"
      using wf r dims wf_screenD(1) [OF wf] by (auto simp: close_cluster_def clear_pending_wrap_def intro!: wf_set)
    moreover have "painted_cells s (Suc r) 0 ?t2"
      using cv rest n by (auto simp: canvas_def painted_cells_def idx_def close_cluster_def clear_pending_wrap_def less_Suc_eq)
    ultimately show ?thesis
      using cv by (simp add: canvas_def close_cluster_def clear_pending_wrap_def)
  qed
  ultimately show ?thesis by auto
qed

text \<open>A whole row, then the whole grid.\<close>

definition finished :: "parser \<Rightarrow> screen \<Rightarrow> screen \<Rightarrow> brush \<Rightarrow> bool" where
  "finished p0 t0 s br \<longleftrightarrow> (\<exists>p t. feed screen_actions (fst br) p0 t0 = Some (p, t) \<and>
     wf_parser p \<and> is_idle p \<and> wf_screen t \<and> s_cols t = s_cols s \<and> s_rows t = s_rows s \<and>
     s_cursor_visible t \<and> s_in_alt t = s_in_alt s \<and> s_cells t = s_cells s)"

lemma paint_row_step:
  assumes wf: "wf_screen s" and r: "r < s_rows s" and cells: "\<forall>c \<in> set (s_cells s). repaintable c"
    and pd: "painted p0 t0 s r 0 br"
  shows "runs (paint_row s r br) (\<lambda>br'. if Suc r < s_rows s then painted p0 t0 s (Suc r) 0 br'
    else finished p0 t0 s br')"
proof -
  obtain n where n: "row_end s r = Some n" "n \<le> s_cols s"
    "\<forall>c. n \<le> c \<and> c < s_cols s \<longrightarrow> s_cells s ! idx s c r = cell_blank Default"
    using row_end_spec [OF wf r] by (auto elim: runsE)
  have "runs (for_each [0..<n] (paint_cell s r) br) (painted p0 t0 s r n)"
  proof (rule for_each_upt)
    fix c br' assume c: "c < n" and pd': "painted p0 t0 s r c br'"
    have "repaintable (s_cells s ! idx s c r)"
      using cells idx_bound [OF wf _ r, of c] c n(2) by simp
    with paint_cell_step [OF wf _ r _ pd'] c n(2)
    show "runs (paint_cell s r c br') (painted p0 t0 s r (Suc c))" by simp
  qed (use pd in auto)
  then obtain out fg bg at where br': "for_each [0..<n] (paint_cell s r) br = Some (out, fg, bg, at)"
    "painted p0 t0 s r n (out, fg, bg, at)" by (auto elim: runsE)
  then obtain p t where t: "feed screen_actions out p0 t0 = Some (p, t)" "wf_parser p" "is_idle p" "canvas s r n t"
    by (auto simp: painted_def)
  have u: "u16_add r 1 = Some (Suc r)" using r wf_screenD(4) [OF wf] by (simp add: u16_add_def)
  show ?thesis
  proof (cases "Suc r < s_rows s")
    case True
    obtain p' t' where "wf_parser p'" "is_idle p'"
      "feed screen_actions ([0x0d, 0x0a] @ sgr_reset) p t = Some (p', with_pen Default Default 0 t')" "canvas s (Suc r) 0 t'"
      using canvas_newline [OF t(2-4) True n(3,2)] by blast
    then have "painted p0 t0 s (Suc r) 0 (out @ [0x0d, 0x0a] @ sgr_reset, Default, Default, 0)"
      using t(1) by (simp only: painted_def feed_append prod.case) auto
    with True n(1) br'(1) u show ?thesis by (simp add: paint_row_def)
  next
    case False
    have "s_cells t = s_cells s"
    proof (rule nth_equalityI)
      show "length (s_cells t) = length (s_cells s)"
        using t(4) wf by (simp add: canvas_def wf_screen_def)
      fix i assume "i < length (s_cells t)"
      then have i: "i < length (s_cells s)" using t(4) wf by (simp add: canvas_def wf_screen_def)
      let ?r = "i div s_cols s" and ?c = "i mod s_cols s"
      have rc: "?r < s_rows s" "?c < s_cols s" "idx s ?c ?r = i"
        using cell_row [OF wf i] wf_screenD(1) [OF wf] by (simp_all add: idx_def)
      have "idx t ?c ?r = i" using rc(3) t(4) by (simp add: canvas_def idx_def)
      moreover have "?r < r \<or> ?r = r" using rc(1) False r by linarith
      ultimately show "s_cells t ! i = s_cells s ! i"
        using t(4) rc n(3) unfolding canvas_def painted_cells_def by (metis not_less)
    qed
    then have "finished p0 t0 s (out, fg, bg, at)"
      using t by (auto simp: finished_def canvas_def)
    with False n(1) br'(1) u show ?thesis by (simp add: paint_row_def)
  qed
qed

lemma fresh_canvas:
  assumes "screen_new (s_cols s) (s_rows s) = Inr t" "wf_screen s"
  shows "canvas (s\<lparr>s_in_alt := False\<rparr>) 0 0 t"
proof -
  obtain t' where "screen_new (s_cols s) (s_rows s) = Inr t'" "wf_screen t'" "s_cols t' = s_cols s"
    "s_rows t' = s_rows s" "\<not> s_in_alt t'" "s_scroll_top t' = 0" "s_scroll_bottom t' = s_rows s - 1"
    "s_cursor_row t' = 0" "s_cursor_col t' = 0"
    using screen_new_wf [of "s_cols s" "s_rows s"] wf_screenD(1-4) [OF assms(2)] by metis
  moreover from this assms(1) have "t' = t" by simp
  moreover have "s_cells t ! idx t c r = cell_blank Default" if "c < s_cols s" "r < s_rows s" for c r
  proof -
    have "s_cells t = replicate (s_cols s * s_rows s) (cell_blank Default)"
      using assms(1) by (auto simp: screen_new_def split: if_splits)
    moreover have "idx t c r < length (s_cells t)" using calculation that \<open>t' = t\<close> \<open>wf_screen t'\<close> 
      \<open>s_cols t' = s_cols s\<close> \<open>s_rows t' = s_rows s\<close> by (intro idx_bound) simp_all
    ultimately show ?thesis by simp
  qed
  moreover have "s_cursor_visible t" "\<not> s_pending_wrap t" "s_open_cluster t = None"
    using assms(1) by (auto simp: screen_new_def split: if_splits)
  ultimately show ?thesis by (simp add: canvas_def painted_cells_def)
qed

text \<open>What a repaint writes first: the switch to the alternate screen, where the source is on it.\<close>

definition alt_bytes :: "screen \<Rightarrow> byte list" where
  "alt_bytes s = (if s_in_alt s then csi_bytes [0x3f] [1049] 0x68 else [])"

lemma enter_canvas:
  assumes cv: "canvas (s\<lparr>s_in_alt := False\<rparr>) 0 0 t" and pen: "s_pen_bg t = Default" and alt: "s_in_alt s"
  shows "canvas s 0 0 (enter_alt True True t)"
proof -
  have wf: "wf_screen t" using cv by (simp add: canvas_def)
  have g: "s_cells (enter_alt True True t) = replicate (s_cols t * s_rows t) (cell_blank Default)"
    using cv pen by (simp add: enter_alt_def canvas_def Let_def blank_grid_def set_cursor_def clear_pending_wrap_def)
  have rest: "s_cols (enter_alt True True t) = s_cols s" "s_rows (enter_alt True True t) = s_rows s"
    "s_scroll_bottom (enter_alt True True t) = s_rows s - 1" "s_cursor_visible (enter_alt True True t)"
    "s_in_alt (enter_alt True True t)" "s_cursor_row (enter_alt True True t) = 0" "s_cursor_col (enter_alt True True t) = 0"
    "\<not> s_pending_wrap (enter_alt True True t)" "s_open_cluster (enter_alt True True t) = None"
    using cv by (simp_all add: enter_alt_def canvas_def Let_def set_cursor_def clear_pending_wrap_def)
  have w: "wf_screen (enter_alt True True t)"
    using enter_alt_keeps [OF wf] by (rule keepsD(1))
  have "s_cells (enter_alt True True t) ! idx (enter_alt True True t) c r = cell_blank Default"
    if "c < s_cols s" "r < s_rows s" for c r
    using idx_bound [OF w, of c r] that rest(1,2) g by simp
  then show ?thesis
    using w rest cv alt by (simp add: canvas_def painted_cells_def)
qed

lemma feed_alt_bytes:
  assumes p: "wf_parser p" "is_idle p" and cv: "canvas (s\<lparr>s_in_alt := False\<rparr>) 0 0 t" and pen: "s_pen_bg t = Default"
  shows "\<exists>p1 t1. wf_parser p1 \<and> is_idle p1 \<and> canvas s 0 0 t1 \<and>
    (\<forall>bs. feed screen_actions (alt_bytes s @ bs) p t = feed screen_actions bs p1 t1)"
proof (cases "s_in_alt s")
  case False
  then have "s\<lparr>s_in_alt := False\<rparr> = s" by simp
  with cv p False show ?thesis by (auto simp: alt_bytes_def)
next
  case True
  have c: "csi [1049] [0x3f] False 0x68 t = Some (enter_alt True True t)"
    by (simp add: csi_def private_mode_def private_mode_one_def)
  obtain p1 where p1: "wf_parser p1" "is_idle p1"
    "feed screen_actions (csi_bytes [0x3f] [1049] 0x68) p t = Some (p1, enter_alt True True t)"
    using feed_csi [OF p, of "[0x3f]" "[1049]" "0x68" screen_actions "[]" t] c
    by (auto simp: screen_actions_def MAX_PARAMS_def feed_idle_nil)
  then have "feed screen_actions (alt_bytes s @ bs) p t = feed screen_actions bs p1 (enter_alt True True t)" for bs
    using True by (simp add: alt_bytes_def feed_append)
  with p1(1,2) enter_canvas [OF cv pen True] show ?thesis by blast
qed

lemma repaint_grid:
  assumes wf: "wf_screen s" and cells: "\<forall>c \<in> set (s_cells s). repaintable c"
    and p: "wf_parser p0" "is_idle p0" and t0: "canvas (s\<lparr>s_in_alt := False\<rparr>) 0 0 t0" "s_pen_bg t0 = Default"
  shows "runs (for_each [0..<s_rows s] (paint_row s) (alt_bytes s @ sgr_reset, Default, Default, 0)) (finished p0 t0 s)"
proof -
  obtain p1 t1 where a: "wf_parser p1" "is_idle p1" "canvas s 0 0 t1"
    "\<And>bs. feed screen_actions (alt_bytes s @ bs) p0 t0 = feed screen_actions bs p1 t1"
    using feed_alt_bytes [OF p t0] by blast
  obtain p2 where "feed screen_actions sgr_reset p1 t1 = Some (p2, with_pen Default Default 0 t1)" "wf_parser p2" "is_idle p2"
    using feed_sgr [OF a(1,2), of "[0]" "[]" t1]
    by (auto simp: sgr_reset_eq feed_idle_nil apply_sgr_def sgr_one_def with_pen_def MAX_PARAMS_def)
  then have start: "painted p0 t0 s 0 0 (alt_bytes s @ sgr_reset, Default, Default, 0)"
    using a(3,4) by (simp add: painted_def)
  let ?P = "\<lambda>r br. if r < s_rows s then painted p0 t0 s r 0 br else finished p0 t0 s br"
  have "runs (for_each [0..<s_rows s] (paint_row s) (alt_bytes s @ sgr_reset, Default, Default, 0)) (?P (s_rows s))"
  proof (rule for_each_upt [where P = ?P])
    show "?P 0 (alt_bytes s @ sgr_reset, Default, Default, 0)" using start wf_screenD(3) [OF wf] by simp
    fix r br assume "r < s_rows s" "?P r br"
    then show "runs (paint_row s r br) (?P (Suc r))" using paint_row_step [OF wf _ cells] by simp
  qed simp
  then show ?thesis by simp
qed


text \<open>The cursor position and visibility that close a repaint.\<close>

definition repaint_tail :: "screen \<Rightarrow> byte list" where
  "repaint_tail s = csi_bytes [] [s_cursor_row s + 1, s_cursor_col s + 1] 0x48 @
     (if s_cursor_visible s then [] else csi_bytes [0x3f] [25] 0x6c)"

lemma repaint_bytes_eq:
  assumes wf: "wf_screen s"
  shows "repaint_bytes s =
    for_each [0..<s_rows s] (paint_row s) (alt_bytes s @ sgr_reset, Default, Default, 0) \<bind> (\<lambda>br. Some (fst br @ repaint_tail s))"
proof -
  have "s_cursor_row s + 1 \<le> u16_max" "s_cursor_col s + 1 \<le> u16_max"
    using wf_screenD(2,4,6,7) [OF wf] by linarith+
  then show ?thesis
    by (auto simp: repaint_bytes_def repaint_tail_def alt_bytes_def csi_bytes_def push_u16_eq sat_add_exact digits_small
        bind_split split: option.splits)
qed

lemma feed_repaint_tail:
  assumes wf: "wf_screen s" and p: "wf_parser p" "is_idle p" and t: "wf_screen t" "s_cols t = s_cols s" "s_rows t = s_rows s"
    and vis: "s_cursor_visible t"
  shows "\<exists>p' t'. feed screen_actions (repaint_tail s) p t = Some (p', t') \<and> wf_parser p' \<and> is_idle p' \<and>
    s_cells t' = s_cells t \<and> s_cursor_row t' = s_cursor_row s \<and> s_cursor_col t' = s_cursor_col s \<and>
    s_cursor_visible t' = s_cursor_visible s \<and> s_in_alt t' = s_in_alt t"
proof -
  let ?t = "set_cursor (s_cursor_row s) (s_cursor_col s) t"
  let ?tail = "if s_cursor_visible s then [] else csi_bytes [0x3f] [25] 0x6c"
  have b: "s_cursor_row s + 1 \<le> u16_max" "s_cursor_col s + 1 \<le> u16_max"
    using wf_screenD(2,4,6,7) [OF wf] by linarith+
  have cup: "csi [s_cursor_row s + 1, s_cursor_col s + 1] [] False 0x48 t = Some ?t"
    by (simp add: csi_def csi_dispatch_def csi_n_def)
  obtain p1 where p1: "wf_parser p1" "is_idle p1"
    "feed screen_actions (repaint_tail s) p t = feed screen_actions ?tail p1 ?t"
    using feed_csi [OF p, of "[]" "[s_cursor_row s + 1, s_cursor_col s + 1]" "0x48" screen_actions ?tail t] b cup
    by (auto simp: repaint_tail_def screen_actions_def MAX_PARAMS_def)
  have cur: "s_cursor_row ?t = s_cursor_row s" "s_cursor_col ?t = s_cursor_col s" "s_cells ?t = s_cells t"
    "s_cursor_visible ?t" "s_in_alt ?t = s_in_alt t"
    using wf_screenD(6,7) [OF wf] t vis
    by (simp_all add: set_cursor_def Let_def clear_pending_wrap_def last_row_def last_col_def)
  show ?thesis
  proof (cases "s_cursor_visible s")
    case True
    with p1 cur show ?thesis by (auto simp: feed_idle_nil)
  next
    case False
    have "csi [25] [0x3f] False 0x6c ?t = Some (?t\<lparr>s_cursor_visible := False\<rparr>)"
      by (simp add: csi_def private_mode_def private_mode_one_def)
    then obtain p2 where "wf_parser p2" "is_idle p2"
      "feed screen_actions (repaint_tail s) p t = Some (p2, ?t\<lparr>s_cursor_visible := False\<rparr>)"
      using feed_csi [OF p1(1,2), of "[0x3f]" "[25]" "0x6c" screen_actions "[]" ?t] p1(3) False
      by (auto simp: screen_actions_def MAX_PARAMS_def feed_idle_nil)
    with cur False show ?thesis by auto
  qed
qed

lemma repaint_onto:
  assumes "wf_screen s" "\<forall>c \<in> set (s_cells s). repaintable c"
    and p: "wf_parser p" "is_idle p" and t: "canvas (s\<lparr>s_in_alt := False\<rparr>) 0 0 t" "s_pen_bg t = Default"
  shows "\<exists>out p' t'. repaint_bytes s = Some out \<and> feed screen_actions out p t = Some (p', t') \<and>
    is_idle p' \<and> s_cells t' = s_cells s \<and> s_in_alt t' = s_in_alt s \<and> s_cursor_row t' = s_cursor_row s \<and>
    s_cursor_col t' = s_cursor_col s \<and> s_cursor_visible t' = s_cursor_visible s"
proof -
  obtain br where br: "for_each [0..<s_rows s] (paint_row s) (alt_bytes s @ sgr_reset, Default, Default, 0) = Some br"
    "finished p t s br"
    using repaint_grid [OF assms(1,2) p t] by (auto elim: runsE)
  then obtain p1 t1 where t1: "feed screen_actions (fst br) p t = Some (p1, t1)" "wf_parser p1" "is_idle p1"
    "wf_screen t1" "s_cols t1 = s_cols s" "s_rows t1 = s_rows s" "s_cursor_visible t1" "s_cells t1 = s_cells s"
    "s_in_alt t1 = s_in_alt s"
    by (auto simp: finished_def)
  from feed_repaint_tail [OF assms(1) t1(2-7)] t1(1,8,9) br(1) assms(1) show ?thesis
    by (auto simp: repaint_bytes_eq feed_append)
qed

text \<open>
  C13: a repaint reproduces the screen, on either buffer. For a screen whose cells all hold one
  single-width character with attributes that SGR can set (no wide and no combined characters), the
  bytes of a repaint, fed to a fresh screen of the same size, switch it to the alternate buffer exactly
  where the source is on it, paint exactly its cells, with their colours and attributes, and put the
  cursor where it was, with the same visibility.
\<close>

theorem repaint_reproduces:
  assumes "wf_screen s" and "\<forall>c \<in> set (s_cells s). repaintable c"
    and "screen_new (s_cols s) (s_rows s) = Inr t"
  shows "\<exists>out p' t'. repaint_bytes s = Some out \<and> feed screen_actions out parser_new t = Some (p', t') \<and>
    is_idle p' \<and> s_cells t' = s_cells s \<and> s_in_alt t' = s_in_alt s \<and> s_cursor_row t' = s_cursor_row s \<and>
    s_cursor_col t' = s_cursor_col s \<and> s_cursor_visible t' = s_cursor_visible s"
proof -
  have "s_pen_bg t = Default" using assms(3) by (auto simp: screen_new_def split: if_splits)
  with repaint_onto [OF assms(1,2) wf_parser_new is_idle_new fresh_canvas [OF assms(3,1)]] show ?thesis .
qed

lemma blank_repaintable: "repaintable (cell_blank Default)"
proof -
  have "printable 0x20 \<and> plain (word_of_nat 0x20)" by (intro ascii_plain) simp_all
  then show ?thesis by (simp add: repaintable_def cell_blank_def)
qed

text \<open>A screen on the alternate buffer that shows a red bold A, with the cursor behind it.\<close>

lemma repaint_reproduces_witness:
  "\<exists>t s out p' t'. screen_new 80 24 = Inr t \<and> c_fg (s_cells s ! 0) = Indexed 1 \<and> c_codepoint (s_cells s ! 0) = 0x41 \<and>
     s_in_alt s \<and> repaint_bytes s = Some out \<and> feed screen_actions out parser_new t = Some (p', t') \<and>
     s_cells t' = s_cells s \<and> s_in_alt t' \<and> s_cursor_col t' = 1"
proof -
  obtain t where t: "screen_new 80 24 = Inr t" "wf_screen t" "s_cols t = 80" "s_rows t = 24"
    by (rule screen_new_wf [of 80 24]) simp_all
  let ?A = "\<lparr>c_codepoint = 0x41, c_fg = Indexed 1, c_bg = Default, c_attrs = 1\<rparr>"
  let ?s = "t\<lparr>s_cells := ?A # tl (s_cells t), s_in_alt := True, s_cursor_col := 1\<rparr>"
  have n: "length (s_cells t) = 1920" using t(2-4) by (simp add: wf_screen_def)
  then have "wf_screen ?s" using t(2-4) by (simp add: wf_screen_def)
  moreover have "repaintable ?A"
    using ascii_plain [of "0x41"] by (simp add: repaintable_def)
  moreover have "set (tl (s_cells t)) \<subseteq> {cell_blank Default}"
    using t(1) by (auto simp: screen_new_def dest: list.set_sel(2) [rotated] split: if_splits)
  ultimately have "wf_screen ?s" "\<forall>c \<in> set (s_cells ?s). repaintable c" using blank_repaintable by auto
  from repaint_reproduces [OF this, of t] t show ?thesis
    by (intro exI [of _ t] exI [of _ ?s]) auto
qed


end
