(* ===== verification/Vt_Engine.thy ===== *)
theory Vt_Engine imports Vt_Checkpoint Vt_Repaint begin

text \<open>
  The engine of \<open>src/crates/vt-engine/src/lib.rs\<close>: a parser and a screen behind one interface. It
  holds every operation of \<open>VtEngine\<close> and of its \<open>TerminalEmulation\<close> implementation, the effect of
  a resize on the cells, and the invariant of every engine a host can reach.
\<close>

section \<open>The engine\<close>

record engine =
  eng_parser :: parser
  eng_screen :: screen

definition engine_new :: "nat \<Rightarrow> nat \<Rightarrow> vt_error + engine" where
  "engine_new cs rs =
     (case screen_new cs rs of
        Inl err \<Rightarrow> Inl err
      | Inr s \<Rightarrow> Inr \<lparr>eng_parser = parser_new, eng_screen = s\<rparr>)"

text \<open>The operations that only pass on to the screen.\<close>

definition engine_color_at :: "nat \<Rightarrow> nat \<Rightarrow> engine \<Rightarrow> (color \<times> color) option option" where
  "engine_color_at col row e = color_at (eng_screen e) col row"

definition engine_set_palette :: "palette \<Rightarrow> engine \<Rightarrow> engine" where
  "engine_set_palette p e = e\<lparr>eng_screen := set_palette p (eng_screen e)\<rparr>"

definition engine_take_replies :: "engine \<Rightarrow> byte list \<times> engine" where
  "engine_take_replies e = (let (bs, s) = take_replies (eng_screen e) in (bs, e\<lparr>eng_screen := s\<rparr>))"

definition engine_take_scrolled_off :: "engine \<Rightarrow> pod_cell list list \<times> engine" where
  "engine_take_scrolled_off e =
     (let (rows, s) = take_scrolled_off (eng_screen e) in (rows, e\<lparr>eng_screen := s\<rparr>))"

definition engine_has_replies :: "engine \<Rightarrow> bool" where
  "engine_has_replies e = has_replies (eng_screen e)"

definition engine_mode_state :: "engine \<Rightarrow> terminal_mode_state" where
  "engine_mode_state e = mode_state (eng_screen e)"

definition engine_repaint_bytes :: "engine \<Rightarrow> byte list option" where
  "engine_repaint_bytes e = repaint_bytes (eng_screen e)"

definition engine_snapshot :: "engine \<Rightarrow> pod_grid \<times> engine" where
  "engine_snapshot e = (let (g, s) = snapshot (eng_screen e) in (g, e\<lparr>eng_screen := s\<rparr>))"

definition engine_feed :: "byte list \<Rightarrow> engine \<Rightarrow> engine option" where
  "engine_feed bs e =
     feed screen_actions bs (eng_parser e) (eng_screen e) \<bind>
       (\<lambda>(p, s). Some (e\<lparr>eng_parser := p, eng_screen := s\<rparr>))"

definition engine_resize :: "nat \<Rightarrow> nat \<Rightarrow> nat \<Rightarrow> nat \<Rightarrow> engine \<Rightarrow> ((vt_error + unit) \<times> engine) option" where
  "engine_resize cs rs cell_w cell_h e =
     screen_resize cs rs (eng_screen e) \<bind> (\<lambda>(r, s). Some (r, e\<lparr>eng_screen := s\<rparr>))"

text \<open>\<open>reset\<close> replaces the parser before it makes the new screen.\<close>

definition engine_reset :: "engine \<Rightarrow> (vt_error + unit) \<times> engine" where
  "engine_reset e =
     (let cs = s_cols (eng_screen e); rs = s_rows (eng_screen e);
          e = e\<lparr>eng_parser := parser_new\<rparr>
      in case screen_new cs rs of
           Inl err \<Rightarrow> (Inl err, e)
         | Inr s \<Rightarrow> (Inr (), e\<lparr>eng_screen := s\<rparr>))"

definition clear_and_home :: "byte list" where
  "clear_and_home = [0x1b, 0x5b, 0x32, 0x4a, 0x1b, 0x5b, 0x48]"

definition resync_from_history :: "byte list \<Rightarrow> engine \<Rightarrow> ((vt_error + byte list) \<times> engine) option" where
  "resync_from_history history e =
     (case engine_reset e of
        (Inl err, e) \<Rightarrow> Some (Inl err, e)
      | (Inr _, e) \<Rightarrow> do {
          let e = e\<lparr>eng_screen := set_discard_replies True (eng_screen e)\<rparr>;
          e \<leftarrow> (if history \<noteq> [] then engine_feed history e else Some e);
          let e = e\<lparr>eng_screen := set_discard_replies False (eng_screen e)\<rparr>;
          bs \<leftarrow> repaint_bytes (eng_screen e);
          Some (Inr (clear_and_home @ bs), e)})"

definition engine_export_checkpoint :: "nat \<Rightarrow> engine \<Rightarrow> vt_error + byte list" where
  "engine_export_checkpoint offset e =
     (if \<not> is_idle (eng_parser e) then Inl (Vt ''incomplete parser'')
      else export_checkpoint offset (eng_screen e))"

definition engine_import_checkpoint :: "byte list \<Rightarrow> engine \<Rightarrow> (vt_error + nat) \<times> engine" where
  "engine_import_checkpoint bs e =
     (case import_checkpoint bs (eng_screen e) of
        (Inl err, s) \<Rightarrow> (Inl err, e\<lparr>eng_screen := s\<rparr>)
      | (Inr off, s) \<Rightarrow> (Inr off, e\<lparr>eng_screen := s, eng_parser := parser_new\<rparr>))"

section \<open>Resizing\<close>

definition cell_or_blank :: "cell list \<Rightarrow> nat \<Rightarrow> nat \<Rightarrow> nat \<Rightarrow> nat \<Rightarrow> cell" where
  "cell_or_blank old cs rs c r = (if c < cs \<and> r < rs then old ! (r * cs + c) else cell_blank Default)"

lemma in_grid: "c < cs \<Longrightarrow> r < rs \<Longrightarrow> r * cs + c < (cs :: nat) * rs"
proof -
  assume "c < cs" "r < rs"
  then have "r * cs + c < Suc r * cs" "Suc r * cs \<le> rs * cs" by (simp_all del: mult_Suc add: mult_le_mono1) simp
  then show ?thesis by (simp add: mult.commute)
qed

lemma grid_inj: "c < cs \<Longrightarrow> c' < cs \<Longrightarrow> r * cs + c = r' * cs + c' \<longleftrightarrow> r = r' \<and> c = (c' :: nat)"
  by (metis add_right_cancel add_left_cancel div_mult_self3 div_less add_0_right gr_implies_not0)

lemma resize_cells_spec:
  assumes len: "length old = oc * orr"
  shows "runs (resize_cells old oc orr cs rs) (\<lambda>next. length next = cs * rs \<and>
    (\<forall>r < rs. \<forall>c < cs. next ! (r * cs + c) = cell_or_blank old oc orr c r))"
proof -
  let ?done = "\<lambda>n m r c. r < n \<or> r = n \<and> c < m"
  let ?P = "\<lambda>n m next. length next = cs * rs \<and> (\<forall>r < rs. \<forall>c < cs. next ! (r * cs + c) =
    (if c < min oc cs \<and> ?done n m r c then old ! (r * oc + c) else cell_blank Default))"
  have row: "runs (for_each [0..<min oc cs] (\<lambda>c next. let src = r * oc + c; dst = r * cs + c
      in if src < length old then get_at old src \<bind> set_at next dst else Some next) next) (?P (Suc r) 0)"
    if r: "r < min orr rs" and start: "?P r 0 next" for r "next"
  proof -
    have "runs (for_each [0..<min oc cs] (\<lambda>c next. let src = r * oc + c; dst = r * cs + c
        in if src < length old then get_at old src \<bind> set_at next dst else Some next) next) (?P r (min oc cs))"
    proof (rule for_each_upt [where P = "\<lambda>c. ?P r c"])
      fix c nx assume c: "c < min oc cs" and P: "?P r c nx"
      have src: "r * oc + c < length old" and dst: "r * cs + c < length nx"
        using in_grid [of c oc r orr] in_grid [of c cs r rs] c r len P by auto
      have "?P r (Suc c) (nx[r * cs + c := old ! (r * oc + c)])"
      proof (intro conjI allI impI)
        show "length (nx[r * cs + c := old ! (r * oc + c)]) = cs * rs" using P by simp
        fix r' c' assume rc: "r' < rs" "c' < cs"
        have "r' * cs + c' = r * cs + c \<longleftrightarrow> r' = r \<and> c' = c"
          using grid_inj [of c' cs c r' r] rc c by simp
        with P rc c dst show "nx[r * cs + c := old ! (r * oc + c)] ! (r' * cs + c') =
            (if c' < min oc cs \<and> ?done r (Suc c) r' c' then old ! (r' * oc + c') else cell_blank Default)"
          by (cases "r' = r \<and> c' = c") (auto simp: nth_list_update less_Suc_eq)
      qed
      with src dst show "runs (let src = r * oc + c; dst = r * cs + c
          in if src < length old then get_at old src \<bind> set_at nx dst else Some nx) (?P r (Suc c))"
        by (simp add: Let_def)
    qed (use start in simp_all)
    then show ?thesis
      by (rule runs_mono) (auto simp: less_Suc_eq)
  qed
  have "runs (resize_cells old oc orr cs rs) (?P (min orr rs) 0)"
    unfolding resize_cells_def Let_def
  proof (rule for_each_upt [where P = "\<lambda>r. ?P r 0"])
    show "?P 0 0 (replicate (cs * rs) (cell_blank Default))" using in_grid [of _ cs _ rs] by auto
    fix r nx assume "r < min orr rs" "?P r 0 nx"
    then show "runs (for_each [0..<min oc cs] (\<lambda>c next. if r * oc + c < length old
        then get_at old (r * oc + c) \<bind> set_at next (r * cs + c) else Some next) nx) (?P (Suc r) 0)"
      using row [unfolded Let_def] by blast
  qed simp
  then show ?thesis
    by (rule runs_mono) (auto simp: cell_or_blank_def)
qed


lemma cell_or_blank_frame:
  "c < cs \<Longrightarrow> r < rs \<Longrightarrow> cell_or_blank old cs rs c r = old ! (r * cs + c)"
  by (simp add: cell_or_blank_def)

lemma screen_resize_spec:
  assumes wf: "wf_screen s" and dims: "0 < cs" "cs \<le> u16_max" "0 < rs" "rs \<le> u16_max"
  shows "runs (screen_resize cs rs s) (\<lambda>(r, s'). r = Inr () \<and> wf_screen s' \<and> s_cols s' = cs \<and> s_rows s' = rs \<and>
    (\<forall>r < rs. \<forall>c < cs. s_cells s' ! idx s' c r = cell_or_blank (s_cells s) (s_cols s) (s_rows s) c r) \<and>
    s_cursor_col s' = min (s_cursor_col s) (cs - 1) \<and> s_cursor_row s' = min (s_cursor_row s) (rs - 1))"
proof -
  have len: "length g = s_cols s * s_rows s" if "length g = s_rows s * s_cols s" for g :: "cell list"
    using that by (simp add: mult.commute)
  have saved: "runs (case s_saved_grid s of None \<Rightarrow> Some None
      | Some g \<Rightarrow> map_option Some (resize_cells g (s_cols s) (s_rows s) cs rs))
    (pred_option (\<lambda>g. length g = cs * rs))"
  proof (cases "s_saved_grid s")
    case (Some g)
    then have "length g = s_cols s * s_rows s" using wf by (simp add: wf_screen_def mult.commute)
    from resize_cells_spec [OF this, of cs rs] Some show ?thesis
      by (auto simp: runs_iff)
  qed simp
  have clamp: "pred_option wf_cursor (map_option (clamp_saved cs rs) sc)" for sc
    using dims by (cases sc) (auto simp: clamp_saved_def wf_cursor_def min_le_iff_disj)
  have "wf_screen (s\<lparr>s_saved_grid := g, s_cols := cs, s_rows := rs, s_cells := nx,
      s_cursor_col := min (s_cursor_col s) (cs - 1), s_cursor_row := min (s_cursor_row s) (rs - 1),
      s_scroll_top := 0, s_scroll_bottom := rs - 1, s_pending_wrap := False, s_full_damage := True,
      s_saved_cursor := map_option (clamp_saved cs rs) (s_saved_cursor s),
      s_alt_cursor := map_option (clamp_saved cs rs) (s_alt_cursor s), s_open_cluster := None\<rparr>)"
    if "pred_option (\<lambda>g. length g = cs * rs) g" "length nx = cs * rs" for g nx
    using that wf dims clamp by (auto simp: wf_screen_def mult.commute)
  moreover have "length (s_cells s) = s_cols s * s_rows s"
    using wf by (simp add: wf_screen_def mult.commute)
  ultimately show ?thesis
    using resize_cells_spec [of "s_cells s" "s_cols s" "s_rows s" cs rs] saved dims
    by (auto simp: screen_resize_def runs_iff idx_def)
qed

text \<open>
  C14: resizing keeps the picture. Resizing a well-formed screen to any non-empty size returns a
  well-formed screen of that size on which every cell inside both sizes is unchanged, every other
  cell is blank, and the cursor is moved only as far as the new size forces it.
\<close>

theorem resize_keeps_picture:
  assumes "wf_screen s" and "0 < cs" and "cs \<le> u16_max" and "0 < rs" and "rs \<le> u16_max"
  shows "\<exists>s'. screen_resize cs rs s = Some (Inr (), s') \<and> wf_screen s' \<and> s_cols s' = cs \<and> s_rows s' = rs \<and>
    (\<forall>r < rs. \<forall>c < cs. s_cells s' ! idx s' c r =
      (if c < s_cols s \<and> r < s_rows s then s_cells s ! idx s c r else cell_blank Default)) \<and>
    s_cursor_col s' = min (s_cursor_col s) (cs - 1) \<and> s_cursor_row s' = min (s_cursor_row s) (rs - 1)"
  using screen_resize_spec [OF assms] by (auto simp: runs_iff cell_or_blank_def idx_def)

lemma resize_keeps_picture_witness:
  "\<exists>s s'. screen_new 80 24 = Inr s \<and> screen_resize 100 10 s = Some (Inr (), s') \<and> s_cols s' = 100 \<and>
    s_cells s' ! idx s' 90 5 = cell_blank Default"
proof -
  obtain s where s: "screen_new 80 24 = Inr s" "wf_screen s" "s_cols s = 80" "s_rows s = 24"
    by (rule screen_new_wf [of 80 24]) simp_all
  obtain s' where s': "screen_resize 100 10 s = Some (Inr (), s')" "s_cols s' = 100"
    "\<forall>r < 10. \<forall>c < 100. s_cells s' ! idx s' c r =
      (if c < s_cols s \<and> r < s_rows s then s_cells s ! idx s c r else cell_blank Default)"
    using resize_keeps_picture [OF s(2), of 100 10] by auto
  have "s_cells s' ! idx s' 90 5 = (if (90::nat) < s_cols s \<and> 5 < s_rows s then s_cells s ! idx s 90 5 else cell_blank Default)"
    by (rule s'(3) [rule_format]) simp_all
  with s s' show ?thesis by auto
qed

section \<open>Every reachable engine\<close>

lemma paint_cell_runs:
  assumes "wf_screen s" "c < s_cols s" "r < s_rows s"
  shows "runs (paint_cell s r c b) (\<lambda>_. True)"
  using assms by (auto simp: paint_cell_def get_cell emit_color_eq split: prod.split)

lemma repaint_runs:
  assumes wf: "wf_screen s"
  shows "runs (repaint_bytes s) (\<lambda>_. True)"
proof -
  have row: "runs (paint_row s r b) (\<lambda>_. True)" if r: "r < s_rows s" for r b
  proof -
    obtain n where n: "row_end s r = Some n" "n \<le> s_cols s"
      using row_end_spec [OF wf r] by (auto elim: runsE)
    have "runs (for_each [0..<n] (paint_cell s r) b) (\<lambda>_. True)"
      by (rule for_each_inv) (use n paint_cell_runs [OF wf _ r] in auto)
    moreover have "u16_add r 1 = Some (Suc r)"
      using r wf_screenD(4) [OF wf] by (simp add: u16_add_def)
    ultimately show ?thesis using n(1) by (auto simp: paint_row_def elim!: runsE)
  qed
  have "runs (for_each [0..<s_rows s] (paint_row s) b) (\<lambda>_. True)" for b
    by (rule for_each_inv) (use row in auto)
  moreover have "s_cursor_row s + 1 \<le> u16_max" "s_cursor_col s + 1 \<le> u16_max"
    using wf_screenD(2,4,6,7) [OF wf] by linarith+
  ultimately show ?thesis
    by (auto simp: repaint_bytes_def push_u16_eq sat_add_exact Let_def elim!: runsE split: prod.split)
qed

text \<open>The operations a host performs, with the sizes and palettes its types allow.\<close>

datatype engine_op =
    OpFeed "byte list" | OpResize nat nat | OpSetPalette palette | OpTakeReplies | OpTakeScrolledOff
  | OpSnapshot | OpReset | OpRepaint | OpResync "byte list"

fun op_ok :: "engine_op \<Rightarrow> bool" where
  "op_ok (OpResize cs rs) \<longleftrightarrow> cs \<le> 65528 \<and> rs \<le> u16_max"
| "op_ok (OpSetPalette p) \<longleftrightarrow> wf_palette p"
| "op_ok _ \<longleftrightarrow> True"

fun perform :: "engine_op \<Rightarrow> engine \<Rightarrow> engine option" where
  "perform (OpFeed bs) e = engine_feed bs e"
| "perform (OpResize cs rs) e = map_option snd (engine_resize cs rs 0 0 e)"
| "perform (OpSetPalette p) e = Some (engine_set_palette p e)"
| "perform OpTakeReplies e = Some (snd (engine_take_replies e))"
| "perform OpTakeScrolledOff e = Some (snd (engine_take_scrolled_off e))"
| "perform OpSnapshot e = Some (snd (engine_snapshot e))"
| "perform OpReset e = Some (snd (engine_reset e))"
| "perform OpRepaint e = engine_repaint_bytes e \<bind> (\<lambda>_. Some e)"
| "perform (OpResync h) e = map_option snd (resync_from_history h e)"

inductive reachable :: "engine \<Rightarrow> bool" where
  fresh: "engine_new cs rs = Inr e \<Longrightarrow> cs \<le> 65528 \<Longrightarrow> rs \<le> u16_max \<Longrightarrow> reachable e"
| operate: "reachable e \<Longrightarrow> op_ok op \<Longrightarrow> perform op e = Some e' \<Longrightarrow> reachable e'"
| restore: "reachable e \<Longrightarrow> reachable e0 \<Longrightarrow> k \<le> u64_max \<Longrightarrow> engine_export_checkpoint k e0 = Inr blob \<Longrightarrow>
    engine_import_checkpoint blob e = (r, e') \<Longrightarrow> reachable e'"

definition engine_inv :: "engine \<Rightarrow> bool" where
  "engine_inv e \<longleftrightarrow> wf_parser (eng_parser e) \<and> wf_screen (eng_screen e) \<and> s_cols (eng_screen e) \<le> 65528"

lemma feed_inv:
  assumes "engine_inv e"
  shows "runs (engine_feed bs e) engine_inv"
proof -
  have i: "screen_inv (eng_screen e) (eng_screen e)" "wf_parser (eng_parser e)"
    using assms by (simp_all add: engine_inv_def screen_inv_def)
  obtain p' s' where f: "feed screen_actions bs (eng_parser e) (eng_screen e) = Some (p', s')"
    "wf_parser p'" "screen_inv (eng_screen e) s'"
    using screen.feed_good [OF i(2,1), of bs] by (auto elim: runsE)
  then have "keeps (eng_screen e) s'" "s_cols (eng_screen e) \<le> 65528" by (simp_all add: screen_inv_def)
  then have "wf_screen s'" "s_cols s' \<le> 65528" by (simp_all add: keepsD(1) keepsD(2))
  with f(1,2) show ?thesis by (simp add: engine_feed_def engine_inv_def)
qed

lemma new_engine:
  assumes "0 < cs" "cs \<le> 65528" "0 < rs" "rs \<le> u16_max"
  shows "\<exists>s. screen_new cs rs = Inr s \<and> wf_screen s \<and> s_cols s \<le> 65528 \<and> s_cols s = cs \<and> s_rows s = rs"
proof -
  obtain s where "screen_new cs rs = Inr s" "wf_screen s" "s_cols s = cs" "s_rows s = rs"
    by (rule screen_new_wf [of cs rs]) (use assms in auto)
  with assms show ?thesis by auto
qed

lemma fresh_inv:
  assumes "engine_new cs rs = Inr e" "cs \<le> 65528" "rs \<le> u16_max"
  shows "engine_inv e"
proof -
  obtain s where s: "screen_new cs rs = Inr s" "e = \<lparr>eng_parser = parser_new, eng_screen = s\<rparr>"
    using assms(1) by (auto simp: engine_new_def split: sum.splits)
  then have "0 < cs" "0 < rs" by (auto simp: screen_new_def split: if_splits)
  with new_engine [of cs rs] assms s show ?thesis by (auto simp: engine_inv_def)
qed

lemma reset_inv:
  assumes "engine_inv e"
  shows "\<exists>s. engine_reset e = (Inr (), \<lparr>eng_parser = parser_new, eng_screen = s\<rparr>) \<and>
    screen_new (s_cols (eng_screen e)) (s_rows (eng_screen e)) = Inr s \<and>
    engine_inv \<lparr>eng_parser = parser_new, eng_screen = s\<rparr>"
proof -
  have "0 < s_cols (eng_screen e)" "s_cols (eng_screen e) \<le> 65528" "0 < s_rows (eng_screen e)" "s_rows (eng_screen e) \<le> u16_max"
    using assms by (simp_all add: engine_inv_def wf_screen_def)
  from new_engine [OF this] show ?thesis
    by (auto simp: engine_reset_def engine_inv_def Let_def)
qed

lemma discard_inv: "engine_inv (e\<lparr>eng_screen := set_discard_replies f (eng_screen e)\<rparr>) = engine_inv e"
  by (simp add: engine_inv_def set_discard_replies_def)

lemma resync_inv:
  assumes "engine_inv e"
  shows "runs (resync_from_history h e) (\<lambda>x. engine_inv (snd x))"
proof -
  obtain e1 where e1: "engine_reset e = (Inr (), e1)" "engine_inv e1" using reset_inv [OF assms] by blast
  let ?on = "e1\<lparr>eng_screen := set_discard_replies True (eng_screen e1)\<rparr>"
  have "engine_inv ?on" using e1(2) by (simp only: discard_inv)
  then have "runs (if h \<noteq> [] then engine_feed h ?on else Some ?on) engine_inv"
    by (simp add: feed_inv)
  then obtain e2 where e2: "(if h \<noteq> [] then engine_feed h ?on else Some ?on) = Some e2" "engine_inv e2"
    by (rule runsE)
  let ?off = "e2\<lparr>eng_screen := set_discard_replies False (eng_screen e2)\<rparr>"
  have off: "engine_inv ?off" using e2(2) by (simp only: discard_inv)
  then have "runs (repaint_bytes (eng_screen ?off)) (\<lambda>_. True)"
    by (intro repaint_runs) (simp add: engine_inv_def)
  then obtain bs where "repaint_bytes (eng_screen ?off) = Some bs" by (rule runsE)
  then have "resync_from_history h e = Some (Inr (clear_and_home @ bs), ?off)"
    unfolding resync_from_history_def e1(1) prod.case sum.case Let_def e2(1) by simp
  with off show ?thesis by simp
qed

text \<open>The operations that cannot fail.\<close>

lemma drain_inv:
  assumes "engine_inv e"
  shows "engine_inv (snd (engine_take_replies e))" "engine_inv (snd (engine_take_scrolled_off e))"
    "engine_inv (snd (engine_snapshot e))" "wf_palette p \<Longrightarrow> engine_inv (engine_set_palette p e)"
  using assms
  by (simp_all add: engine_inv_def engine_take_replies_def engine_take_scrolled_off_def engine_snapshot_def
      engine_set_palette_def take_replies_def take_scrolled_off_def snapshot_def set_palette_def Let_def split_beta)
    (simp_all add: wf_screen_def)

lemma perform_inv:
  assumes inv: "engine_inv e" and ok: "op_ok op"
  shows "runs (perform op e) engine_inv"
proof (cases op)
  case (OpFeed bs)
  with feed_inv [OF inv] show ?thesis by simp
next
  case (OpResize cs rs)
  show ?thesis
  proof (cases "cs = 0 \<or> rs = 0")
    case True
    with inv OpResize show ?thesis by (auto simp: engine_resize_def screen_resize_def)
  next
    case False
    with ok OpResize inv have "wf_screen (eng_screen e)" "0 < cs" "cs \<le> u16_max" "0 < rs" "rs \<le> u16_max" "cs \<le> 65528"
      by (auto simp: engine_inv_def)
    with screen_resize_spec [of "eng_screen e" cs rs] inv OpResize show ?thesis
      by (auto simp: engine_resize_def engine_inv_def runs_iff)
  qed
next
  case OpRepaint
  with inv repaint_runs [of "eng_screen e"] show ?thesis
    by (auto simp: engine_repaint_bytes_def engine_inv_def runs_iff)
next
  case OpReset
  with reset_inv [OF inv] show ?thesis by auto
next
  case (OpResync h)
  with resync_inv [OF inv, of h] show ?thesis by (auto simp: runs_iff)
qed (use drain_inv [OF inv] ok in simp_all)

lemma import_export_engine:
  assumes "engine_inv e0" "k \<le> u64_max" "engine_export_checkpoint k e0 = Inr blob"
  shows "engine_import_checkpoint blob e = (Inr k,
    e\<lparr>eng_screen := restored (eng_screen e0) (eng_screen e), eng_parser := parser_new\<rparr>)"
proof -
  have "encodable (eng_screen e0)" using assms(1) by (simp add: engine_inv_def wf_encodable)
  from import_export [OF this assms(2), of "eng_screen e"] assms(3) show ?thesis
    by (auto simp: engine_import_checkpoint_def engine_export_checkpoint_def split: if_splits)
qed

lemma reachable_inv: "reachable e \<Longrightarrow> engine_inv e"
proof (induction rule: reachable.induct)
  case (fresh cs rs e)
  then show ?case by (rule fresh_inv)
next
  case (operate e op e')
  then show ?case using perform_inv [of e op] by (auto simp: runs_iff)
next
  case (restore e e0 k blob r e')
  have "wf_screen (restored (eng_screen e0) (eng_screen e))"
    using restore.IH by (simp add: engine_inv_def restored_def wf_screen_def)
  moreover have "s_cols (restored (eng_screen e0) (eng_screen e)) \<le> 65528"
    using restore.IH(2) by (simp add: engine_inv_def restored_def)
  ultimately show ?case
    using import_export_engine [OF restore.IH(2) restore.hyps(3,4), of e] restore.hyps(5)
    by (simp add: engine_inv_def)
qed

text \<open>
  C15: no operation of the engine panics. An engine reached from a new one by feeding arbitrary
  bytes, resizing, resetting, resyncing, draining, repainting and restoring checkpoints that reached
  engines exported keeps its invariant, and every further such operation returns. The restriction to
  exported checkpoints is needed: a forged one that is accepted can make a later scroll panic
  (\<open>imported_scroll_region_unchecked\<close>).
\<close>

theorem reachable_engine_never_panics:
  assumes "reachable e" and "op_ok op"
  shows "engine_inv e \<and> (\<exists>e'. perform op e = Some e' \<and> reachable e')"
proof -
  have "engine_inv e" using assms(1) by (rule reachable_inv)
  with perform_inv [OF this assms(2)] assms show ?thesis
    by (auto simp: runs_iff intro: reachable.operate)
qed

lemma reachable_engine_never_panics_witness:
  "\<exists>e e'. engine_new 80 24 = Inr e \<and> perform (OpFeed [0xff, 0x1b, 0x5b, 0x41]) e = Some e' \<and> reachable e'"
proof -
  obtain s where "screen_new 80 24 = Inr s" by (rule screen_new_wf [of 80 24]) simp_all
  then have "engine_new 80 24 = Inr \<lparr>eng_parser = parser_new, eng_screen = s\<rparr>" by (simp add: engine_new_def)
  moreover from this have "reachable \<lparr>eng_parser = parser_new, eng_screen = s\<rparr>" by (rule reachable.fresh) simp_all
  from reachable_engine_never_panics [OF this, of "OpFeed [0xff, 0x1b, 0x5b, 0x41]"]
  have "\<exists>e'. perform (OpFeed [0xff, 0x1b, 0x5b, 0x41]) \<lparr>eng_parser = parser_new, eng_screen = s\<rparr> = Some e' \<and> reachable e'"
    by simp
  ultimately show ?thesis by blast
qed


end
