(* ===== verification/Vt_View.thy ===== *)
theory Vt_View imports Vt_Screen_Safe begin

text \<open>
  What the drained parts of the state cannot influence, for \<open>src/crates/vt-engine/src/parser.rs\<close> and
  \<open>screen.rs\<close>: parsers that differ in stale buffers and screens that differ in damage marks,
  replies and scrolled-off rows behave alike under every input. Checkpoint recovery rests on it,
  since a checkpoint carries neither.
\<close>

section \<open>Related computations\<close>

lemma rel_option_bind_I:
  assumes "rel_option R m m'" "\<And>x y. R x y \<Longrightarrow> rel_option S (f x) (g y)"
  shows "rel_option S (m \<bind> f) (m' \<bind> g)"
  using assms by (cases m; cases m') auto

lemma rel_option_same_I:
  assumes "\<And>x. rel_option S (f x) (g x)"
  shows "rel_option S (m \<bind> f) (m \<bind> g)"
  using assms by (cases m) auto

lemma rel_if: "rel_option R a c \<Longrightarrow> rel_option R b d \<Longrightarrow> rel_option R (if P then a else b) (if P then c else d)"
  by simp

lemma rel_for_each:
  assumes "R s t" "\<And>i s t. R s t \<Longrightarrow> rel_option R (f i s) (g i t)"
  shows "rel_option R (for_each is f s) (for_each is g t)"
  using assms(1)
proof (induction "is" arbitrary: s t)
  case Nil
  then show ?case by simp
next
  case (Cons i "is")
  show ?case unfolding for_each.simps
    by (rule rel_option_bind_I [OF assms(2) [OF Cons.prems]]) (rule Cons.IH)
qed

section \<open>Parsers that behave alike\<close>

text \<open>
  Two parsers behave alike when they differ only in buffer contents that the next sequence
  overwrites: in \<open>Ground\<close> everything a sequence collects, elsewhere the unused part of the
  string buffer.
\<close>

definition alike :: "parser \<Rightarrow> parser \<Rightarrow> bool" where
  "alike p q \<longleftrightarrow> p_state q = p_state p \<and> putback q = putback p \<and> utf8_needed q = utf8_needed p \<and>
     utf8_len q = utf8_len p \<and> (0 < utf8_needed p \<longrightarrow> p_state p = Ground \<and> utf8 q = utf8 p) \<and> length (osc q) = length (osc p) \<and>
     (p_state p \<noteq> Ground \<longrightarrow> params q = params p \<and> param_len q = param_len p \<and> param_acc q = param_acc p \<and>
       intermediates q = intermediates p \<and> inter_len q = inter_len p \<and> ignore q = ignore p \<and>
       osc_len q = osc_len p \<and> take (osc_len p) (osc q) = take (osc_len p) (osc p))"

lemma alike_refl: "wf_parser p \<Longrightarrow> alike p p"
  by (simp add: alike_def wf_parser_def)

lemma idle_alike:
  assumes "wf_parser p" "wf_parser q" "is_idle p" "is_idle q"
  shows "alike p q"
  using assms idle_needs_nothing [OF assms(1,3)] idle_needs_nothing [OF assms(2,4)]
  by (simp add: alike_def is_idle_def wf_parser_def)

text \<open>Outside \<open>Ground\<close> only two buffers can differ.\<close>

lemma alike_seqE:
  assumes "alike p q" "p_state p \<noteq> Ground"
  obtains u os where "q = p\<lparr>utf8 := u, osc := os\<rparr>" "length os = length (osc p)"
    "take (osc_len p) os = take (osc_len p) (osc p)" "0 < utf8_needed p \<longrightarrow> u = utf8 p"
proof -
  have "q = p\<lparr>utf8 := utf8 q, osc := osc q\<rparr>"
    using assms by (simp add: alike_def parser.equality)
  then show ?thesis by (rule that) (use assms in \<open>simp_all add: alike_def\<close>)
qed

lemma alike_seq:
  assumes "length os = length (osc p)" "take (osc_len p) os = take (osc_len p) (osc p)"
    "utf8_needed p = 0"
  shows "alike p (p\<lparr>utf8 := u, osc := os\<rparr>)"
  using assms by (simp add: alike_def)

text \<open>
  The contract of a client whose reactions do not depend on part of its state: related states
  stay related, whatever the parser reports. Parsers that behave alike keep them related.
\<close>

locale vt_respects =
  fixes acts :: "'s actions" and R :: "'s \<Rightarrow> 's \<Rightarrow> bool"
  assumes print_rel: "R s t \<Longrightarrow> rel_option R (act_print acts c s) (act_print acts c t)"
    and execute_rel: "R s t \<Longrightarrow> rel_option R (act_execute acts b s) (act_execute acts b t)"
    and csi_rel: "R s t \<Longrightarrow> rel_option R (act_csi acts ps is ign b s) (act_csi acts ps is ign b t)"
    and esc_rel: "R s t \<Longrightarrow> rel_option R (act_esc acts is b s) (act_esc acts is b t)"
    and osc_rel: "R s t \<Longrightarrow> rel_option R (act_osc acts payload s) (act_osc acts payload t)"
begin

abbreviation related :: "(parser \<times> 's) option \<Rightarrow> (parser \<times> 's) option \<Rightarrow> bool" where
  "related \<equiv> rel_option (rel_prod alike R)"

lemma emit_rel: "rel_option R m m' \<Longrightarrow> alike p q \<Longrightarrow> related (emit m p) (emit m' q)"
  unfolding emit_def by (rule rel_option_bind_I) auto

lemma ground_rel:
  assumes "alike p q" "p_state p = Ground" "R s t"
  shows "related (ground acts b p s) (ground acts b q t)"
proof -
  have e: "p_state q = Ground" "utf8_needed q = utf8_needed p" "utf8_len q = utf8_len p" "putback q = putback p"
    "length (osc q) = length (osc p)" "0 < utf8_needed p \<Longrightarrow> utf8 q = utf8 p"
    using assms(1,2) by (auto simp: alike_def)
  show ?thesis
  proof (cases "0 < utf8_needed p")
    case True
    have "related (abort_utf8 acts p s \<bind> (\<lambda>(p', s'). Some (reprocess b p', s')))
        (abort_utf8 acts q t \<bind> (\<lambda>(p', s'). Some (reprocess b p', s')))"
      unfolding abort_utf8_def e(2) if_P [OF True]
      by (rule rel_option_bind_I [OF emit_rel [OF print_rel [OF assms(3)]]])
        (use e assms(2) in \<open>auto simp: alike_def reprocess_def\<close>)
    moreover have "related (set_at (utf8 p) (utf8_len p) b \<bind>
           (\<lambda>u. let p' = p\<lparr>utf8 := u, utf8_len := utf8_len p + 1\<rparr>
             in if utf8_len p' = utf8_needed p' then finish_utf8 acts p' s else Some (p', s)))
        (set_at (utf8 q) (utf8_len q) b \<bind>
           (\<lambda>u. let p' = q\<lparr>utf8 := u, utf8_len := utf8_len q + 1\<rparr>
             in if utf8_len p' = utf8_needed p' then finish_utf8 acts p' t else Some (p', t)))"
      unfolding e(3) e(6) [OF True]
      by (rule rel_option_same_I)
        (use e assms(2,3) in \<open>auto simp: Let_def finish_utf8_def alike_def intro!: rel_option_same_I emit_rel print_rel\<close>)
    ultimately show ?thesis using True e by (simp add: ground_def)
  next
    case False
    then show ?thesis
      using e assms
      by (auto simp: ground_def intro!: emit_rel execute_rel print_rel)
        (auto simp: alike_def goto_def reset_seq_def start_utf8_def)
  qed
qed

lemma take_grow: "n < length xs \<Longrightarrow> take (Suc n) (xs[n := b]) = take n xs @ [b]"
  by (simp add: take_Suc_conv_app_nth)

lemma seq_rel:
  assumes "alike p q" "p_state p \<noteq> Ground" "utf8_needed p = 0" "R s t"
  shows "related (state_step acts b p s) (state_step acts b q t)"
proof -
  obtain u os where q: "q = p\<lparr>utf8 := u, osc := os\<rparr>" "length os = length (osc p)"
    "take (osc_len p) os = take (osc_len p) (osc p)" "0 < utf8_needed p \<longrightarrow> u = utf8 p"
    using assms(1,2) by (rule alike_seqE)
  have inter: "related (push_inter b p \<bind> (\<lambda>p'. Some (f p', s))) (push_inter b q \<bind> (\<lambda>p'. Some (f p', t)))"
    if "f = (\<lambda>p. p) \<or> (\<exists>st. f = goto st)" for f
    using that q(2-4) assms(3,4) unfolding push_inter_def q(1)
    by (auto simp: alike_def goto_def intro!: rel_option_same_I)
  have fin: "related (finish_param p \<bind> (\<lambda>p'. Some (f p', s))) (finish_param q \<bind> (\<lambda>p'. Some (f p', t)))"
    if "f = (\<lambda>p. p) \<or> (\<exists>st. f = goto st)" for f
    using that q(2-4) assms(3,4) unfolding finish_param_def q(1)
    by (auto simp: alike_def goto_def intro!: rel_option_same_I)
  have osc: "related (push_osc b p \<bind> (\<lambda>p'. Some (p', s))) (push_osc b q \<bind> (\<lambda>p'. Some (p', t)))"
    using q(2-4) assms(3,4) unfolding push_osc_def q(1)
    by (auto simp: alike_def set_at_def take_grow)
  have esc: "related (dispatch_esc acts b p s) (dispatch_esc acts b q t)"
    using q(2-4) assms(3,4) unfolding dispatch_esc_def q(1)
    by (auto simp: alike_def goto_def reset_seq_def intro!: rel_option_same_I emit_rel esc_rel)
  have csi: "related (dispatch_csi acts b p' s) (dispatch_csi acts b q' t)"
    if "alike p' q'" "p_state p' \<noteq> Ground" for p' q'
    using that assms(3,4) unfolding dispatch_csi_def
    by (auto simp: alike_def goto_def reset_seq_def intro!: rel_option_same_I emit_rel csi_rel)
  have "slice os 0 (osc_len p) = slice (osc p) 0 (osc_len p)"
    using q(2,3) by (simp add: slice_def)
  then have osc': "related (dispatch_osc acts p s) (dispatch_osc acts q t)"
    using q(2-4) assms(3,4) unfolding dispatch_osc_def q(1)
    by (auto simp: alike_def goto_def reset_seq_def intro!: rel_option_same_I emit_rel osc_rel)
  have both: "related (finish_param p \<bind> (\<lambda>p'. push_inter b p' \<bind> (\<lambda>p''. Some (goto CsiIntermediate p'', s))))
      (finish_param q \<bind> (\<lambda>p'. push_inter b p' \<bind> (\<lambda>p''. Some (goto CsiIntermediate p'', t))))"
    using q(2-4) assms(3,4) unfolding finish_param_def q(1) push_inter_def
    by (auto simp: alike_def goto_def intro!: rel_option_same_I)
  have fincsi: "related (finish_param p \<bind> (\<lambda>p'. dispatch_csi acts b p' s))
      (finish_param q \<bind> (\<lambda>p'. dispatch_csi acts b p' t))"
    using q(2-4) assms(2,3) unfolding finish_param_def q(1)
    by (auto simp: alike_def intro!: rel_option_same_I csi)
  have exec: "related (emit (act_execute acts b s) (g p)) (emit (act_execute acts b t) (g q))" if "alike (g p) (g q)" for g
    using emit_rel [OF execute_rel [OF assms(4)] that] .
  have st: "p_state q = p_state p" using assms(1) by (simp add: alike_def)
  have moves: "alike (goto st p) (goto st q)" "alike (reset_seq (goto st p)) (reset_seq (goto st q))"
    "alike (goto st (reset_seq p)) (goto st (reset_seq q))" "alike (reset_seq p) (reset_seq q)"
    "alike (goto st (p\<lparr>ignore := True\<rparr>)) (goto st (q\<lparr>ignore := True\<rparr>))" "alike (p\<lparr>ignore := True\<rparr>) (q\<lparr>ignore := True\<rparr>)"
    "alike (push_digit b p) (push_digit b q)" "alike (goto st (push_digit b p)) (goto st (push_digit b q))"
    "alike (reprocess b (reset_seq (goto st p))) (reprocess b (reset_seq (goto st q)))" for st
    using assms(1-3) by (auto simp: alike_def goto_def reset_seq_def push_digit_def reprocess_def Let_def)
  have some: "related (Some (p', s)) (Some (q', t))" if "alike p' q'" for p' q'
    using that assms(4) by simp
  have inters: "related (push_inter b p \<bind> (\<lambda>p'. Some (p', s))) (push_inter b q \<bind> (\<lambda>p'. Some (p', t)))"
    "related (push_inter b p \<bind> (\<lambda>p'. Some (goto st p', s))) (push_inter b q \<bind> (\<lambda>p'. Some (goto st p', t)))" for st
    using inter [of "\<lambda>p. p"] inter [of "goto st"] by auto
  have fins: "related (finish_param p \<bind> (\<lambda>p'. Some (p', s))) (finish_param q \<bind> (\<lambda>p'. Some (p', t)))"
    "related (finish_param p \<bind> (\<lambda>p'. Some (goto st p', s))) (finish_param q \<bind> (\<lambda>p'. Some (goto st p', t)))" for st
    using fin [of "\<lambda>p. p"] fin [of "goto st"] by auto
  note rules = exec [of "\<lambda>p. p", OF assms(1)] exec [of "goto Ground", OF moves(1)]
    exec [of "\<lambda>p. reset_seq (goto Ground p)", OF moves(2)] exec [of "\<lambda>p. goto Ground (reset_seq p)", OF moves(3)] moves [THEN some] some [OF assms(1)]
    inters fins osc esc osc' both fincsi csi [OF assms(1,2)]
  show ?thesis
    using assms(2) unfolding state_step_def st state_defs
    by (cases "p_state p") (simp_all only: pstate.case simp_thms, (rule rel_if rules)+)
qed

lemma step_rel:
  assumes "alike p q" "R s t"
  shows "related (step acts b p s) (step acts b q t)"
proof (cases "p_state p = Ground")
  case True
  then show ?thesis
    using assms ground_rel [OF assms(1) True assms(2)] by (simp add: step_def state_step_def alike_def)
next
  case False
  then have "utf8_needed p = 0" using assms(1) by (auto simp: alike_def)
  with seq_rel [OF assms(1) False this assms(2)] assms(1) show ?thesis by (simp add: step_def alike_def)
qed

lemma alike_putback: "alike p q \<Longrightarrow> alike (p\<lparr>putback := x\<rparr>) (q\<lparr>putback := x\<rparr>)"
  by (simp add: alike_def)

lemma feed_rel: "alike p q \<Longrightarrow> R s t \<Longrightarrow> related (feed acts bs p s) (feed acts bs q t)"
proof (induction a \<equiv> acts bs p s arbitrary: q t rule: feed.induct)
  case (1 bs p s)
  have pb: "putback q = putback p" using "1.prems" by (simp add: alike_def)
  show ?case
  proof (cases "putback p")
    case (Some b)
    with step_rel [OF alike_putback [OF "1.prems"(1), of None] "1.prems"(2), of b] pb show ?thesis
      by (cases "step acts b (p\<lparr>putback := None\<rparr>) s"; cases "step acts b (q\<lparr>putback := None\<rparr>) t")
        (auto simp: feed.simps [of acts _ p] feed.simps [of acts _ q] intro!: "1"(2) [OF Some])
  next
    case None
    show ?thesis
    proof (cases bs)
      case Nil
      with None pb "1.prems" show ?thesis by (simp add: feed.simps [of acts _ p] feed.simps [of acts _ q])
    next
      case (Cons b bs')
      with step_rel [OF "1.prems", of b] None pb show ?thesis
        by (cases "step acts b p s"; cases "step acts b q t")
         (auto simp: feed.simps [of acts _ p] feed.simps [of acts _ q] intro!: "1"(1) [OF None Cons])
    qed
  qed
qed

end


section \<open>Screens that look alike\<close>

text \<open>
  Everything a viewer or a program can tell about a screen, apart from what is drained from it:
  the damage marks, the reply queue with its counter and switch, and the rows scrolled off.
\<close>

definition agree :: "screen \<Rightarrow> screen \<Rightarrow> bool" where
  "agree s t \<longleftrightarrow>
     s_cols t = s_cols s \<and> s_rows t = s_rows s \<and> s_cells t = s_cells s \<and>
     s_cursor_col t = s_cursor_col s \<and> s_cursor_row t = s_cursor_row s \<and>
     s_cursor_visible t = s_cursor_visible s \<and> s_pending_wrap t = s_pending_wrap s \<and>
     s_autowrap t = s_autowrap s \<and> s_scroll_top t = s_scroll_top s \<and>
     s_scroll_bottom t = s_scroll_bottom s \<and> s_palette t = s_palette s \<and>
     s_pen_fg t = s_pen_fg s \<and> s_pen_bg t = s_pen_bg s \<and> s_pen_attrs t = s_pen_attrs s \<and>
     s_saved_cursor t = s_saved_cursor s \<and> s_alt_cursor t = s_alt_cursor s \<and>
     s_saved_grid t = s_saved_grid s \<and> s_in_alt t = s_in_alt s \<and>
     s_open_cluster t = s_open_cluster s \<and> s_grapheme_truncated t = s_grapheme_truncated s \<and>
     s_application_cursor_keys t = s_application_cursor_keys s \<and>
     s_application_keypad t = s_application_keypad s \<and> s_bracketed_paste t = s_bracketed_paste s \<and>
     s_mouse_x10 t = s_mouse_x10 s \<and> s_mouse_button t = s_mouse_button s \<and>
     s_mouse_any t = s_mouse_any s \<and> s_mouse_sgr t = s_mouse_sgr s \<and>
     s_focus_events t = s_focus_events s"

lemma agree_refl [simp]: "agree s s"
  by (simp add: agree_def)

abbreviation same_run :: "screen option \<Rightarrow> screen option \<Rightarrow> bool" where
  "same_run \<equiv> rel_option agree"

lemma agree_if: "agree a c \<Longrightarrow> agree b d \<Longrightarrow> agree (if P then a else b) (if P then c else d)"
  by simp

lemma same_Some: "agree s t \<Longrightarrow> same_run (Some s) (Some t)"
  by simp

lemmas same_bind = rel_option_bind_I [where R = agree and S = agree]
lemmas same_value = rel_option_same_I [where S = agree]
lemmas same_if = rel_if [where R = agree]
lemmas same_for_each = rel_for_each [where R = agree]
lemmas same_steps = same_if same_bind same_for_each

lemma agree_idx: "agree s t \<Longrightarrow> idx t c r = idx s c r"
  by (simp add: agree_def idx_def)

lemma agree_dirty: "agree s t \<Longrightarrow> agree (dirty r s) (dirty r' t)"
  by (simp add: agree_def dirty_def)

lemma agree_dirty_fold: "agree s t \<Longrightarrow> agree (fold dirty rs s) (fold dirty rs t)"
  by (induction rs arbitrary: s t) (simp_all add: agree_dirty)

lemma agree_enqueue: "agree s t \<Longrightarrow> agree (enqueue_reply bs s) (enqueue_reply bs t)"
  by (simp add: agree_def enqueue_reply_def)

lemma agree_sgr_one: "agree s t \<Longrightarrow> agree (sgr_one n s) (sgr_one n t)"
  by (simp add: agree_def sgr_one_def)

lemma agree_set_pen: "agree s t \<Longrightarrow> agree (set_pen fg c s) (set_pen fg c t)"
  by (simp add: agree_def set_pen_def)

lemma agree_sgr_loop: "agree s t \<Longrightarrow> agree (sgr_loop ps s) (sgr_loop ps t)"
proof (induction ps arbitrary: s t rule: length_induct)
  case (1 ps)
  note ih = "1.IH" [rule_format]
  show ?case
  proof (cases ps)
    case Nil
    with "1.prems" show ?thesis by simp
  next
    case (Cons n qs)
    note rules = ih agree_sgr_one agree_set_pen "1.prems"
    have ext: "agree (case qs of [] \<Rightarrow> s | k # ps' \<Rightarrow>
        if k = 5 then (case ps' of [] \<Rightarrow> s | ix # ps'' \<Rightarrow> sgr_loop ps'' (set_pen (n = 38) (paint_indexed ix) s))
        else if k = 2 then (case ps' of
            r # g # b # ps'' \<Rightarrow> sgr_loop ps'' (set_pen (n = 38) (Rgb (clamp_u8 r) (clamp_u8 g) (clamp_u8 b)) s)
          | _ \<Rightarrow> sgr_loop ps' s)
        else sgr_loop qs s)
      (case qs of [] \<Rightarrow> t | k # ps' \<Rightarrow>
        if k = 5 then (case ps' of [] \<Rightarrow> t | ix # ps'' \<Rightarrow> sgr_loop ps'' (set_pen (n = 38) (paint_indexed ix) t))
        else if k = 2 then (case ps' of
            r # g # b # ps'' \<Rightarrow> sgr_loop ps'' (set_pen (n = 38) (Rgb (clamp_u8 r) (clamp_u8 g) (clamp_u8 b)) t)
          | _ \<Rightarrow> sgr_loop ps' t)
        else sgr_loop qs t)"
      using Cons by (auto intro!: rules simp del: sgr_loop.simps split: list.split)
    have "agree (sgr_loop qs (sgr_one n s)) (sgr_loop qs (sgr_one n t))"
      using Cons by (intro rules) simp
    with ext show ?thesis unfolding Cons sgr_loop.simps(2) by (rule agree_if)
  qed
qed

lemma agree_apply_sgr: "agree s t \<Longrightarrow> agree (apply_sgr ps s) (apply_sgr ps t)"
  by (simp add: apply_sgr_def agree_sgr_loop)

lemma same_cells_ops:
  assumes "agree s t"
  shows "same_run (move_cells a b d s) (move_cells a b d t)"
    "same_run (fill_cells a b v s) (fill_cells a b v t)"
    "same_run (put_cell_at i v s) (put_cell_at i v t)"
proof -
  have c: "s_cells t = s_cells s" using assms by (simp add: agree_def)
  show "same_run (move_cells a b d s) (move_cells a b d t)"
    "same_run (fill_cells a b v s) (fill_cells a b v t)" "same_run (put_cell_at i v s) (put_cell_at i v t)"
    unfolding move_cells_def fill_cells_def put_cell_at_def c
    by (rule rel_option_same_I, use assms in \<open>simp add: agree_def\<close>)+
qed

lemma same_fill_pen:
  assumes "agree s t"
  shows "same_run (fill_cells a b (cell_blank (s_pen_bg s)) s) (fill_cells a b (cell_blank (s_pen_bg t)) t)"
proof -
  have "s_pen_bg t = s_pen_bg s" using assms by (simp add: agree_def)
  with same_cells_ops(2) [OF assms] show ?thesis by simp
qed

lemma agree_full: "agree s t \<Longrightarrow> agree (s\<lparr>s_full_damage := f\<rparr>) (t\<lparr>s_full_damage := g\<rparr>)"
  by (simp add: agree_def)

lemma agree_geometry:
  assumes "agree s t"
  shows "s_cols t = s_cols s" "s_rows t = s_rows s" "s_cells t = s_cells s" "s_in_alt t = s_in_alt s"
    "s_scroll_top t = s_scroll_top s" "s_scroll_bottom t = s_scroll_bottom s" "s_pen_bg t = s_pen_bg s"
    "s_cursor_col t = s_cursor_col s" "s_cursor_row t = s_cursor_row s" "idx t c r = idx s c r"
  using assms by (simp_all add: agree_def idx_def)

lemma same_scroll_up:
  assumes a: "agree s t"
  shows "same_run (scroll_up s) (scroll_up t)"
proof -
  have "same_run
      (if \<not> s_in_alt s \<and> s_scroll_top s = 0 \<and> s_cols s > 0
       then slice (s_cells s) (s_scroll_top s * s_cols s) (s_scroll_top s * s_cols s + s_cols s) \<bind>
         (\<lambda>row. Some (s\<lparr>s_scrolled_off := s_scrolled_off s @ [row]\<rparr>)) else Some s)
      (if \<not> s_in_alt s \<and> s_scroll_top s = 0 \<and> s_cols s > 0
       then slice (s_cells s) (s_scroll_top s * s_cols s) (s_scroll_top s * s_cols s + s_cols s) \<bind>
         (\<lambda>row. Some (t\<lparr>s_scrolled_off := s_scrolled_off t @ [row]\<rparr>)) else Some t)"
    using a by (auto intro!: rel_option_same_I) (simp_all add: agree_def)
  then show ?thesis
    unfolding scroll_up_def Let_def agree_geometry [OF a]
    by (rule same_bind) (rule same_steps same_cells_ops same_fill_pen same_Some agree_full | assumption)+
qed

lemma same_scroll_down:
  assumes a: "agree s t"
  shows "same_run (scroll_down s) (scroll_down t)"
  unfolding scroll_down_def Let_def agree_geometry [OF a]
  by (rule same_steps same_cells_ops same_fill_pen same_Some agree_full a | assumption)+

lemma same_index:
  assumes a: "agree s t"
  shows "same_run (index s) (index t)" "same_run (reverse_index s) (reverse_index t)"
proof -
  show "same_run (index s) (index t)"
    unfolding index_def agree_geometry [OF a]
    using same_scroll_up [OF a] a by (auto intro!: rel_option_same_I) (simp add: agree_def)
  show "same_run (reverse_index s) (reverse_index t)"
    unfolding reverse_index_def agree_geometry [OF a]
    using same_scroll_down [OF a] a by (auto simp: agree_def)
qed


lemma agree_set_cursor: "agree s t \<Longrightarrow> agree (set_cursor r c s) (set_cursor r c t)"
  by (simp add: agree_def set_cursor_def Let_def clear_pending_wrap_def last_row_def last_col_def)

lemma agree_restore_cursor: "agree s t \<Longrightarrow> agree (restore_cursor c s) (restore_cursor c t)"
  by (simp add: agree_def restore_cursor_def clear_pending_wrap_def last_row_def last_col_def)

lemma agree_clear_pending_wrap: "agree s t \<Longrightarrow> agree (clear_pending_wrap s) (clear_pending_wrap t)"
  by (simp add: agree_def clear_pending_wrap_def)

lemma agree_close_cluster: "agree s t \<Longrightarrow> agree (close_cluster s) (close_cluster t)"
  by (simp add: agree_def close_cluster_def clear_pending_wrap_def)

lemma capture_agree: "agree s t \<Longrightarrow> capture_cursor t = capture_cursor s"
  by (simp add: agree_def capture_cursor_def)

lemma agree_scroll_region:
  assumes a: "agree s t"
  shows "agree (set_scroll_region ps s) (set_scroll_region ps t)"
  unfolding set_scroll_region_def Let_def agree_geometry [OF a]
  by (rule agree_if [OF a agree_set_cursor]) (use a in \<open>simp add: agree_def\<close>)

lemma agree_enter_alt:
  assumes a: "agree s t"
  shows "agree (enter_alt save clear s) (enter_alt save clear t)"
proof -
  let ?saved = "\<lambda>s. if \<not> s_in_alt s
     then s\<lparr>s_saved_grid := Some (s_cells s), s_alt_cursor := (if save then Some (capture_cursor s) else None)\<rparr> else s"
  let ?clear = "\<lambda>s. if clear then set_cursor 0 0 (s\<lparr>s_cells := blank_grid s\<rparr>) else s"
  have "agree (?saved s) (?saved t)"
    using a unfolding agree_geometry [OF a] capture_agree [OF a] by (simp add: agree_def)
  moreover have "agree (?clear s) (?clear t)" if "agree s t" for s t
    using that by (intro agree_if agree_set_cursor) (simp_all add: agree_def blank_grid_def)
  moreover have "agree (s\<lparr>s_in_alt := True, s_full_damage := True\<rparr>) (t\<lparr>s_in_alt := True, s_full_damage := True\<rparr>)"
    if "agree s t" for s t using that by (simp add: agree_def)
  ultimately show ?thesis unfolding enter_alt_def Let_def by blast
qed

lemma agree_leave_alt:
  assumes a: "agree s t"
  shows "agree (leave_alt restore s) (leave_alt restore t)"
proof -
  let ?grid = "\<lambda>s. case s_saved_grid s of None \<Rightarrow> s | Some g \<Rightarrow> s\<lparr>s_saved_grid := None, s_cells := g\<rparr>"
  let ?cur = "\<lambda>s. if restore then (case s_alt_cursor s of None \<Rightarrow> s
     | Some c \<Rightarrow> restore_cursor c (s\<lparr>s_alt_cursor := None\<rparr>)) else s\<lparr>s_alt_cursor := None\<rparr>"
  have "agree (?grid s) (?grid t)"
    using a by (cases "s_saved_grid s") (simp_all add: agree_def)
  moreover have "agree (?cur s) (?cur t)" if "agree s t" for s t
  proof -
    have c: "s_alt_cursor t = s_alt_cursor s" "agree (s\<lparr>s_alt_cursor := None\<rparr>) (t\<lparr>s_alt_cursor := None\<rparr>)"
      using that by (simp_all add: agree_def)
    show ?thesis
      using that c agree_restore_cursor [OF c(2)] by (cases "s_alt_cursor s") simp_all
  qed
  moreover have "agree (s\<lparr>s_in_alt := False, s_full_damage := True\<rparr>) (t\<lparr>s_in_alt := False, s_full_damage := True\<rparr>)"
    if "agree s t" for s t using that by (simp add: agree_def)
  ultimately show ?thesis
    unfolding leave_alt_def Let_def agree_geometry [OF a] using a by (intro agree_if) blast+
qed

lemma agree_private_mode_one:
  assumes a: "agree s t"
  shows "agree (private_mode_one on n s) (private_mode_one on n t)"
  unfolding private_mode_one_def
  by (intro agree_if agree_enter_alt agree_leave_alt a) (use a in \<open>simp_all add: agree_def\<close>)

lemma agree_private_mode: "agree s t \<Longrightarrow> agree (private_mode ps on s) (private_mode ps on t)"
  unfolding private_mode_def
  by (induction ps arbitrary: s t) (simp_all add: agree_private_mode_one)

section \<open>Writing and editing\<close>

lemma agree_advance:
  assumes a: "agree s t"
  shows "agree (advance_after_width w s) (advance_after_width w t)"
  unfolding advance_after_width_def Let_def agree_geometry [OF a] last_col_def
  by (rule agree_if) (use a in \<open>simp_all add: agree_def\<close>)

lemma same_blank_if:
  assumes a: "agree s t"
  shows "same_run (blank_if m c r s) (blank_if m c r t)"
  unfolding blank_if_def agree_geometry [OF a]
  by (rule same_value, rule same_if) (simp_all add: a same_cells_ops)

lemma same_smash:
  assumes a: "agree s t"
  shows "same_run (smash_wide_at c r s) (smash_wide_at c r t)"
  unfolding smash_wide_at_def Let_def agree_geometry [OF a]
  by (rule same_if same_value same_bind same_blank_if same_Some a | assumption)+

lemma same_wrap:
  assumes a: "agree s t"
  shows "same_run (wrap_if_needed_width w s) (wrap_if_needed_width w t)"
proof -
  have e: "s_pending_wrap t = s_pending_wrap s" "remaining_cols t = remaining_cols s" "s_autowrap t = s_autowrap s"
    using a by (simp_all add: agree_def remaining_cols_def)
  show ?thesis
    unfolding wrap_if_needed_width_def e
    by (intro same_if same_Some a same_index(1)) (use a in \<open>simp_all add: agree_def\<close>)
qed

lemma agree_append:
  assumes a: "agree s t"
  shows "rel_prod (=) agree (append_to_cluster c s) (append_to_cluster c t)"
proof -
  have e: "s_open_cluster t = s_open_cluster s" "s_grapheme_truncated t = s_grapheme_truncated s"
    using a by (simp_all add: agree_def)
  have "agree (if f then s\<lparr>s_grapheme_truncated := k\<rparr> else s) (if f then t\<lparr>s_grapheme_truncated := k\<rparr> else t)" for f k
    using a by (simp add: agree_def)
  note d = agree_dirty [OF this]
  have upd: "agree (s\<lparr>s_open_cluster := cl\<rparr>) (t\<lparr>s_open_cluster := cl\<rparr>)" if "agree s t" for s t cl
    using that by (simp add: agree_def)
  show ?thesis
    unfolding append_to_cluster_def e
    by (cases "s_open_cluster s") (simp_all only: option.case rel_prod_inject Let_def upd [OF d] a simp_thms)
qed

lemma same_expand:
  assumes a: "agree s t"
  shows "same_run (maybe_expand_ri_pair s) (maybe_expand_ri_pair t)"
proof (cases "s_open_cluster s")
  case None
  moreover from this a have "s_open_cluster t = None" by (simp add: agree_def)
  ultimately show ?thesis using a by (simp add: maybe_expand_ri_pair_def)
next
  case (Some cl)
  let ?tail = "sat_add u16_max (oc_col cl) 1"
  let ?fin = "\<lambda>s. let s = dirty (oc_row cl) (s\<lparr>s_open_cluster := Some (cl\<lparr>oc_width := 2\<rparr>)\<rparr>)
     in Some (if s_cursor_col s \<le> ?tail \<and> s_cursor_row s = oc_row cl
              then advance_after_width 1 (s\<lparr>s_cursor_col := ?tail\<rparr>) else s)"
  have fin: "same_run (?fin s) (?fin t)" if "agree s t" for s t
  proof -
    have d: "agree (dirty (oc_row cl) (s\<lparr>s_open_cluster := Some (cl\<lparr>oc_width := 2\<rparr>)\<rparr>))
        (dirty (oc_row cl) (t\<lparr>s_open_cluster := Some (cl\<lparr>oc_width := 2\<rparr>)\<rparr>))"
      using that by (intro agree_dirty) (simp add: agree_def)
    show ?thesis
      unfolding Let_def agree_geometry [OF d]
      by (intro same_Some agree_if agree_advance d) (use d in \<open>simp add: agree_def\<close>)
  qed
  have t: "s_open_cluster t = Some cl" using a Some by (simp add: agree_def)
  show ?thesis
    unfolding maybe_expand_ri_pair_def Some t option.case Let_def agree_geometry [OF a]
    by (intro same_if same_Some a same_bind [OF same_smash [OF a]])
      (simp only: agree_geometry, intro same_value same_bind same_cells_ops fin [unfolded Let_def]; assumption)
qed


lemma same_glyph:
  assumes a: "agree s t"
  shows "same_run (write_glyph c w s) (write_glyph c w t)"
proof -
  let ?row = "s_cursor_row s" and ?col = "s_cursor_col s"
  let ?cell = "\<lambda>m s. \<lparr>c_codepoint = c, c_fg = s_pen_fg s, c_bg = s_pen_bg s, c_attrs = (s_pen_attrs s AND 7) OR m\<rparr>"
  have cell: "?cell m y = ?cell m x" if "agree x y" for x y m
    using that by (simp add: agree_def)
  have fin: "agree (advance_after_width w (dirty r (x\<lparr>s_open_cluster := cl\<rparr>)))
      (advance_after_width w (dirty r (y\<lparr>s_open_cluster := cl\<rparr>)))" if "agree x y" for x y r cl
    using that by (intro agree_advance agree_dirty) (simp add: agree_def)
  have put: "same_run (put_cell_at (idx x col r) (?cell m x) x) (put_cell_at (idx y col r) (?cell m y) y)"
    if "agree x y" for x y m col r
    unfolding cell [OF that] agree_geometry(10) [OF that] by (rule same_cells_ops [OF that])
  have tail: "same_run
      (put_cell_at (idx x ?col ?row) (?cell (if w = 2 then ATTR_WIDE_LEAD else 0) x) x \<bind> (\<lambda>s.
       (if w = 2 then u16_add ?col 1 \<bind> (\<lambda>col1. put_cell_at (idx s col1 ?row)
          \<lparr>c_codepoint = c, c_fg = s_pen_fg s, c_bg = s_pen_bg s, c_attrs = (s_pen_attrs x AND 7) OR ATTR_WIDE_TAIL\<rparr> s)
        else Some s) \<bind> (\<lambda>s. Some (advance_after_width w (dirty ?row (s\<lparr>s_open_cluster := Some cl\<rparr>))))))
      (put_cell_at (idx y ?col ?row) (?cell (if w = 2 then ATTR_WIDE_LEAD else 0) y) y \<bind> (\<lambda>s.
       (if w = 2 then u16_add ?col 1 \<bind> (\<lambda>col1. put_cell_at (idx s col1 ?row)
          \<lparr>c_codepoint = c, c_fg = s_pen_fg s, c_bg = s_pen_bg s, c_attrs = (s_pen_attrs y AND 7) OR ATTR_WIDE_TAIL\<rparr> s)
        else Some s) \<bind> (\<lambda>s. Some (advance_after_width w (dirty ?row (s\<lparr>s_open_cluster := Some cl\<rparr>))))))"
    if a: "agree x y" for x y cl
  proof -
    have attrs: "s_pen_attrs y = s_pen_attrs x" using a by (simp add: agree_def)
    have put2: "same_run (put_cell_at (idx x' col1 ?row)
        \<lparr>c_codepoint = c, c_fg = s_pen_fg x', c_bg = s_pen_bg x', c_attrs = at\<rparr> x')
      (put_cell_at (idx y' col1 ?row) \<lparr>c_codepoint = c, c_fg = s_pen_fg y', c_bg = s_pen_bg y', c_attrs = at\<rparr> y')"
      if "agree x' y'" for x' y' col1 at
    proof -
      have "s_pen_fg y' = s_pen_fg x'" using that by (simp add: agree_def)
      then show ?thesis unfolding agree_geometry [OF that] by (simp add: same_cells_ops [OF that])
    qed
    show ?thesis
      unfolding attrs
      by (rule same_bind [OF put [OF a, unfolded attrs]] same_if same_bind same_value put2 same_Some fin | assumption)+
  qed
  show ?thesis
    unfolding write_glyph_def Let_def agree_geometry [OF a]
    by (rule same_bind [OF same_smash [OF a]] same_bind same_if same_value same_smash same_Some tail | assumption)+
qed

lemma same_write_char:
  assumes a: "agree s t"
  shows "same_run (write_char c s) (write_char c t)"
proof -
  have app: "should_append c t = should_append c s"
    using a by (simp add: agree_def should_append_def)
  have fresh: "same_run
     (wrap_if_needed_width (cluster_width c) x \<bind> (\<lambda>s. if s_cols s < cluster_width c \<or> remaining_cols s < cluster_width c
        then Some s else write_glyph c (cluster_width c) s))
     (wrap_if_needed_width (cluster_width c) y \<bind> (\<lambda>s. if s_cols s < cluster_width c \<or> remaining_cols s < cluster_width c
        then Some s else write_glyph c (cluster_width c) s))" if "agree x y" for x y
  proof (rule same_bind [OF same_wrap [OF that]])
    fix x y assume a: "agree x y"
    have e: "s_cols y = s_cols x" "remaining_cols y = remaining_cols x" using a by (simp_all add: agree_def remaining_cols_def)
    show "same_run (if s_cols x < cluster_width c \<or> remaining_cols x < cluster_width c then Some x else write_glyph c (cluster_width c) x)
      (if s_cols y < cluster_width c \<or> remaining_cols y < cluster_width c then Some y else write_glyph c (cluster_width c) y)"
      unfolding e by (intro same_if same_Some a same_glyph)
  qed
  have "rel_prod (=) agree (if should_append c s then append_to_cluster c s else (False, s))
      (if should_append c s then append_to_cluster c t else (False, t))"
    using agree_append [OF a] a by simp
  then show ?thesis
    unfolding write_char_def app Let_def
    by (auto simp: rel_prod_sel split_beta intro!: same_if same_expand same_Some fresh)
qed

lemma same_erase_span:
  assumes a: "agree s t"
  shows "same_run (erase_span m n s) (erase_span m n t)"
  unfolding erase_span_def Let_def agree_geometry [OF a]
  by (rule same_steps same_smash same_fill_pen same_Some agree_if agree_dirty_fold a | assumption)+

lemma same_erase:
  assumes a: "agree s t"
  shows "same_run (erase_display m s) (erase_display m t)" "same_run (erase_line m s) (erase_line m t)"
    "same_run (erase_chars n s) (erase_chars n t)"
  unfolding erase_display_def erase_line_def erase_chars_def Let_def agree_geometry [OF a]
  by (rule same_if same_erase_span same_bind same_Some agree_full a | assumption)+

lemma same_lines:
  assumes a: "agree s t"
  shows "same_run (insert_lines n s) (insert_lines n t)" "same_run (delete_lines n s) (delete_lines n t)"
proof -
  have g: "agree (fold dirty [s_cursor_row x..<Suc (s_scroll_bottom x)] x)
      (fold dirty [s_cursor_row y..<Suc (s_scroll_bottom y)] y)" if "agree x y" for x y
    unfolding agree_geometry [OF that] by (rule agree_dirty_fold [OF that])
  show "same_run (insert_lines n s) (insert_lines n t)" "same_run (delete_lines n s) (delete_lines n t)"
    unfolding insert_lines_def delete_lines_def Let_def agree_geometry [OF a]
    by (rule same_steps same_value same_cells_ops same_fill_pen same_Some g a | assumption)+
qed

lemma same_insert_cells:
  assumes a: "agree s t"
  shows "same_run (insert_cells n s) (insert_cells n t)"
proof -
  have g: "agree (dirty (s_cursor_row x) x) (dirty (s_cursor_row y) y)" if "agree x y" for x y
    by (rule agree_dirty [OF that])
  show ?thesis
    unfolding insert_cells_def Let_def agree_geometry [OF a]
    by (rule same_steps same_cells_ops same_fill_pen same_Some g a | assumption)+
qed

lemma same_delete_cells:
  assumes a: "agree s t"
  shows "same_run (delete_cells n s) (delete_cells n t)"
proof -
  have g: "agree (dirty (s_cursor_row x) x) (dirty (s_cursor_row y) y)" if "agree x y" for x y
    by (rule agree_dirty [OF that])
  have rest: "same_run
      ((if s_cursor_col x + n < s_cols x
        then move_cells (idx x 0 (s_cursor_row x) + s_cursor_col x + n) (idx x 0 (s_cursor_row x) + s_cols x)
          (idx x 0 (s_cursor_row x) + s_cursor_col x) x else Some x) \<bind>
       (\<lambda>z. fill_cells (idx x 0 (s_cursor_row x) + s_cols x - n) (idx x 0 (s_cursor_row x) + s_cols x)
          (cell_blank (s_pen_bg z)) z \<bind> (\<lambda>s. Some (dirty (s_cursor_row s) s))))
      ((if s_cursor_col y + n < s_cols y
        then move_cells (idx y 0 (s_cursor_row y) + s_cursor_col y + n) (idx y 0 (s_cursor_row y) + s_cols y)
          (idx y 0 (s_cursor_row y) + s_cursor_col y) y else Some y) \<bind>
       (\<lambda>z. fill_cells (idx y 0 (s_cursor_row y) + s_cols y - n) (idx y 0 (s_cursor_row y) + s_cols y)
          (cell_blank (s_pen_bg z)) z \<bind> (\<lambda>s. Some (dirty (s_cursor_row s) s))))"
    if a: "agree x y" for x y n
    unfolding agree_geometry [OF a]
    by (rule same_if same_bind same_cells_ops same_fill_pen same_Some g a | assumption)+
  show ?thesis
    unfolding delete_cells_def Let_def agree_geometry [OF a]
    by (rule same_if same_value same_Some a same_bind same_for_each same_smash rest | assumption)+
qed


section \<open>Dispatch\<close>

lemma same_dsr_cursor:
  assumes a: "agree s t"
  shows "same_run (reply_dsr_cursor s) (reply_dsr_cursor t)"
  unfolding reply_dsr_cursor_def Let_def agree_geometry [OF a] split_beta
  by (rule same_value same_Some agree_enqueue [OF a])+

lemma same_dispatch:
  assumes a: "agree s t"
  shows "same_run (csi_dispatch ps b s) (csi_dispatch ps b t)"
proof -
  have cur: "same_run (Some (set_cursor r c s)) (Some (set_cursor r c t))" for r c
    by (intro same_Some agree_set_cursor a)
  have scroll: "same_run (for_each is (\<lambda>_. scroll_up) s) (for_each is (\<lambda>_. scroll_up) t)"
    "same_run (for_each is (\<lambda>_. scroll_down) s) (for_each is (\<lambda>_. scroll_down) t)" for "is" :: "nat list"
    by (intro same_for_each a same_scroll_up same_scroll_down; assumption)+
  have replies: "same_run (Some (if ps = [] \<or> hd ps = 0 then reply_primary_da s else s))
      (Some (if ps = [] \<or> hd ps = 0 then reply_primary_da t else t))"
    "same_run (case ps of [] \<Rightarrow> Some s | p # _ \<Rightarrow> if p = 6 then reply_dsr_cursor s
        else if p = 5 then Some (reply_dsr_status s) else Some s)
      (case ps of [] \<Rightarrow> Some t | p # _ \<Rightarrow> if p = 6 then reply_dsr_cursor t
        else if p = 5 then Some (reply_dsr_status t) else Some t)"
    using a agree_enqueue [OF a] same_dsr_cursor [OF a]
    by (auto simp: reply_primary_da_def reply_dsr_status_def split: list.split)
  have region: "same_run (Some (set_scroll_region ps s)) (Some (set_scroll_region ps t))"
    "same_run (Some (apply_sgr ps s)) (Some (apply_sgr ps t))"
    by (intro same_Some agree_scroll_region agree_apply_sgr a)+
  show ?thesis
    unfolding csi_dispatch_def agree_geometry [OF a]
    by (rule same_if cur same_erase [OF a] same_lines [OF a] same_insert_cells [OF a] same_delete_cells [OF a]
        region scroll replies same_Some [OF a])+
qed

lemma same_execute:
  assumes a: "agree s t"
  shows "same_run (execute b s) (execute b t)"
proof -
  let ?s = "close_cluster s" and ?t = "close_cluster t"
  have a': "agree ?s ?t" by (rule agree_close_cluster [OF a])
  have col: "agree (?s\<lparr>s_cursor_col := c\<rparr>) (?t\<lparr>s_cursor_col := c\<rparr>)" for c
    using a' by (simp add: agree_def)
  show ?thesis
    unfolding execute_def Let_def agree_geometry [OF a']
    by (rule same_if same_value same_Some agree_if col a' a same_index)+
qed

lemma same_csi:
  assumes a: "agree s t"
  shows "same_run (csi ps is ign b s) (csi ps is ign b t)"
  unfolding csi_def reply_secondary_da_def
  by (rule same_if same_dispatch same_Some agree_private_mode agree_enqueue a)+

lemma same_esc:
  assumes a: "agree s t"
  shows "same_run (esc is b s) (esc is b t)"
proof -
  have a': "agree (clear_pending_wrap s) (clear_pending_wrap t)" by (rule agree_clear_pending_wrap [OF a])
  have upd: "agree ((clear_pending_wrap s)\<lparr>s_cursor_col := 0\<rparr>) ((clear_pending_wrap t)\<lparr>s_cursor_col := 0\<rparr>)"
    "agree (s\<lparr>s_application_keypad := k\<rparr>) (t\<lparr>s_application_keypad := k\<rparr>)"
    "agree (s\<lparr>s_saved_cursor := c\<rparr>) (t\<lparr>s_saved_cursor := c\<rparr>)" for k c
    using a a' by (simp_all add: agree_def)
  have saved: "s_saved_cursor t = s_saved_cursor s" using a by (simp add: agree_def)
  have restore: "agree (case s_saved_cursor s of None \<Rightarrow> s | Some c \<Rightarrow> restore_cursor c s)
      (case s_saved_cursor s of None \<Rightarrow> t | Some c \<Rightarrow> restore_cursor c t)"
    using a agree_restore_cursor [OF a] by (cases "s_saved_cursor s") simp_all
  show ?thesis
    unfolding esc_def capture_agree [OF a] saved
    by (rule same_if same_Some same_index upd restore a a')+
qed

interpretation view: vt_respects screen_actions agree
  by unfold_locales
    (simp_all add: screen_actions_def same_write_char same_execute same_csi same_esc)

text \<open>
  What is drained never shows. Two screens that differ only in their damage marks, their
  reply queue, its switch and counter, and the rows scrolled off, fed the same bytes through
  parsers that behave alike, either both panic or both return screens that again differ only
  there.
\<close>

theorem drained_state_never_shows:
  assumes "alike p q" and "agree s t"
  shows "rel_option (rel_prod alike agree) (feed screen_actions bs p s) (feed screen_actions bs q t)"
  by (rule view.feed_rel [OF assms])

lemma drained_state_never_shows_witness:
  "rel_option (rel_prod alike agree)
    (feed screen_actions [0x41, 0x1b, 0x5b, 0x63] parser_new (projr (screen_new 4 2)))
    (feed screen_actions [0x41, 0x1b, 0x5b, 0x63] parser_new
      (set_discard_replies True (snd (snapshot (projr (screen_new 4 2))))))"
proof -
  have "agree (projr (screen_new 4 2)) (set_discard_replies True (snd (snapshot (projr (screen_new 4 2)))))"
    by (simp add: agree_def set_discard_replies_def snapshot_def)
  with drained_state_never_shows [OF alike_refl [OF wf_parser_new]] show ?thesis .
qed

end
