(* ===== verification/Vt_Recovery.thy ===== *)
theory Vt_Recovery imports Vt_Engine Vt_View Ring begin

text \<open>
  Two ways back to a terminal after a disconnect: the checkpoint of \<open>src/crates/vt-engine\<close> together
  with the output retained by \<open>src/crates/rill-kernel/src/ring.rs\<close>, and the byte resync that replays
  a history. Both are shown to end in the picture of an engine that never lost its connection.
\<close>

section \<open>Muted screens\<close>

text \<open>While replies are discarded, no operation puts one in the queue.\<close>

definition muted :: "screen \<Rightarrow> bool" where
  "muted s \<longleftrightarrow> s_discard_replies s \<and> s_replies s = []"

lemma whenever_for_each:
  assumes "P s" "\<And>i s. P s \<Longrightarrow> whenever (f i s) P"
  shows "whenever (for_each is f s) P"
  using assms(1)
proof (induction "is" arbitrary: s)
  case (Cons i "is")
  then show ?case by (auto intro: whenever_mono [OF assms(2) [OF Cons.prems]])
qed simp

lemma whenever_skip: "(\<And>x. whenever (f x) P) \<Longrightarrow> whenever (m \<bind> f) P"
  by (cases m) simp_all

lemma muted_enqueue: "muted s \<Longrightarrow> muted (enqueue_reply bs s)"
  by (simp add: muted_def enqueue_reply_def)

lemma muted_set_cursor: "muted (set_cursor r c s) = muted s"
  by (simp add: muted_def set_cursor_def Let_def clear_pending_wrap_def)

lemma muted_dirty: "muted (dirty r s) = muted s"
  by (simp add: muted_def dirty_def)

lemma muted_dirty_fold: "muted (fold dirty rs s) = muted s"
  by (induction rs arbitrary: s) (simp_all add: muted_dirty)

lemma muted_restore_cursor: "muted (restore_cursor c s) = muted s"
  by (simp add: muted_def restore_cursor_def clear_pending_wrap_def)

lemma muted_update:
  "muted (clear_pending_wrap s) = muted s" "muted (close_cluster s) = muted s"
  "muted (s\<lparr>s_full_damage := f\<rparr>) = muted s" "muted (s\<lparr>s_cells := cs\<rparr>) = muted s"
  "muted (s\<lparr>s_cursor_col := c\<rparr>) = muted s" "muted (s\<lparr>s_cursor_row := r\<rparr>) = muted s"
  "muted (s\<lparr>s_scrolled_off := off\<rparr>) = muted s" "muted (s\<lparr>s_open_cluster := cl\<rparr>) = muted s"
  "muted (s\<lparr>s_saved_cursor := sc\<rparr>) = muted s" "muted (s\<lparr>s_application_keypad := k\<rparr>) = muted s"
  "muted (advance_after_width w s) = muted s" "muted (set_scroll_region ps s) = muted s"
  by (simp_all add: muted_def clear_pending_wrap_def close_cluster_def advance_after_width_def Let_def
      set_scroll_region_def set_cursor_def)

lemma muted_sgr: "muted (apply_sgr ps s) = muted s"
proof -
  have "plain_pen (sgr_loop ps s) = plain_pen s" for ps s
    by (rule plain_pen_sgr_loop)
  then have "plain_pen (apply_sgr ps s) = plain_pen s" by (simp add: apply_sgr_def)
  moreover have "muted (plain_pen s) = muted s" for s by (simp add: muted_def plain_pen_def)
  ultimately show ?thesis by metis
qed

lemma muted_alt:
  "muted (enter_alt b c s) = muted s" "muted (leave_alt b s) = muted s"
  by (auto simp: enter_alt_def leave_alt_def Let_def muted_def set_cursor_def restore_cursor_def
      clear_pending_wrap_def split: option.splits)

lemma muted_private_mode: "muted (private_mode ps on s) = muted s"
proof -
  have "muted (private_mode_one on n s) = muted s" for n s
    using muted_alt by (simp add: private_mode_one_def) (simp add: muted_def)
  then show ?thesis by (induction ps arbitrary: s) (simp_all add: private_mode_def)
qed

lemmas muted_simps = muted_set_cursor muted_dirty muted_dirty_fold muted_restore_cursor muted_update
  muted_sgr muted_private_mode

lemma whenever_Some: "P x \<Longrightarrow> whenever (Some x) P"
  by simp

lemma whenever_if: "(b \<Longrightarrow> whenever x P) \<Longrightarrow> (\<not> b \<Longrightarrow> whenever y P) \<Longrightarrow> whenever (if b then x else y) P"
  by simp

lemma whenever_bind: "whenever m P \<Longrightarrow> (\<And>x. P x \<Longrightarrow> whenever (f x) Q) \<Longrightarrow> whenever (m \<bind> f) Q"
  by (auto intro: whenever_mono)

lemmas quiet_steps = whenever_if whenever_bind [where P = muted and Q = muted] whenever_skip
  whenever_for_each [where P = muted] whenever_Some

lemma muted_cells:
  "muted s \<Longrightarrow> whenever (move_cells a b d s) muted" "muted s \<Longrightarrow> whenever (fill_cells a b v s) muted"
  "muted s \<Longrightarrow> whenever (put_cell_at i v s) muted"
  unfolding move_cells_def fill_cells_def put_cell_at_def
  by (rule whenever_skip whenever_Some | simp only: muted_simps)+

lemma muted_if: "muted s \<Longrightarrow> muted t \<Longrightarrow> muted (if b then s else t)"
  by simp

lemma muted_smash: "muted s \<Longrightarrow> whenever (smash_wide_at c r s) muted"
  unfolding smash_wide_at_def blank_if_def Let_def
  by (rule quiet_steps muted_cells | assumption)+

lemma muted_scroll: "muted s \<Longrightarrow> whenever (scroll_up s) muted" "muted s \<Longrightarrow> whenever (scroll_down s) muted"
  unfolding scroll_up_def scroll_down_def Let_def
  by (rule quiet_steps muted_cells | assumption | simp only: muted_simps)+

lemma muted_index: "muted s \<Longrightarrow> whenever (index s) muted" "muted s \<Longrightarrow> whenever (reverse_index s) muted"
  unfolding index_def reverse_index_def
  by (rule quiet_steps muted_scroll | assumption | simp only: muted_simps)+

lemma muted_wrap: "muted s \<Longrightarrow> whenever (wrap_if_needed_width w s) muted"
  unfolding wrap_if_needed_width_def
  by (rule whenever_if whenever_Some muted_index | assumption | simp add: muted_def)+

lemma muted_append: "muted s \<Longrightarrow> muted (snd (append_to_cluster c s))"
  by (auto simp: append_to_cluster_def Let_def muted_simps split: option.split) (simp add: muted_def)

lemma muted_expand: "muted s \<Longrightarrow> whenever (maybe_expand_ri_pair s) muted"
  unfolding maybe_expand_ri_pair_def Let_def
  by (cases "s_open_cluster s"; simp only: option.case)
    (rule quiet_steps muted_cells muted_smash muted_if | assumption | simp only: muted_simps)+

lemma muted_glyph: "muted s \<Longrightarrow> whenever (write_glyph c w s) muted"
  unfolding write_glyph_def Let_def
  by (rule quiet_steps muted_cells muted_smash | assumption | simp only: muted_simps)+

lemma muted_write_char: "muted s \<Longrightarrow> whenever (write_char c s) muted"
proof -
  assume m: "muted s"
  have "muted (snd (if should_append c s then append_to_cluster c s else (False, s)))"
    using m muted_append by simp
  then show ?thesis
    unfolding write_char_def Let_def split_beta
    by - (rule quiet_steps muted_expand muted_wrap muted_glyph | assumption)+
qed

lemma muted_erase_span: "muted s \<Longrightarrow> whenever (erase_span m n s) muted"
  unfolding erase_span_def Let_def
  by (rule quiet_steps muted_cells muted_smash muted_if | assumption | simp only: muted_simps)+

lemma muted_erase:
  "muted s \<Longrightarrow> whenever (erase_display m s) muted" "muted s \<Longrightarrow> whenever (erase_line m s) muted"
  "muted s \<Longrightarrow> whenever (erase_chars n s) muted"
  unfolding erase_display_def erase_line_def erase_chars_def Let_def
  by (rule quiet_steps muted_erase_span | assumption | simp only: muted_simps)+

lemma muted_edit:
  "muted s \<Longrightarrow> whenever (insert_lines n s) muted" "muted s \<Longrightarrow> whenever (delete_lines n s) muted"
  "muted s \<Longrightarrow> whenever (insert_cells n s) muted" "muted s \<Longrightarrow> whenever (delete_cells n s) muted"
  unfolding insert_lines_def delete_lines_def insert_cells_def delete_cells_def Let_def
  by (rule quiet_steps muted_cells muted_smash | assumption | simp only: muted_simps)+

lemma muted_replies:
  "muted s \<Longrightarrow> muted (reply_primary_da s)" "muted s \<Longrightarrow> muted (reply_secondary_da s)"
  "muted s \<Longrightarrow> muted (reply_dsr_status s)"
  by (simp_all add: reply_primary_da_def reply_secondary_da_def reply_dsr_status_def muted_enqueue)

lemma muted_dsr: "muted s \<Longrightarrow> whenever (reply_dsr_cursor s) muted"
  unfolding reply_dsr_cursor_def Let_def split_beta
  by (rule whenever_skip whenever_Some muted_enqueue | assumption)+

lemma muted_dispatch: "muted s \<Longrightarrow> whenever (csi_dispatch ps b s) muted"
  unfolding csi_dispatch_def
  by (rule whenever_if whenever_for_each whenever_Some muted_erase muted_edit muted_scroll muted_replies muted_if
      | assumption | simp only: muted_simps | simp add: muted_dsr muted_replies split: list.split)+

lemma muted_execute: "muted s \<Longrightarrow> whenever (execute b s) muted"
  unfolding execute_def Let_def
  by (rule whenever_if whenever_skip whenever_Some muted_index muted_if | assumption | simp only: muted_simps)+

lemma muted_csi: "muted s \<Longrightarrow> whenever (csi ps is ign b s) muted"
  unfolding csi_def
  by (rule whenever_if whenever_Some muted_dispatch muted_replies | assumption | simp only: muted_simps)+

lemma muted_esc: "muted s \<Longrightarrow> whenever (esc is b s) muted"
proof -
  assume m: "muted s"
  have "muted (case s_saved_cursor s of None \<Rightarrow> s | Some c \<Rightarrow> restore_cursor c s)"
    using m by (simp add: muted_simps split: option.split)
  with m show ?thesis
    unfolding esc_def
    by - (rule whenever_if whenever_Some muted_index | assumption | simp only: muted_simps)+
qed

lemmas muted_actions = muted_write_char muted_execute muted_csi muted_esc

interpretation muted: vt_actions screen_actions "\<lambda>s. screen_inv s0 s \<and> muted s" for s0
proof unfold_locales
  have both: "runs m P \<Longrightarrow> whenever m Q \<Longrightarrow> runs m (\<lambda>x. P x \<and> Q x)" for m and P Q :: "screen \<Rightarrow> bool"
    by (auto simp: runs_iff)
  fix s c b ps "is" ign payload
  assume s: "screen_inv s0 s \<and> muted s"
  then have m: "muted s" by simp
  note m = muted_actions [OF m]
  show "runs (act_print screen_actions c s) (\<lambda>s. screen_inv s0 s \<and> muted s)"
    using s screen.print_inv [of s0 s c] m by (intro both) (simp_all add: screen_actions_def)
  show "runs (act_execute screen_actions b s) (\<lambda>s. screen_inv s0 s \<and> muted s)"
    using s screen.execute_inv [of s0 s b] m by (intro both) (simp_all add: screen_actions_def)
  show "runs (act_csi screen_actions ps is ign b s) (\<lambda>s. screen_inv s0 s \<and> muted s)"
    if "length ps \<le> MAX_PARAMS" "\<forall>x \<in> set ps. x \<le> u16_max" "length is \<le> MAX_INTER"
    using s screen.csi_inv [OF _ that, of s0 s ign b] m by (intro both) (simp_all add: screen_actions_def)
  show "runs (act_esc screen_actions is b s) (\<lambda>s. screen_inv s0 s \<and> muted s)" if "length is \<le> MAX_INTER"
    using s screen.esc_inv [OF _ that, of s0 s b] m by (intro both) (simp_all add: screen_actions_def)
  show "runs (act_osc screen_actions payload s) (\<lambda>s. screen_inv s0 s \<and> muted s)"
    using s by (simp add: screen_actions_def)
qed


section \<open>Recovery from a checkpoint\<close>

lemma restored_agrees: "agree (restored s t) s"
  by (simp add: agree_def restored_def)

text \<open>
  C16: recovery from a checkpoint and the retained output equals never having stopped. An engine
  exports a checkpoint after the first \<open>k\<close> bytes of a history. If the ring that holds the history
  still answers for offset \<open>k\<close>, then any engine that imports the checkpoint and feeds the ring's
  answer ends in the state of the engine that saw the whole history, up to damage marks, reply
  queue and scrolled-off rows, which are drained separately.
\<close>

theorem checkpoint_recovery:
  assumes "reachable e0" and "engine_feed (take k hist) e0 = Some e1"
    and "engine_export_checkpoint k e1 = Inr blob" and "ring_abs r hist" and "length hist \<le> u64_max"
    and "deltas_after r k = Inr bs" and "reachable f"
  shows "\<exists>f1 f2 e2. engine_import_checkpoint blob f = (Inr k, f1) \<and> engine_feed bs f1 = Some f2 \<and>
    engine_feed hist e0 = Some e2 \<and> alike (eng_parser f2) (eng_parser e2) \<and> agree (eng_screen f2) (eng_screen e2)"
proof -
  have k: "k \<le> length hist" "bs = drop k hist" using ring.rel_read [OF assms(4,6)] by simp_all
  have inv1: "engine_inv e1"
    using feed_inv [OF reachable_inv [OF assms(1)], of "take k hist"] assms(2) by simp
  have idle: "is_idle (eng_parser e1)" using assms(3) by (simp add: engine_export_checkpoint_def split: if_splits)
  let ?f1 = "f\<lparr>eng_screen := restored (eng_screen e1) (eng_screen f), eng_parser := parser_new\<rparr>"
  have imp: "engine_import_checkpoint blob f = (Inr k, ?f1)"
    using import_export_engine [OF inv1 _ assms(3)] k(1) assms(5) by simp
  have "alike parser_new (eng_parser e1)"
    using idle_alike inv1 idle by (simp add: engine_inv_def)
  from view.feed_rel [OF this restored_agrees, of bs "eng_screen e1" "eng_screen f"]
  have rel: "rel_option (\<lambda>x y. alike (eng_parser x) (eng_parser y) \<and> agree (eng_screen x) (eng_screen y))
      (engine_feed bs ?f1) (engine_feed bs e1)"
    unfolding engine_feed_def by (cases rule: option.rel_cases) auto
  moreover obtain e2 where "engine_feed bs e1 = Some e2"
    using feed_inv [OF inv1, of bs] by (auto elim: runsE)
  moreover from this have "engine_feed hist e0 = Some e2"
    using assms(2) k(2) feed_append [of screen_actions "take k hist" bs "eng_parser e0" "eng_screen e0"]
    by (auto simp: engine_feed_def bind_eq_Some_conv)
  ultimately show ?thesis using imp by (auto simp: option_rel_Some2)
qed

lemma checkpoint_recovery_witness:
  "\<exists>e blob f1 f2 e2. engine_new 80 24 = Inr e \<and> engine_export_checkpoint 0 e = Inr blob \<and>
    engine_import_checkpoint blob e = (Inr 0, f1) \<and> engine_feed [0x41, 0x42] f1 = Some f2 \<and>
    engine_feed [0x41, 0x42] e = Some e2 \<and> agree (eng_screen f2) (eng_screen e2)"
proof -
  obtain s where "screen_new 80 24 = Inr s" by (rule screen_new_wf [of 80 24]) simp_all
  then obtain e where e: "engine_new 80 24 = Inr e" "eng_parser e = parser_new"
    by (auto simp: engine_new_def)
  have r: "reachable e" by (rule reachable.fresh [OF e(1)]) simp_all
  have ring: "ring_abs (ring_append (ring_new 8) [0x41, 0x42]) [0x41, 0x42]"
    using ring_abs_append [OF ring_abs_new, of "[0x41, 0x42]" 8] by simp
  moreover have "deltas_after (ring_append (ring_new 8) [0x41, 0x42]) 0 = Inr [0x41, 0x42]"
    using ring_abs_deltas [OF ring, of 0] by (simp add: retained_base_def ring_append_def ring_new_def Let_def sat_add_def)
  moreover have "engine_feed (take 0 [0x41, 0x42]) e = Some e"
    using e(2) by (cases e) (simp add: engine_feed_def feed_idle_nil)
  moreover obtain blob where "engine_export_checkpoint 0 e = Inr blob"
    using export_shape [of 0 "eng_screen e"] e(2) by (auto simp: engine_export_checkpoint_def)
  ultimately obtain f1 f2 e2 where "engine_import_checkpoint blob e = (Inr 0, f1)" "engine_feed [0x41, 0x42] f1 = Some f2"
    "engine_feed [0x41, 0x42] e = Some e2" "agree (eng_screen f2) (eng_screen e2)" "engine_export_checkpoint 0 e = Inr blob"
    using checkpoint_recovery [OF r, of 0 "[0x41, 0x42]" e blob "ring_append (ring_new 8) [0x41, 0x42]" "[0x41, 0x42]" e]
      r by auto
  with e(1) show ?thesis by blast
qed

section \<open>Resync\<close>

lemma csi_bare:
  assumes "wf_parser p" "is_idle p" "0x40 \<le> fin" "fin \<le> 0x7e"
  shows "\<exists>p'. wf_parser p' \<and> is_idle p' \<and> feed a ([0x1b, 0x5b, fin] @ bs) p s =
    act_csi a [] [] False fin s \<bind> (\<lambda>s'. feed a bs p' s')"
proof -
  obtain q where q: "feed a ([0x1b, 0x5b] @ fin # bs) p s = feed a (fin # bs) q s" "p_state q = CsiEntry" "csi_at [] [] 0 q"
    using csi_start [OF assms(1,2), of a "fin # bs" s] by blast
  have sl: "slice (params q) 0 (param_len q) = Some []" "slice (intermediates q) 0 (inter_len q) = Some []"
    using q(3) wf_seq_slices(1,2) [of q] by (auto simp: csi_at_def)
  have "\<not> c0_in_place fin" "fin \<noteq> 0x18" "fin \<noteq> 0x1a" "fin \<noteq> 0x1b" "\<not> between 0x20 0x2f fin" "\<not> between 0x30 0x39 fin"
    "fin \<noteq> 0x3a" "fin \<noteq> 0x3b" "\<not> between 0x3c 0x3f fin" "between 0x40 0x7e fin"
    using assms(3,4) by (auto simp: c0_in_place_def between_def word_le_nat_alt word_unat_eq_iff)
  then have "feed a (fin # bs) q s = dispatch_csi a fin q s \<bind> (\<lambda>(p', s'). feed a bs p' s')"
    using q(2,3) by (simp add: feed_step csi_at_def wf_seq_def state_step_def csi_entry_def)
  also have "\<dots> = act_csi a [] [] False fin s \<bind> (\<lambda>s'. feed a bs (reset_seq (goto Ground q)) s')"
    using q(3) sl by (simp add: dispatch_csi_def emit_def csi_at_def)
  finally have "feed a ([0x1b, 0x5b, fin] @ bs) p s = \<dots>" using q(1) by simp
  moreover have "wf_parser (reset_seq (goto Ground q))" "is_idle (reset_seq (goto Ground q))"
    using q(3) wf_seq_ground [of q]
    by (auto simp: csi_at_def is_idle_def reset_seq_def goto_def wf_seq_def wf_parser_def)
  ultimately show ?thesis by blast
qed

lemma erase_blank:
  assumes wf: "wf_screen t" and blank: "\<forall>c \<in> set (s_cells t). c = cell_blank Default" and pen: "s_pen_bg t = Default"
  shows "\<exists>rs. erase_span 0 (length (s_cells t)) t = Some (fold dirty rs t)"
proof -
  let ?n = "length (s_cells t)"
  have cs: "max (s_cols t) 1 = s_cols t" using wf_screenD(1) [OF wf] by simp
  have "runs (for_each [0..<?n] (\<lambda>i. smash_wide_at (as_u16 (i mod s_cols t)) (as_u16 (i div s_cols t))) t) (\<lambda>x. x = t)"
  proof (rule for_each_inv)
    fix i x assume i: "i \<in> set [0..<?n]" and x: "x = t"
    have "i mod s_cols t < s_cols t" "i div s_cols t < s_rows t"
      using cell_row [OF wf, of i] i wf_screenD(1) [OF wf] by simp_all
    moreover from this have "s_cells t ! idx t (i mod s_cols t) (i div s_cols t) = cell_blank Default"
      using idx_bound [OF wf] blank by simp
    then have "narrow (s_cells t ! idx t (i mod s_cols t) (i div s_cols t))"
      by (simp add: narrow_def cell_blank_def)
    ultimately show "runs (smash_wide_at (as_u16 (i mod s_cols t)) (as_u16 (i div s_cols t)) x) (\<lambda>x. x = t)"
      using i smash_narrow [OF wf] by (simp add: x as_u16_row [OF wf] as_u16_col [OF wf])
  qed simp
  then have loop: "for_each [0..<?n] (\<lambda>i. smash_wide_at (as_u16 (i mod s_cols t)) (as_u16 (i div s_cols t))) t = Some t"
    by (auto elim: runsE)
  have "take ?n (s_cells t) = replicate ?n (cell_blank Default)"
    using blank by (simp add: replicate_eqI)
  then have "fill_cells 0 ?n (cell_blank Default) t = Some t"
    by (simp add: fill_cells_def fill_range_def)
  then have "erase_span 0 ?n t = Some (if 0 < ?n
      then fold dirty [as_u16 (0 div s_cols t)..<Suc (as_u16 ((?n - 1) div s_cols t))] t else t)"
    unfolding erase_span_def Let_def cs by (simp add: loop pen)
  then show ?thesis
    by (cases "0 < ?n") (simp_all only: if_True if_False, blast, metis fold_Nil id_apply)
qed

lemma canvas_home:
  assumes cv: "canvas s 0 0 t" and wf: "wf_screen u" and a: "agree t u"
  shows "canvas s 0 0 (set_cursor 0 0 u)"
proof -
  have "wf_screen (set_cursor 0 0 u)"
    using set_cursor_keeps [OF wf, of 0 0] by (rule keepsD(1))
  moreover have "painted_cells s 0 0 (set_cursor 0 0 u)"
  proof -
    have "s_cells (set_cursor 0 0 u) = s_cells t" "s_cols (set_cursor 0 0 u) = s_cols t"
      using a by (simp_all add: agree_def set_cursor_def Let_def clear_pending_wrap_def)
    with cv show ?thesis by (auto simp: canvas_def painted_cells_def idx_def)
  qed
  ultimately show ?thesis
    using cv a by (simp add: canvas_def agree_def set_cursor_def Let_def clear_pending_wrap_def)
qed

lemma feed_clear_and_home:
  assumes p: "wf_parser p" "is_idle p" and cv: "canvas s 0 0 t" and wf: "wf_screen s"
    and blank: "\<forall>c \<in> set (s_cells t). c = cell_blank Default" and pen: "s_pen_bg t = Default"
  shows "\<exists>p' t'. wf_parser p' \<and> is_idle p' \<and> canvas s 0 0 t' \<and> s_pen_bg t' = Default \<and>
    feed screen_actions (clear_and_home @ bs) p t = feed screen_actions bs p' t'"
proof -
  have wft: "wf_screen t" using cv by (simp add: canvas_def)
  obtain rs where rs: "erase_span 0 (length (s_cells t)) t = Some (fold dirty rs t)"
    using erase_blank [OF wft blank pen] by blast
  let ?t1 = "(fold dirty rs t)\<lparr>s_full_damage := True\<rparr>"
  let ?t2 = "set_cursor 0 0 ?t1"
  have "csi [2] [] False 0x4a t = Some ?t1"
    by (simp add: csi_def csi_dispatch_def csi_n_def erase_display_def Let_def rs)
  then obtain p1 where p1: "wf_parser p1" "is_idle p1" "feed screen_actions (clear_and_home @ bs) p t =
      feed screen_actions ([0x1b, 0x5b, 0x48] @ bs) p1 ?t1"
    using feed_csi [OF p, of "[]" "[2]" "0x4a" screen_actions "[0x1b, 0x5b, 0x48] @ bs" t]
    by (auto simp: clear_and_home_def csi_bytes_def digits_small screen_actions_def MAX_PARAMS_def)
  have "csi [] [] False 0x48 ?t1 = Some ?t2"
    by (simp add: csi_def csi_dispatch_def csi_n_def get_at_def)
  then obtain p2 where p2: "wf_parser p2" "is_idle p2"
    "feed screen_actions ([0x1b, 0x5b, 0x48] @ bs) p1 ?t1 = feed screen_actions bs p2 ?t2"
    using csi_bare [OF p1(1,2), of "0x48" screen_actions bs ?t1] by (auto simp: screen_actions_def)
  have a: "agree t (fold dirty rs t)"
  proof -
    have "agree t (fold dirty rs u)" if "agree t u" for u
      using that by (induction rs arbitrary: u) (simp_all add: agree_def dirty_def)
    then show ?thesis by simp
  qed
  have "wf_screen ?t1" using wft by simp
  moreover have "agree t ?t1" using a by (simp add: agree_def)
  ultimately have "canvas s 0 0 ?t2" by (rule canvas_home [OF cv])
  moreover have "s_pen_bg ?t2 = Default" using a pen by (simp add: agree_def set_cursor_def Let_def clear_pending_wrap_def)
  ultimately show ?thesis using p1(3) p2 by auto
qed

text \<open>
  C17: a resync equals a replay, on either buffer. Where a history leaves a terminal of the size of the
  engine with cells that each hold one single-width character with attributes that SGR can set (no wide
  and no combined characters), resyncing any reached engine from that history clears a fresh terminal and
  paints the picture it would show had it received the history itself: the same buffer, cells, cursor and
  visibility. No reply that the history provokes is kept.
\<close>

theorem resync_equals_replay:
  assumes "reachable e" and "engine_new (s_cols (eng_screen e)) (s_rows (eng_screen e)) = Inr e0"
    and "engine_feed h e0 = Some e1" and "\<forall>c \<in> set (s_cells (eng_screen e1)). repaintable c"
  shows "\<exists>out e' e2. resync_from_history h e = Some (Inr out, e') \<and> s_replies (eng_screen e') = [] \<and>
    engine_feed out e0 = Some e2 \<and> s_cells (eng_screen e2) = s_cells (eng_screen e1) \<and>
    s_in_alt (eng_screen e2) = s_in_alt (eng_screen e1) \<and>
    s_cursor_row (eng_screen e2) = s_cursor_row (eng_screen e1) \<and>
    s_cursor_col (eng_screen e2) = s_cursor_col (eng_screen e1) \<and>
    s_cursor_visible (eng_screen e2) = s_cursor_visible (eng_screen e1)"
proof -
  obtain s0 where s0: "engine_reset e = (Inr (), e0)" "eng_screen e0 = s0" "eng_parser e0 = parser_new"
    "screen_new (s_cols (eng_screen e)) (s_rows (eng_screen e)) = Inr s0" "engine_inv e0"
    using reset_inv [OF reachable_inv [OF assms(1)]] assms(2) by (auto simp: engine_new_def)
  let ?on = "e0\<lparr>eng_screen := set_discard_replies True s0\<rparr>"
  have "s_replies s0 = []" using s0(4) by (auto simp: screen_new_def split: if_splits)
  then have quiet: "muted (set_discard_replies True s0)" "screen_inv (set_discard_replies True s0) (set_discard_replies True s0)"
    using s0(2,5) by (simp_all add: muted_def set_discard_replies_def screen_inv_def engine_inv_def)
  have "agree s0 (set_discard_replies True s0)" by (simp add: agree_def set_discard_replies_def)
  from view.feed_rel [OF alike_refl [OF wf_parser_new] this, of h] assms(3) s0(2,3)
  obtain p2 s2 where s2: "feed screen_actions h parser_new (set_discard_replies True s0) = Some (p2, s2)"
    "agree (eng_screen e1) s2"
    by (auto simp: engine_feed_def bind_eq_Some_conv option_rel_Some1)
  have m: "muted s2" "screen_inv (set_discard_replies True s0) s2"
    using muted.feed_good [OF wf_parser_new, of _ "set_discard_replies True s0" h] quiet s2(1) by auto
  let ?s = "set_discard_replies False s2"
  have e: "(if h \<noteq> [] then engine_feed h ?on else Some ?on) = Some (e0\<lparr>eng_parser := p2, eng_screen := s2\<rparr>)"
    using s2(1) s0(3) by (auto simp: engine_feed_def feed_idle_nil)
  have a: "agree (eng_screen e1) ?s" using s2(2) by (simp add: agree_def set_discard_replies_def)
  have wf: "wf_screen ?s" "s_cols ?s = s_cols s0" "s_rows ?s = s_rows s0"
    using m(2) keepsD [of "set_discard_replies True s0" s2] by (auto simp: screen_inv_def set_discard_replies_def)
  have dims: "s_cols s0 = s_cols (eng_screen e)" "s_rows s0 = s_rows (eng_screen e)"
    "\<forall>c \<in> set (s_cells s0). c = cell_blank Default" "s_pen_bg s0 = Default"
    using s0(4) by (auto simp: screen_new_def split: if_splits)
  have cv: "canvas (?s\<lparr>s_in_alt := False\<rparr>) 0 0 s0" using fresh_canvas [of ?s s0] wf s0(4) dims by simp
  have wf': "wf_screen (?s\<lparr>s_in_alt := False\<rparr>)" using wf(1) by (simp add: wf_screen_def)
  have ok: "\<forall>c \<in> set (s_cells ?s). repaintable c" using a assms(4) by (simp add: agree_def)
  obtain bs where bs: "repaint_bytes ?s = Some bs" using repaint_runs [OF wf(1)] by (auto elim: runsE)
  have resync: "resync_from_history h e =
      Some (Inr (clear_and_home @ bs), e0\<lparr>eng_parser := p2, eng_screen := ?s\<rparr>)"
    unfolding resync_from_history_def s0(1,2) prod.case sum.case Let_def e using bs by simp
  obtain p3 t3 where t3: "wf_parser p3" "is_idle p3" "canvas (?s\<lparr>s_in_alt := False\<rparr>) 0 0 t3" "s_pen_bg t3 = Default"
    "feed screen_actions (clear_and_home @ bs) parser_new s0 = feed screen_actions bs p3 t3"
    using feed_clear_and_home [OF wf_parser_new is_idle_new cv wf' dims(3,4), of bs] by blast
  obtain p4 t4 where t4: "feed screen_actions bs p3 t3 = Some (p4, t4)" "s_cells t4 = s_cells ?s"
    "s_cursor_row t4 = s_cursor_row ?s" "s_cursor_col t4 = s_cursor_col ?s" "s_cursor_visible t4 = s_cursor_visible ?s"
    "s_in_alt t4 = s_in_alt ?s"
    using repaint_onto [OF wf(1) ok t3(1-4)] bs by auto
  have "engine_feed (clear_and_home @ bs) e0 = Some (e0\<lparr>eng_parser := p4, eng_screen := t4\<rparr>)"
    using t3(5) t4(1) s0(2,3) by (simp add: engine_feed_def)
  moreover have "s_replies ?s = []" using m(1) by (simp add: muted_def set_discard_replies_def)
  ultimately show ?thesis using resync t4(2-6) a by (auto simp: agree_def)
qed

lemma resync_equals_replay_witness:
  "\<exists>e e1 out e' e2. engine_new 80 24 = Inr e \<and> engine_feed (encode_utf8 0x41) e = Some e1 \<and>
    c_codepoint (s_cells (eng_screen e1) ! 0) = 0x41 \<and> resync_from_history (encode_utf8 0x41) e = Some (Inr out, e') \<and>
    engine_feed out e = Some e2 \<and> s_cells (eng_screen e2) = s_cells (eng_screen e1)"
proof -
  obtain s where s: "screen_new 80 24 = Inr s" "wf_screen s" "s_cols s = 80" "s_rows s = 24"
    "s_cursor_row s = 0" "s_cursor_col s = 0"
    by (rule screen_new_wf [of 80 24]) simp_all
  define e where "e = \<lparr>eng_parser = parser_new, eng_screen = s\<rparr>"
  have e: "engine_new 80 24 = Inr e" "eng_parser e = parser_new" "eng_screen e = s"
    using s(1) by (simp_all add: engine_new_def e_def)
  have cells: "s_cells s = replicate 1920 (cell_blank Default)" "s_pen_fg s = Default" "s_pen_bg s = Default" "s_pen_attrs s = 0"
    using s(1) by (auto simp: screen_new_def split: if_splits)
  have A: "printable 0x41 \<and> plain (word_of_nat 0x41)" by (rule ascii_plain) simp_all
  obtain p1 s1 where s1: "feed screen_actions (encode_utf8 0x41) parser_new s = Some (p1, s1)"
    "s_cells s1 = glyph s (word_of_nat 0x41) # drop 1 (s_cells s)"
    using feed_plain_text [of "[0x41]" parser_new s] s A new_screen_ready [OF s(1)]
    by (auto simp: idx_def)
  define e1 where "e1 = e\<lparr>eng_parser := p1, eng_screen := s1\<rparr>"
  have f: "engine_feed (encode_utf8 0x41) e = Some e1" using s1(1) e by (simp add: engine_feed_def e1_def)
  have g: "glyph s (word_of_nat 0x41) = \<lparr>c_codepoint = 0x41, c_fg = Default, c_bg = Default, c_attrs = 0\<rparr>"
    using cells by (simp add: glyph_def)
  have "repaintable (glyph s (word_of_nat 0x41))" using A unfolding g by (simp add: repaintable_def)
  moreover have "set (drop 1 (s_cells s)) \<subseteq> {cell_blank Default}" using cells by (auto dest: in_set_dropD)
  ultimately have "\<forall>c \<in> set (s_cells (eng_screen e1)). repaintable c"
    using s1(2) blank_repaintable by (auto simp: e1_def)
  moreover have "reachable e" by (rule reachable.fresh [OF e(1)]) simp_all
  moreover have "c_codepoint (s_cells (eng_screen e1) ! 0) = 0x41" using s1(2) g by (simp add: e1_def)
  ultimately show ?thesis
    using resync_equals_replay [of e e "encode_utf8 0x41" e1] e s f by auto
qed


end
