(* ===== verification/Daemon.thy ===== *)
theory Daemon
  imports Kernel_Runs Vt_Recovery
begin

text \<open>
  The daemon (\<open>crates/rilld/src/lib.rs\<close>): connected clients over one kernel and one emulator. The
  sockets are a parameter, as the pseudoterminal is; where the code goes through a \<open>HashMap\<close> of
  leaves in an order it does not fix, the order is an argument. A run that may panic in the emulator
  or loop forever returns an option; the error of a run that returns ends the daemon.
  \<open>write_outbox\<close> offers a socket the whole outbox where the code offers the contiguous front of its
  deque: a short write covers the difference. \<open>daemon_bind\<close> takes the variables \<open>RILL_TEST_*\<close> to be unset.
\<close>

section \<open>State\<close>

datatype daemon_error =
    DIo | DKernel kernel_error | DAttach attach_error | DChip vt_error | AlreadyRunning | NestedLaunch
  | UnprotectedEndpoint | PeerRefused | WorkerMissing

text \<open>
  A connected socket is a parameter: \<open>sock_read\<close> and \<open>sock_write\<close> are the calls made on it, over a
  state of any type. An orderly end of the stream is a read of no bytes.
\<close>

datatype sock_in = ReadBytes "byte list" | ReadWouldBlock | ReadFailed

datatype sock_out = Wrote nat | WriteWouldBlock | WriteFailed

record 's sock_ops =
  sock_read :: "nat \<Rightarrow> 's \<Rightarrow> sock_in \<times> 's"
  sock_write :: "byte list \<Rightarrow> 's \<Rightarrow> sock_out \<times> 's"

record 's client =
  cl_stream :: 's
  cl_decoder :: "byte list"
  cl_outbox :: "byte list"
  cl_leaf :: "session_id option"
  cl_observe :: bool
  cl_protocol :: byte
  cl_credit :: nat

record ('p, 's) daemon =
  dm_kernel :: "'p kernel"
  dm_workspace_id :: node_id
  dm_default_id :: session_id
  dm_clients :: "'s client list"
  dm_chip :: engine
  dm_is_worker :: bool

type_synonym ('p, 's, 'a) drun = "(daemon_error + 'a) \<times> ('p, 's) daemon"

definition client_new :: "'s \<Rightarrow> 's client" where
  "client_new stream =
     \<lparr>cl_stream = stream, cl_decoder = decoder_new, cl_outbox = [], cl_leaf = None, cl_observe = False,
      cl_protocol = PROTOCOL_VERSION, cl_credit = 0\<rparr>"

text \<open>\<open>clients.get(idx)\<close> and an update through \<open>clients.get_mut(idx)\<close>.\<close>

definition client_at :: "nat \<Rightarrow> ('p, 's) daemon \<Rightarrow> 's client option" where
  "client_at ci d = (if ci < length (dm_clients d) then Some (dm_clients d ! ci) else None)"

definition set_client :: "nat \<Rightarrow> ('s client \<Rightarrow> 's client) \<Rightarrow> ('p, 's) daemon \<Rightarrow> ('p, 's) daemon" where
  "set_client ci f d =
     (if ci < length (dm_clients d)
      then d\<lparr>dm_clients := (dm_clients d)[ci := f (dm_clients d ! ci)]\<rparr> else d)"

definition the_leaf :: "session_id \<Rightarrow> ('p, 's) daemon \<Rightarrow> 'p session option" where
  "the_leaf i d = k_leaves (dm_kernel d) i"

definition put_session :: "session_id \<Rightarrow> 'p session \<Rightarrow> ('p, 's) daemon \<Rightarrow> ('p, 's) daemon" where
  "put_session i s d = d\<lparr>dm_kernel := put_leaf i s (dm_kernel d)\<rparr>"

text \<open>\<open>c.outbox.extend(frame.encode()?)\<close> on the client at an index, when there is one.\<close>

definition queue_frame :: "nat \<Rightarrow> frame \<Rightarrow> ('p, 's) daemon \<Rightarrow> ('p, 's, unit) drun" where
  "queue_frame ci f d =
     (case client_at ci d of
        None \<Rightarrow> (Inr (), d)
      | Some _ \<Rightarrow>
          (case encode f of
             Inl e \<Rightarrow> (Inl (DAttach e), d)
           | Inr bs \<Rightarrow> (Inr (), set_client ci (\<lambda>c. c\<lparr>cl_outbox := cl_outbox c @ bs\<rparr>) d)))"

section \<open>Checkpoints for protocol 2\<close>

definition pod_cell_bytes :: "pod_cell \<Rightarrow> byte list" where
  "pod_cell_bytes c =
     word_to_le 4 (pc_codepoint c) @ word_to_le 4 (pc_fg c) @ word_to_le 4 (pc_bg c) @
     word_to_le 2 (pc_attrs c) @ [0, 0]"

definition encode_pod_grid :: "pod_grid \<Rightarrow> byte list" where
  "encode_pod_grid g =
     le_bytes 2 (pg_cols g) @ le_bytes 2 (pg_rows g) @ le_bytes 2 (pg_cursor_col g) @
     le_bytes 2 (pg_cursor_row g) @ [if pg_cursor_visible g then 1 else 0] @
     concat (map pod_cell_bytes (pg_cells g))"

definition pod_hash :: "pod_grid \<Rightarrow> u64" where
  "pod_hash g = fold (\<lambda>c h. h * 16777619 + ucast (pc_codepoint c)) (pg_cells g) 0"

text \<open>\<open>None\<close> is a panic of the emulator.\<close>

definition emit_checkpoint :: "nat \<Rightarrow> session_id \<Rightarrow> ('p, 's) daemon \<Rightarrow> ('p, 's, unit) drun option" where
  "emit_checkpoint ci i d =
     (case the_leaf i d of
        None \<Rightarrow> Some (Inr (), d)
      | Some s \<Rightarrow>
          let hist = history s; offset = ss_bytes_delivered s; (r, chip) = engine_reset (dm_chip d);
              d = d\<lparr>dm_chip := chip\<rparr>
          in case r of
               Inl e \<Rightarrow> Some (Inl (DChip e), d)
             | Inr _ \<Rightarrow>
                 do { chip \<leftarrow> (if hist \<noteq> [] then engine_feed hist (dm_chip d) else Some (dm_chip d));
                      let (grid, chip) = engine_snapshot chip;
                      Some (queue_frame ci (Checkpoint (of_nat offset) (pod_hash grid) (encode_pod_grid grid))
                        (d\<lparr>dm_chip := chip\<rparr>)) })"

section \<open>Frames from clients\<close>

definition drop_client :: "'p pty_ops \<Rightarrow> nat \<Rightarrow> ('p, 's) daemon \<Rightarrow> ('p, 's) daemon" where
  "drop_client P ci d =
     (case client_at ci d of
        None \<Rightarrow> d
      | Some c \<Rightarrow>
          let d = (case cl_leaf c of
              None \<Rightarrow> d
            | Some i \<Rightarrow>
                (case the_leaf i d of
                   None \<Rightarrow> d
                 | Some s \<Rightarrow> put_session i (if cl_observe c then release_observer s else detach P s) d))
          in d\<lparr>dm_clients := take ci (dm_clients d) @ drop (Suc ci) (dm_clients d)\<rparr>)"

definition resolve_attach :: "u64 option \<Rightarrow> ('p, 's) daemon \<Rightarrow> daemon_error + session_id" where
  "resolve_attach sid d =
     (case sid of
        None \<Rightarrow> Inr (dm_default_id d)
      | Some raw \<Rightarrow>
          if the_leaf (SessionId raw) d \<noteq> None then Inr (SessionId raw) else Inl (DKernel UnknownSession))"

text \<open>\<open>kernel.on_frame\<close> with the errors the daemon lets pass.\<close>

definition forward :: "'p pty_ops \<Rightarrow> nat \<Rightarrow> nat \<Rightarrow> session_id \<Rightarrow> frame \<Rightarrow> ('p, 's) daemon \<Rightarrow> ('p, 's, unit) drun" where
  "forward P now grace i f d =
     (let (r, k) = kernel_on_frame P now grace i f (dm_kernel d); d = d\<lparr>dm_kernel := k\<rparr>
      in case r of
           Inr _ \<Rightarrow> (Inr (), d)
         | Inl Dead \<Rightarrow> (Inr (), d)
         | Inl e \<Rightarrow> (Inl (DKernel e), d))"

definition dispatch_attach ::
    "'p pty_ops \<Rightarrow> nat \<Rightarrow> nat \<Rightarrow> nat \<Rightarrow> u64 \<Rightarrow> u64 option \<Rightarrow> byte \<Rightarrow> bool \<Rightarrow> ('p, 's) daemon \<Rightarrow>
      ('p, 's, unit) drun option" where
  "dispatch_attach P now grace ci generation sid protocol observe d =
     (if \<not> protocol_supported protocol then Some (queue_frame ci (Refused ProtocolMismatch) d)
      else case resolve_attach sid d of
        Inl _ \<Rightarrow> Some (queue_frame ci (Refused Invalid) d)
      | Inr i \<Rightarrow>
          let already = (case the_leaf i d of None \<Rightarrow> False | Some s \<Rightarrow> attached s);
              mine = (case client_at ci d of None \<Rightarrow> False | Some c \<Rightarrow> cl_leaf c = Some i)
          in if already \<and> \<not> mine \<and> \<not> observe then Some (queue_frame ci (Refused AlreadyAttached) d)
             else
               case forward P now grace i (Attach generation sid protocol observe) d of
                 (Inl e, d) \<Rightarrow> Some (Inl e, d)
               | (Inr _, d) \<Rightarrow>
                   if \<not> (observe \<or> (case the_leaf i d of None \<Rightarrow> False | Some s \<Rightarrow> attached s))
                   then Some (Inr (), d)
                   else
                     let d = set_client ci
                           (\<lambda>c. c\<lparr>cl_leaf := Some i, cl_observe := observe, cl_protocol := protocol\<rparr>) d
                     in if protocol = PROTOCOL_2 then emit_checkpoint ci i d
                        else if observe then
                          (case the_leaf i d of
                             None \<Rightarrow> Some (Inr (), d)
                           | Some s \<Rightarrow>
                               if history s \<noteq> [] then Some (queue_frame ci (Data (history s)) d)
                               else Some (Inr (), d))
                        else Some (Inr (), d))"

fun is_resize :: "frame \<Rightarrow> bool" where
  "is_resize (Resize _ _ _ _) = True"
| "is_resize _ = False"

definition take_credit :: "nat \<Rightarrow> frame \<Rightarrow> ('p, 's) daemon \<Rightarrow> ('p, 's) daemon" where
  "take_credit ci f d =
     (case f of
        Credit n \<Rightarrow> set_client ci (\<lambda>c. c\<lparr>cl_credit := sat_add u64_max (cl_credit c) (unat n)\<rparr>) d
      | _ \<Rightarrow> d)"

text \<open>An observer's viewport is accepted and changes nothing.\<close>

definition dispatch_other ::
    "'p pty_ops \<Rightarrow> nat \<Rightarrow> nat \<Rightarrow> nat \<Rightarrow> frame \<Rightarrow> ('p, 's) daemon \<Rightarrow> ('p, 's, unit) drun" where
  "dispatch_other P now grace ci other d =
     (let leaf = (case client_at ci d of None \<Rightarrow> None | Some c \<Rightarrow> cl_leaf c)
      in if leaf = None then (Inr (), drop_client P ci d)
         else
           let observe = (case client_at ci d of None \<Rightarrow> False | Some c \<Rightarrow> cl_observe c)
           in if observe \<and> is_data other then (Inr (), d)
              else if observe \<and> is_resize other then (Inr (), d)
              else
                let d = take_credit ci other d;
                    i = (case client_at ci d of
                           None \<Rightarrow> dm_default_id d
                         | Some c \<Rightarrow> (case cl_leaf c of None \<Rightarrow> dm_default_id d | Some i \<Rightarrow> i))
                in forward P now grace i other d)"

fun dispatch_frame ::
    "'p pty_ops \<Rightarrow> nat \<Rightarrow> nat \<Rightarrow> nat \<Rightarrow> frame \<Rightarrow> ('p, 's) daemon \<Rightarrow> ('p, 's, unit) drun option" where
  "dispatch_frame P now grace ci (Attach generation sid protocol observe) d =
     dispatch_attach P now grace ci generation sid protocol observe d"
| "dispatch_frame P now grace ci other d = Some (dispatch_other P now grace ci other d)"

fun dispatch_frames ::
    "'p pty_ops \<Rightarrow> nat \<Rightarrow> nat \<Rightarrow> nat \<Rightarrow> frame list \<Rightarrow> ('p, 's) daemon \<Rightarrow> ('p, 's, unit) drun option" where
  "dispatch_frames P now grace ci [] d = Some (Inr (), d)"
| "dispatch_frames P now grace ci (f # fs) d =
     do { (r, d) \<leftarrow> dispatch_frame P now grace ci f d;
          case r of Inl e \<Rightarrow> Some (Inl e, d) | Inr _ \<Rightarrow> dispatch_frames P now grace ci fs d }"

definition READ_CHUNK :: nat where "READ_CHUNK = 8192"

text \<open>What one read of a client's socket gave: nothing yet, the end of it, or decoded frames.\<close>

datatype received = Nothing | Lost | Frames "frame list"

definition receive :: "'s sock_ops \<Rightarrow> 's client \<Rightarrow> received \<times> 's client" where
  "receive W c =
     (let (got, stream) = sock_read W READ_CHUNK (cl_stream c); c = c\<lparr>cl_stream := stream\<rparr>
      in case got of
           ReadWouldBlock \<Rightarrow> (Nothing, c)
         | ReadFailed \<Rightarrow> (Lost, c)
         | ReadBytes bs \<Rightarrow>
             if bs = [] then (Lost, c)
             else
               let (r, buf) = decoder_push (cl_decoder c) (take READ_CHUNK bs); c = c\<lparr>cl_decoder := buf\<rparr>
               in case r of Inl _ \<Rightarrow> (Lost, c) | Inr fs \<Rightarrow> (Frames fs, c))"

definition read_client ::
    "'s sock_ops \<Rightarrow> 'p pty_ops \<Rightarrow> nat \<Rightarrow> nat \<Rightarrow> nat \<Rightarrow> ('p, 's) daemon \<Rightarrow> ('p, 's, unit) drun option" where
  "read_client W P now grace ci d =
     (case client_at ci d of
        None \<Rightarrow> Some (Inr (), d)
      | Some c \<Rightarrow>
          let (got, c) = receive W c; d = set_client ci (\<lambda>_. c) d
          in case got of
               Nothing \<Rightarrow> Some (Inr (), d)
             | Lost \<Rightarrow> Some (Inr (), drop_client P ci d)
             | Frames fs \<Rightarrow> dispatch_frames P now grace ci fs d)"

section \<open>Output of the leaves\<close>

definition live_chunk :: "nat \<Rightarrow> nat \<Rightarrow> nat option" where
  "live_chunk credit n = (if n = 0 then Some 0 else if credit < n then None else Some n)"

fun protocol1_writer_credit :: "'s client list \<Rightarrow> session_id \<Rightarrow> nat option" where
  "protocol1_writer_credit [] i = None"
| "protocol1_writer_credit (c # cs) i =
     (if cl_leaf c \<noteq> Some i \<or> cl_observe c \<or> cl_protocol c = PROTOCOL_2 then protocol1_writer_credit cs i
      else case protocol1_writer_credit cs i of
             None \<Rightarrow> Some (cl_credit c)
           | Some m \<Rightarrow> Some (min (cl_credit c) m))"

definition live_frame :: "byte \<Rightarrow> nat \<Rightarrow> byte list \<Rightarrow> nat \<Rightarrow> frame" where
  "live_frame protocol offset bs n =
     (if protocol = PROTOCOL_2 then Delta (of_nat (offset - length bs)) (take n bs) else Data (take n bs))"

fun fanout_clients :: "session_id \<Rightarrow> nat \<Rightarrow> byte list \<Rightarrow> 's client list \<Rightarrow> (daemon_error + unit) \<times> 's client list" where
  "fanout_clients i offset bs [] = (Inr (), [])"
| "fanout_clients i offset bs (c # cs) =
     (let skip = (let (r, cs) = fanout_clients i offset bs cs in (r, c # cs))
      in if cl_leaf c \<noteq> Some i then skip
         else case live_chunk (cl_credit c) (length bs) of
           None \<Rightarrow> skip
         | Some n \<Rightarrow>
             let c = c\<lparr>cl_credit := cl_credit c - n\<rparr>
             in case encode (live_frame (cl_protocol c) offset bs n) of
                  Inl e \<Rightarrow> (Inl (DAttach e), c # cs)
                | Inr out \<Rightarrow>
                    let (r, cs) = fanout_clients i offset bs cs
                    in (r, c\<lparr>cl_outbox := cl_outbox c @ out\<rparr> # cs))"

definition fanout_pty_bytes :: "session_id \<Rightarrow> nat \<Rightarrow> byte list \<Rightarrow> ('p, 's) daemon \<Rightarrow> ('p, 's, unit) drun" where
  "fanout_pty_bytes i offset bs d =
     (let (r, cs) = fanout_clients i offset bs (dm_clients d) in (r, d\<lparr>dm_clients := cs\<rparr>))"

definition speaks2 :: "session_id \<Rightarrow> ('p, 's) daemon \<Rightarrow> bool" where
  "speaks2 i d \<longleftrightarrow> list_ex (\<lambda>c. cl_leaf c = Some i \<and> cl_protocol c = PROTOCOL_2) (dm_clients d)"

text \<open>
  The inner loop of \<open>poll_io\<close> over one readable leaf, until it has no more to give. A leaf that
  always has more is \<open>None\<close>: the loop does not return.
\<close>

partial_function (option) pump_leaf :: "'p pty_ops \<Rightarrow> session_id \<Rightarrow> ('p, 's) daemon \<Rightarrow> ('p, 's, unit) drun option" where
  "pump_leaf P i d =
     (if speaks2 i d \<or> dm_is_worker d then
        (let cap = protocol1_writer_credit (dm_clients d) i
         in if cap = Some 0 then
              Some (Inr (), case the_leaf i d of None \<Rightarrow> d | Some s \<Rightarrow> put_session i (note_stalled_read s) d)
            else case the_leaf i d of
              None \<Rightarrow> Some (Inr (), d)
            | Some s \<Rightarrow>
                (case drain_pty_at_most P cap s of
                   (Inl e, s) \<Rightarrow> Some (Inl (DKernel e), put_session i s d)
                 | (Inr None, s) \<Rightarrow> Some (Inr (), put_session i s d)
                 | (Inr (Some bs), s) \<Rightarrow>
                     (case fanout_pty_bytes i (ss_bytes_delivered s) bs (put_session i s d) of
                        (Inl e, d) \<Rightarrow> Some (Inl e, d)
                      | (Inr _, d) \<Rightarrow> pump_leaf P i d)))
      else case the_leaf i d of
        None \<Rightarrow> Some (Inr (), d)
      | Some s \<Rightarrow>
          if ss_credit s = 0 then Some (Inr (), d)
          else
            (case on_pty_readable P s of
               (Inl e, s) \<Rightarrow> Some (Inl (DKernel e), put_session i s d)
             | (Inr n, s) \<Rightarrow>
                 if n > 0 then pump_leaf P i (put_session i s d) else Some (Inr (), put_session i s d)))"

section \<open>Output to clients\<close>

text \<open>\<open>write_outbox\<close>: what a write accepted is gone from the outbox, the rest stays queued.\<close>

function write_outbox :: "'s sock_ops \<Rightarrow> 's \<Rightarrow> byte list \<Rightarrow> (daemon_error + unit) \<times> 's \<times> byte list" where
  "write_outbox W stream out =
     (if out = [] then (Inr (), stream, out)
      else case sock_write W out stream of
        (WriteWouldBlock, stream) \<Rightarrow> (Inr (), stream, out)
      | (WriteFailed, stream) \<Rightarrow> (Inl DIo, stream, out)
      | (Wrote n, stream) \<Rightarrow> if n = 0 then (Inr (), stream, out) else write_outbox W stream (drop n out))"
  by pat_completeness auto
termination
  by (relation "measure (\<lambda>(W, stream, out). length out)") auto

declare write_outbox.simps [simp del]

fun queue_frames :: "byte \<Rightarrow> frame list \<Rightarrow> byte list \<Rightarrow> (daemon_error + unit) \<times> byte list" where
  "queue_frames protocol [] out = (Inr (), out)"
| "queue_frames protocol (f # fs) out =
     (if protocol = PROTOCOL_2 \<and> is_data f then queue_frames protocol fs out
      else case encode f of
             Inl e \<Rightarrow> (Inl (DAttach e), out)
           | Inr bs \<Rightarrow> queue_frames protocol fs (out @ bs))"

text \<open>\<open>while let Some(f) = session.pop_outbound()\<close>.\<close>

function pop_all :: "'p session \<Rightarrow> frame list \<times> 'p session" where
  "pop_all s =
     (case pop_outbound s of
        (None, s) \<Rightarrow> ([], s)
      | (Some f, s) \<Rightarrow> (let (fs, s) = pop_all s in (f # fs, s)))"
  by pat_completeness auto
termination
  by (relation "measure (length \<circ> ss_outbound)") (auto simp: pop_outbound_def split: list.splits)

declare pop_all.simps [simp del]

text \<open>A leaf nobody has claimed keeps its control frames and loses its data.\<close>

definition keep_control :: "'p session \<Rightarrow> 'p session" where
  "keep_control s =
     (let (fs, s) = pop_all s in fold enqueue_outbound (filter (\<lambda>f. \<not> is_data f) fs) s)"

definition claimed :: "('p, 's) daemon \<Rightarrow> session_id list" where
  "claimed d = List.map_filter cl_leaf (dm_clients d)"

fun trim_unclaimed :: "session_id list \<Rightarrow> session_id list \<Rightarrow> 'p kernel \<Rightarrow> 'p kernel" where
  "trim_unclaimed [] cl k = k"
| "trim_unclaimed (i # is) cl k =
     (if i \<in> set cl then trim_unclaimed is cl k
      else case k_leaves k i of
             None \<Rightarrow> trim_unclaimed is cl k
           | Some s \<Rightarrow> trim_unclaimed is cl (put_leaf i (keep_control s) k))"

fun take_pending :: "session_id list \<Rightarrow> 'p kernel \<Rightarrow> (session_id \<rightharpoonup> frame list) \<Rightarrow> (session_id \<rightharpoonup> frame list) \<times> 'p kernel" where
  "take_pending [] k pending = (pending, k)"
| "take_pending (i # is) k pending =
     (if pending i \<noteq> None then take_pending is k pending
      else case k_leaves k i of
             None \<Rightarrow> take_pending is k (pending(i \<mapsto> []))
           | Some s \<Rightarrow>
               (let (fs, s) = pop_all s in take_pending is (put_leaf i s k) (pending(i \<mapsto> fs))))"

text \<open>
  The loop over the clients: each gets the frames of its leaf, then its socket is written to. It
  stops at the first client whose socket fails, and returns its index.
\<close>

fun flush_clients ::
    "'s sock_ops \<Rightarrow> (session_id \<rightharpoonup> frame list) \<Rightarrow> 's client list \<Rightarrow>
      (daemon_error + nat option) \<times> 's client list" where
  "flush_clients W pending [] = (Inr None, [])"
| "flush_clients W pending (c # cs) =
     (let frames = (case cl_leaf c of
            None \<Rightarrow> []
          | Some i \<Rightarrow> (case pending i of None \<Rightarrow> [] | Some fs \<Rightarrow> fs));
          (r, out) = queue_frames (cl_protocol c) frames (cl_outbox c)
      in case r of
           Inl e \<Rightarrow> (Inl e, c\<lparr>cl_outbox := out\<rparr> # cs)
         | Inr _ \<Rightarrow>
             let (w, stream, out) = write_outbox W (cl_stream c) out;
                 c = c\<lparr>cl_stream := stream, cl_outbox := out\<rparr>
             in case w of
                  Inl _ \<Rightarrow> (Inr (Some 0), c # cs)
                | Inr _ \<Rightarrow>
                    let (r, cs) = flush_clients W pending cs
                    in (map_sum id (map_option Suc) r, c # cs))"

definition flush_outbound :: "'s sock_ops \<Rightarrow> 'p pty_ops \<Rightarrow> session_id list \<Rightarrow> ('p, 's) daemon \<Rightarrow> ('p, 's, unit) drun" where
  "flush_outbound W P ids d =
     (let cl = claimed d;
          (pending, k) = take_pending cl (trim_unclaimed ids cl (dm_kernel d)) Map.empty;
          (r, cs) = flush_clients W pending (dm_clients d);
          d = d\<lparr>dm_kernel := k, dm_clients := cs\<rparr>
      in case r of
           Inl e \<Rightarrow> (Inl e, d)
         | Inr None \<Rightarrow> (Inr (), d)
         | Inr (Some ci) \<Rightarrow> (Inr (), drop_client P ci d))"

text \<open>\<open>maybe_resync\<close>, over the ids of the kernel in the order its map lists them.\<close>

fun maybe_resync :: "session_id list \<Rightarrow> ('p, 's) daemon \<Rightarrow> ('p, 's, unit) drun option" where
  "maybe_resync [] d = Some (Inr (), d)"
| "maybe_resync (i # is) d =
     (case the_leaf i d of
        None \<Rightarrow> maybe_resync is d
      | Some s \<Rightarrow>
          (case take_resync_history s of
             (None, s) \<Rightarrow> maybe_resync is (put_session i s d)
           | (Some hist, s) \<Rightarrow>
               let d = put_session i s d
               in if speaks2 i d then maybe_resync is d
                  else
                    do { (r, chip) \<leftarrow> resync_from_history hist (dm_chip d);
                         let d = d\<lparr>dm_chip := chip\<rparr>;
                         case r of
                           Inl e \<Rightarrow> Some (Inl (DChip e), d)
                         | Inr bs \<Rightarrow>
                             maybe_resync is
                               (if bs \<noteq> []
                                then (case the_leaf i d of
                                        None \<Rightarrow> d
                                      | Some s \<Rightarrow> put_session i (enqueue_outbound (Data bs) s) d)
                                else d) }))"

definition step_timeout_ms :: "('p, 's) daemon \<Rightarrow> nat" where
  "step_timeout_ms d = (if list_ex (\<lambda>c. cl_outbox c \<noteq> []) (dm_clients d) then 0 else 50)"

definition accept_client :: "'s \<Rightarrow> bool \<Rightarrow> ('p, 's) daemon \<Rightarrow> ('p, 's) daemon" where
  "accept_client stream authorized d =
     (if \<not> authorized then d else d\<lparr>dm_clients := dm_clients d @ [client_new stream]\<rparr>)"

fun reap_all :: "'p pty_ops \<Rightarrow> nat \<Rightarrow> session_id list \<Rightarrow> ('p, 's) daemon \<Rightarrow> ('p, 's, unit) drun" where
  "reap_all P now [] d = (Inr (), d)"
| "reap_all P now (i # is) d =
     (let (r, k) = reap P now i (dm_kernel d); d = d\<lparr>dm_kernel := k\<rparr>
      in case r of Inl e \<Rightarrow> (Inl (DKernel e), d) | Inr _ \<Rightarrow> reap_all P now is d)"

section \<open>Navigation\<close>

text \<open>\<open>spawned\<close> is what the operating system made of the shell.\<close>

definition spawn_tab_leaf :: "kernel_error + 'p session \<Rightarrow> ('p, 's) daemon \<Rightarrow> ('p, 's, unit) drun option" where
  "spawn_tab_leaf spawned d =
     do { (r, k) \<leftarrow> spawn_leaf_with spawned (dm_kernel d);
          case r of
            Inl e \<Rightarrow> Some (Inl (DKernel e), d\<lparr>dm_kernel := k\<rparr>)
          | Inr leaf \<Rightarrow>
              do { (r, k) \<leftarrow> create_node Tab (Some (dm_workspace_id d)) k;
                   case r of
                     Inl e \<Rightarrow> Some (Inl (DKernel e), d\<lparr>dm_kernel := k\<rparr>)
                   | Inr tab \<Rightarrow>
                       (case attach_leaf tab leaf k of
                          (Inl e, k) \<Rightarrow> Some (Inl (DKernel e), d\<lparr>dm_kernel := k\<rparr>)
                        | (Inr _, k) \<Rightarrow> Some (Inr (), d\<lparr>dm_kernel := k\<rparr>)) } }"

text \<open>The tabs of the snapshot with the first leaf of each, zero for none.\<close>

definition nav_rows :: "('p, 's) daemon \<Rightarrow> (u64 \<times> u64) list" where
  "nav_rows d =
     map (\<lambda>row. (node_as_u64 (sn_id row),
         case List.find (\<lambda>c. case c of Leaf _ \<Rightarrow> True | Node _ \<Rightarrow> False) (sn_children row) of
           Some (Leaf i) \<Rightarrow> session_as_u64 i | _ \<Rightarrow> 0))
       (filter (\<lambda>row. sn_kind row = Tab) (container_snapshot (dm_kernel d)))"

section \<open>Starting\<close>

text \<open>
  \<open>Daemon::bind\<close>, once the lock and the sockets are made: one leaf in a tab of a workspace, and
  an emulator of the given size.
\<close>

definition daemon_bind ::
    "kernel_error + 'p session \<Rightarrow> winsize \<Rightarrow> bool \<Rightarrow> (daemon_error + ('p, 's) daemon) option" where
  "daemon_bind spawned sz is_worker =
     do { (r, k) \<leftarrow> spawn_leaf_with spawned kernel_new;
          case r of
            Inl e \<Rightarrow> Some (Inl (DKernel e))
          | Inr leaf \<Rightarrow>
              do { (r, k) \<leftarrow> create_node Workspace None k;
                   case r of
                     Inl e \<Rightarrow> Some (Inl (DKernel e))
                   | Inr workspace \<Rightarrow>
                       do { (r, k) \<leftarrow> create_node Tab (Some workspace) k;
                            case r of
                              Inl e \<Rightarrow> Some (Inl (DKernel e))
                            | Inr tab \<Rightarrow>
                                Some (case attach_leaf tab leaf k of
                                    (Inl e, k) \<Rightarrow> Inl (DKernel e)
                                  | (Inr _, k) \<Rightarrow>
                                      (case engine_new (unat (ws_cols sz)) (unat (ws_rows sz)) of
                                         Inl e \<Rightarrow> Inl (DChip e)
                                       | Inr chip \<Rightarrow>
                                           Inr \<lparr>dm_kernel = k, dm_workspace_id = workspace,
                                             dm_default_id = leaf, dm_clients = [], dm_chip = chip,
                                             dm_is_worker = is_worker\<rparr>)) } } }"

end
