(* ===== verification/Rill_Std.thy ===== *)
theory Rill_Std imports Vt_Screen_Safe "HOL-Library.Sublist" begin

text \<open>
  The standard library as the host and the orchestration crate use it: operations on a \<open>str\<close>, which is
  the list of its scalar values, and on the first element of a list with a property.
\<close>

type_synonym str = "nat list"

text \<open>\<open>char::is_whitespace\<close>, the White_Space property of Unicode.\<close>

definition is_whitespace :: "nat \<Rightarrow> bool" where
  "is_whitespace c \<longleftrightarrow> 0x09 \<le> c \<and> c \<le> 0x0d \<or> c = 0x20 \<or> c = 0x85 \<or> c = 0xa0 \<or> c = 0x1680 \<or>
     0x2000 \<le> c \<and> c \<le> 0x200a \<or> c = 0x2028 \<or> c = 0x2029 \<or> c = 0x202f \<or> c = 0x205f \<or> c = 0x3000"

text \<open>\<open>split\<close> on the scalars that satisfy a predicate: the parts between them, empty ones included.\<close>

fun split_on :: "(nat \<Rightarrow> bool) \<Rightarrow> nat list \<Rightarrow> nat list list" where
  "split_on p [] = [[]]"
| "split_on p (c # cs) =
     (if p c then [] # split_on p cs
      else case split_on p cs of [] \<Rightarrow> [[c]] | x # xs \<Rightarrow> (c # x) # xs)"

definition trim :: "nat list \<Rightarrow> nat list" where
  "trim s = rev (dropWhile is_whitespace (rev (dropWhile is_whitespace s)))"

definition split_whitespace :: "nat list \<Rightarrow> nat list list" where
  "split_whitespace s = filter (\<lambda>w. w \<noteq> []) (split_on is_whitespace s)"

definition strip_prefix :: "nat list \<Rightarrow> nat list \<Rightarrow> nat list option" where
  "strip_prefix p s = (if take (length p) s = p then Some (drop (length p) s) else None)"

lemma split_on_none: "\<forall>c \<in> set s. \<not> p c \<Longrightarrow> split_on p s = [s]"
  by (induction s) auto

lemma split_on_sep: "\<forall>c \<in> set s. \<not> p c \<Longrightarrow> p c \<Longrightarrow> split_on p (s @ c # t) = s # split_on p t"
  by (induction s) auto

lemma split_on_set: "w \<in> set (split_on p s) \<Longrightarrow> set w \<subseteq> set s"
proof (induction p s arbitrary: w rule: split_on.induct)
  case (2 p c cs)
  then show ?case by (fastforce split: if_splits list.splits)
qed simp

text \<open>Splitting a join, at its seam.\<close>

lemma split_on_nonempty [simp]: "split_on p s \<noteq> []"
  by (cases s) (auto split: list.split)

lemma split_on_append:
  "split_on p (xs @ ys) = butlast (split_on p xs) @ (last (split_on p xs) @ hd (split_on p ys)) # tl (split_on p ys)"
proof (induction xs)
  case Nil
  then show ?case by (cases "split_on p ys") (use split_on_nonempty in auto)
next
  case (Cons x xs)
  obtain w ws where w: "split_on p xs = w # ws" by (cases "split_on p xs") (use split_on_nonempty in auto)
  show ?case using Cons by (simp add: w)
qed

text \<open>\<open>find\<close> of a \<open>str\<close>, \<open>contains\<close> and \<open>starts_with\<close>.\<close>

fun find_str :: "str \<Rightarrow> str \<Rightarrow> nat option" where
  "find_str p [] = (if p = [] then Some 0 else None)"
| "find_str p (c # cs) = (if take (length p) (c # cs) = p then Some 0 else map_option Suc (find_str p cs))"

definition has_str :: "str \<Rightarrow> str \<Rightarrow> bool" where
  "has_str p s \<longleftrightarrow> find_str p s \<noteq> None"

definition begins_with :: "str \<Rightarrow> str \<Rightarrow> bool" where
  "begins_with p s \<longleftrightarrow> take (length p) s = p"

lemma take_prefix: "take (length p) s = p \<longleftrightarrow> prefix p s"
  by (metis append_eq_conv_conj append_take_drop_id prefix_def)

lemma find_str_Some:
  "find_str p s = Some k \<Longrightarrow> p \<noteq> [] \<Longrightarrow> prefix p (drop k s) \<and> \<not> sublist p (take k s)"
proof (induction p s arbitrary: k rule: find_str.induct)
  case (2 p c cs)
  show ?case
  proof (cases "prefix p (c # cs)")
    case False
    then obtain j where j: "find_str p cs = Some j" "k = Suc j" using 2(2) by (auto simp: take_prefix)
    moreover have "\<not> prefix p (c # take j cs)"
      using False prefix_order.trans [of p "c # take j cs" "c # cs"] take_is_prefix [of j cs] by auto
    ultimately show ?thesis using 2(1) [of j] 2(3) False by (auto simp: take_prefix sublist_Cons_right)
  qed (use 2 in \<open>auto simp: take_prefix\<close>)
qed (simp split: if_splits)

lemma find_str_None: "find_str p s = None \<longleftrightarrow> \<not> sublist p s"
  by (induction p s rule: find_str.induct) (auto simp: take_prefix sublist_Cons_right)

lemma has_str_sublist [simp]: "has_str p s \<longleftrightarrow> sublist p s"
  by (simp add: has_str_def find_str_None)

lemma sublist_seam: "c \<notin> set p \<Longrightarrow> sublist p (xs @ c # ys) \<longleftrightarrow> sublist p xs \<or> sublist p ys"
  by (cases "p = []") (auto simp: sublist_append sublist_Cons_right prefix_Cons dest: suffix_imp_sublist)

text \<open>A part of a string without separators lies in one of its words.\<close>

lemma sublist_words:
  "\<forall>c \<in> set q. \<not> p c \<Longrightarrow> sublist q s \<longleftrightarrow> (\<exists>w \<in> set (split_on p s). sublist q w)"
proof (induction "length s" arbitrary: s rule: less_induct)
  case less
  show ?case
  proof (cases "\<exists>c \<in> set s. p c")
    case True
    then obtain u c t where s: "s = u @ c # t" "p c" "\<forall>y \<in> set u. \<not> p y" using split_list_first_prop [of s p] by blast
    then have "c \<notin> set q" using less.prems by auto
    then have "sublist q s \<longleftrightarrow> sublist q u \<or> sublist q t" by (simp add: s(1) sublist_seam)
    moreover have "split_on p s = u # split_on p t" using split_on_sep [OF s(3,2)] by (simp add: s(1))
    ultimately show ?thesis using less.hyps [of t] less.prems by (simp add: s(1))
  qed (simp add: split_on_none)
qed

lemma words_seam:
  assumes "\<forall>c \<in> set w. \<not> p c" "r = [] \<or> p (hd r)"
  shows "split_on p (a @ w @ r) = butlast (split_on p a) @ (last (split_on p a) @ w) # tl (split_on p r)"
proof -
  have "hd (split_on p r) = []" using assms(2) by (cases r) auto
  then have "split_on p (w @ r) = w # tl (split_on p r)" using split_on_append [of p w r] split_on_none [OF assms(1)] by simp
  then show ?thesis using split_on_append [of p a "w @ r"] by simp
qed

lemma prefix_takeWhile: "prefix q s \<Longrightarrow> \<forall>c \<in> set q. p c \<Longrightarrow> prefix q (takeWhile p s)"
  by (auto simp: prefix_def takeWhile_append)

lemma find_str_snoc: "c \<notin> set p \<Longrightarrow> p \<noteq> [] \<Longrightarrow> find_str p (s @ [c]) = find_str p s"
proof (induction s)
  case (Cons x s)
  have "prefix p (x # s @ [c]) \<longleftrightarrow> prefix p (x # s)"
    using Cons.prems by (auto simp: prefix_snoc [of p "x # s" c, simplified])
  then show ?case using Cons by (simp add: take_prefix)
qed (auto simp: take_prefix prefix_Cons)

section \<open>First elements\<close>

text \<open>\<open>remove(position(p))\<close>: the first element that satisfies \<open>p\<close> is taken out.\<close>

fun remove_first :: "('a \<Rightarrow> bool) \<Rightarrow> 'a list \<Rightarrow> 'a list" where
  "remove_first p [] = []"
| "remove_first p (x # xs) = (if p x then xs else x # remove_first p xs)"

text \<open>\<open>iter_mut().find\<close>: the first element that satisfies \<open>p\<close> is changed.\<close>

fun update_first :: "('a \<Rightarrow> bool) \<Rightarrow> ('a \<Rightarrow> 'a) \<Rightarrow> 'a list \<Rightarrow> 'a list" where
  "update_first p f [] = []"
| "update_first p f (x # xs) = (if p x then f x # xs else x # update_first p f xs)"

lemma subseq_remove_first: "subseq (remove_first p xs) xs"
  by (induction xs) auto

lemma filter_remove_first:
  "(\<And>x. p x \<Longrightarrow> \<not> f x) \<Longrightarrow> filter f (remove_first p xs) = filter f xs"
  "filter p (remove_first p xs) = tl (filter p xs)"
  by (induction xs) auto

lemma count_remove_first:
  "(\<And>x. p x \<Longrightarrow> f x) \<Longrightarrow> filter p xs \<noteq> [] \<Longrightarrow> Suc (length (filter f (remove_first p xs))) = length (filter f xs)"
  by (induction xs) (auto split: if_splits)

lemma update_first_map:
  "distinct (map k xs) \<Longrightarrow> update_first (\<lambda>x. k x = i) f xs = map (\<lambda>x. if k x = i then f x else x) xs"
proof (induction xs)
  case (Cons x xs)
  have "map (\<lambda>y. if k y = k x then f y else y) xs = xs" using Cons.prems by (intro map_idI) (auto simp: image_iff)
  with Cons show ?case by (cases "k x = i") auto
qed simp

lemma subseq_distinct: "subseq xs ys \<Longrightarrow> distinct ys \<Longrightarrow> distinct xs \<and> set xs \<subseteq> set ys"
  by (induction rule: list_emb.induct) auto

section \<open>Decimal numbers\<close>

lemma dec_digits: "\<forall>d \<in> set (dec n). d < 10"
  by (induction n rule: dec.induct) (subst dec.simps, auto)

lemma dec_value: "foldl (\<lambda>a d. 10 * a + d) 0 (dec n) = n"
  by (induction n rule: dec.induct) (subst dec.simps, simp)

lemma digits_inj: "digits m = digits n \<Longrightarrow> m = n"
proof -
  have undo: "map (\<lambda>b. unat (b - 0x30)) (digits l) = dec l" for l
  proof -
    have "unat (word_of_nat d :: byte) = d" if "d \<in> set (dec l)" for d
      using dec_digits [of l] that by (force simp: unat_of_nat)
    then show ?thesis by (simp add: digits_def map_idI)
  qed
  assume "digits m = digits n"
  then have "dec m = dec n" using undo by metis
  then show ?thesis using dec_value by metis
qed

end
