(* ===== verification/Host_Nav.thy ===== *)
theory Host_Nav imports Daemon Rill_Std begin

text \<open>
  The navigation line: what the daemon writes to its companion socket (\<open>nav_snapshot_line\<close> of
  \<open>crates/rilld/src/lib.rs\<close>) and how a host reads it (\<open>crates/rill-host/src/nav.rs\<close>,
  \<open>cold_workspace_id\<close> of its \<open>lib.rs\<close>). A \<open>str\<close> is as
  \<open>from_utf8\<close> gives it.
\<close>

section \<open>Writing the line\<close>

definition join_commas :: "byte list list \<Rightarrow> byte list" where
  "join_commas xs = concat (case xs of [] \<Rightarrow> [] | x # ys \<Rightarrow> x # map (\<lambda>y. 0x2c # y) ys)"

definition nav_line :: "u64 \<Rightarrow> u64 list \<Rightarrow> u64 list \<Rightarrow> byte list" where
  "nav_line ws tabs leaves =
     [0x77, 0x73, 0x3d] @ digits (unat ws) @
     [0x20, 0x74, 0x61, 0x62, 0x73, 0x3d] @ join_commas (map (\<lambda>n. digits (unat n)) tabs) @
     [0x20, 0x6c, 0x65, 0x61, 0x76, 0x65, 0x73, 0x3d] @ join_commas (map (\<lambda>n. digits (unat n)) leaves) @ [0x0a]"

definition nav_snapshot_line :: "('p, 's) daemon \<Rightarrow> byte list" where
  "nav_snapshot_line d = nav_line (node_as_u64 (dm_workspace_id d)) (map fst (nav_rows d)) (map snd (nav_rows d))"

section \<open>Reading it\<close>

text \<open>\<open>str::parse::<u64>\<close>: a sign \<open>+\<close> may lead, there is at least one digit, and the value fits.\<close>

fun parse_digits :: "nat \<Rightarrow> nat list \<Rightarrow> nat option" where
  "parse_digits n [] = Some n"
| "parse_digits n (c # cs) =
     (if 0x30 \<le> c \<and> c \<le> 0x39 \<and> 10 * n + (c - 0x30) \<le> u64_max then parse_digits (10 * n + (c - 0x30)) cs else None)"

definition parse_u64 :: "nat list \<Rightarrow> u64 option" where
  "parse_u64 s =
     (let ds = (case s of c # cs \<Rightarrow> if c = 0x2b then cs else s | [] \<Rightarrow> [])
      in if ds = [] then None else map_option of_nat (parse_digits 0 ds))"

definition parse_id_list :: "nat list \<Rightarrow> u64 list" where
  "parse_id_list s = (if s = [] then [] else List.map_filter parse_u64 (split_on (\<lambda>c. c = 0x2c) s))"

record nav_snapshot =
  ns_workspace_id :: u64
  ns_tabs :: "u64 list"
  ns_leaves :: "u64 list"

definition WS_KEY :: "nat list" where "WS_KEY = [0x77, 0x73, 0x3d]"
definition TABS_KEY :: "nat list" where "TABS_KEY = [0x74, 0x61, 0x62, 0x73, 0x3d]"
definition LEAVES_KEY :: "nat list" where "LEAVES_KEY = [0x6c, 0x65, 0x61, 0x76, 0x65, 0x73, 0x3d]"

definition nav_part :: "nat list \<Rightarrow> u64 option \<times> u64 list \<times> u64 list \<Rightarrow> u64 option \<times> u64 list \<times> u64 list" where
  "nav_part part acc =
     (let (ws, tabs, leaves) = acc;
          ws = (case strip_prefix WS_KEY part of Some v \<Rightarrow> parse_u64 v | None \<Rightarrow> ws);
          tabs = (case strip_prefix TABS_KEY part of Some v \<Rightarrow> parse_id_list v | None \<Rightarrow> tabs);
          leaves = (case strip_prefix LEAVES_KEY part of Some v \<Rightarrow> parse_id_list v | None \<Rightarrow> leaves)
      in (ws, tabs, leaves))"

definition parse_nav_line :: "nat list \<Rightarrow> nav_snapshot option" where
  "parse_nav_line line =
     (let (ws, tabs, leaves) = fold nav_part (split_whitespace (trim line)) (None, [], [])
      in map_option (\<lambda>w. \<lparr>ns_workspace_id = w, ns_tabs = tabs, ns_leaves = leaves\<rparr>) ws)"

text \<open>
  \<open>cold_workspace_id\<close>, from the bytes of one read of at most 512: no value when the socket cannot be
  reached or read.
\<close>

definition cold_workspace_id :: "byte list option \<Rightarrow> u64 option" where
  "cold_workspace_id got =
     Option.bind got (\<lambda>bs. Option.bind (from_utf8 (take 512 bs)) (\<lambda>txt. map_option ns_workspace_id (parse_nav_line txt)))"

section \<open>What is read is what was written\<close>

definition chars :: "byte list \<Rightarrow> nat list" where "chars bs = map unat bs"

lemma chars_simps [simp]: "chars [] = []" "chars (b # bs) = unat b # chars bs" "chars (as @ bs) = chars as @ chars bs"
  by (simp_all add: chars_def)

lemma from_utf8_ascii: "\<forall>b \<in> set bs. b \<le> 0x7f \<Longrightarrow> from_utf8 bs = Some (chars bs)"
  by (induction bs) (auto simp: chars_def)

lemma digit_chars: "set (chars (digits n)) \<subseteq> {0x30..0x39}"
proof -
  have "\<forall>d \<in> set (dec n). d < 10" by (induction n rule: dec.induct) (subst dec.simps, auto)
  moreover have "unat (0x30 + word_of_nat d :: byte) = 0x30 + d" if "d < 10" for d
    using that by (simp add: unat_word_ariths unat_of_nat)
  ultimately show ?thesis by (auto simp: chars_def digits_def)
qed

lemma parse_digits_append: "parse_digits n (as @ bs) = Option.bind (parse_digits n as) (\<lambda>m. parse_digits m bs)"
  by (induction n as rule: parse_digits.induct) auto

lemma parse_digits_dec: "n \<le> u64_max \<Longrightarrow> parse_digits 0 (chars (digits n)) = Some n"
proof (induction n rule: dec.induct)
  case (1 n)
  have unat: "unat (0x30 + word_of_nat d :: byte) = 0x30 + d" if "d < 10" for d
    using that by (simp add: unat_word_ariths unat_of_nat)
  show ?case
  proof (cases "n < 10")
    case True
    then have "chars (digits n) = [0x30 + n]" by (simp add: digits_def dec.simps [of n] unat)
    then show ?thesis using True by simp
  next
    case False
    then have d: "chars (digits n) = chars (digits (n div 10)) @ [0x30 + n mod 10]"
      by (simp add: digits_def dec.simps [of n] unat)
    have "parse_digits 0 (chars (digits (n div 10))) = Some (n div 10)" using 1 False by simp
    moreover have "10 * (n div 10) + n mod 10 = n" by simp
    ultimately show ?thesis using 1(2) by (simp add: d parse_digits_append)
  qed
qed

lemma digits_nonempty: "chars (digits n) \<noteq> []"
  using length_dec_pos [of n] by (simp add: chars_def digits_def)

lemma parse_written: "parse_u64 (chars (digits (unat (n :: u64)))) = Some n"
proof -
  have "unat n < 2 ^ 64" using unsigned_less [of n] by simp
  then have "unat n \<le> u64_max" by simp
  then have p: "parse_digits 0 (chars (digits (unat n))) = Some (unat n)" by (rule parse_digits_dec)
  obtain c cs where c: "chars (digits (unat n)) = c # cs" using digits_nonempty by (meson neq_Nil_conv)
  moreover have "c \<noteq> 0x2b" using digit_chars [of "unat n"] c by auto
  ultimately show ?thesis using p by (simp add: parse_u64_def Let_def)
qed

definition commas :: "nat list list \<Rightarrow> nat list" where
  "commas xs = concat (case xs of [] \<Rightarrow> [] | x # ys \<Rightarrow> x # map (\<lambda>y. 0x2c # y) ys)"

lemma chars_join: "chars (join_commas xs) = commas (map chars xs)"
  by (cases xs) (simp_all add: join_commas_def commas_def chars_def map_concat comp_def)

lemma split_commas:
  "xs \<noteq> [] \<Longrightarrow> \<forall>x \<in> set xs. 0x2c \<notin> set x \<Longrightarrow> split_on (\<lambda>c. c = 0x2c) (commas xs) = xs"
proof (induction xs)
  case (Cons x xs)
  show ?case
  proof (cases xs)
    case Nil
    then show ?thesis using Cons.prems by (auto simp: commas_def intro: split_on_none)
  next
    case (Cons y ys)
    then have e: "commas (x # xs) = x @ 0x2c # commas xs" by (simp add: commas_def)
    show ?thesis
      unfolding e using Cons.IH Cons.prems Cons split_on_sep [where s = x and p = "\<lambda>c. c = 0x2c" and t = "commas xs"] by auto
  qed
qed simp

lemma parse_ids: "parse_id_list (commas (map (\<lambda>n. chars (digits (unat n))) ns)) = ns"
proof (cases ns)
  case (Cons n ns')
  let ?xs = "map (\<lambda>n. chars (digits (unat (n :: u64)))) ns"
  have "0x2c \<notin> set x" if "x \<in> set ?xs" for x using that digit_chars by fastforce
  then have s: "split_on (\<lambda>c. c = 0x2c) (commas ?xs) = ?xs" using Cons by (intro split_commas) auto
  have "commas ?xs \<noteq> []" using digits_nonempty Cons by (simp add: commas_def)
  moreover have "List.map_filter parse_u64 ?xs = ns" by (induction ns) (simp_all add: map_filter_simps parse_written)
  ultimately show ?thesis by (simp add: parse_id_list_def s)
qed (simp add: parse_id_list_def commas_def)

lemma not_white: "c \<in> {0x2c..0x7e} \<Longrightarrow> \<not> is_whitespace c"
  by (auto simp: is_whitespace_def)

lemma commas_chars: "set (commas (map (\<lambda>n. chars (digits (unat (n :: u64)))) ns)) \<subseteq> {0x2c..0x39}"
proof -
  have "set (commas xs) \<subseteq> insert 0x2c (\<Union>(set ` set xs))" for xs
    by (cases xs) (auto simp: commas_def)
  then show ?thesis using digit_chars by fastforce
qed

text \<open>The three words of the line.\<close>

lemma nav_words:
  assumes "\<forall>w \<in> {a, b, c}. set w \<subseteq> {0x2c..0x7e} \<and> w \<noteq> []"
  shows "split_whitespace (trim (a @ 0x20 # b @ 0x20 # c @ [0x0a])) = [a, b, c]"
proof -
  have n: "\<forall>x \<in> set a. \<not> is_whitespace x" "\<forall>x \<in> set b. \<not> is_whitespace x" "\<forall>x \<in> set c. \<not> is_whitespace x"
    using assms not_white by blast+
  have w: "is_whitespace 0x20" "is_whitespace 0x0a" by (simp_all add: is_whitespace_def)
  let ?l = "a @ 0x20 # b @ 0x20 # c"
  obtain x xs where a: "a = x # xs" using assms by (cases a) auto
  obtain y ys where c: "rev c = y # ys" using assms by (cases "rev c") auto
  have "\<not> is_whitespace x" "\<not> is_whitespace y" using n(1,3) a c by (auto simp: rev_swap)
  then have t: "trim (?l @ [0x0a]) = ?l"
    using a c w by (simp add: trim_def)
  have "split_on is_whitespace ?l = [a, b, c]"
    using n w by (simp add: split_on_sep split_on_none)
  then show ?thesis using t assms by (simp add: split_whitespace_def)
qed

lemma nav_line_eq:
  "chars (nav_line ws tabs leaves) =
    (WS_KEY @ chars (digits (unat ws))) @ 0x20 # (TABS_KEY @ commas (map (\<lambda>n. chars (digits (unat n))) tabs)) @
      0x20 # (LEAVES_KEY @ commas (map (\<lambda>n. chars (digits (unat n))) leaves)) @ [0x0a]"
  by (simp add: nav_line_def chars_join comp_def WS_KEY_def TABS_KEY_def LEAVES_KEY_def)

lemma nav_line_ascii: "\<forall>b \<in> set (nav_line ws tabs leaves). b \<le> 0x7f"
proof -
  have "set (chars (nav_line ws tabs leaves)) \<subseteq> {0..0x7f}"
    unfolding nav_line_eq using digit_chars [of "unat ws"] commas_chars [of tabs] commas_chars [of leaves]
    by (fastforce simp: WS_KEY_def TABS_KEY_def LEAVES_KEY_def)
  then show ?thesis by (auto simp: chars_def word_le_nat_alt)
qed

lemma nav_part_keys:
  "nav_part (WS_KEY @ v) (w, t, l) = (parse_u64 v, t, l)"
  "nav_part (TABS_KEY @ v) (w, t, l) = (w, parse_id_list v, l)"
  "nav_part (LEAVES_KEY @ v) (w, t, l) = (w, t, parse_id_list v)"
  by (simp_all add: nav_part_def strip_prefix_def WS_KEY_def TABS_KEY_def LEAVES_KEY_def)

lemma parse_nav_words:
  "parse_nav_line ((WS_KEY @ chars (digits (unat ws))) @ 0x20 # (TABS_KEY @ commas (map (\<lambda>n. chars (digits (unat n))) tabs)) @
      0x20 # (LEAVES_KEY @ commas (map (\<lambda>n. chars (digits (unat n))) leaves)) @ [0x0a]) =
    Some \<lparr>ns_workspace_id = ws, ns_tabs = tabs, ns_leaves = leaves\<rparr>" (is "parse_nav_line (?a @ 0x20 # ?b @ 0x20 # ?c @ [0x0a]) = _")
proof -
  have "set ?a \<subseteq> {0x2c..0x7e}" using digit_chars [of "unat ws"] by (fastforce simp: WS_KEY_def)
  moreover have "set ?b \<subseteq> {0x2c..0x7e}" using commas_chars [of tabs] by (fastforce simp: TABS_KEY_def)
  moreover have "set ?c \<subseteq> {0x2c..0x7e}" using commas_chars [of leaves] by (fastforce simp: LEAVES_KEY_def)
  ultimately have "split_whitespace (trim (?a @ 0x20 # ?b @ 0x20 # ?c @ [0x0a])) = [?a, ?b, ?c]"
    by (intro nav_words) (auto simp: WS_KEY_def TABS_KEY_def LEAVES_KEY_def)
  then show ?thesis by (simp add: parse_nav_line_def nav_part_keys parse_ids parse_written)
qed

text \<open>A line that is cut still names its workspace: nothing behind the first word has a \<open>w\<close>.\<close>

lemma nav_part_other: "0x77 \<notin> set w \<Longrightarrow> fst (nav_part w acc) = fst acc"
proof -
  assume w: "0x77 \<notin> set w"
  have "take 3 w \<noteq> WS_KEY" using w set_take_subset [of 3 w] by (auto simp: WS_KEY_def)
  then have "strip_prefix WS_KEY w = None" by (simp add: strip_prefix_def WS_KEY_def numeral_3_eq_3)
  then show ?thesis by (cases acc) (simp add: nav_part_def Let_def)
qed

lemma nav_parts_other: "\<forall>w \<in> set ws. 0x77 \<notin> set w \<Longrightarrow> fst (fold nav_part ws acc) = fst acc"
  by (induction ws arbitrary: acc) (simp_all add: nav_part_other)

lemma dropWhile_rev_end: "\<not> p x \<Longrightarrow> \<exists>n. rev (dropWhile p (rev (ys @ x # t))) = ys @ x # take n t"
proof (induction t rule: rev_induct)
  case (snoc y t)
  show ?case
  proof (cases "p y")
    case True
    then obtain n where "rev (dropWhile p (rev (ys @ x # t @ [y]))) = ys @ x # take n t" using snoc by auto
    then show ?thesis by (intro exI [of _ "min n (length t)"]) (simp add: min_def)
  next
    case False
    then show ?thesis by (intro exI [of _ "length t + 1"]) simp
  qed
qed simp

lemma cut_workspace:
  assumes "0x77 \<notin> set t"
  shows "map_option ns_workspace_id (parse_nav_line ((WS_KEY @ chars (digits (unat (ws :: u64)))) @ 0x20 # t)) = Some ws"
proof -
  let ?a = "WS_KEY @ chars (digits (unat ws))"
  have n: "\<forall>x \<in> set ?a. \<not> is_whitespace x"
    using digit_chars [of "unat ws"] by (fastforce simp: WS_KEY_def is_whitespace_def)
  obtain ys x where a: "?a = ys @ [x]" by (metis append_is_Nil_conv digits_nonempty rev_exhaust)
  have x: "\<not> is_whitespace x" using n unfolding a by simp
  have hd: "dropWhile is_whitespace (?a @ 0x20 # t) = ?a @ 0x20 # t" by (simp add: WS_KEY_def is_whitespace_def)
  obtain k where k: "trim (?a @ 0x20 # t) = ?a @ take k (0x20 # t)"
    using dropWhile_rev_end [of is_whitespace x ys "0x20 # t", OF x] hd unfolding trim_def a by auto
  have "\<exists>us. split_on is_whitespace (?a @ take k (0x20 # t)) = ?a # us \<and> (\<forall>w \<in> set us. 0x77 \<notin> set w)"
  proof (cases k)
    case 0
    then show ?thesis using split_on_none [OF n] by simp
  next
    case (Suc j)
    have "split_on is_whitespace (?a @ 0x20 # take j t) = ?a # split_on is_whitespace (take j t)"
      by (rule split_on_sep [OF n]) (simp add: is_whitespace_def)
    moreover have "0x77 \<notin> set w" if "w \<in> set (split_on is_whitespace (take j t))" for w
      using that split_on_set set_take_subset [of j t] assms by blast
    ultimately show ?thesis using Suc by auto
  qed
  then obtain us where us: "split_on is_whitespace (?a @ take k (0x20 # t)) = ?a # us" "\<forall>w \<in> set us. 0x77 \<notin> set w"
    by blast
  have f: "fst (fold nav_part (filter (\<lambda>w. w \<noteq> []) us) (Some ws, [], [])) = Some ws"
    using us(2) by (subst nav_parts_other) auto
  have "?a \<noteq> []" by (simp add: WS_KEY_def)
  then have "split_whitespace (trim (?a @ 0x20 # t)) = ?a # filter (\<lambda>w. w \<noteq> []) us"
    unfolding split_whitespace_def k us(1) by (simp del: append_is_Nil_conv)
  with f show ?thesis
    by (simp add: parse_nav_line_def nav_part_keys parse_written split_beta option.map_comp comp_def option.map_ident)
qed

lemma ascii_from_utf8: "\<forall>b \<in> set bs. b \<le> 0x7f \<Longrightarrow> from_utf8 (take n bs) = Some (take n (chars bs))"
  by (subst from_utf8_ascii) (auto simp: chars_def take_map dest: in_set_takeD)

lemma workspace_of_cut_line: "cold_workspace_id (Some (nav_line ws tabs leaves)) = Some ws"
proof -
  let ?a = "WS_KEY @ chars (digits (unat ws))"
  let ?t = "(TABS_KEY @ commas (map (\<lambda>n. chars (digits (unat n))) tabs)) @
      0x20 # (LEAVES_KEY @ commas (map (\<lambda>n. chars (digits (unat n))) leaves)) @ [0x0a]"
  have ascii: "\<forall>b \<in> set (nav_line ws tabs leaves). b \<le> 0x7f" and c: "chars (nav_line ws tabs leaves) = ?a @ 0x20 # ?t"
    by (rule nav_line_ascii, rule nav_line_eq)
  have "unat ws < 2 ^ 64" using unsigned_less [of ws] by simp
  then have "unat ws < 10 ^ 20" by simp
  then have "length (dec (unat ws)) \<le> 20" by (intro length_dec) simp_all
  then have l: "length ?a \<le> 23" by (simp add: WS_KEY_def chars_def digits_def)
  then have "take 512 (?a @ 0x20 # ?t) = ?a @ 0x20 # take (511 - length ?a) ?t"
    by (simp add: take_Cons' del: append_assoc)
  moreover have "0x77 \<notin> set ?t"
    using commas_chars [of tabs] commas_chars [of leaves] by (fastforce simp: TABS_KEY_def LEAVES_KEY_def)
  then have "0x77 \<notin> set (take (511 - length ?a) ?t)" by (meson in_set_takeD)
  ultimately show ?thesis
    using cut_workspace [of "take (511 - length ?a) ?t" ws]
    by (simp add: cold_workspace_id_def ascii_from_utf8 [OF ascii] c del: append_assoc)
qed

end
