(* ===== verification/Content.thy ===== *)
theory Content
  imports Vt_Repaint
begin

text \<open>
  The content timeline of a leaf (\<open>crates/rill-kernel/src/content.rs\<close>): source ranges and the state
  their replay needs, retention policies, events, the timeline and the durable transcript. A Rust
  \<open>String\<close> is the list of the bytes of its UTF-8 form; sequence numbers and offsets are words.
\<close>

type_synonym rstring = "byte list"

section \<open>Source ranges\<close>

datatype content_error =
    DuplicateEventId rstring
  | OutOfOrderSequence rstring u64 u64
  | CaptureDisabled
  | RetentionLimitExceeded nat nat
  | InvalidSourceRange u64 u64
  | ReplayStateRequired
  | IncompatibleReplayState
  | AlternateScreenNotMaterialized

record source_range =
  sr_generation :: u64
  sr_start :: u64
  sr_end :: u64
  sr_checkpoint_id :: "rstring option"

definition source_range_new :: "u64 \<Rightarrow> u64 \<Rightarrow> u64 \<Rightarrow> rstring option \<Rightarrow> content_error + source_range" where
  "source_range_new generation a b checkpoint_id =
     (if a \<ge> b then Inl (InvalidSourceRange a b)
      else Inr \<lparr>sr_generation = generation, sr_start = a, sr_end = b, sr_checkpoint_id = checkpoint_id\<rparr>)"

datatype replay_state = StreamOrigin | FromCheckpoint rstring u64 u64

fun validate_replay :: "source_range \<Rightarrow> replay_state \<Rightarrow> content_error + unit" where
  "validate_replay r StreamOrigin = (if sr_start r = 0 then Inr () else Inl ReplayStateRequired)"
| "validate_replay r (FromCheckpoint checkpoint_id generation ending) =
     (if sr_checkpoint_id r = Some checkpoint_id \<and> sr_generation r = generation \<and> sr_start r = ending
      then Inr () else Inl IncompatibleReplayState)"

section \<open>Retention\<close>

datatype retention_mode = Disabled | MemoryOnly | Durable

record retention_policy =
  rp_mode :: retention_mode
  rp_limit_bytes :: "nat option"

definition policy_disabled :: retention_policy where
  "policy_disabled = \<lparr>rp_mode = Disabled, rp_limit_bytes = None\<rparr>"

definition policy_memory_only :: "nat \<Rightarrow> retention_policy" where
  "policy_memory_only limit = \<lparr>rp_mode = MemoryOnly, rp_limit_bytes = Some limit\<rparr>"

definition policy_durable :: "nat option \<Rightarrow> retention_policy" where
  "policy_durable limit = \<lparr>rp_mode = Durable, rp_limit_bytes = limit\<rparr>"

definition allows_capture :: "retention_policy \<Rightarrow> bool" where
  "allows_capture p \<longleftrightarrow> rp_mode p \<noteq> Disabled"

definition limit_or_max :: "nat option \<Rightarrow> nat" where
  "limit_or_max l = (case l of None \<Rightarrow> u64_max | Some n \<Rightarrow> n)"

definition restrictive_wins :: "retention_policy \<Rightarrow> retention_policy \<Rightarrow> retention_policy" where
  "restrictive_wins p q =
     (let cap = min (limit_or_max (rp_limit_bytes p)) (limit_or_max (rp_limit_bytes q))
      in case (rp_mode p, rp_mode q) of
           (Disabled, _) \<Rightarrow> p
         | (_, Disabled) \<Rightarrow> q
         | (MemoryOnly, MemoryOnly) \<Rightarrow> \<lparr>rp_mode = MemoryOnly, rp_limit_bytes = Some cap\<rparr>
         | (MemoryOnly, Durable) \<Rightarrow> p
         | (Durable, MemoryOnly) \<Rightarrow> q
         | (Durable, Durable) \<Rightarrow> \<lparr>rp_mode = Durable, rp_limit_bytes = Some cap\<rparr>)"

section \<open>Events\<close>

datatype content_kind =
    TerminalInput | TerminalOutput | BackgroundOutput | AgentMessage | ToolCall | ToolResult | Approval
  | Question | DiffResult | LifecycleEvent | Discontinuity | Truncation | Unstructured

datatype event_availability = Available | Truncated | Unavailable

datatype screen_mode = Primary | Alternate

record content_event =
  ce_event_id :: rstring
  ce_kind :: content_kind
  ce_sequence :: u64
  ce_parent_event_id :: "rstring option"
  ce_source_range :: "(u64 \<times> u64) option"
  ce_availability :: event_availability
  ce_source :: "source_range option"
  ce_text :: "rstring option"

definition event_new ::
    "rstring \<Rightarrow> content_kind \<Rightarrow> u64 \<Rightarrow> rstring option \<Rightarrow> (u64 \<times> u64) option \<Rightarrow> content_event" where
  "event_new i kind sequence parent rng =
     \<lparr>ce_event_id = i, ce_kind = kind, ce_sequence = sequence, ce_parent_event_id = parent,
      ce_source_range = rng, ce_availability = Available, ce_source = None, ce_text = None\<rparr>"

definition materialized_terminal_output :: "rstring \<Rightarrow> u64 \<Rightarrow> source_range \<Rightarrow> rstring \<Rightarrow> content_event" where
  "materialized_terminal_output i sequence source txt =
     \<lparr>ce_event_id = i, ce_kind = TerminalOutput, ce_sequence = sequence, ce_parent_event_id = None,
      ce_source_range = Some (sr_start source, sr_end source), ce_availability = Available,
      ce_source = Some source, ce_text = Some txt\<rparr>"

definition structured_terminal_input :: "rstring \<Rightarrow> u64 \<Rightarrow> rstring \<Rightarrow> content_event" where
  "structured_terminal_input i sequence txt =
     \<lparr>ce_event_id = i, ce_kind = TerminalInput, ce_sequence = sequence, ce_parent_event_id = None,
      ce_source_range = None, ce_availability = Available, ce_source = None, ce_text = Some txt\<rparr>"

definition event_truncated :: "rstring \<Rightarrow> u64 \<Rightarrow> u64 \<times> u64 \<Rightarrow> content_event" where
  "event_truncated i sequence rng =
     \<lparr>ce_event_id = i, ce_kind = Truncation, ce_sequence = sequence, ce_parent_event_id = None,
      ce_source_range = Some rng, ce_availability = Truncated, ce_source = None, ce_text = None\<rparr>"

definition is_command_boundary :: "content_event \<Rightarrow> bool" where
  "is_command_boundary e \<longleftrightarrow> ce_kind e = TerminalInput"

definition size_hint :: "content_event \<Rightarrow> nat" where
  "size_hint e =
     sat_add u64_max (case ce_text e of None \<Rightarrow> 0 | Some t \<Rightarrow> length t)
       (case ce_source_range e of
          Some (a, b) \<Rightarrow> max (unat b - unat a) 1
        | None \<Rightarrow> length (ce_event_id e) + 16)"

section \<open>Redaction\<close>

record redaction_rule =
  rr_literal :: rstring
  rr_replacement :: rstring
  rr_version :: rstring

text \<open>
  \<open>str::contains\<close> and \<open>str::replace\<close> on UTF-8: occurrences from the left, without overlap; an empty
  pattern matches at every character boundary.
\<close>

fun starts_with :: "rstring \<Rightarrow> rstring \<Rightarrow> bool" where
  "starts_with [] ys \<longleftrightarrow> True"
| "starts_with (x # xs) [] \<longleftrightarrow> False"
| "starts_with (x # xs) (y # ys) \<longleftrightarrow> x = y \<and> starts_with xs ys"

fun str_contains :: "rstring \<Rightarrow> rstring \<Rightarrow> bool" where
  "str_contains pat [] \<longleftrightarrow> pat = []"
| "str_contains pat (x # xs) \<longleftrightarrow> starts_with pat (x # xs) \<or> str_contains pat xs"

definition boundary :: "rstring \<Rightarrow> bool" where
  "boundary xs \<longleftrightarrow> (case xs of [] \<Rightarrow> True | x # _ \<Rightarrow> \<not> cont x)"

fun interleave :: "rstring \<Rightarrow> rstring \<Rightarrow> rstring" where
  "interleave rep [] = rep"
| "interleave rep (x # xs) = (if boundary (x # xs) then rep else []) @ x # interleave rep xs"

function replace_nonempty :: "byte \<Rightarrow> rstring \<Rightarrow> rstring \<Rightarrow> rstring \<Rightarrow> rstring" where
  "replace_nonempty p pat rep [] = []"
| "replace_nonempty p pat rep (x # xs) =
     (if starts_with (p # pat) (x # xs) then rep @ replace_nonempty p pat rep (drop (length pat) xs)
      else x # replace_nonempty p pat rep xs)"
  by pat_completeness auto
termination
  by (relation "measure (\<lambda>(p, pat, rep, xs). length xs)") auto

fun str_replace :: "rstring \<Rightarrow> rstring \<Rightarrow> rstring \<Rightarrow> rstring" where
  "str_replace [] rep xs = interleave rep xs"
| "str_replace (p # pat) rep xs = replace_nonempty p pat rep xs"

fun redact :: "redaction_rule list \<Rightarrow> rstring \<times> rstring list \<Rightarrow> rstring \<times> rstring list" where
  "redact [] r = r"
| "redact (rule # rules) (txt, versions) =
     redact rules
       (if str_contains (rr_literal rule) txt
        then (str_replace (rr_literal rule) (rr_replacement rule) txt, versions @ [rr_version rule])
        else (txt, versions))"

definition redacted_export :: "redaction_rule list \<Rightarrow> content_event \<Rightarrow> rstring \<times> rstring list" where
  "redacted_export rules e = redact rules (case ce_text e of None \<Rightarrow> [] | Some t \<Rightarrow> t, [])"

section \<open>The timeline\<close>

record timeline =
  tl_events :: "content_event list"
  tl_ids :: "rstring set"
  tl_last_sequence :: "u64 option"
  tl_bytes_used :: nat
  tl_screen_mode :: screen_mode

type_synonym tlrun = "(content_error + unit) \<times> timeline"

definition timeline_new :: timeline where
  "timeline_new =
     \<lparr>tl_events = [], tl_ids = {}, tl_last_sequence = None, tl_bytes_used = 0, tl_screen_mode = Primary\<rparr>"

definition set_screen_mode :: "screen_mode \<Rightarrow> timeline \<Rightarrow> timeline" where
  "set_screen_mode mode t = t\<lparr>tl_screen_mode := mode\<rparr>"

definition accepts_terminal_materialization :: "timeline \<Rightarrow> bool" where
  "accepts_terminal_materialization t \<longleftrightarrow> tl_screen_mode t = Primary"

definition timeline_append :: "content_event \<Rightarrow> timeline \<Rightarrow> tlrun" where
  "timeline_append e t =
     (if ce_kind e = TerminalOutput \<and> \<not> accepts_terminal_materialization t then (Inl AlternateScreenNotMaterialized, t)
      else if ce_event_id e \<in> tl_ids t then (Inl (DuplicateEventId (ce_event_id e)), t)
      else if (case tl_last_sequence t of None \<Rightarrow> False | Some last_seq \<Rightarrow> ce_sequence e \<le> last_seq)
      then (Inl (OutOfOrderSequence (ce_event_id e) (the (tl_last_sequence t)) (ce_sequence e)), t)
      else (Inr (), t\<lparr>tl_ids := insert (ce_event_id e) (tl_ids t), tl_last_sequence := Some (ce_sequence e),
             tl_bytes_used := sat_add u64_max (tl_bytes_used t) (size_hint e), tl_events := tl_events t @ [e]\<rparr>))"

definition append_with_policy :: "retention_policy \<Rightarrow> content_event \<Rightarrow> timeline \<Rightarrow> tlrun" where
  "append_with_policy policy e t =
     (if \<not> allows_capture policy then (Inl CaptureDisabled, t)
      else case rp_limit_bytes policy of
        None \<Rightarrow> timeline_append e t
      | Some limit \<Rightarrow>
          let attempted = sat_add u64_max (tl_bytes_used t) (size_hint e)
          in if attempted > limit then (Inl (RetentionLimitExceeded limit attempted), t) else timeline_append e t)"

definition append_discontinuity :: "rstring \<Rightarrow> u64 \<Rightarrow> u64 \<Rightarrow> u64 \<Rightarrow> timeline \<Rightarrow> tlrun" where
  "append_discontinuity i sequence a b t = timeline_append (event_new i Discontinuity sequence None (Some (a, b))) t"

definition append_truncation :: "rstring \<Rightarrow> u64 \<Rightarrow> u64 \<Rightarrow> u64 \<Rightarrow> timeline \<Rightarrow> tlrun" where
  "append_truncation i sequence a b t = timeline_append (event_truncated i sequence (a, b)) t"

definition has_discontinuity :: "timeline \<Rightarrow> bool" where
  "has_discontinuity t \<longleftrightarrow> list_ex (\<lambda>e. ce_kind e = Discontinuity) (tl_events t)"

definition has_truncation :: "timeline \<Rightarrow> bool" where
  "has_truncation t \<longleftrightarrow> list_ex (\<lambda>e. ce_kind e = Truncation) (tl_events t)"

section \<open>The durable transcript\<close>

datatype capture_outcome = CaptureOff | Captured | LimitExceeded

record durable_transcript =
  dt_policy :: retention_policy
  dt_events :: "content_event list"
  dt_bytes_used :: nat

definition transcript_disabled :: durable_transcript where
  "transcript_disabled = \<lparr>dt_policy = policy_disabled, dt_events = [], dt_bytes_used = 0\<rparr>"

definition capture :: "content_event \<Rightarrow> durable_transcript \<Rightarrow> capture_outcome \<times> durable_transcript" where
  "capture e t =
     (if \<not> allows_capture (dt_policy t) then (CaptureOff, t)
      else
        let attempted = sat_add u64_max (dt_bytes_used t) (size_hint e)
        in if (case rp_limit_bytes (dt_policy t) of None \<Rightarrow> False | Some limit \<Rightarrow> attempted > limit)
           then (LimitExceeded, t)
           else (Captured, t\<lparr>dt_bytes_used := attempted, dt_events := dt_events t @ [e]\<rparr>))"

end
