(* ===== verification/Content_Requests.thy ===== *)
theory Content_Requests
  imports Content Daemon
begin

text \<open>
  Content requests (\<open>crates/rilld/src/lib.rs\<close>, the companion socket for content): the framing of a
  request, the answer to it, and the connections it comes over. A connection sends one request and
  gets one answer; the timelines are those the daemon keeps per leaf.
\<close>

section \<open>Requests and answers\<close>

definition CONTENT_REQUEST_MAX :: nat where "CONTENT_REQUEST_MAX = 64 * 1024"
definition CONTENT_TIMELINE_MAX_ITEMS :: nat where "CONTENT_TIMELINE_MAX_ITEMS = 64"
definition CONTENT_RESPONSE_MAX :: nat where "CONTENT_RESPONSE_MAX = 1024 * 1024"

record content_request =
  cq_kind :: byte
  cq_execution :: u64
  cq_payload :: "byte list"

text \<open>\<open>to_be_bytes\<close> and \<open>from_be_bytes\<close>, and the four bytes \<open>RLC1\<close>.\<close>

definition be_bytes :: "nat \<Rightarrow> nat \<Rightarrow> byte list" where
  "be_bytes k n = rev (le_bytes k n)"

definition be_val :: "byte list \<Rightarrow> nat" where
  "be_val bs = le_val (rev bs)"

definition CONTENT_MAGIC :: "byte list" where
  "CONTENT_MAGIC = [0x52, 0x4c, 0x43, 0x31]"

definition decode_content_request :: "byte list \<Rightarrow> unit + content_request option" where
  "decode_content_request bs =
     (if length bs < 17 then Inr None
      else if take 4 bs \<noteq> CONTENT_MAGIC then Inl ()
      else
        let execution = of_nat (be_val (take 8 (drop 5 bs)));
            payload_len = be_val (take 4 (drop 13 bs));
            total = 17 + payload_len
        in if payload_len > CONTENT_REQUEST_MAX then Inl ()
           else if length bs < total then Inr None
           else if length bs \<noteq> total then Inl ()
           else Inr (Some \<lparr>cq_kind = bs ! 4, cq_execution = execution, cq_payload = take payload_len (drop 17 bs)\<rparr>))"

definition content_error_response :: "byte \<Rightarrow> byte list" where
  "content_error_response status = CONTENT_MAGIC @ [status] @ be_bytes 4 0"

fun kind_code :: "content_kind \<Rightarrow> byte" where
  "kind_code TerminalInput = 1"
| "kind_code TerminalOutput = 2"
| "kind_code BackgroundOutput = 3"
| "kind_code Discontinuity = 11"
| "kind_code Truncation = 12"
| "kind_code _ = 13"

definition event_text :: "content_event \<Rightarrow> byte list" where
  "event_text e = (case ce_text e of None \<Rightarrow> [] | Some t \<Rightarrow> t)"

definition item_bytes :: "content_event \<Rightarrow> byte list" where
  "item_bytes e =
     [kind_code (ce_kind e)] @ be_bytes 8 (unat (ce_sequence e)) @ be_bytes 2 (length (ce_event_id e)) @
     be_bytes 4 (length (event_text e)) @ ce_event_id e @ event_text e"

definition item_fits :: "nat \<Rightarrow> content_event \<Rightarrow> bool" where
  "item_fits used e \<longleftrightarrow> length (ce_event_id e) \<le> u16_max \<and> length (event_text e) \<le> CONTENT_REQUEST_MAX \<and>
     9 + used + (15 + length (ce_event_id e) + length (event_text e)) \<le> CONTENT_RESPONSE_MAX"

fun snapshot_items :: "content_event list \<Rightarrow> byte list \<Rightarrow> nat \<Rightarrow> byte list \<times> nat" where
  "snapshot_items [] items count = (items, count)"
| "snapshot_items (e # es) items count =
     (if \<not> item_fits (length items) e then (items, count)
      else snapshot_items es (items @ item_bytes e) (count + 1))"

definition encode_content_snapshot :: "timeline \<Rightarrow> byte list" where
  "encode_content_snapshot t =
     (let (items, count) = snapshot_items (tl_events t) [] 0
      in CONTENT_MAGIC @ [0] @ be_bytes 4 count @ items)"

definition input_id :: "session_id \<Rightarrow> nat \<Rightarrow> byte list" where
  "input_id i sequence = [0x69, 0x6e, 0x70, 0x75, 0x74, 0x2d] @ digits (unat (session_as_u64 i)) @ [0x2d] @ digits sequence"

definition content_id :: "('p, 's) daemon \<Rightarrow> content_request \<Rightarrow> session_id" where
  "content_id d q = (if cq_execution q = 0 then dm_default_id d else SessionId (cq_execution q))"

text \<open>\<open>content_response\<close>: the answer, and the timelines after it.\<close>

definition content_response ::
    "('p, 's) daemon \<Rightarrow> content_request \<Rightarrow> (session_id \<rightharpoonup> timeline) \<Rightarrow> byte list \<times> (session_id \<rightharpoonup> timeline)" where
  "content_response d q tls =
     (let i = content_id d q
      in if the_leaf i d = None then (content_error_response 2, tls)
         else
           let t = (case tls i of None \<Rightarrow> timeline_new | Some t \<Rightarrow> t); tls = tls(i \<mapsto> t)
           in if cq_kind q = 2 then
                (if length (tl_events t) \<ge> CONTENT_TIMELINE_MAX_ITEMS then (content_error_response 3, tls)
                 else if from_utf8 (cq_payload q) = None then (content_error_response 1, tls)
                 else
                   let sequence = length (tl_events t) + 1;
                       (r, t) = timeline_append (structured_terminal_input (input_id i sequence) (of_nat sequence) (cq_payload q)) t;
                       tls = tls(i \<mapsto> t)
                   in case r of
                        Inl _ \<Rightarrow> (content_error_response 3, tls)
                      | Inr _ \<Rightarrow> (encode_content_snapshot t, tls))
              else if cq_kind q \<noteq> 1 \<or> cq_payload q \<noteq> [] then (content_error_response 1, tls)
              else (encode_content_snapshot t, tls))"

section \<open>Connections\<close>

record 's content_conn =
  cc_stream :: 's
  cc_input :: "byte list"
  cc_output :: "byte list"
  cc_handled :: bool

definition content_conn_new :: "'s \<Rightarrow> 's content_conn" where
  "content_conn_new stream = \<lparr>cc_stream = stream, cc_input = [], cc_output = [], cc_handled = False\<rparr>"

text \<open>The read loop of one connection; the flag says that the connection is to be removed.\<close>

function content_read :: "'s sock_ops \<Rightarrow> 's content_conn \<Rightarrow> bool \<times> 's content_conn" where
  "content_read W c =
     (let (got, stream) = sock_read W 4096 (cc_stream c); c = c\<lparr>cc_stream := stream\<rparr>
      in case got of
           ReadWouldBlock \<Rightarrow> (False, c)
         | ReadFailed \<Rightarrow> (True, c)
         | ReadBytes bs \<Rightarrow>
             (let bs = take 4096 bs
              in if bs = [] then (True, c)
                 else if length (cc_input c) + length bs > CONTENT_REQUEST_MAX + 17
                 then (False, c\<lparr>cc_output := content_error_response 1, cc_handled := True\<rparr>)
                 else content_read W (c\<lparr>cc_input := cc_input c @ bs\<rparr>)))"
  by pat_completeness auto
termination
proof (relation "measure (\<lambda>(W, c). CONTENT_REQUEST_MAX + 18 - length (cc_input c))", goal_cases)
  case (2 W c x got stream c' bs bs')
  then have "0 < length bs'" "length (cc_input c') + length bs' \<le> CONTENT_REQUEST_MAX + 17"
    "cc_input c' = cc_input c" by auto
  then show ?case by (simp add: diff_less_mono2)
qed simp

declare content_read.simps [simp del]

definition content_poll ::
    "'s sock_ops \<Rightarrow> ('p, 's) daemon \<Rightarrow> 's content_conn \<Rightarrow> (session_id \<rightharpoonup> timeline) \<Rightarrow>
      's content_conn option \<times> (session_id \<rightharpoonup> timeline)" where
  "content_poll W d c tls =
     (let (remove, c) = (if cc_handled c then (False, c) else content_read W c);
          (c, tls) =
            (if remove \<or> cc_handled c then (c, tls)
             else case decode_content_request (cc_input c) of
               Inl _ \<Rightarrow> (c\<lparr>cc_output := content_error_response 1, cc_handled := True\<rparr>, tls)
             | Inr None \<Rightarrow> (c, tls)
             | Inr (Some q) \<Rightarrow>
                 let (out, tls) = content_response d q tls
                 in (c\<lparr>cc_output := out, cc_handled := True\<rparr>, tls))
      in if remove then (None, tls)
         else if \<not> cc_handled c then (Some c, tls)
         else
           let (r, stream, out) = write_outbox W (cc_stream c) (cc_output c)
           in (if r \<noteq> Inr () \<or> out = [] then None else Some (c\<lparr>cc_stream := stream, cc_output := out\<rparr>), tls))"

fun poll_content_commands ::
    "'s sock_ops \<Rightarrow> ('p, 's) daemon \<Rightarrow> 's content_conn list \<Rightarrow> (session_id \<rightharpoonup> timeline) \<Rightarrow>
      's content_conn list \<times> (session_id \<rightharpoonup> timeline)" where
  "poll_content_commands W d [] tls = ([], tls)"
| "poll_content_commands W d (c # cs) tls =
     (let (c, tls) = content_poll W d c tls; (cs, tls) = poll_content_commands W d cs tls
      in ((case c of None \<Rightarrow> [] | Some c \<Rightarrow> [c]) @ cs, tls))"

end
