(* ===== verification/Content_Frames.thy ===== *)
theory Content_Frames imports Content_Requests Rill_Std begin

text \<open>
  What the content socket of the daemon promises: requests are read exactly, a snapshot lists the
  longest prefix of a timeline that fits, and the timelines are the texts that were submitted.
\<close>

section \<open>Framing\<close>

definition request_bytes :: "content_request \<Rightarrow> byte list" where
  "request_bytes q =
     CONTENT_MAGIC @ [cq_kind q] @ be_bytes 8 (unat (cq_execution q)) @ be_bytes 4 (length (cq_payload q)) @ cq_payload q"

lemma length_be [simp]: "length (be_bytes k n) = k"
  by (simp add: be_bytes_def)

lemma be_val_bytes: "n < 256 ^ k \<Longrightarrow> be_val (be_bytes k n) = n"
  by (simp add: be_bytes_def be_val_def)

lemma be_bytes_val: "length bs = k \<Longrightarrow> be_bytes k (be_val bs) = bs"
  by (simp add: be_bytes_def be_val_def)

lemma length_magic [simp]: "length CONTENT_MAGIC = 4"
  by (simp add: CONTENT_MAGIC_def)

lemma length_request: "length (request_bytes q) = 17 + length (cq_payload q)"
  by (simp add: request_bytes_def)

text \<open>The fields of a frame at their offsets, in any buffer that starts with its first 17 bytes.\<close>

lemma request_fields:
  assumes "bs = CONTENT_MAGIC @ [k] @ e @ n @ rest" "length e = 8" "length n = 4"
  shows "take 4 bs = CONTENT_MAGIC" "bs ! 4 = k" "take 8 (drop 5 bs) = e" "take 4 (drop 13 bs) = n" "drop 17 bs = rest"
  using assms(2,3) by (simp_all add: assms(1) nth_append)

lemma split_request:
  assumes "17 \<le> length bs" "take 4 bs = CONTENT_MAGIC"
  shows "bs = CONTENT_MAGIC @ [bs ! 4] @ take 8 (drop 5 bs) @ take 4 (drop 13 bs) @ drop 17 bs"
proof -
  have "bs = take 4 bs @ drop 4 bs" by simp
  also have "drop 4 bs = bs ! 4 # drop 5 bs" using assms(1) by (simp add: Cons_nth_drop_Suc [symmetric])
  also have "drop 5 bs = take 8 (drop 5 bs) @ drop 8 (drop 5 bs)" by (rule append_take_drop_id [symmetric])
  also have "drop 8 (drop 5 bs) = take 4 (drop 13 bs) @ drop 17 bs"
    using append_take_drop_id [of 4 "drop 13 bs"] by (simp add: drop_drop)
  finally show ?thesis using assms(2) by simp
qed

lemma decode_whole:
  assumes "length (cq_payload q) \<le> CONTENT_REQUEST_MAX"
  shows "decode_content_request (request_bytes q) = Inr (Some q)"
proof -
  have n: "length (cq_payload q) < 256 ^ 4" using assms by (simp add: CONTENT_REQUEST_MAX_def)
  have e: "unat (cq_execution q) < 256 ^ 8" using unsigned_less [of "cq_execution q"] by simp
  note f = request_fields [OF request_bytes_def [of q] length_be length_be]
  show ?thesis
    unfolding decode_content_request_def f
    using assms by (simp add: Let_def be_val_bytes [OF n] be_val_bytes [OF e] length_request)
qed

lemma decode_part:
  assumes "length (cq_payload q) \<le> CONTENT_REQUEST_MAX" "k < length (request_bytes q)"
  shows "decode_content_request (take k (request_bytes q)) = Inr None"
proof (cases "k < 17")
  case True
  then have "length (take k (request_bytes q)) < 17" by simp
  then show ?thesis by (simp only: decode_content_request_def if_True)
next
  case False
  have n: "length (cq_payload q) < 256 ^ 4" using assms by (simp add: CONTENT_REQUEST_MAX_def)
  have "take k (request_bytes q) = CONTENT_MAGIC @ [cq_kind q] @ be_bytes 8 (unat (cq_execution q)) @
      be_bytes 4 (length (cq_payload q)) @ take (k - 17) (cq_payload q)"
    using False by (simp add: request_bytes_def take_Cons')
  note f = request_fields [OF this length_be length_be]
  show ?thesis
    unfolding decode_content_request_def f
    using assms False by (simp add: Let_def be_val_bytes [OF n] length_request)
qed

lemma guards_passed:
  fixes l m cap t :: nat
  assumes "(if l < m then Inr None else if x \<noteq> y then Inl () else if cap < p then Inl () else if l < t then Inr None
      else if l \<noteq> t then Inl () else Inr (Some r)) = (Inr (Some q) :: unit + 'r option)"
  shows "m \<le> l" "x = y" "p \<le> cap" "l = t" "q = r"
  using assms by (simp_all split: if_splits)

lemma decode_fields:
  assumes "decode_content_request bs = Inr (Some q)"
  obtains e n where "length e = 8" "length n = 4" "bs = CONTENT_MAGIC @ [cq_kind q] @ e @ n @ cq_payload q"
    "cq_execution q = of_nat (be_val e)" "be_val n = length (cq_payload q)" "length (cq_payload q) \<le> CONTENT_REQUEST_MAX"
proof -
  note d = guards_passed [OF assms [unfolded decode_content_request_def Let_def]]
  have l: "length (drop 17 bs) = be_val (take 4 (drop 13 bs))" unfolding length_drop using d(4) by linarith
  then have p: "cq_payload q = drop 17 bs" unfolding d(5) content_request.select_convs by (intro take_all) linarith
  show thesis
  proof (rule that)
    show "length (take 8 (drop 5 bs)) = 8" "length (take 4 (drop 13 bs)) = 4" using d(1) by simp_all
    show "bs = CONTENT_MAGIC @ [cq_kind q] @ take 8 (drop 5 bs) @ take 4 (drop 13 bs) @ cq_payload q"
      unfolding p using split_request [OF d(1,2)] d(5) by (simp only: content_request.select_convs)
    show "cq_execution q = of_nat (be_val (take 8 (drop 5 bs)))" using d(5) by simp
    show "be_val (take 4 (drop 13 bs)) = length (cq_payload q)" unfolding p l ..
    then show "length (cq_payload q) \<le> CONTENT_REQUEST_MAX" using d(3) by (rule subst)
  qed
qed

lemma decode_only:
  assumes "decode_content_request bs = Inr (Some q)"
  shows "bs = request_bytes q \<and> length (cq_payload q) \<le> CONTENT_REQUEST_MAX"
proof -
  obtain e n where f: "length e = 8" "length n = 4" "bs = CONTENT_MAGIC @ [cq_kind q] @ e @ n @ cq_payload q"
    "cq_execution q = of_nat (be_val e)" "be_val n = length (cq_payload q)" "length (cq_payload q) \<le> CONTENT_REQUEST_MAX"
    using decode_fields [OF assms] .
  have "be_val e < 256 ^ 8" using le_val_bound [of "rev e"] f(1) by (simp add: be_val_def)
  then have "unat (cq_execution q) = be_val e" by (simp add: f(4) unat_of_nat)
  then have "be_bytes 8 (unat (cq_execution q)) = e" "be_bytes 4 (length (cq_payload q)) = n"
    using f(1,2,5) be_bytes_val [of e 8] be_bytes_val [of n 4] by simp_all
  then show ?thesis using f(3,6) by (simp add: request_bytes_def)
qed

lemma content_request_framing:
  "(decode_content_request bs = Inr (Some q) \<longleftrightarrow> bs = request_bytes q \<and> length (cq_payload q) \<le> CONTENT_REQUEST_MAX) \<and>
   (length (cq_payload q) \<le> CONTENT_REQUEST_MAX \<longrightarrow>
     (\<forall>k < length (request_bytes q). decode_content_request (take k (request_bytes q)) = Inr None))"
  using decode_whole decode_only decode_part by blast

section \<open>Snapshots\<close>

text \<open>The events of a timeline that a snapshot shows, given the bytes used before them.\<close>

fun fitting :: "nat \<Rightarrow> content_event list \<Rightarrow> content_event list" where
  "fitting used [] = []"
| "fitting used (e # es) = (if item_fits used e then e # fitting (used + length (item_bytes e)) es else [])"

lemma length_item: "length (item_bytes e) = 15 + length (ce_event_id e) + length (event_text e)"
  by (simp add: item_bytes_def)

lemma snapshot_fitting:
  "snapshot_items es items n =
    (items @ concat (map item_bytes (fitting (length items) es)), n + length (fitting (length items) es))"
  by (induction es items n rule: snapshot_items.induct) auto

lemma encode_snapshot_eq:
  "encode_content_snapshot t = CONTENT_MAGIC @ [0] @ be_bytes 4 (length (fitting 0 (tl_events t))) @
    concat (map item_bytes (fitting 0 (tl_events t)))"
  by (simp add: encode_content_snapshot_def snapshot_fitting)

lemma fitting_prefix: "\<exists>rest. es = fitting u es @ rest"
  by (induction u es rule: fitting.induct) auto

lemma fitting_fits: "e \<in> set (fitting u es) \<Longrightarrow> \<exists>v. item_fits v e"
  by (induction u es rule: fitting.induct) (auto split: if_splits)

lemma fitting_bound: "9 + u \<le> CONTENT_RESPONSE_MAX \<Longrightarrow>
    9 + u + length (concat (map item_bytes (fitting u es))) \<le> CONTENT_RESPONSE_MAX"
proof (induction u es rule: fitting.induct)
  case (2 u e es)
  show ?case
  proof (cases "item_fits u e")
    case True
    then have "9 + (u + length (item_bytes e)) \<le> CONTENT_RESPONSE_MAX" by (simp add: item_fits_def length_item)
    with 2 True show ?thesis by (simp add: add.assoc)
  qed (use 2 in simp)
qed simp

lemma snapshot_bound: "length (encode_content_snapshot t) \<le> CONTENT_RESPONSE_MAX"
  using fitting_bound [of 0 "tl_events t"] by (simp add: encode_snapshot_eq CONTENT_RESPONSE_MAX_def)

text \<open>When all events fit, all are shown; this is so for texts of at most a megabyte in all.\<close>

lemma fitting_all:
  assumes "9 + u + length (concat (map item_bytes es)) \<le> CONTENT_RESPONSE_MAX"
    "\<And>e. e \<in> set es \<Longrightarrow> length (ce_event_id e) \<le> u16_max \<and> length (event_text e) \<le> CONTENT_REQUEST_MAX"
  shows "fitting u es = es"
  using assms
proof (induction es arbitrary: u)
  case (Cons e es)
  then have "item_fits u e" by (auto simp: item_fits_def length_item)
  moreover have "fitting (u + length (item_bytes e)) es = es" using Cons by (auto simp: add.assoc)
  ultimately show ?case by simp
qed simp

text \<open>When an event is not shown, it is for want of room.\<close>

lemma fitting_stops:
  assumes "length (fitting u es) < length es"
    "\<And>e. e \<in> set es \<Longrightarrow> length (ce_event_id e) \<le> u16_max \<and> length (event_text e) \<le> CONTENT_REQUEST_MAX"
  shows "CONTENT_RESPONSE_MAX < 9 + u + length (concat (map item_bytes (take (Suc (length (fitting u es))) es)))"
  using assms
proof (induction es arbitrary: u)
  case (Cons e es)
  show ?case
  proof (cases "item_fits u e")
    case True
    then have "CONTENT_RESPONSE_MAX < 9 + (u + length (item_bytes e)) +
        length (concat (map item_bytes (take (Suc (length (fitting (u + length (item_bytes e)) es))) es)))"
      using Cons.prems by (intro Cons.IH) auto
    with True show ?thesis by (simp add: add.assoc)
  next
    case False
    then show ?thesis using Cons.prems(2) [of e] by (auto simp: item_fits_def length_item)
  qed
qed simp

section \<open>Submitted texts\<close>

text \<open>
  The abstract state: for every leaf the texts that were accepted, oldest first. The timeline of a
  leaf holds one structured input for each, numbered from one.
\<close>

definition input_event :: "session_id \<Rightarrow> nat \<Rightarrow> rstring \<Rightarrow> content_event" where
  "input_event i n t = structured_terminal_input (input_id i n) (of_nat n) t"

definition input_events :: "session_id \<Rightarrow> rstring list \<Rightarrow> content_event list" where
  "input_events i ts = map (\<lambda>(n, t). input_event i n t) (enumerate 1 ts)"

definition timeline_of :: "session_id \<Rightarrow> rstring list \<Rightarrow> timeline" where
  "timeline_of i ts = \<lparr>tl_events = input_events i ts, tl_ids = set (map ce_event_id (input_events i ts)),
     tl_last_sequence = (if ts = [] then None else Some (of_nat (length ts))),
     tl_bytes_used = foldl (\<lambda>n e. sat_add u64_max n (size_hint e)) 0 (input_events i ts), tl_screen_mode = Primary\<rparr>"

definition accepted :: "content_request \<Rightarrow> rstring list \<Rightarrow> bool" where
  "accepted q ts \<longleftrightarrow> cq_kind q = 2 \<and> length ts < CONTENT_TIMELINE_MAX_ITEMS \<and> from_utf8 (cq_payload q) \<noteq> None"

definition submit_text :: "content_request \<Rightarrow> rstring list \<Rightarrow> rstring list" where
  "submit_text q ts = (if accepted q ts then ts @ [cq_payload q] else ts)"

definition answer :: "session_id \<Rightarrow> content_request \<Rightarrow> rstring list \<Rightarrow> byte list" where
  "answer i q ts =
     (if accepted q ts then encode_content_snapshot (timeline_of i (ts @ [cq_payload q]))
      else if cq_kind q = 2 then content_error_response (if length ts < CONTENT_TIMELINE_MAX_ITEMS then 1 else 3)
      else if cq_kind q = 1 \<and> cq_payload q = [] then encode_content_snapshot (timeline_of i ts)
      else content_error_response 1)"

definition holds_texts :: "(session_id \<Rightarrow> rstring list) \<Rightarrow> (session_id \<rightharpoonup> timeline) \<Rightarrow> bool" where
  "holds_texts ts tls \<longleftrightarrow> (\<forall>i. length (ts i) \<le> CONTENT_TIMELINE_MAX_ITEMS \<and>
     (\<forall>t \<in> set (ts i). from_utf8 t \<noteq> None \<and> length t \<le> CONTENT_REQUEST_MAX) \<and>
     (case tls i of None \<Rightarrow> ts i = [] | Some t \<Rightarrow> t = timeline_of i (ts i)))"

lemma input_events_Nil [simp]: "input_events i [] = []"
  by (simp add: input_events_def)

lemma input_events_snoc: "input_events i (ts @ [t]) = input_events i ts @ [input_event i (length ts + 1) t]"
  by (simp add: input_events_def enumerate_append_eq)

lemma length_input_events [simp]: "length (input_events i ts) = length ts"
  by (simp add: input_events_def)

lemma input_event_simps [simp]:
  "ce_event_id (input_event i n t) = input_id i n" "ce_sequence (input_event i n t) = of_nat n"
  "ce_kind (input_event i n t) = TerminalInput" "ce_text (input_event i n t) = Some t"
  by (simp_all add: input_event_def structured_terminal_input_def)

lemma timeline_of_Nil: "timeline_of i [] = timeline_new"
  by (simp add: timeline_of_def timeline_new_def)

lemma input_id_inj: "input_id i m = input_id i n \<Longrightarrow> m = n"
  by (simp add: input_id_def digits_inj)

lemma input_ids: "ce_event_id ` set (input_events i ts) = input_id i ` {1..length ts}"
proof (induction ts rule: rev_induct)
  case (snoc t ts)
  have "{1..Suc (length ts)} = insert (Suc (length ts)) {1..length ts}" by auto
  with snoc show ?case by (simp add: input_events_snoc)
qed simp

lemma small_nat_less: "m < n \<Longrightarrow> n \<le> 64 \<Longrightarrow> (of_nat m :: u64) < of_nat n"
  by (simp add: word_less_nat_alt unat_of_nat)

lemma append_input:
  assumes "length ts < CONTENT_TIMELINE_MAX_ITEMS"
  shows "timeline_append (input_event i (length ts + 1) t) (timeline_of i ts) = (Inr (), timeline_of i (ts @ [t]))"
proof -
  have fresh: "input_id i (length ts + 1) \<notin> input_id i ` {1..length ts}"
    using input_id_inj by fastforce
  have "\<not> (of_nat (length ts + 1) :: u64) \<le> of_nat (length ts)"
    using small_nat_less [of "length ts" "length ts + 1"] assms by (simp add: CONTENT_TIMELINE_MAX_ITEMS_def not_le)
  with fresh show ?thesis
    by (auto simp: timeline_append_def timeline_of_def input_events_snoc input_ids)
qed

lemma content_response_answer:
  assumes R: "holds_texts ts tls" and l: "the_leaf (content_id d q) d \<noteq> None"
  shows "content_response d q tls =
    (answer (content_id d q) q (ts (content_id d q)),
     tls(content_id d q \<mapsto> timeline_of (content_id d q) (submit_text q (ts (content_id d q)))))"
proof -
  let ?i = "content_id d q"
  have t: "(case tls ?i of None \<Rightarrow> timeline_new | Some t \<Rightarrow> t) = timeline_of ?i (ts ?i)"
    using R by (auto simp: holds_texts_def timeline_of_Nil split: option.splits) (metis option.simps(4,5) timeline_of_Nil)+
  have n: "length (tl_events (timeline_of ?i (ts ?i))) = length (ts ?i)" by (simp add: timeline_of_def)
  have a: "timeline_append (structured_terminal_input (input_id ?i (length (ts ?i) + 1)) (of_nat (length (ts ?i) + 1)) (cq_payload q))
      (timeline_of ?i (ts ?i)) = (Inr (), timeline_of ?i (ts ?i @ [cq_payload q]))"
    if "length (ts ?i) < CONTENT_TIMELINE_MAX_ITEMS"
    using append_input [OF that] by (simp add: input_event_def)
  obtain s where l: "the_leaf ?i d = Some s" using l by auto
  show ?thesis
  proof (cases "accepted q (ts ?i)")
    case True
    then show ?thesis
      using l a by (auto simp: content_response_def Let_def t n accepted_def answer_def submit_text_def not_le)
  next
    case False
    then show ?thesis
      using l by (simp add: content_response_def Let_def t n accepted_def answer_def submit_text_def not_le)
  qed
qed

lemma content_response_refused:
  "the_leaf (content_id d q) d = None \<Longrightarrow> content_response d q tls = (content_error_response 2, tls)"
  by (simp add: content_response_def Let_def)

lemma holds_texts_submit:
  assumes "holds_texts ts tls" "length (cq_payload q) \<le> CONTENT_REQUEST_MAX"
  shows "holds_texts (ts(i := submit_text q (ts i))) (tls(i \<mapsto> timeline_of i (submit_text q (ts i))))"
  unfolding holds_texts_def
proof
  fix j
  let ?ts = "ts(i := submit_text q (ts i))"
  show "length (?ts j) \<le> CONTENT_TIMELINE_MAX_ITEMS \<and>
      (\<forall>t \<in> set (?ts j). from_utf8 t \<noteq> None \<and> length t \<le> CONTENT_REQUEST_MAX) \<and>
      (case (tls(i \<mapsto> timeline_of i (submit_text q (ts i)))) j of None \<Rightarrow> ?ts j = [] | Some t \<Rightarrow> t = timeline_of j (?ts j))"
    using assms(1) [unfolded holds_texts_def, rule_format, of j] assms(2)
    by (cases "j = i") (auto simp: submit_text_def accepted_def cong: option.case_cong)
qed

section \<open>A day of requests\<close>

text \<open>
  What a connection is answered once its input is complete, and the requests of a day in order, each
  with the daemon it finds.
\<close>

definition content_exchange ::
    "('p, 's) daemon \<Rightarrow> (session_id \<rightharpoonup> timeline) \<Rightarrow> byte list \<Rightarrow> byte list \<times> (session_id \<rightharpoonup> timeline)" where
  "content_exchange d tls bs =
     (case decode_content_request bs of
        Inl _ \<Rightarrow> (content_error_response 1, tls)
      | Inr None \<Rightarrow> ([], tls)
      | Inr (Some q) \<Rightarrow> content_response d q tls)"

fun serve_content ::
    "(('p, 's) daemon \<times> byte list) list \<Rightarrow> (session_id \<rightharpoonup> timeline) \<Rightarrow> byte list list \<times> (session_id \<rightharpoonup> timeline)" where
  "serve_content [] tls = ([], tls)"
| "serve_content ((d, bs) # rs) tls =
     (let (out, tls) = content_exchange d tls bs; (outs, tls) = serve_content rs tls in (out # outs, tls))"

definition exchange_texts ::
    "('p, 's) daemon \<Rightarrow> (session_id \<Rightarrow> rstring list) \<Rightarrow> byte list \<Rightarrow> byte list \<times> (session_id \<Rightarrow> rstring list)" where
  "exchange_texts d ts bs =
     (case decode_content_request bs of
        Inl _ \<Rightarrow> (content_error_response 1, ts)
      | Inr None \<Rightarrow> ([], ts)
      | Inr (Some q) \<Rightarrow>
          let i = content_id d q
          in if the_leaf i d = None then (content_error_response 2, ts)
             else (answer i q (ts i), ts(i := submit_text q (ts i))))"

fun serve_texts ::
    "(('p, 's) daemon \<times> byte list) list \<Rightarrow> (session_id \<Rightarrow> rstring list) \<Rightarrow> byte list list \<times> (session_id \<Rightarrow> rstring list)" where
  "serve_texts [] ts = ([], ts)"
| "serve_texts ((d, bs) # rs) ts =
     (let (out, ts) = exchange_texts d ts bs; (outs, ts) = serve_texts rs ts in (out # outs, ts))"

lemma exchange_refines:
  assumes "holds_texts ts tls"
  shows "fst (content_exchange d tls bs) = fst (exchange_texts d ts bs)"
    "holds_texts (snd (exchange_texts d ts bs)) (snd (content_exchange d tls bs))"
proof -
  have "fst (content_exchange d tls bs) = fst (exchange_texts d ts bs) \<and>
    holds_texts (snd (exchange_texts d ts bs)) (snd (content_exchange d tls bs))"
  proof (cases "decode_content_request bs")
    case (Inr r)
    show ?thesis
    proof (cases r)
      case (Some q)
      then have n: "length (cq_payload q) \<le> CONTENT_REQUEST_MAX" using Inr decode_only by simp
      show ?thesis
      proof (cases "the_leaf (content_id d q) d = None")
        case True
        then show ?thesis
          using Inr Some assms by (simp add: content_exchange_def exchange_texts_def content_response_refused Let_def)
      next
        case False
        then show ?thesis
          using Inr Some holds_texts_submit [OF assms n]
          by (simp add: content_exchange_def exchange_texts_def content_response_answer [OF assms False] Let_def del: not_None_eq)
      qed
    qed (use Inr assms in \<open>simp add: content_exchange_def exchange_texts_def\<close>)
  qed (use assms in \<open>simp add: content_exchange_def exchange_texts_def\<close>)
  then show "fst (content_exchange d tls bs) = fst (exchange_texts d ts bs)"
    "holds_texts (snd (exchange_texts d ts bs)) (snd (content_exchange d tls bs))" by simp_all
qed

lemma serve_refines:
  "holds_texts ts tls \<Longrightarrow> fst (serve_content rs tls) = fst (serve_texts rs ts) \<and>
    holds_texts (snd (serve_texts rs ts)) (snd (serve_content rs tls))"
proof (induction rs ts arbitrary: tls rule: serve_texts.induct)
  case (2 d bs rs ts)
  note e = exchange_refines [OF 2(2), of d bs]
  from 2(1) [OF refl prod.collapse e(2)] e(1) show ?case by (simp add: split_beta Let_def)
qed simp

lemma holds_no_texts: "holds_texts (\<lambda>_. []) Map.empty"
  by (simp add: holds_texts_def)

text \<open>
  A connection that has its request waiting and whose socket then would block is answered by
  \<open>content_exchange\<close>; an incomplete request is kept.
\<close>

lemma content_poll_exchange:
  assumes "\<not> cc_handled c" "sock_read W 4096 (cc_stream c) = (ReadWouldBlock, w)"
  shows "content_poll W d c tls =
    (let (out, tls') = content_exchange d tls (cc_input c)
     in if decode_content_request (cc_input c) = Inr None then (Some (c\<lparr>cc_stream := w\<rparr>), tls)
        else let (r, stream, rest) = write_outbox W w out
          in (if r \<noteq> Inr () \<or> rest = [] then None
              else Some (c\<lparr>cc_stream := stream, cc_output := rest, cc_handled := True\<rparr>), tls'))"
proof -
  have r: "content_read W c = (False, c\<lparr>cc_stream := w\<rparr>)"
    using assms by (subst content_read.simps) simp
  show ?thesis
  proof (cases "decode_content_request (cc_input c)")
    case (Inr q)
    then show ?thesis
      using assms(1) by (cases q) (simp_all add: content_poll_def r content_exchange_def split_beta Let_def)
  qed (use assms(1) in \<open>simp add: content_poll_def r content_exchange_def split_beta Let_def\<close>)
qed

end
