(* ===== verification/Host_Content.thy ===== *)
theory Host_Content imports Content_Frames begin

text \<open>
  The content companion of the desktop host (\<open>crates/rill-host/src/content.rs\<close>): a submission to the
  daemon and the reading of the snapshot that answers it. The socket is an exchange: the bytes that
  are sent, and the bytes read until the end of the stream, or an error.
\<close>

section \<open>Reading a snapshot\<close>

datatype host_error =
    HIo
  | HAttach attach_error
  | HChip vt_error
  | HDead
  | HRefused
  | HInvalidHostIdentity
  | HInvalidContent

record content_item =
  it_kind :: byte
  it_sequence :: u64
  it_event_id :: rstring
  it_text :: rstring

definition RESPONSE_MAX :: nat where "RESPONSE_MAX = 1024 * 1024"

text \<open>
  One item at the cursor, with the cursor behind it. The sums of the code are checked; on the model's
  numbers they are exact, since a length is at most the address space and a field at most 32 bits.
\<close>

definition parse_item :: "byte list \<Rightarrow> nat \<Rightarrow> host_error + nat \<times> content_item" where
  "parse_item bs cursor =
     (let header_end = cursor + 15
      in if header_end > length bs then Inl HInvalidContent
         else
           let kind = bs ! cursor;
               sequence = of_nat (be_val (take 8 (drop (cursor + 1) bs)));
               id_len = be_val (take 2 (drop (cursor + 9) bs));
               text_len = be_val (take 4 (drop (cursor + 11) bs));
               id_end = header_end + id_len;
               text_end = id_end + text_len;
               event_id = take id_len (drop header_end bs);
               txt = take text_len (drop id_end bs)
           in if text_end > length bs then Inl HInvalidContent
              else if from_utf8 event_id = None \<or> from_utf8 txt = None \<or> event_id = [] then Inl HInvalidContent
              else Inr (text_end, \<lparr>it_kind = kind, it_sequence = sequence, it_event_id = event_id, it_text = txt\<rparr>))"

primrec parse_items :: "byte list \<Rightarrow> nat \<Rightarrow> nat \<Rightarrow> content_item list \<Rightarrow> host_error + nat \<times> content_item list" where
  "parse_items bs 0 cursor items = Inr (cursor, items)"
| "parse_items bs (Suc n) cursor items =
     (case parse_item bs cursor of
        Inl e \<Rightarrow> Inl e
      | Inr (cursor, item) \<Rightarrow> parse_items bs n cursor (items @ [item]))"

definition parse_content_snapshot :: "byte list \<Rightarrow> host_error + content_item list" where
  "parse_content_snapshot bs =
     (if length bs < 9 \<or> take 4 bs \<noteq> CONTENT_MAGIC \<or> bs ! 4 \<noteq> 0 then Inl HInvalidContent
      else
        let count = be_val (take 4 (drop 5 bs))
        in if count > 64 then Inl HInvalidContent
           else case parse_items bs count 9 [] of
             Inl e \<Rightarrow> Inl e
           | Inr (cursor, items) \<Rightarrow> if cursor \<noteq> length bs then Inl HInvalidContent else Inr items)"

section \<open>Submitting\<close>

definition submit_request :: "u64 \<Rightarrow> byte list \<Rightarrow> byte list" where
  "submit_request execution txt =
     CONTENT_MAGIC @ [2] @ be_bytes 8 (unat execution) @ be_bytes 4 (length txt) @ txt"

definition content_submit ::
    "(byte list \<Rightarrow> host_error + byte list) \<Rightarrow> u64 \<Rightarrow> byte list \<Rightarrow> host_error + content_item list" where
  "content_submit exchange execution txt =
     (if length txt > 64 * 1024 then Inl HInvalidContent
      else case exchange (submit_request execution txt) of
        Inl e \<Rightarrow> Inl e
      | Inr bs \<Rightarrow>
          let response = take (RESPONSE_MAX + 1) bs
          in if length response > RESPONSE_MAX then Inl HInvalidContent else parse_content_snapshot response)"

section \<open>What is read back\<close>

definition item_of :: "content_event \<Rightarrow> content_item" where
  "item_of e = \<lparr>it_kind = kind_code (ce_kind e), it_sequence = ce_sequence e, it_event_id = ce_event_id e,
     it_text = event_text e\<rparr>"

text \<open>The events a snapshot can carry to a host.\<close>

definition presentable :: "content_event \<Rightarrow> bool" where
  "presentable e \<longleftrightarrow> ce_event_id e \<noteq> [] \<and> from_utf8 (ce_event_id e) \<noteq> None \<and> from_utf8 (event_text e) \<noteq> None \<and>
     length (ce_event_id e) \<le> u16_max \<and> length (event_text e) \<le> CONTENT_REQUEST_MAX"

lemma item_fields:
  assumes "bs = pre @ [k] @ s @ i @ t @ a @ b @ rest" "length s = 8" "length i = 2" "length t = 4"
  shows "bs ! length pre = k" "take 8 (drop (length pre + 1) bs) = s" "take 2 (drop (length pre + 9) bs) = i"
    "take 4 (drop (length pre + 11) bs) = t" "take (length a) (drop (length pre + 15) bs) = a"
    "take (length b) (drop (length pre + 15 + length a) bs) = b"
    "length bs = length pre + 15 + length a + length b + length rest"
  using assms(2-4) by (simp_all add: assms(1) nth_append drop_Cons')

lemma parse_item_bytes:
  assumes "presentable e" "bs = pre @ item_bytes e @ rest"
  shows "parse_item bs (length pre) = Inr (length pre + length (item_bytes e), item_of e)"
proof -
  have n: "length (ce_event_id e) < 256 ^ 2" "length (event_text e) < 256 ^ 4"
    using assms(1) by (simp_all add: presentable_def CONTENT_REQUEST_MAX_def)
  have q: "unat (ce_sequence e) < 256 ^ 8" using unsigned_less [of "ce_sequence e"] by simp
  have bs: "bs = pre @ [kind_code (ce_kind e)] @ be_bytes 8 (unat (ce_sequence e)) @ be_bytes 2 (length (ce_event_id e)) @
      be_bytes 4 (length (event_text e)) @ ce_event_id e @ event_text e @ rest"
    using assms(2) by (simp add: item_bytes_def)
  note f = item_fields [OF bs length_be length_be length_be]
  show ?thesis
    using assms(1) unfolding parse_item_def Let_def f be_val_bytes [OF n(1)] be_val_bytes [OF n(2)] be_val_bytes [OF q]
    by (simp add: presentable_def item_of_def length_item)
qed

lemma parse_items_bytes:
  assumes "\<forall>e \<in> set es. presentable e" "bs = pre @ concat (map item_bytes es) @ rest"
  shows "parse_items bs (length es) (length pre) items =
    Inr (length pre + length (concat (map item_bytes es)), items @ map item_of es)"
  using assms
proof (induction es arbitrary: pre items)
  case (Cons e es)
  have "parse_item bs (length pre) = Inr (length (pre @ item_bytes e), item_of e)"
    using parse_item_bytes [of e bs pre] Cons.prems by simp
  moreover have "parse_items bs (length es) (length (pre @ item_bytes e)) (items @ [item_of e]) =
      Inr (length (pre @ item_bytes e) + length (concat (map item_bytes es)), (items @ [item_of e]) @ map item_of es)"
    by (rule Cons.IH) (use Cons.prems in simp_all)
  ultimately show ?case by simp
qed simp

lemma parse_snapshot:
  assumes "\<forall>e \<in> set (tl_events t). presentable e" "length (tl_events t) \<le> 64"
  shows "parse_content_snapshot (encode_content_snapshot t) = Inr (map item_of (fitting 0 (tl_events t)))"
proof -
  let ?p = "fitting 0 (tl_events t)"
  obtain rest where r: "tl_events t = ?p @ rest" using fitting_prefix by blast
  have l: "length ?p \<le> 64" using assms(2) arg_cong [OF r, of length] by simp
  have p: "\<forall>e \<in> set ?p. presentable e" using assms(1) by (subst (asm) r) simp
  let ?pre = "CONTENT_MAGIC @ [0] @ be_bytes 4 (length ?p)"
  have bs: "encode_content_snapshot t = ?pre @ concat (map item_bytes ?p) @ []" by (simp add: encode_snapshot_eq)
  have n: "be_val (be_bytes 4 (length ?p)) = length ?p" by (rule be_val_bytes) (use l in simp)
  have "parse_items (encode_content_snapshot t) (length ?p) 9 [] =
      Inr (length (encode_content_snapshot t), map item_of ?p)"
    using parse_items_bytes [OF p bs, of "[]"] bs by simp
  moreover have "take 4 (encode_content_snapshot t) = CONTENT_MAGIC" "encode_content_snapshot t ! 4 = 0"
    "take 4 (drop 5 (encode_content_snapshot t)) = be_bytes 4 (length ?p)" "9 \<le> length (encode_content_snapshot t)"
    by (simp_all add: bs nth_append)
  ultimately show ?thesis using l by (simp add: parse_content_snapshot_def n Let_def)
qed

end
