(* ===== verification/Host_Client.thy ===== *)
theory Host_Client imports Host_View Host_Nav Host_Content Vt_Recovery begin

text \<open>
  The attach client of the desktop host (\<open>crates/rill-host/src/lib.rs\<close>): one connection to the
  daemon, the emulator that mirrors its leaf, credit, the outbox and the painted window. Fonts and
  paddings of the surface are only read back and are left out; the identity socket and the navigation
  socket are what one read of them gives. The variable \<open>RILL_MUTATE\<close> is taken to be unset, and a count
  of warm-path violations is a number (\<open>u32\<close> in the code, which a hundred million frames do not reach).
\<close>

section \<open>Colours\<close>

record theme_colors =
  th_foreground :: u32
  th_background :: u32
  th_cursor :: u32
  th_ansi :: "u32 list option"

definition u32_to_rgb :: "u32 \<Rightarrow> rgb" where
  "u32_to_rgb v =
     mk_rgb (ucast (drop_bit 24 v AND 0xff)) (ucast (drop_bit 16 v AND 0xff)) (ucast (drop_bit 8 v AND 0xff))"

definition palette_from_theme :: "theme_colors \<Rightarrow> palette" where
  "palette_from_theme c =
     (let p = vt_default\<lparr>foreground := u32_to_rgb (th_foreground c), background := u32_to_rgb (th_background c),
        pal_cursor := u32_to_rgb (th_cursor c)\<rparr>
      in case th_ansi c of
           None \<Rightarrow> p
         | Some vs \<Rightarrow> p\<lparr>ansi := foldl (\<lambda>a (i, v). a[i := u32_to_rgb v]) (ansi p) (enumerate 0 vs)\<rparr>)"

definition should_paint_cell :: "u16 \<Rightarrow> bool" where
  "should_paint_cell attrs \<longleftrightarrow> attrs AND ATTR_WIDE_TAIL = 0"

section \<open>Keys and pointers\<close>

definition encode_arrow :: "bool \<Rightarrow> byte \<Rightarrow> byte list" where
  "encode_arrow application_cursor_keys letter =
     (if application_cursor_keys then [0x1b, 0x4f, letter] else [0x1b, 0x5b, letter])"

definition wrap_paste :: "bool \<Rightarrow> byte list \<Rightarrow> byte list" where
  "wrap_paste bracketed body =
     (if \<not> bracketed then body
      else [0x1b, 0x5b, 0x32, 0x30, 0x30, 0x7e] @ body @ [0x1b, 0x5b, 0x32, 0x30, 0x31, 0x7e])"

definition encode_edit :: "byte \<Rightarrow> byte list" where
  "encode_edit op =
     (if op = 1 then [0x01] else if op = 2 then [0x05] else if op = 3 then [0x1b, 0x62]
      else if op = 4 then [0x1b, 0x66] else if op = 5 then [0x17] else if op = 6 then [0x15]
      else if op = 7 then [0x0b] else if op = 8 then [0x1b, 0x5b, 0x48] else if op = 9 then [0x1b, 0x5b, 0x46]
      else [])"

definition pointer_reporting :: "terminal_mode_state \<Rightarrow> bool" where
  "pointer_reporting m \<longleftrightarrow> ms_mouse_x10 m \<or> ms_mouse_button m \<or> ms_mouse_any m \<or> ms_mouse_sgr m"

definition pointer_code :: "byte \<Rightarrow> byte \<Rightarrow> (byte \<times> bool) option" where
  "pointer_code kind button =
     (if kind = 0 then Some (button, False) else if kind = 1 then Some (button, True)
      else if kind = 2 then Some (64, False) else if kind = 3 then Some (65, False) else None)"

definition encode_pointer :: "terminal_mode_state \<Rightarrow> byte \<Rightarrow> byte \<Rightarrow> u16 \<Rightarrow> u16 \<Rightarrow> byte list" where
  "encode_pointer m kind button col row =
     (if \<not> pointer_reporting m then []
      else
        let col = max col 1; row = max row 1
        in case pointer_code kind button of
             None \<Rightarrow> []
           | Some (cb, release) \<Rightarrow>
               if ms_mouse_sgr m then
                 [0x1b, 0x5b, 0x3c] @ digits (unat cb) @ [0x3b] @ digits (unat col) @ [0x3b] @ digits (unat row) @
                 [if release then 0x6d else 0x4d]
               else
                 let cx = sat_add u16_max 32 (min (unat col) 223); cy = sat_add u16_max 32 (min (unat row) 223);
                     b = sat_add u16_max 32 (min (unat cb) 223)
                 in [0x1b, 0x5b, 0x4d, of_nat (min b 255), of_nat (min cx 255), of_nat (min cy 255)])"

section \<open>The client\<close>

definition CREDIT_WINDOW :: nat where "CREDIT_WINDOW = 256 * 1024"
definition PUMP_CHUNK :: nat where "PUMP_CHUNK = 65536"

record 's host =
  hc_stream :: 's
  hc_decoder :: "byte list"
  hc_chip :: engine
  hc_surface_rows :: nat
  hc_alive :: bool
  hc_exit_status :: "u32 option"
  hc_outbox :: "byte list"
  hc_outstanding_credit :: nat
  hc_violations :: nat
  hc_auditing :: bool
  hc_cached :: "pod_grid option"
  hc_live_cached :: "pod_grid option"
  hc_history_rows :: "pod_cell list list"
  hc_scroll_offset :: nat
  hc_viewport_jumped :: bool
  hc_workspace_id :: "u64 option"
  hc_modes :: terminal_mode_state
  hc_bytes_sent :: nat
  hc_content_items :: "content_item list"
  hc_execution_id :: u64

type_synonym ('s, 'a) hrun = "(host_error + 'a) \<times> 's host"

text \<open>
  \<open>flush_outbox\<close> is the loop of the daemon's \<open>write_outbox\<close>. It offers the front part of the deque,
  where the model offers all of it: a short write covers the difference.
\<close>

definition flush_outbox :: "'s sock_ops \<Rightarrow> 's host \<Rightarrow> ('s, unit) hrun" where
  "flush_outbox W h =
     (let (r, stream, out) = write_outbox W (hc_stream h) (hc_outbox h); h = h\<lparr>hc_stream := stream, hc_outbox := out\<rparr>
      in case r of Inl _ \<Rightarrow> (Inl HIo, h) | Inr _ \<Rightarrow> (Inr (), h))"

definition host_send :: "'s sock_ops \<Rightarrow> frame \<Rightarrow> 's host \<Rightarrow> ('s, unit) hrun" where
  "host_send W f h =
     (let h = (if hc_auditing h \<and> \<not> is_warm_path f then h\<lparr>hc_violations := hc_violations h + 1\<rparr> else h)
      in case encode f of
           Inl e \<Rightarrow> (Inl (HAttach e), h)
         | Inr bs \<Rightarrow> flush_outbox W (h\<lparr>hc_outbox := hc_outbox h @ bs\<rparr>))"

definition grant_credit :: "'s sock_ops \<Rightarrow> nat \<Rightarrow> 's host \<Rightarrow> ('s, unit) hrun" where
  "grant_credit W n h =
     host_send W (Credit (of_nat n)) (h\<lparr>hc_outstanding_credit := sat_add u64_max (hc_outstanding_credit h) n\<rparr>)"

text \<open>
  \<open>connect_session\<close>: the six bytes of the identity socket, or an error; one read of the navigation
  socket; the connection, the size and the colours of the surface.
\<close>

definition connect_session ::
    "'s sock_ops \<Rightarrow> host_error + byte list \<Rightarrow> byte list option \<Rightarrow> 's \<Rightarrow> nat \<Rightarrow> nat \<Rightarrow> theme_colors option \<Rightarrow>
      u64 option \<Rightarrow> host_error + 's host" where
  "connect_session W identity nav_read stream cols rows colors session_id =
     (case identity of
        Inl e \<Rightarrow> Inl e
      | Inr bs \<Rightarrow>
          if bs \<noteq> [0x6c, 0x6f, 0x63, 0x61, 0x6c, 0x0a] then Inl HInvalidHostIdentity
          else case engine_new cols rows of
            Inl e \<Rightarrow> Inl (HChip e)
          | Inr chip \<Rightarrow>
              let chip = (case colors of None \<Rightarrow> chip | Some c \<Rightarrow> engine_set_palette (palette_from_theme c) chip);
                  h = \<lparr>hc_stream = stream, hc_decoder = decoder_new, hc_chip = chip, hc_surface_rows = rows,
                    hc_alive = True, hc_exit_status = None, hc_outbox = [], hc_outstanding_credit = 0,
                    hc_violations = 0, hc_auditing = False, hc_cached = None, hc_live_cached = None,
                    hc_history_rows = [], hc_scroll_offset = 0, hc_viewport_jumped = True,
                    hc_workspace_id = cold_workspace_id nav_read, hc_modes = mode_state_fresh, hc_bytes_sent = 0,
                    hc_content_items = [], hc_execution_id = (case session_id of None \<Rightarrow> 0 | Some i \<Rightarrow> i)\<rparr>
              in case host_send W (attach_frame 1 session_id) h of
                   (Inl e, _) \<Rightarrow> Inl e
                 | (Inr _, h) \<Rightarrow>
                     (case grant_credit W CREDIT_WINDOW h of (Inl e, _) \<Rightarrow> Inl e | (Inr _, h) \<Rightarrow> Inr h))"

section \<open>Input\<close>

definition follow_live :: "'s host \<Rightarrow> 's host" where
  "follow_live h =
     h\<lparr>hc_scroll_offset := follow_live_after_input (hc_scroll_offset h), hc_viewport_jumped := True,
       hc_cached := None, hc_live_cached := None\<rparr>"

definition send_input :: "'s sock_ops \<Rightarrow> byte list \<Rightarrow> 's host \<Rightarrow> ('s, unit) hrun" where
  "send_input W bs h =
     (if \<not> hc_alive h then (Inl HDead, h)
      else
        let h = follow_live h; h = h\<lparr>hc_bytes_sent := sat_add u64_max (hc_bytes_sent h) (length bs)\<rparr>
        in host_send W (Data bs) h)"

definition send_pointer :: "'s sock_ops \<Rightarrow> byte \<Rightarrow> byte \<Rightarrow> u16 \<Rightarrow> u16 \<Rightarrow> 's host \<Rightarrow> ('s, bool) hrun" where
  "send_pointer W kind button col row h =
     (let bs = encode_pointer (hc_modes h) kind button col row
      in if bs = [] then (Inr False, h)
         else case send_input W bs h of (Inl e, h) \<Rightarrow> (Inl e, h) | (Inr _, h) \<Rightarrow> (Inr True, h))"

definition paste :: "'s sock_ops \<Rightarrow> byte list \<Rightarrow> 's host \<Rightarrow> ('s, unit) hrun" where
  "paste W body h = send_input W (wrap_paste (ms_bracketed_paste (hc_modes h)) body) h"

definition scroll_lines :: "int \<Rightarrow> 's host \<Rightarrow> 's host" where
  "scroll_lines delta h =
     (let max_offset = int (length (hc_history_rows h));
          next_offset = max 0 (min max_offset (int (hc_scroll_offset h) + delta))
      in h\<lparr>hc_scroll_offset := nat next_offset mod 2 ^ 32, hc_viewport_jumped := True,
           hc_cached := None, hc_live_cached := None\<rparr>)"

text \<open>\<open>None\<close> is a panic of the emulator.\<close>

definition host_resize ::
    "'s sock_ops \<Rightarrow> u16 \<Rightarrow> u16 \<Rightarrow> u16 \<Rightarrow> u16 \<Rightarrow> 's host \<Rightarrow> ('s, unit) hrun option" where
  "host_resize W cols rows px_w px_h h =
     (let h = h\<lparr>hc_cached := None, hc_live_cached := None, hc_viewport_jumped := True\<rparr>;
          cell_w = unat px_w div max (unat cols) 1; cell_h = unat px_h div max (unat rows) 1
      in engine_resize (unat cols) (unat rows) cell_w cell_h (hc_chip h) \<bind>
           (\<lambda>(r, chip). let h = h\<lparr>hc_chip := chip\<rparr>
              in Some (case r of
                   Inl e \<Rightarrow> (Inl (HChip e), h)
                 | Inr _ \<Rightarrow> host_send W (Resize cols rows px_w px_h) h)))"

section \<open>Output\<close>

definition note_violation :: "'s host \<Rightarrow> 's host" where
  "note_violation h = (if hc_auditing h then h\<lparr>hc_violations := hc_violations h + 1\<rparr> else h)"

text \<open>What one frame does in \<open>pump\<close>; the number is the count of bytes fed.\<close>

definition pump_data :: "'s sock_ops \<Rightarrow> byte list \<Rightarrow> nat \<Rightarrow> 's host \<Rightarrow> ('s, nat) hrun option" where
  "pump_data W bs fed h =
     engine_feed bs (hc_chip h) \<bind>
       (\<lambda>chip.
          let fed = fed + length bs; (rows, chip) = engine_take_scrolled_off chip;
              history = ingest_scrolled (hc_history_rows h) rows;
              offset = clamp_offset (length history) (hc_surface_rows h) (hc_scroll_offset h);
              (replies, chip) = engine_take_replies chip;
              h = h\<lparr>hc_chip := chip, hc_history_rows := history, hc_scroll_offset := offset\<rparr>;
              (r, h) = (if replies \<noteq> [] then host_send W (Data replies) h else (Inr (), h))
          in Some (case r of
               Inl e \<Rightarrow> (Inl e, h)
             | Inr _ \<Rightarrow> (Inr fed, h\<lparr>hc_modes := engine_mode_state (hc_chip h), hc_cached := None, hc_live_cached := None\<rparr>)))"

fun pump_frame :: "'s sock_ops \<Rightarrow> frame \<Rightarrow> nat \<Rightarrow> 's host \<Rightarrow> ('s, nat) hrun option" where
  "pump_frame W (Data bs) fed h = pump_data W bs fed h"
| "pump_frame W (Exit status) fed h =
     Some (Inr fed, note_violation (h\<lparr>hc_alive := False, hc_exit_status := Some status\<rparr>))"
| "pump_frame W (Refused r) fed h = Some (Inl HRefused, note_violation h)"
| "pump_frame W _ fed h = Some (Inr fed, note_violation h)"

fun pump_frames :: "'s sock_ops \<Rightarrow> frame list \<Rightarrow> nat \<Rightarrow> 's host \<Rightarrow> ('s, nat) hrun option" where
  "pump_frames W [] fed h = Some (Inr fed, h)"
| "pump_frames W (f # fs) fed h =
     pump_frame W f fed h \<bind> (\<lambda>(r, h). case r of Inl e \<Rightarrow> Some (Inl e, h) | Inr fed \<Rightarrow> pump_frames W fs fed h)"

text \<open>The read loop. It may not end on a socket that always has bytes; \<open>None\<close> is also that.\<close>

partial_function (option) pump_loop :: "'s sock_ops \<Rightarrow> nat \<Rightarrow> 's host \<Rightarrow> ('s, nat) hrun option" where
  "pump_loop W fed h =
     (let (got, stream) = sock_read W PUMP_CHUNK (hc_stream h); h = h\<lparr>hc_stream := stream\<rparr>
      in case got of
           ReadWouldBlock \<Rightarrow> Some (Inr fed, h)
         | ReadFailed \<Rightarrow> Some (Inl HIo, h)
         | ReadBytes bs \<Rightarrow>
             (let bs = take PUMP_CHUNK bs
              in if bs = [] then Some (Inr fed, h)
                 else let (r, buf) = decoder_push (hc_decoder h) bs; h = h\<lparr>hc_decoder := buf\<rparr>
                 in case r of
                      Inl e \<Rightarrow> Some (Inl (HAttach e), h)
                    | Inr frames \<Rightarrow>
                        pump_frames W frames fed h \<bind>
                          (\<lambda>(r, h). case r of Inl e \<Rightarrow> Some (Inl e, h) | Inr fed \<Rightarrow> pump_loop W fed h)))"

definition pump :: "'s sock_ops \<Rightarrow> 's host \<Rightarrow> ('s, nat) hrun option" where
  "pump W h =
     (case flush_outbox W h of
        (Inl e, h) \<Rightarrow> Some (Inl e, h)
      | (Inr _, h) \<Rightarrow>
          pump_loop W 0 h \<bind>
            (\<lambda>(r, h). Some (case r of
                Inl e \<Rightarrow> (Inl e, h)
              | Inr fed \<Rightarrow>
                  if fed > 0
                  then (case grant_credit W (min fed u32_max) h of (Inl e, h) \<Rightarrow> (Inl e, h) | (Inr _, h) \<Rightarrow> (Inr fed, h))
                  else (Inr fed, h))))"

section \<open>Painting\<close>

definition ensure_snapshots :: "'s host \<Rightarrow> 's host" where
  "ensure_snapshots h =
     (if hc_cached h \<noteq> None \<and> hc_live_cached h \<noteq> None then h
      else
        let (rows, chip) = engine_take_scrolled_off (hc_chip h); history = ingest_scrolled (hc_history_rows h) rows;
            (live, chip) = engine_snapshot chip;
            view = mark_full_if_viewport_jumped (compose_viewport history live (hc_scroll_offset h)) (hc_viewport_jumped h)
        in h\<lparr>hc_chip := chip, hc_history_rows := history, hc_viewport_jumped := False, hc_live_cached := Some live,
             hc_cached := Some view\<rparr>)"

definition host_snapshot :: "'s host \<Rightarrow> (vt_error + pod_grid) \<times> 's host" where
  "host_snapshot h =
     (let h = ensure_snapshots h
      in (case hc_cached h of None \<Rightarrow> Inl (Vt ''snapshot cache'') | Some g \<Rightarrow> Inr g, h))"

definition cell_codepoint :: "nat \<Rightarrow> nat \<Rightarrow> 's host \<Rightarrow> u32 \<times> 's host" where
  "cell_codepoint col row h =
     (let (r, h) = host_snapshot h
      in (case r of Inl _ \<Rightarrow> 0 | Inr g \<Rightarrow> (case pod_grid_cell g col row of None \<Rightarrow> 0 | Some c \<Rightarrow> pc_codepoint c), h))"

definition live_codepoint :: "nat \<Rightarrow> nat \<Rightarrow> 's host \<Rightarrow> u32 \<times> 's host" where
  "live_codepoint col row h =
     (let h = ensure_snapshots h
      in (case hc_live_cached h of
            None \<Rightarrow> 0
          | Some g \<Rightarrow> (case pod_grid_cell g col row of None \<Rightarrow> 0 | Some c \<Rightarrow> pc_codepoint c), h))"

definition cursor_cell :: "'s host \<Rightarrow> (vt_error + nat \<times> nat) \<times> 's host" where
  "cursor_cell h =
     (let (r, h) = host_snapshot h
      in (case r of Inl e \<Rightarrow> Inl e | Inr g \<Rightarrow> Inr (pg_cursor_col g, pg_cursor_row g), h))"

section \<open>The audit of the warm path, and content\<close>

definition begin_warm_path_audit :: "'s host \<Rightarrow> 's host" where
  "begin_warm_path_audit h = h\<lparr>hc_violations := 0, hc_auditing := True\<rparr>"

definition end_warm_path_audit :: "'s host \<Rightarrow> nat \<times> 's host" where
  "end_warm_path_audit h = (hc_violations h, h\<lparr>hc_auditing := False\<rparr>)"

definition submit_content :: "(byte list \<Rightarrow> host_error + byte list) \<Rightarrow> byte list \<Rightarrow> 's host \<Rightarrow> ('s, unit) hrun" where
  "submit_content exchange txt h =
     (case content_submit exchange (hc_execution_id h) txt of
        Inl e \<Rightarrow> (Inl e, h)
      | Inr items \<Rightarrow> (Inr (), h\<lparr>hc_content_items := items\<rparr>))"

end
