(* ===== verification/Daemon_Seats.thy ===== *)
theory Daemon_Seats
  imports Daemon
begin

text \<open>
  Who sits where: what each operation of the daemon does to the leaves it touches, and the count of
  writers and observers per leaf. \<open>leaf_step\<close> and \<open>same_claim\<close> say what an operation leaves alone
  in a session, \<open>same_seats\<close> what it leaves alone in the daemon, and \<open>claims_ok\<close> that the daemon and the
  kernel agree on who is attached.
\<close>

section \<open>One step of a leaf\<close>

text \<open>
  What every operation of the daemon does to a leaf: its output history only grows and stays in
  step with the log of the pseudoterminal, and its queue holds only frames of the kinds a session
  sends, whose data is true of its output: a piece of it, or the repaint that an emulator writes after
  replaying what was retained of it at some point.
\<close>

definition true_data :: "byte list \<Rightarrow> byte list \<Rightarrow> bool" where
  "true_data hist bs \<longleftrightarrow> (\<exists>before behind. hist = before @ bs @ behind) \<or>
     (\<exists>before behind e e'. hist = before @ behind \<and>
       resync_from_history (keep_last RING_CAP before) e = Some (Inr bs, e'))"

fun sendable :: "byte list \<Rightarrow> frame \<Rightarrow> bool" where
  "sendable hist (Data bs) \<longleftrightarrow> (length hist \<le> u64_max \<longrightarrow> true_data hist bs)"
| "sendable hist (Exit _) \<longleftrightarrow> True"
| "sendable hist (Refused _) \<longleftrightarrow> True"
| "sendable hist _ \<longleftrightarrow> False"

lemma true_data_grow: "true_data hist bs \<Longrightarrow> true_data (hist @ new) bs"
  unfolding true_data_def by (metis append.assoc)

lemma true_data_last: "true_data (hist @ bs) bs"
  unfolding true_data_def by (metis append_Nil2)

lemma sendable_grow: "sendable hist f \<Longrightarrow> sendable (hist @ new) f"
  by (cases f) (auto intro: true_data_grow)

lemma all_sendable_grow: "list_all (sendable hist) fs \<Longrightarrow> list_all (sendable (hist @ new)) fs"
  by (auto simp: list_all_iff intro: sendable_grow)

text \<open>The bytes that the ring holds after the output \<open>hist\<close>, and a picture of bytes in a fresh emulator.\<close>

lemma history_ok: "session_ok log s \<Longrightarrow> length (produced (log (ss_pty s))) \<le> u64_max \<Longrightarrow>
    history s = keep_last RING_CAP (produced (log (ss_pty s)))"
  by (simp add: session_ok_def ring_abs_def history_def ring_snapshot_def)

definition picture :: "byte list \<Rightarrow> pod_grid \<Rightarrow> bool" where
  "picture bs g \<longleftrightarrow> (\<exists>cols rows e0 e. engine_new cols rows = Inr e0 \<and> engine_feed bs e0 = Some e \<and>
     g = fst (engine_snapshot e))"

definition leaf_step :: "('p \<Rightarrow> pty_event list) \<Rightarrow> 'p session \<Rightarrow> 'p session \<Rightarrow> bool" where
  "leaf_step log s s' \<longleftrightarrow> (session_ok log s \<longrightarrow> session_ok log s') \<and>
     (\<exists>new. produced (log (ss_pty s')) = produced (log (ss_pty s)) @ new) \<and>
     (list_all (sendable (produced (log (ss_pty s)))) (ss_outbound s) \<longrightarrow>
       list_all (sendable (produced (log (ss_pty s')))) (ss_outbound s'))"

definition same_claim :: "'p session \<Rightarrow> 'p session \<Rightarrow> bool" where
  "same_claim s s' \<longleftrightarrow> ss_attach_generation s' = ss_attach_generation s \<and> ss_observers s' = ss_observers s"

lemma leaf_step_refl [simp]: "leaf_step log s s"
  by (simp add: leaf_step_def)

lemma leaf_step_trans: "leaf_step log s s' \<Longrightarrow> leaf_step log s' s'' \<Longrightarrow> leaf_step log s s''"
  unfolding leaf_step_def by (metis append.assoc)

lemma same_claim_refl [simp]: "same_claim s s"
  by (simp add: same_claim_def)

lemma same_claim_trans: "same_claim s s' \<Longrightarrow> same_claim s' s'' \<Longrightarrow> same_claim s s''"
  by (simp add: same_claim_def)

lemma input_claim: "input_only s s' \<Longrightarrow> same_claim s s'"
  by (simp add: same_claim_def input_only_fields)

lemma leaf_step_keeps:
  "keeps_output log s s' \<Longrightarrow> (\<And>h. list_all (sendable h) (ss_outbound s) \<longrightarrow> list_all (sendable h) (ss_outbound s')) \<Longrightarrow>
    leaf_step log s s'"
  using ok_keeps [of log s s'] by (simp add: leaf_step_def) (simp add: keeps_output_def)

lemma leaf_step_same:
  "ss_pty s' = ss_pty s \<Longrightarrow> ss_ring s' = ss_ring s \<Longrightarrow> ss_bytes_delivered s' = ss_bytes_delivered s \<Longrightarrow>
    ss_journal s' = ss_journal s \<Longrightarrow>
    (\<And>h. list_all (sendable h) (ss_outbound s) \<longrightarrow> list_all (sendable h) (ss_outbound s')) \<Longrightarrow> leaf_step log s s'"
  by (intro leaf_step_keeps keeps_output_same)

lemma frame_sendable:
  "list_all (sendable h) (ss_outbound s) \<longrightarrow> list_all (sendable h) (ss_outbound (snd (on_frame P now grace f s)))"
proof (cases f)
  case (Attach g i pr ob)
  then show ?thesis
    by (simp add: on_attach_def Let_def take_input_lease_def enqueue_outbound_def split: option.split)
qed (simp_all add: input_only_fields(1) [OF on_data_input] input_only_fields(1) [OF on_resize_input])

lemma poll_sendable:
  "list_all (sendable h) (ss_outbound s) \<longrightarrow> list_all (sendable h) (ss_outbound (snd (poll_child P s)))"
  by (auto simp: poll_child_def Let_def split_beta enqueue_outbound_def split: sum.split option.split)

lemma poll_claim: "same_claim s (snd (poll_child P s))"
  by (auto simp: poll_child_def Let_def split_beta enqueue_outbound_def same_claim_def split: sum.split option.split)

lemma pop_all_eq: "pop_all s = (ss_outbound s, s\<lparr>ss_outbound := []\<rparr>)"
proof (induction s rule: pop_all.induct)
  case (1 s)
  show ?case
  proof (cases "ss_outbound s")
    case (Cons f fs)
    with 1 [of "Some f" "s\<lparr>ss_outbound := fs\<rparr>" f] show ?thesis
      by (simp add: pop_all.simps [of s] pop_outbound_def)
  qed (simp add: pop_all.simps [of s] pop_outbound_def)
qed

lemma fold_enqueue: "fold enqueue_outbound fs s = s\<lparr>ss_outbound := ss_outbound s @ fs\<rparr>"
  by (induction fs arbitrary: s) (simp_all add: enqueue_outbound_def)

lemma keep_control_eq: "keep_control s = s\<lparr>ss_outbound := filter (\<lambda>f. \<not> is_data f) (ss_outbound s)\<rparr>"
  by (simp add: keep_control_def pop_all_eq fold_enqueue)

lemma list_all_filter: "list_all p xs \<Longrightarrow> list_all p (filter q xs)"
  by (simp add: list_all_iff)

lemma quiet_steps:
  "leaf_step log s (release_observer s)" "leaf_step log s (note_stalled_read s)"
  "leaf_step log s (snd (take_resync_history s))" "leaf_step log s (keep_control s)"
  "leaf_step log s (snd (pop_all s))"
  by (auto intro!: leaf_step_same simp: release_observer_def note_stalled_read_def take_resync_history_def
      keep_control_eq pop_all_eq list_all_filter)

lemma enqueue_step: "sendable (produced (log (ss_pty s))) f \<Longrightarrow> leaf_step log s (enqueue_outbound f s)"
  by (simp add: leaf_step_def enqueue_outbound_def session_ok_def)

lemmas small_steps = quiet_steps enqueue_step

lemma small_claims:
  "same_claim s (note_stalled_read s)" "same_claim s (snd (take_resync_history s))"
  "same_claim s (keep_control s)" "same_claim s (snd (pop_all s))" "same_claim s (enqueue_outbound f s)"
  "same_claim s (snd (drain_pty_at_most P mx s))" "same_claim s (snd (on_pty_readable P s))"
  by (auto simp: same_claim_def note_stalled_read_def take_resync_history_def keep_control_eq pop_all_eq
      enqueue_outbound_def drain_pty_at_most_def on_pty_readable_def read_pty_def take_in_def Let_def split_beta
      split: sum.split)

context pty_log
begin

lemma frame_step: "leaf_step log s (snd (on_frame P now grace f s))"
  by (rule leaf_step_keeps [OF on_frame_output frame_sendable])

lemma detach_step: "leaf_step log s (detach P s)"
  by (rule leaf_step_keeps [OF detach_output]) (simp add: detach_def Let_def list_all_filter)

lemma reap_step: "leaf_step log s (snd (poll_child P (expire_input_lease_if_due now s)))"
proof -
  have "leaf_step log s (expire_input_lease_if_due now s)"
    by (rule leaf_step_keeps [OF expire_output]) (simp add: input_only_fields(1) [OF expire_input])
  then show ?thesis by (rule leaf_step_trans) (rule leaf_step_keeps [OF poll_output poll_sendable])
qed

text \<open>A drain hands over exactly the bytes by which the output grew.\<close>

lemma drain_cases:
  assumes "drain_pty_at_most P mx s = (r, s')"
  shows "leaf_step log s s' \<and> ss_outbound s' = ss_outbound s \<and>
    (case r of Inr (Some bs) \<Rightarrow> bs \<noteq> [] \<and> length bs \<le> READ_BUF \<and> (\<forall>m. mx = Some m \<longrightarrow> length bs \<le> m) \<and>
        produced (log (ss_pty s')) = produced (log (ss_pty s)) @ bs
     | _ \<Rightarrow> produced (log (ss_pty s')) = produced (log (ss_pty s)))"
proof -
  let ?cap = "min (case mx of None \<Rightarrow> READ_BUF | Some m \<Rightarrow> m) READ_BUF"
  have ok: "session_ok log s \<longrightarrow> session_ok log s'" using drain_ok [of s mx] assms by simp
  have cap: "?cap \<le> READ_BUF" "mx = Some m \<Longrightarrow> ?cap \<le> m" for m by simp_all
  show ?thesis
  proof (cases rule: read_pty_cases [of ?cap s])
    case (failed e p)
    with assms ok show ?thesis
      by (auto simp: drain_pty_at_most_def Let_def leaf_step_def note_stalled_read_def split: if_splits)
  next
    case (bytes bs p)
    with assms ok cap show ?thesis
      by (fastforce simp: drain_pty_at_most_def Let_def leaf_step_def note_stalled_read_def take_in_def
          intro: all_sendable_grow split: if_splits)
  qed
qed

lemma readable_step: "leaf_step log s (snd (on_pty_readable P s))"
proof -
  have ok: "session_ok log s \<longrightarrow> session_ok log (snd (on_pty_readable P s))" by (simp add: readable_ok)
  show ?thesis
  proof (cases rule: read_pty_cases [of "min (ss_credit s) READ_BUF" s])
    case (failed e p)
    with ok show ?thesis
      by (simp add: on_pty_readable_def Let_def leaf_step_def note_stalled_read_def)
  next
    case (bytes bs p)
    with ok show ?thesis
      by (auto simp: on_pty_readable_def Let_def leaf_step_def note_stalled_read_def take_in_def enqueue_outbound_def
          true_data_last intro: all_sendable_grow)
  qed
qed

end

section \<open>Seats\<close>

text \<open>
  The clients of a leaf by role. \<open>claims_ok\<close> says that the kernel and the daemon agree on them:
  a leaf is attached exactly when it has one writer, and it counts its observers.
\<close>

definition writes_to :: "session_id \<Rightarrow> 's client \<Rightarrow> bool" where
  "writes_to i c \<longleftrightarrow> cl_leaf c = Some i \<and> \<not> cl_observe c"

definition watches :: "session_id \<Rightarrow> 's client \<Rightarrow> bool" where
  "watches i c \<longleftrightarrow> cl_leaf c = Some i \<and> cl_observe c"

definition headcount :: "('s client \<Rightarrow> bool) \<Rightarrow> 's client list \<Rightarrow> nat" where
  "headcount p cs = length (filter p cs)"

definition seats :: "session_id \<Rightarrow> 'p session option \<Rightarrow> 's client list \<Rightarrow> bool" where
  "seats i m cs \<longleftrightarrow> (case m of
       None \<Rightarrow> headcount (writes_to i) cs = 0 \<and> headcount (watches i) cs = 0
     | Some s \<Rightarrow> headcount (writes_to i) cs = (if attached s then 1 else 0) \<and>
         headcount (watches i) cs = ss_observers s)"

definition claims_ok :: "('p, 's) daemon \<Rightarrow> bool" where
  "claims_ok d \<longleftrightarrow> length (dm_clients d) \<le> u32_max \<and> (\<forall>i. seats i (the_leaf i d) (dm_clients d))"

definition same_seat :: "'s client \<Rightarrow> 's client \<Rightarrow> bool" where
  "same_seat c c' \<longleftrightarrow> cl_leaf c' = cl_leaf c \<and> cl_observe c' = cl_observe c"

definition leafwise :: "('p session \<Rightarrow> 'p session \<Rightarrow> bool) \<Rightarrow> ('p, 's) daemon \<Rightarrow> ('p, 's) daemon \<Rightarrow> bool" where
  "leafwise R d d' \<longleftrightarrow> (\<forall>i. rel_option R (the_leaf i d) (the_leaf i d'))"

definition same_seats :: "('p, 's) daemon \<Rightarrow> ('p, 's) daemon \<Rightarrow> bool" where
  "same_seats d d' \<longleftrightarrow> leafwise same_claim d d' \<and> list_all2 same_seat (dm_clients d) (dm_clients d')"

lemma daemon_frame [simp]:
  "the_leaf i (d\<lparr>dm_clients := cs\<rparr>) = the_leaf i d" "the_leaf i (d\<lparr>dm_chip := e\<rparr>) = the_leaf i d"
  "the_leaf i (set_client ci f d) = the_leaf i d" "dm_clients (put_session i s d) = dm_clients d"
  "the_leaf j (put_session i s d) = (if j = i then Some s else the_leaf j d)"
  by (simp_all add: the_leaf_def put_session_def set_client_def)

lemma client_at_cong: "dm_clients d' = dm_clients d \<Longrightarrow> client_at ci d' = client_at ci d"
  by (simp add: client_at_def)

lemma leafwise_refl: "(\<And>s. R s s) \<Longrightarrow> leafwise R d d"
  by (simp add: leafwise_def option.rel_refl)

lemma leafwise_trans:
  assumes "\<And>s s' s''. R s s' \<Longrightarrow> R s' s'' \<Longrightarrow> R s s''" "leafwise R d d'" "leafwise R d' d''"
  shows "leafwise R d d''"
proof -
  have "rel_option R (the_leaf i d) (the_leaf i d'')" for i
    using assms(2,3) [unfolded leafwise_def, rule_format, of i]
    by (cases "the_leaf i d"; cases "the_leaf i d'"; cases "the_leaf i d''") (auto intro: assms(1))
  then show ?thesis by (simp add: leafwise_def)
qed

lemma leafwise_put:
  "the_leaf i d = Some s \<Longrightarrow> R s s' \<Longrightarrow> (\<And>s. R s s) \<Longrightarrow> leafwise R d (put_session i s' d)"
  by (auto simp: leafwise_def the_leaf_def put_session_def option.rel_refl)

lemma leafwise_clients [simp]: "leafwise R d (d\<lparr>dm_clients := cs\<rparr>) \<longleftrightarrow> leafwise R d d"
  "leafwise R d (d\<lparr>dm_chip := e\<rparr>) \<longleftrightarrow> leafwise R d d"
  by (simp_all add: leafwise_def the_leaf_def)

lemma same_seat_refl [simp]: "same_seat c c"
  by (simp add: same_seat_def)

lemma same_seat_list_refl [simp]: "list_all2 same_seat cs cs"
  by (simp add: list_all2_refl)

lemma same_seats_refl [simp]: "same_seats d d"
  by (simp add: same_seats_def leafwise_refl)

lemma same_seats_trans:
  assumes "same_seats d d'" "same_seats d' d''"
  shows "same_seats d d''"
proof -
  have "leafwise same_claim d d''"
    by (rule leafwise_trans [of same_claim d d']) (use assms same_claim_trans in \<open>auto simp: same_seats_def\<close>)
  moreover have "list_all2 same_seat (dm_clients d) (dm_clients d'')"
    by (rule list_all2_trans [of same_seat same_seat same_seat _ "dm_clients d'"])
      (use assms in \<open>auto simp: same_seats_def same_seat_def\<close>)
  ultimately show ?thesis by (simp add: same_seats_def)
qed

lemma headcount_same:
  assumes "list_all2 same_seat cs cs'"
  shows "headcount (writes_to i) cs' = headcount (writes_to i) cs" "headcount (watches i) cs' = headcount (watches i) cs"
  using assms
  by (induction rule: list_all2_induct) (auto simp: headcount_def same_seat_def writes_to_def watches_def)

lemma seats_same:
  assumes "seats i m cs" "rel_option same_claim m m'" "list_all2 same_seat cs cs'"
  shows "seats i m' cs'"
  using assms(1,2) headcount_same [OF assms(3), of i]
  by (auto simp: seats_def same_claim_def attached_def split: option.splits elim!: option.rel_cases)

lemma claims_same: "claims_ok d \<Longrightarrow> same_seats d d' \<Longrightarrow> claims_ok d'"
  by (auto simp: claims_ok_def same_seats_def leafwise_def dest: list_all2_lengthD intro: seats_same)

lemma same_seats_put: "the_leaf i d = Some s \<Longrightarrow> same_claim s s' \<Longrightarrow> same_seats d (put_session i s' d)"
  by (simp add: same_seats_def leafwise_put)

lemma same_seats_clients: "list_all2 same_seat (dm_clients d) cs \<Longrightarrow> same_seats d (d\<lparr>dm_clients := cs\<rparr>)"
  by (simp add: same_seats_def leafwise_refl)

lemma same_seats_chip: "same_seats d (d\<lparr>dm_chip := e\<rparr>)"
  by (simp add: same_seats_def leafwise_refl)

lemma same_seats_set: "(\<And>c. same_seat c (f c)) \<Longrightarrow> same_seats d (set_client ci f d)"
  unfolding set_client_def
  by (auto intro!: same_seats_clients simp: list_all2_conv_all_nth nth_list_update)

text \<open>Operations that leave the seats alone.\<close>

lemma queue_frame_seats: "same_seats d (snd (queue_frame ci f d))"
  by (auto simp: queue_frame_def same_seat_def intro: same_seats_set split: option.split sum.split)

lemma emit_checkpoint_cases:
  assumes "emit_checkpoint ci i d = Some (r, d')"
  obtains "d' = d" "the_leaf i d = None" "r = Inr ()"
  | e er where "d' = d\<lparr>dm_chip := e\<rparr>" "r = Inl er"
  | e g s where "the_leaf i d = Some s" "picture (history s) g"
      "(r, d') = queue_frame ci (Checkpoint (of_nat (ss_bytes_delivered s)) (pod_hash g) (encode_pod_grid g)) (d\<lparr>dm_chip := e\<rparr>)"
proof (cases "the_leaf i d")
  case None
  with assms that(1) show thesis by (simp add: emit_checkpoint_def)
next
  case (Some s)
  obtain r1 chip where r: "engine_reset (dm_chip d) = (r1, chip)" by force
  show thesis
  proof (cases r1)
    case (Inl e)
    with assms Some r that(2) show thesis by (auto simp: emit_checkpoint_def)
  next
    case (Inr u)
    define feed1 where "feed1 = (if history s \<noteq> [] then engine_feed (history s) chip else Some chip)"
    have e: "emit_checkpoint ci i d = feed1 \<bind> (\<lambda>chip. let (grid, chip) = engine_snapshot chip
      in Some (queue_frame ci (Checkpoint (of_nat (ss_bytes_delivered s)) (pod_hash grid) (encode_pod_grid grid))
          (d\<lparr>dm_chip := chip\<rparr>)))"
      using Some r Inr by (cases "history s = []") (simp_all add: emit_checkpoint_def feed1_def)
    show thesis
    proof (cases feed1)
      case None
      with e assms show thesis by simp
    next
      case f: (Some chip2)
      obtain grid chip3 where g: "engine_snapshot chip2 = (grid, chip3)" by force
      have "engine_new (s_cols (eng_screen (dm_chip d))) (s_rows (eng_screen (dm_chip d))) = Inr chip"
        using r Inr by (auto simp: engine_reset_def engine_new_def Let_def split: sum.splits)
      moreover have "engine_feed (history s) chip = Some chip2"
      proof (cases "history s = []")
        case True
        have "eng_parser chip = parser_new" using r Inr by (auto simp: engine_reset_def Let_def split: sum.splits)
        with True f show ?thesis by (simp add: feed1_def engine_feed_def feed_idle_nil)
      qed (use f in \<open>simp add: feed1_def\<close>)
      ultimately have "picture (history s) grid" unfolding picture_def using g by (metis fst_conv)
      with assms e f g that(3) [OF Some, of grid chip3] show thesis by simp
    qed
  qed
qed

lemma emit_checkpoint_seats: "emit_checkpoint ci i d = Some (r, d') \<Longrightarrow> same_seats d d'"
proof (erule emit_checkpoint_cases)
  fix e g s
  let ?f = "Checkpoint (of_nat (ss_bytes_delivered s)) (pod_hash g) (encode_pod_grid g)"
  assume "(r, d') = queue_frame ci ?f (d\<lparr>dm_chip := e\<rparr>)"
  then have "d' = snd (queue_frame ci ?f (d\<lparr>dm_chip := e\<rparr>))" by (metis snd_conv)
  then show "same_seats d d'" using same_seats_trans [OF same_seats_chip queue_frame_seats] by simp
qed (simp_all add: same_seats_chip)

lemma forward_none: "the_leaf i d = None \<Longrightarrow> forward P now grace i f d = (Inl (DKernel UnknownSession), d)"
  by (simp add: forward_def kernel_on_frame_def the_leaf_def)

lemma forward_some:
  assumes "the_leaf i d = Some s"
  shows "the_leaf j (snd (forward P now grace i f d)) = (if j = i then Some (snd (on_frame P now grace f s)) else the_leaf j d)"
    and "dm_clients (snd (forward P now grace i f d)) = dm_clients d"
    and "fst (on_frame P now grace f s) = Inr () \<Longrightarrow> fst (forward P now grace i f d) = Inr ()"
  using assms
  by (auto simp: forward_def kernel_on_frame_def the_leaf_def Let_def split_beta split: sum.split kernel_error.split)

lemma forward_leafwise:
  assumes "\<And>s. R s (snd (on_frame P now grace f s))" "\<And>s. R s s"
  shows "leafwise R d (snd (forward P now grace i f d))"
proof (cases "the_leaf i d")
  case None
  with assms show ?thesis by (simp add: forward_none leafwise_refl)
next
  case (Some s)
  with assms show ?thesis by (simp add: leafwise_def forward_some [OF Some] option.rel_refl)
qed

lemma forward_clients: "dm_clients (snd (forward P now grace i f d)) = dm_clients d"
  by (cases "the_leaf i d") (simp_all add: forward_none forward_some)

fun is_attach :: "frame \<Rightarrow> bool" where
  "is_attach (Attach _ _ _ _) = True"
| "is_attach _ = False"

lemma frame_claim: "\<not> is_attach f \<Longrightarrow> same_claim s (snd (on_frame P now grace f s))"
  by (cases f) (simp_all add: input_claim on_data_input on_resize_input, simp_all add: same_claim_def)

lemma forward_seats: "\<not> is_attach f \<Longrightarrow> same_seats d (snd (forward P now grace i f d))"
  by (simp add: same_seats_def forward_clients forward_leafwise frame_claim)

lemma take_credit_seats: "same_seats d (take_credit ci f d)"
  by (auto simp: take_credit_def same_seat_def intro: same_seats_set split: frame.split)

text \<open>Counting after one client changed or left.\<close>

lemma headcount_update:
  "ci < length cs \<Longrightarrow> headcount p (cs[ci := c]) + (if p (cs ! ci) then 1 else 0) = headcount p cs + (if p c then 1 else 0)"
proof (induction cs arbitrary: ci)
  case (Cons x cs)
  then show ?case by (cases ci) (fastforce simp: headcount_def)+
qed simp

lemma headcount_remove:
  "ci < length cs \<Longrightarrow> headcount p (take ci cs @ drop (Suc ci) cs) + (if p (cs ! ci) then 1 else 0) = headcount p cs"
proof (induction cs arbitrary: ci)
  case (Cons x cs)
  then show ?case by (cases ci) (fastforce simp: headcount_def)+
qed simp

lemma headcount_member: "ci < length cs \<Longrightarrow> p (cs ! ci) \<Longrightarrow> 0 < headcount p cs"
  by (auto simp: headcount_def filter_empty_conv)

lemma client_at_some: "client_at ci d = Some c \<longleftrightarrow> ci < length (dm_clients d) \<and> c = dm_clients d ! ci"
  by (auto simp: client_at_def)

lemma seats_cong:
  "headcount (writes_to i) cs' = headcount (writes_to i) cs \<Longrightarrow> headcount (watches i) cs' = headcount (watches i) cs \<Longrightarrow>
    seats i m cs' = seats i m cs"
  by (simp add: seats_def split: option.split)

lemma drop_client_claims:
  assumes ok: "claims_ok d"
  shows "claims_ok (drop_client P ci d)"
proof (cases "client_at ci d")
  case None
  with ok show ?thesis by (simp add: drop_client_def)
next
  case client: (Some c)
  have c: "ci < length (dm_clients d)" "c = dm_clients d ! ci" using client by (simp_all add: client_at_some)
  let ?cs = "take ci (dm_clients d) @ drop (Suc ci) (dm_clients d)"
  have "length (dm_clients d) \<le> u32_max" using ok by (simp add: claims_ok_def)
  then have len: "length ?cs \<le> u32_max" using c(1) by simp
  have count: "headcount p ?cs + (if p c then 1 else 0) = headcount p (dm_clients d)" for p
    using headcount_remove [OF c(1), of p] c(2) by simp
  have seat: "seats j (the_leaf j d) (dm_clients d)" for j using ok by (simp add: claims_ok_def)
  show ?thesis
  proof (cases "cl_leaf c")
    case None
    then have "headcount (writes_to j) ?cs = headcount (writes_to j) (dm_clients d)"
      "headcount (watches j) ?cs = headcount (watches j) (dm_clients d)" for j
      using count [of "writes_to j"] count [of "watches j"] by (simp_all add: writes_to_def watches_def)
    then have "seats j (the_leaf j d) ?cs" for j using seat seats_cong by metis
    with len client None show ?thesis by (simp add: drop_client_def claims_ok_def the_leaf_def)
  next
    case (Some i)
    have "headcount (if cl_observe c then watches i else writes_to i) (dm_clients d) > 0"
      using Some c by (intro headcount_member [of ci]) (auto simp: writes_to_def watches_def)
    then obtain s where s: "the_leaf i d = Some s"
      using seat [of i] by (cases "the_leaf i d") (auto simp: seats_def split: if_splits)
    let ?s = "if cl_observe c then release_observer s else detach P s"
    have d': "drop_client P ci d = (put_session i ?s d)\<lparr>dm_clients := ?cs\<rparr>"
      using client Some s by (simp add: drop_client_def put_session_def)
    have "seats j (the_leaf j (put_session i ?s d)) ?cs" for j
      using seat [of j] count [of "writes_to j"] count [of "watches j"] Some s
      by (auto simp: seats_def writes_to_def watches_def the_leaf_def put_session_def release_observer_def
          detach_def Let_def attached_def split: option.splits if_splits)
    then show ?thesis using len by (simp add: d' claims_ok_def the_leaf_def)
  qed
qed

lemma dispatch_other_claims:
  assumes ok: "claims_ok d" and "\<not> is_attach f"
  shows "claims_ok (snd (dispatch_other P now grace ci f d))"
proof -
  have "claims_ok (snd (forward P now grace i f (take_credit ci f d)))" for i
    using claims_same [OF ok same_seats_trans [OF take_credit_seats forward_seats [OF assms(2)]]] .
  with ok drop_client_claims [OF ok] show ?thesis by (simp add: dispatch_other_def Let_def)
qed

lemma on_attach_claim:
  "\<not> attached s \<Longrightarrow> attached (on_attach now grace g False s)"
  "ss_observers (on_attach now grace g False s) = ss_observers s"
  "on_attach now grace g True s = s\<lparr>ss_observers := sat_add u32_max (ss_observers s) 1\<rparr>"
  by (auto simp: on_attach_def attached_def Let_def take_input_lease_def enqueue_outbound_def split: option.split)

lemma attached_counts [simp]: "attached (s\<lparr>ss_observers := n\<rparr>) = attached s"
  by (simp add: attached_def)

text \<open>Taking a seat: a client without one attaches, and the leaf is free or it observes.\<close>

lemma take_seat_claims:
  assumes ok: "claims_ok d" and c: "client_at ci d = Some c" "cl_leaf c = None"
    and s: "the_leaf i d = Some s" and free: "observe \<or> \<not> attached s"
  shows "claims_ok (set_client ci (\<lambda>c. c\<lparr>cl_leaf := Some i, cl_observe := observe, cl_protocol := protocol\<rparr>)
      (snd (forward P now grace i (Attach g sid protocol observe) d)))"
proof -
  let ?d = "snd (forward P now grace i (Attach g sid protocol observe) d)"
  let ?c = "c\<lparr>cl_leaf := Some i, cl_observe := observe, cl_protocol := protocol\<rparr>"
  let ?cs = "(dm_clients d)[ci := ?c]"
  have ci: "ci < length (dm_clients d)" "c = dm_clients d ! ci" using c(1) by (simp_all add: client_at_some)
  have seat: "seats j (the_leaf j d) (dm_clients d)" "length (dm_clients d) \<le> u32_max" for j
    using ok by (simp_all add: claims_ok_def)
  have none: "\<not> writes_to j c" "\<not> watches j c" for j using c(2) by (simp_all add: writes_to_def watches_def)
  have count: "headcount p ?cs = headcount p (dm_clients d) + (if p ?c then 1 else 0)" if "\<not> p c" for p
    using headcount_update [OF ci(1), of p ?c] that ci(2) by simp
  note counts = count [of "writes_to j" for j, OF none(1)] count [of "watches j" for j, OF none(2)]
  have "headcount (watches i) (dm_clients d) < length (dm_clients d)"
    using ci none(2) [of i] unfolding headcount_def by (intro length_filter_less [of c]) auto
  then have room: "ss_observers s + 1 \<le> u32_max"
    using seat(1) [of i] seat(2) s by (simp add: seats_def)
  have "seats j (the_leaf j ?d) ?cs" for j
  proof (cases "j = i")
    case True
    with seat(1) [of i] s free room counts show ?thesis
      by (cases observe)
        (auto simp: forward_some [OF s] seats_def writes_to_def watches_def sat_add_def on_attach_claim)
  next
    case False
    with seat(1) [of j] counts show ?thesis
      by (simp add: forward_some [OF s] seats_def writes_to_def watches_def split: option.splits)
  qed
  then show ?thesis
    using ci seat(2) by (simp add: set_client_def forward_clients claims_ok_def the_leaf_def)
qed

text \<open>What an attach from a client without a leaf does.\<close>

lemma dispatch_attach_cases:
  assumes c: "client_at ci d = Some c" "cl_leaf c = None"
    and r: "dispatch_attach P now grace ci g sid protocol observe d = Some (r, d')"
    and d2: "\<And>i. d2 i = set_client ci (\<lambda>c. c\<lparr>cl_leaf := Some i, cl_observe := observe, cl_protocol := protocol\<rparr>)
      (snd (forward P now grace i (Attach g sid protocol observe) d))"
  obtains (refused) why where "queue_frame ci (Refused why) d = (r, d')"
  | (lost) "d' = d"
  | (checkpoint) i s where "the_leaf i d = Some s" "observe \<or> \<not> attached s" "protocol = PROTOCOL_2"
      "emit_checkpoint ci i (d2 i) = Some (r, d')"
  | (history) i s bs t where "the_leaf i d = Some s" "observe \<or> \<not> attached s" "protocol \<noteq> PROTOCOL_2"
      "queue_frame ci (Data bs) (d2 i) = (r, d')" "the_leaf i (d2 i) = Some t" "bs = history t"
  | (plain) i s where "the_leaf i d = Some s" "observe \<or> \<not> attached s" "protocol \<noteq> PROTOCOL_2" "d' = d2 i"
proof (cases "protocol_supported protocol")
  case False
  with r refused show thesis by (simp add: dispatch_attach_def)
next
  case sup: True
  show thesis
  proof (cases "resolve_attach sid d")
    case (Inl e)
    with r sup refused show thesis by (simp add: dispatch_attach_def)
  next
    case (Inr i)
    show thesis
    proof (cases "the_leaf i d")
      case None
      with r sup Inr c lost show thesis by (simp add: dispatch_attach_def forward_none)
    next
      case (Some s)
      show thesis
      proof (cases "attached s \<and> \<not> observe")
        case True
        with r sup Inr Some c refused show thesis by (simp add: dispatch_attach_def)
      next
        case False
        then have free: "observe \<or> \<not> attached s" by blast
        have "fst (forward P now grace i (Attach g sid protocol observe) d) = Inr ()"
          by (rule forward_some(3) [OF Some]) simp
        then obtain d1 where f: "forward P now grace i (Attach g sid protocol observe) d = (Inr (), d1)"
          by (metis prod.collapse)
        have "the_leaf i d1 = Some (on_attach now grace g observe s)"
          using forward_some(1) [OF Some, of i P now grace "Attach g sid protocol observe"] f by simp
        then have here: "observe \<or> (case the_leaf i d1 of None \<Rightarrow> False | Some s \<Rightarrow> attached s)"
          using free by (cases observe) (auto simp: on_attach_claim)
        let ?d2 = "set_client ci (\<lambda>c. c\<lparr>cl_leaf := Some i, cl_observe := observe, cl_protocol := protocol\<rparr>) d1"
        have "d2 i = ?d2" by (simp add: d2 f)
        moreover have "(if protocol = PROTOCOL_2 then emit_checkpoint ci i ?d2
            else if observe then (case the_leaf i ?d2 of None \<Rightarrow> Some (Inr (), ?d2)
              | Some s \<Rightarrow> if history s \<noteq> [] then Some (queue_frame ci (Data (history s)) ?d2) else Some (Inr (), ?d2))
            else Some (Inr (), ?d2)) = Some (r, d')"
          using r sup Inr Some free here f
          by (cases observe; cases "attached s") (simp_all add: dispatch_attach_def Let_def cong: option.case_cong if_cong)
        ultimately show thesis
          using Some free checkpoint history plain by (auto split: if_splits option.splits)
      qed
    qed
  qed
qed

lemma dispatch_attach_claims:
  assumes ok: "claims_ok d" and c: "client_at ci d = Some c" "cl_leaf c = None"
    and r: "dispatch_attach P now grace ci g sid protocol observe d = Some (r, d')"
  shows "claims_ok d'"
proof -
  define d2 where "d2 = (\<lambda>i. set_client ci (\<lambda>c. c\<lparr>cl_leaf := Some i, cl_observe := observe, cl_protocol := protocol\<rparr>)
      (snd (forward P now grace i (Attach g sid protocol observe) d)))"
  have queue: "queue_frame ci f e = (r, d') \<Longrightarrow> claims_ok e \<Longrightarrow> claims_ok d'" for f e
    using claims_same queue_frame_seats by (metis snd_conv)
  have seat: "the_leaf i d = Some s \<Longrightarrow> observe \<or> \<not> attached s \<Longrightarrow> claims_ok (d2 i)" for i s
    unfolding d2_def by (rule take_seat_claims [OF ok c])
  show ?thesis
    using c r d2_def [THEN fun_cong]
  proof (cases rule: dispatch_attach_cases)
    case (checkpoint i s)
    with claims_same [OF seat emit_checkpoint_seats] show ?thesis by blast
  qed (use queue ok seat in blast)+
qed

end
