(* ===== verification/Daemon_Loops.thy ===== *)
theory Daemon_Loops
  imports Daemon_Seats
begin

text \<open>
  The loops of the daemon, once for every relation that their rounds respect (\<open>daemon_rel\<close>): the pump
  of one leaf, the resync and the reaping of all. The first relation is \<open>same_seats\<close>.
\<close>

section \<open>The pump, round by round\<close>

text \<open>One round of the pump: \<open>Inl\<close> what it returns when it stops, \<open>Inr\<close> where it goes on.\<close>

definition pump_round :: "'p pty_ops \<Rightarrow> session_id \<Rightarrow> ('p, 's) daemon \<Rightarrow> ('p, 's, unit) drun + ('p, 's) daemon" where
  "pump_round P i d =
     (case the_leaf i d of None \<Rightarrow> Inl (Inr (), d)
      | Some s \<Rightarrow>
          let cap = protocol1_writer_credit (dm_clients d) i
          in if speaks2 i d \<or> dm_is_worker d then
               (if cap = Some 0 then Inl (Inr (), put_session i (note_stalled_read s) d)
                else case drain_pty_at_most P cap s of
                  (Inl e, s) \<Rightarrow> Inl (Inl (DKernel e), put_session i s d)
                | (Inr None, s) \<Rightarrow> Inl (Inr (), put_session i s d)
                | (Inr (Some bs), s) \<Rightarrow>
                    (case fanout_pty_bytes i (ss_bytes_delivered s) bs (put_session i s d) of
                       (Inl e, d) \<Rightarrow> Inl (Inl e, d)
                     | (Inr _, d) \<Rightarrow> Inr d))
             else if ss_credit s = 0 then Inl (Inr (), d)
             else case on_pty_readable P s of
                 (Inl e, s) \<Rightarrow> Inl (Inl (DKernel e), put_session i s d)
               | (Inr n, s) \<Rightarrow> if n > 0 then Inr (put_session i s d) else Inl (Inr (), put_session i s d))"

lemma pump_rounds: "pump_leaf P i d = (case pump_round P i d of Inl x \<Rightarrow> Some x | Inr d' \<Rightarrow> pump_leaf P i d')"
  by (subst pump_leaf.simps) (auto simp: pump_round_def Let_def split: option.split sum.split prod.split)

lemma pump_induct [consumes 1, case_names stops rounds]:
  assumes r: "pump_leaf P i d = Some x"
    and stops: "\<And>d x. pump_round P i d = Inl x \<Longrightarrow> R d x"
    and rounds: "\<And>d d' x. pump_round P i d = Inr d' \<Longrightarrow> R d' x \<Longrightarrow> R d x"
  shows "R d x"
proof -
  have "P' = P \<and> i' = i \<longrightarrow> R d x" if r: "pump_leaf P' i' d = Some x" for P' i' d x
  proof (rule pump_leaf.raw_induct
      [where Pa = "\<lambda>((P', i'), d) x. P' = P \<and> i' = i \<longrightarrow> R d x", OF _ r, simplified split_conv], goal_cases)
    case (1 pump P' i' d x)
    show ?case
    proof
      assume P: "P' = P \<and> i' = i"
      have "(case pump_round P' i' d of Inl y \<Rightarrow> Some y | Inr d' \<Rightarrow> pump P' i' d') = Some x"
        unfolding 1(2) [symmetric]
        by (auto simp: pump_round_def Let_def split: option.split sum.split prod.split)
      with 1(1) P stops rounds show "R d x" by (cases "pump_round P' i' d") auto
    qed
  qed
  with r show ?thesis by blast
qed

section \<open>Loops of the daemon\<close>

text \<open>
  A relation that is reflexive, transitive and respected by one round of a loop relates the states
  before and after the loop. The relations used are over whole daemons.
\<close>

locale daemon_rel =
  fixes Q :: "('p, 's) daemon \<Rightarrow> ('p, 's) daemon \<Rightarrow> bool" and pty :: "'p pty_ops"
  assumes Q_refl: "Q d d" and Q_trans: "Q d d' \<Longrightarrow> Q d' d'' \<Longrightarrow> Q d d''"
    and Q_stalled: "the_leaf i d = Some s \<Longrightarrow> Q d (put_session i (note_stalled_read s) d)"
    and Q_drained: "the_leaf i d = Some s \<Longrightarrow> drain_pty_at_most pty mx s = (r, s') \<Longrightarrow>
      (\<forall>bs. r \<noteq> Inr (Some bs)) \<Longrightarrow> Q d (put_session i s' d)"
    and Q_fanout: "the_leaf i d = Some s \<Longrightarrow> drain_pty_at_most pty mx s = (Inr (Some bs), s') \<Longrightarrow>
      Q d (snd (fanout_pty_bytes i (ss_bytes_delivered s') bs (put_session i s' d)))"
    and Q_readable: "the_leaf i d = Some s \<Longrightarrow> on_pty_readable pty s = (n, s') \<Longrightarrow> Q d (put_session i s' d)"
    and Q_taken: "the_leaf i d = Some s \<Longrightarrow> take_resync_history s = (h, s') \<Longrightarrow> Q d (put_session i s' d)"
    and Q_chip: "Q d (d\<lparr>dm_chip := e\<rparr>)"
    and Q_resync: "the_leaf i d = Some s \<Longrightarrow> resync_from_history (history s) e = Some (Inr bs, e') \<Longrightarrow> Q d (put_session i (enqueue_outbound (Data bs) s) d)"
    and Q_reap: "the_leaf i d = Some s \<Longrightarrow> Q d (d\<lparr>dm_kernel := snd (reap pty now i (dm_kernel d))\<rparr>)"
begin

lemma pump_round_rel: "case pump_round pty i d of Inl x \<Rightarrow> Q d (snd x) | Inr d' \<Rightarrow> Q d d'"
proof (cases "the_leaf i d")
  case None
  then show ?thesis by (simp add: pump_round_def Q_refl)
next
  case (Some s)
  obtain n s1 where rd: "on_pty_readable pty s = (n, s1)" by force
  obtain r s2 where dr: "drain_pty_at_most pty (protocol1_writer_credit (dm_clients d) i) s = (r, s2)" by force
  note steps = Some rd dr Q_refl [of d] Q_stalled [OF Some] Q_readable [OF Some rd]
  show ?thesis
  proof (cases "\<exists>bs. r = Inr (Some bs)")
    case True
    then obtain bs where bs: "r = Inr (Some bs)" by blast
    obtain v e where f: "fanout_pty_bytes i (ss_bytes_delivered s2) bs (put_session i s2 d) = (v, e)" by force
    with Q_fanout [OF Some dr [unfolded bs]] steps bs show ?thesis
      by (cases v) (auto simp: pump_round_def Let_def split: sum.split)
  next
    case False
    with Q_drained [OF Some dr] steps show ?thesis
      by (auto simp: pump_round_def Let_def split: sum.split option.split)
  qed
qed

lemma pump_leaf_rel: "pump_leaf pty i d = Some (r, d') \<Longrightarrow> Q d d'"
proof -
  assume "pump_leaf pty i d = Some (r, d')"
  then have "Q d (snd (r, d'))"
  proof (induction rule: pump_induct)
    case (stops d x)
    with pump_round_rel [of d i] show ?case by simp
  next
    case (rounds d d' x)
    with pump_round_rel [of d i] show ?case by (auto intro: Q_trans)
  qed
  then show ?thesis by simp
qed

lemma maybe_resync_rel: "maybe_resync ids d = Some (r, d') \<Longrightarrow> Q d d'"
proof (induction ids arbitrary: d)
  case Nil
  then show ?case by (simp add: Q_refl)
next
  case (Cons i ids)
  show ?case
  proof (cases "the_leaf i d")
    case None
    with Cons show ?thesis by simp
  next
    case (Some s)
    obtain h s' where t: "take_resync_history s = (h, s')" by force
    let ?d = "put_session i s' d"
    note step = Q_taken [OF Some t]
    show ?thesis
    proof (cases "h = None \<or> speaks2 i ?d")
      case True
      then have "maybe_resync ids ?d = Some (r, d')"
        using Cons.prems Some t by (cases h) (auto simp: Let_def)
      from Q_trans [OF step Cons.IH [OF this]] show ?thesis .
    next
      case False
      then obtain hist where h: "h = Some hist" by (cases h) auto
      obtain rs chip where c: "resync_from_history hist (dm_chip ?d) = Some (rs, chip)"
        using Cons.prems Some t h False by (auto simp: Let_def bind_eq_Some_conv)
      let ?d' = "?d\<lparr>dm_chip := chip\<rparr>"
      have step2: "Q d ?d'" by (rule Q_trans [OF step Q_chip])
      have leaf: "the_leaf i ?d' = Some s'" by (simp add: the_leaf_def put_session_def put_leaf_def)
      show ?thesis
      proof (cases rs)
        case (Inl e)
        with Cons.prems Some t h False c step2 show ?thesis by (simp add: Let_def)
      next
        case (Inr bs)
        let ?d'' = "if bs \<noteq> [] then put_session i (enqueue_outbound (Data bs) s') ?d' else ?d'"
        have "maybe_resync ids ?d'' = Some (r, d')"
          using Cons.prems Some t h False c Inr leaf by (simp add: Let_def cong: if_cong)
        moreover have "hist = history s'" using t h by (auto simp: take_resync_history_def history_def split: if_splits)
        with c Inr have "Q ?d' (put_session i (enqueue_outbound (Data bs) s') ?d')" by (intro Q_resync [OF leaf]) simp
        then have "Q d ?d''" using Q_trans [OF step2] step2 by simp
        ultimately show ?thesis using Cons.IH Q_trans by blast
      qed
    qed
  qed
qed

lemma reap_all_rel: "Q d (snd (reap_all pty now ids d))"
proof (induction ids arbitrary: d)
  case (Cons i ids)
  let ?d = "d\<lparr>dm_kernel := snd (reap pty now i (dm_kernel d))\<rparr>"
  have "Q d ?d"
  proof (cases "the_leaf i d")
    case None
    then have "?d = d" by (simp add: reap_def the_leaf_def)
    then show ?thesis using Q_refl by metis
  next
    case (Some s)
    then show ?thesis by (rule Q_reap)
  qed
  from Q_trans [OF this Cons.IH] this show ?case by (simp add: split_beta Let_def split: sum.split)
qed (simp add: Q_refl)

end

section \<open>The loops leave the seats alone\<close>

lemma same_seat_fields [simp]:
  "same_seat c (c\<lparr>cl_credit := n, cl_outbox := bs\<rparr>)" "same_seat c (c\<lparr>cl_credit := n\<rparr>)"
  "same_seat c (c\<lparr>cl_stream := w, cl_outbox := bs\<rparr>)" "same_seat c (c\<lparr>cl_outbox := bs\<rparr>)"
  by (simp_all add: same_seat_def)

lemma fanout_clients_seats: "list_all2 same_seat cs (snd (fanout_clients i off bs cs))"
  by (induction cs) (auto simp: Let_def split_beta split: option.split sum.split)

lemma fanout_seats: "same_seats d (snd (fanout_pty_bytes i off bs d))"
  unfolding fanout_pty_bytes_def split_beta by (simp add: Let_def same_seats_clients fanout_clients_seats)

lemma flush_clients_seats: "list_all2 same_seat cs (snd (flush_clients W pending cs))"
  by (induction cs) (auto simp: Let_def split_beta split: sum.split)

lemma reap_leaf:
  assumes "k_leaves k i = Some s"
  shows "k_leaves (snd (reap P now i k)) = (k_leaves k)(i \<mapsto> snd (poll_child P (expire_input_lease_if_due now s)))"
  using assms by (simp add: reap_def Let_def split_beta split: sum.split)

lemma leafwise_kernel: "leafwise R d (d\<lparr>dm_kernel := k\<rparr>) \<longleftrightarrow> (\<forall>i. rel_option R (k_leaves (dm_kernel d) i) (k_leaves k i))"
  by (simp add: leafwise_def the_leaf_def)

lemma leafwise_reap:
  assumes "the_leaf i d = Some s" "R s (snd (poll_child P (expire_input_lease_if_due now s)))" "\<And>s. R s s"
  shows "leafwise R d (d\<lparr>dm_kernel := snd (reap P now i (dm_kernel d))\<rparr>)"
  using assms by (auto simp: leafwise_kernel the_leaf_def reap_leaf option.rel_refl)

lemma reap_claim: "same_claim s (snd (poll_child P (expire_input_lease_if_due now s)))"
  by (rule same_claim_trans [OF input_claim [OF expire_input] poll_claim])

interpretation seat: daemon_rel same_seats P for P :: "'p pty_ops"
proof
  fix d :: "('p, 's) daemon" and i s s' r mx bs n h e now
  show "same_seats d d" by simp
  show "same_seats d d' \<Longrightarrow> same_seats d' d'' \<Longrightarrow> same_seats d d''" for d' d'' by (rule same_seats_trans)
  assume s: "the_leaf i d = Some s"
  show "same_seats d (put_session i (note_stalled_read s) d)"
    by (rule same_seats_put [OF s]) (rule small_claims)
  show "drain_pty_at_most P mx s = (r, s') \<Longrightarrow> \<forall>bs. r \<noteq> Inr (Some bs) \<Longrightarrow> same_seats d (put_session i s' d)"
    using same_seats_put [OF s] small_claims(6) [of s P mx] by simp
  show "drain_pty_at_most P mx s = (Inr (Some bs), s') \<Longrightarrow>
      same_seats d (snd (fanout_pty_bytes i (ss_bytes_delivered s') bs (put_session i s' d)))"
    using same_seats_trans [OF same_seats_put [OF s] fanout_seats] small_claims(6) [of s P mx] by simp
  show "on_pty_readable P s = (n, s') \<Longrightarrow> same_seats d (put_session i s' d)"
    using same_seats_put [OF s] small_claims(7) [of s P] by simp
  show "take_resync_history s = (h, s') \<Longrightarrow> same_seats d (put_session i s' d)"
    using same_seats_put [OF s] small_claims(2) [of s] by simp
  show "same_seats d (put_session i (enqueue_outbound (Data bs) s) d)"
    by (rule same_seats_put [OF s]) (rule small_claims)
  show "same_seats d (d\<lparr>dm_kernel := snd (reap P now i (dm_kernel d))\<rparr>)"
    by (simp add: same_seats_def leafwise_reap [OF s] reap_claim)
next
  fix d :: "('p, 's) daemon" and e
  show "same_seats d (d\<lparr>dm_chip := e\<rparr>)" by (rule same_seats_chip)
qed

text \<open>The kernel side of a flush.\<close>

lemma trim_unclaimed_eq:
  "trim_unclaimed ids cl k =
     k\<lparr>k_leaves := \<lambda>i. if i \<in> set ids \<and> i \<notin> set cl then map_option keep_control (k_leaves k i) else k_leaves k i\<rparr>"
proof (induction ids arbitrary: k)
  case (Cons j ids)
  show ?case
    by (cases "k_leaves k j")
      (auto simp: Cons.IH put_leaf_def keep_control_eq [abs_def] option.map_comp o_def
        intro!: ext arg_cong [where f = "\<lambda>m. k\<lparr>k_leaves := m\<rparr>"])
qed simp

lemma take_pending_eq:
  "take_pending ids k pending =
     (\<lambda>i. if i \<in> set ids \<and> pending i = None then Some (case k_leaves k i of None \<Rightarrow> [] | Some s \<Rightarrow> ss_outbound s)
          else pending i,
      k\<lparr>k_leaves := \<lambda>i. if i \<in> set ids \<and> pending i = None then map_option (\<lambda>s. s\<lparr>ss_outbound := []\<rparr>) (k_leaves k i)
          else k_leaves k i\<rparr>)"
proof (induction ids arbitrary: k pending)
  case (Cons j ids)
  show ?case
  proof (cases "pending j")
    case None
    then show ?thesis
      by (cases "k_leaves k j")
        (auto simp: Cons.IH pop_all_eq put_leaf_def intro!: ext arg_cong [where f = "\<lambda>m. k\<lparr>k_leaves := m\<rparr>"])
  next
    case (Some fs)
    then show ?thesis by (auto simp: Cons.IH intro!: ext arg_cong [where f = "\<lambda>m. k\<lparr>k_leaves := m\<rparr>"])
  qed
qed simp

text \<open>What every round of a loop over the leaves does to one of them, the loop does.\<close>

lemma flush_leaves:
  assumes "take_pending cl' (trim_unclaimed ids cl (dm_kernel d)) Map.empty = (pending, k)"
    and "\<And>s. R s (keep_control s)" "\<And>s. R s (snd (pop_all s))" "\<And>s. R s s"
    and trans: "\<And>s s' s''. R s s' \<Longrightarrow> R s' s'' \<Longrightarrow> R s s''"
  shows "rel_option R (k_leaves (dm_kernel d) j) (k_leaves k j)"
proof -
  have "R s (s\<lparr>ss_outbound := []\<rparr>)" for s using assms(3) [of s] by (simp add: pop_all_eq)
  moreover from this have "R s ((keep_control s)\<lparr>ss_outbound := []\<rparr>)" for s using trans [OF assms(2)] by blast
  moreover have "k = snd (take_pending cl' (trim_unclaimed ids cl (dm_kernel d)) Map.empty)" using assms(1) by simp
  ultimately show ?thesis
    using assms(2,4) by (cases "k_leaves (dm_kernel d) j") (auto simp: take_pending_eq trim_unclaimed_eq)
qed

end
