(* ===== verification/Daemon_Runs.thy ===== *)
theory Daemon_Runs
  imports Daemon_Loops
begin

text \<open>
  Arbitrary runs of a daemon whose clients attach once, as an inductive reachability over its
  operations. \<open>daemon_inv\<close> collects what makes a predicate hold in all of them; its first instance
  is that kernel and daemon agree on who is attached (\<open>claims_ok\<close>).
\<close>

section \<open>What the daemon does\<close>

text \<open>
  The operations the daemon's loop is made of: a connection, a read of a client's socket, the pump of
  a readable leaf, the flush to the clients, the resync and the reaping of all leaves, and a new tab.
\<close>

datatype ('p, 's) daemon_op =
    Accept 's bool | ReadFrom nat nat | PumpLeaf session_id | FlushAll "session_id list"
  | ResyncAll "session_id list" | ReapAll nat "session_id list" | NewTab "kernel_error + 'p session"

fun daemon_do ::
    "'s sock_ops \<Rightarrow> 'p pty_ops \<Rightarrow> nat \<Rightarrow> ('p, 's) daemon_op \<Rightarrow> ('p, 's) daemon \<Rightarrow> ('p, 's, unit) drun option" where
  "daemon_do W P grace (Accept stream ok) d = Some (Inr (), accept_client stream ok d)"
| "daemon_do W P grace (ReadFrom now ci) d = read_client W P now grace ci d"
| "daemon_do W P grace (PumpLeaf i) d = pump_leaf P i d"
| "daemon_do W P grace (FlushAll ids) d = Some (flush_outbound W P ids d)"
| "daemon_do W P grace (ResyncAll ids) d = maybe_resync ids d"
| "daemon_do W P grace (ReapAll now ids) d = Some (reap_all P now ids d)"
| "daemon_do W P grace (NewTab spawned) d = spawn_tab_leaf spawned d"

text \<open>
  Clients that attach once: an attach comes from a connected client that has no leaf. \<open>fp\<close> and \<open>fs\<close>
  say which pseudoterminals and sockets are new; a new tab has a new session, and there are fewer than
  \<open>2 ^ 32\<close> clients.
\<close>

definition may_attach :: "nat \<Rightarrow> frame \<Rightarrow> ('p, 's) daemon \<Rightarrow> bool" where
  "may_attach ci f d \<longleftrightarrow> is_attach f \<longrightarrow>
     (case client_at ci d of None \<Rightarrow> False | Some c \<Rightarrow> cl_leaf c = None)"

fun attach_once :: "'p pty_ops \<Rightarrow> nat \<Rightarrow> nat \<Rightarrow> nat \<Rightarrow> frame list \<Rightarrow> ('p, 's) daemon \<Rightarrow> bool" where
  "attach_once P now grace ci [] d \<longleftrightarrow> True"
| "attach_once P now grace ci (f # fs) d \<longleftrightarrow> may_attach ci f d \<and>
     (case dispatch_frame P now grace ci f d of
        Some (Inr _, d) \<Rightarrow> attach_once P now grace ci fs d | _ \<Rightarrow> True)"

definition new_session :: "('p \<Rightarrow> bool) \<Rightarrow> 'p session \<Rightarrow> bool" where
  "new_session fp s \<longleftrightarrow> fp (ss_pty s) \<and> s = session_new (ss_pty s) (ss_size s) (ss_ephemeral s)"

fun orderly ::
    "'s sock_ops \<Rightarrow> 'p pty_ops \<Rightarrow> nat \<Rightarrow> ('p \<Rightarrow> bool) \<Rightarrow> ('s \<Rightarrow> bool) \<Rightarrow> ('p, 's) daemon_op \<Rightarrow> ('p, 's) daemon \<Rightarrow> bool"
where
  "orderly W P grace fp fs (Accept stream ok) d \<longleftrightarrow> fs stream \<and> length (dm_clients d) < u32_max"
| "orderly W P grace fp fs (ReadFrom now ci) d \<longleftrightarrow>
     (case client_at ci d of
        None \<Rightarrow> True
      | Some c \<Rightarrow>
          (case fst (receive W c) of
             Frames frames \<Rightarrow> attach_once P now grace ci frames (set_client ci (\<lambda>_. snd (receive W c)) d)
           | _ \<Rightarrow> True))"
| "orderly W P grace fp fs (NewTab (Inr s)) d \<longleftrightarrow> new_session fp s"
| "orderly W P grace fp fs op d \<longleftrightarrow> True"

inductive daemon_reach ::
    "'s sock_ops \<Rightarrow> 'p pty_ops \<Rightarrow> nat \<Rightarrow> ('p \<Rightarrow> bool) \<Rightarrow> ('s \<Rightarrow> bool) \<Rightarrow> ('p, 's) daemon \<Rightarrow> bool"
  for W P grace fp fs where
  daemon_start: "new_session fp s \<Longrightarrow> daemon_bind (Inr s) sz w = Some (Inr d) \<Longrightarrow> daemon_reach W P grace fp fs d"
| daemon_step: "daemon_reach W P grace fp fs d \<Longrightarrow> orderly W P grace fp fs op d \<Longrightarrow>
    daemon_do W P grace op d = Some (r, d') \<Longrightarrow> daemon_reach W P grace fp fs d'"

text \<open>
  An invariant of orderly runs: it holds when the daemon starts, and the pieces of every operation
  keep it.
\<close>

locale daemon_inv =
  fixes I :: "('p, 's) daemon \<Rightarrow> bool" and W :: "'s sock_ops" and pty :: "'p pty_ops" and grace :: nat
    and fp :: "'p \<Rightarrow> bool" and fs :: "'s \<Rightarrow> bool"
  assumes inv_start: "new_session fp s \<Longrightarrow> daemon_bind (Inr s) sz w = Some (Inr d) \<Longrightarrow> I d"
    and inv_accept: "I d \<Longrightarrow> fs stream \<Longrightarrow> length (dm_clients d) < u32_max \<Longrightarrow>
      I (d\<lparr>dm_clients := dm_clients d @ [client_new stream]\<rparr>)"
    and inv_receive: "I d \<Longrightarrow> client_at ci d = Some c \<Longrightarrow> I (set_client ci (\<lambda>_. snd (receive W c)) d)"
    and inv_frame: "I d \<Longrightarrow> may_attach ci f d \<Longrightarrow> dispatch_frame pty now grace ci f d = Some (r, d') \<Longrightarrow> I d'"
    and inv_drop: "I d \<Longrightarrow> I (drop_client pty ci d)"
    and inv_pump: "I d \<Longrightarrow> pump_leaf pty i d = Some (r, d') \<Longrightarrow> I d'"
    and inv_flush: "I d \<Longrightarrow> I (snd (flush_outbound W pty ids d))"
    and inv_resync: "I d \<Longrightarrow> maybe_resync ids d = Some (r, d') \<Longrightarrow> I d'"
    and inv_reap: "I d \<Longrightarrow> I (snd (reap_all pty now ids d))"
    and inv_tab: "I d \<Longrightarrow> \<forall>s. spawned = Inr s \<longrightarrow> new_session fp s \<Longrightarrow> spawn_tab_leaf spawned d = Some (r, d') \<Longrightarrow> I d'"
begin

lemma inv_frames:
  "I d \<Longrightarrow> attach_once pty now grace ci fs' d \<Longrightarrow> dispatch_frames pty now grace ci fs' d = Some (r, d') \<Longrightarrow> I d'"
proof (induction fs' arbitrary: d)
  case (Cons f fs')
  then obtain r1 d1 where f: "dispatch_frame pty now grace ci f d = Some (r1, d1)"
    by (auto simp: bind_eq_Some_conv)
  with Cons.prems have "I d1" by (auto intro: inv_frame)
  with Cons f show ?case by (cases r1) auto
qed simp

lemma inv_read:
  assumes "I d" "orderly W pty grace fp fs (ReadFrom now ci) d" "read_client W pty now grace ci d = Some (r, d')"
  shows "I d'"
proof (cases "client_at ci d")
  case None
  with assms show ?thesis by (simp add: read_client_def)
next
  case (Some c)
  obtain got c' where g: "receive W c = (got, c')" by force
  note here = inv_receive [OF assms(1) Some, unfolded g snd_conv]
  show ?thesis
  proof (cases got)
    case (Frames frames)
    with assms Some g inv_frames [OF here] show ?thesis by (simp add: read_client_def)
  qed (use assms Some g here inv_drop [OF here] in \<open>auto simp: read_client_def\<close>)
qed

lemma inv_step:
  assumes "I d" "orderly W pty grace fp fs op d" "daemon_do W pty grace op d = Some (r, d')"
  shows "I d'"
proof (cases op)
  case (ReadFrom now ci)
  with assms show ?thesis by (simp add: inv_read)
next
  case (NewTab sp)
  with assms have "\<forall>s. sp = Inr s \<longrightarrow> new_session fp s" by (cases sp) auto
  with NewTab assms inv_tab show ?thesis by simp
qed (use assms in \<open>auto simp: accept_client_def prod_eq_iff
    intro: inv_accept inv_pump inv_resync inv_flush inv_reap\<close>)

lemma inv_reach: "daemon_reach W pty grace fp fs d \<Longrightarrow> I d"
  by (induction rule: daemon_reach.induct) (auto intro: inv_start inv_step)

end

section \<open>Seats in every run\<close>

definition gains :: "(kernel_error + 'p session) \<Rightarrow> (session_id \<rightharpoonup> 'p session) \<Rightarrow> (session_id \<rightharpoonup> 'p session) \<Rightarrow> bool" where
  "gains spawned m m' \<longleftrightarrow> m' = m \<or> (\<exists>i s. spawned = Inr s \<and> m i = None \<and> m' = m(i \<mapsto> s))"

lemma spawn_leaf_gains:
  assumes "spawn_leaf_with spawned k = Some (r, k')"
  shows "gains spawned (k_leaves k) (k_leaves k')"
proof (cases spawned)
  case (Inl e)
  with assms show ?thesis by (simp add: spawn_leaf_with_def gains_def)
next
  case (Inr s)
  then obtain n nx where a: "allocate_loop (\<lambda>n. k_leaves k (SessionId n) \<noteq> None) (k_next k) = Some (n, nx)"
    "k_leaves k' = (k_leaves k)(SessionId n \<mapsto> s)"
    using assms by (auto simp: spawn_leaf_with_def allocate_id_def bind_eq_Some_conv simp del: not_None_eq)
  with allocate_found [OF a(1)] Inr show ?thesis by (auto simp: gains_def)
qed

lemma create_node_leaves: "create_node kd p k = Some (r, k') \<Longrightarrow> k_leaves k' = k_leaves k"
  by (auto simp: create_node_def allocate_node_id_def bind_eq_Some_conv Let_def
      split: if_splits option.splits simp del: not_None_eq)

lemma attach_leaf_leaves: "k_leaves (snd (attach_leaf n i k)) = k_leaves k"
  by (simp add: attach_leaf_def split: option.split)

lemma spawn_tab_gains:
  assumes "spawn_tab_leaf spawned d = Some (r, d')"
  shows "dm_clients d' = dm_clients d" "gains spawned (k_leaves (dm_kernel d)) (k_leaves (dm_kernel d'))"
proof -
  obtain r1 k1 where s: "spawn_leaf_with spawned (dm_kernel d) = Some (r1, k1)"
    using assms by (auto simp: spawn_tab_leaf_def bind_eq_Some_conv)
  have "dm_clients d' = dm_clients d \<and> k_leaves (dm_kernel d') = k_leaves k1"
  proof (cases r1)
    case (Inl e)
    with assms s show ?thesis by (auto simp: spawn_tab_leaf_def)
  next
    case (Inr leaf)
    then obtain r2 k2 where c: "create_node Tab (Some (dm_workspace_id d)) k1 = Some (r2, k2)"
      using assms s by (auto simp: spawn_tab_leaf_def bind_eq_Some_conv)
    from assms s Inr c create_node_leaves [OF c] attach_leaf_leaves [of _ leaf k2] show ?thesis
      by (auto simp: spawn_tab_leaf_def split: sum.splits prod.splits)
        (metis snd_conv)+
  qed
  with spawn_leaf_gains [OF s]
  show "dm_clients d' = dm_clients d" "gains spawned (k_leaves (dm_kernel d)) (k_leaves (dm_kernel d'))" by simp_all
qed

lemma bind_gains:
  assumes "daemon_bind spawned sz w = Some (Inr d)"
  shows "dm_clients d = []" "gains spawned Map.empty (k_leaves (dm_kernel d))"
proof -
  obtain r1 k1 where 1: "spawn_leaf_with spawned kernel_new = Some (r1, k1)"
    using assms by (auto simp: daemon_bind_def bind_eq_Some_conv)
  then obtain leaf where r1: "r1 = Inr leaf" using assms by (cases r1) (auto simp: daemon_bind_def)
  then obtain r2 k2 where 2: "create_node Workspace None k1 = Some (r2, k2)"
    using assms 1 by (auto simp: daemon_bind_def bind_eq_Some_conv)
  then obtain i where r2: "r2 = Inr i" using assms 1 r1 by (cases r2) (auto simp: daemon_bind_def)
  then obtain r3 k3 where 3: "create_node Tab (Some i) k2 = Some (r3, k3)"
    using assms 1 r1 2 by (auto simp: daemon_bind_def bind_eq_Some_conv)
  then obtain j where r3: "r3 = Inr j" using assms 1 r1 2 r2 by (cases r3) (auto simp: daemon_bind_def)
  obtain r4 k4 where 4: "attach_leaf j leaf k3 = (r4, k4)" by force
  have d: "dm_clients d = [] \<and> dm_kernel d = k4"
    using assms 1 r1 2 r2 3 r3 4 by (cases r4) (auto simp: daemon_bind_def split: sum.splits)
  then show "dm_clients d = []" by simp
  show "gains spawned Map.empty (k_leaves (dm_kernel d))"
    using spawn_leaf_gains [OF 1] create_node_leaves [OF 2] create_node_leaves [OF 3] attach_leaf_leaves [of j leaf k3] d 4
    by (simp add: kernel_new_def)
qed

lemma claims_gains:
  assumes "claims_ok d" "dm_clients d' = dm_clients d" "gains spawned (k_leaves (dm_kernel d)) (k_leaves (dm_kernel d'))"
    "\<forall>s. spawned = Inr s \<longrightarrow> new_session fp s"
  shows "claims_ok d'"
proof -
  have "\<not> attached s \<and> ss_observers s = 0" if "new_session fp s" for s
    using that unfolding new_session_def attached_def by (metis session_new_def session.select_convs)
  then have "spawned = Inr s \<Longrightarrow> \<not> attached s \<and> ss_observers s = 0" for s using assms(4) by blast
  note new = this
  have "seats j (the_leaf j d') (dm_clients d)" for j
  proof -
    have "the_leaf j d' = the_leaf j d \<or> (\<exists>s. spawned = Inr s \<and> the_leaf j d = None \<and> the_leaf j d' = Some s)"
      using assms(3) by (auto simp: gains_def the_leaf_def)
    moreover have "seats j (the_leaf j d) (dm_clients d)" using assms(1) by (simp add: claims_ok_def)
    ultimately show ?thesis using new by (auto simp: seats_def split: option.splits)
  qed
  with assms(1,2) show ?thesis by (simp add: claims_ok_def)
qed

lemma flush_claims:
  assumes "claims_ok d"
  shows "claims_ok (snd (flush_outbound W P ids d))"
proof -
  let ?cl = "claimed d"
  obtain pending k where t: "take_pending ?cl (trim_unclaimed ids ?cl (dm_kernel d)) Map.empty = (pending, k)" by force
  obtain r cs where f: "flush_clients W pending (dm_clients d) = (r, cs)" by force
  have "rel_option same_claim (k_leaves (dm_kernel d) j) (k_leaves k j)" for j
    using t small_claims(3,4) same_claim_refl same_claim_trans by (rule flush_leaves)
  then have "same_seats d (d\<lparr>dm_kernel := k, dm_clients := cs\<rparr>)"
    using flush_clients_seats [of "dm_clients d" W pending] f
    by (simp add: same_seats_def leafwise_def the_leaf_def)
  from claims_same [OF assms this] t f drop_client_claims [OF claims_same [OF assms this]] show ?thesis
    by (simp add: flush_outbound_def Let_def split: sum.split option.split)
qed

interpretation seating: daemon_inv claims_ok W P grace fp fs
  for W :: "'s sock_ops" and P :: "'p pty_ops" and grace fp fs
proof
  fix d d' :: "('p, 's) daemon" and s sz w stream ci c f now r i ids spawned
  show "new_session fp s \<Longrightarrow> daemon_bind (Inr s) sz w = Some (Inr d) \<Longrightarrow> claims_ok d"
  proof -
    assume a: "new_session fp s" "daemon_bind (Inr s) sz w = Some (Inr d)"
    have "claims_ok (d\<lparr>dm_kernel := kernel_new\<rparr>)"
      using bind_gains [OF a(2)] by (simp add: claims_ok_def seats_def headcount_def the_leaf_def kernel_new_def)
    from claims_gains [OF this, of d "Inr s" fp] bind_gains [OF a(2)] a(1) show ?thesis by (simp add: kernel_new_def)
  qed
  show "claims_ok d \<Longrightarrow> fs stream \<Longrightarrow> length (dm_clients d) < u32_max \<Longrightarrow> claims_ok (d\<lparr>dm_clients := dm_clients d @ [client_new stream]\<rparr>)"
    by (simp add: claims_ok_def seats_def the_leaf_def headcount_def client_new_def writes_to_def watches_def cong: option.case_cong)
  show "claims_ok d \<Longrightarrow> client_at ci d = Some c \<Longrightarrow> claims_ok (set_client ci (\<lambda>_. snd (receive W c)) d)"
  proof -
    assume a: "claims_ok d" "client_at ci d = Some c"
    have "same_seat c (snd (receive W c))"
      by (simp add: receive_def same_seat_def Let_def split_beta split: sock_in.split sum.split)
    then have "same_seats d (set_client ci (\<lambda>_. snd (receive W c)) d)"
      using a(2) by (auto simp: client_at_some set_client_def list_all2_conv_all_nth nth_list_update intro!: same_seats_clients)
    from claims_same [OF a(1) this] show ?thesis .
  qed
  show "claims_ok d \<Longrightarrow> may_attach ci f d \<Longrightarrow> dispatch_frame P now grace ci f d = Some (r, d') \<Longrightarrow> claims_ok d'"
  proof (cases f)
    case (Attach g sid pr ob)
    assume "claims_ok d" "may_attach ci f d" "dispatch_frame P now grace ci f d = Some (r, d')"
    with Attach show ?thesis
      by (auto simp: may_attach_def split: option.splits intro: dispatch_attach_claims)
  qed (use dispatch_other_claims [of d f P now grace ci] in \<open>auto simp: prod_eq_iff\<close>)
  show "claims_ok d \<Longrightarrow> claims_ok (drop_client P ci d)" by (rule drop_client_claims)
  show "claims_ok d \<Longrightarrow> pump_leaf P i d = Some (r, d') \<Longrightarrow> claims_ok d'"
    using claims_same seat.pump_leaf_rel by blast
  show "claims_ok d \<Longrightarrow> claims_ok (snd (flush_outbound W P ids d))" by (rule flush_claims)
  show "claims_ok d \<Longrightarrow> maybe_resync ids d = Some (r, d') \<Longrightarrow> claims_ok d'"
    using claims_same seat.maybe_resync_rel by blast
  show "claims_ok d \<Longrightarrow> claims_ok (snd (reap_all P now ids d))"
    using claims_same seat.reap_all_rel by blast
  show "claims_ok d \<Longrightarrow> \<forall>s. spawned = Inr s \<longrightarrow> new_session fp s \<Longrightarrow> spawn_tab_leaf spawned d = Some (r, d') \<Longrightarrow> claims_ok d'"
    using claims_gains spawn_tab_gains by blast
qed

end
