(* ===== verification/Daemon_Wire.thy ===== *)
theory Daemon_Wire
  imports Daemon_Runs
begin

text \<open>
  What a client is sent. The sockets of this theory keep a log of the bytes they accepted
  (\<open>sock_log\<close>); \<open>wire_ok\<close> says that the log and the outbox of a client together are the encodings of
  frames its protocol has, and that its checkpoints and deltas tell the output of its leaf in order.
  It holds in every run (\<open>wiring\<close>).
\<close>

section \<open>Sockets with a log\<close>

text \<open>
  A log of the bytes a socket accepted: what a write took is added to it, and a read leaves it alone.
  Any socket becomes one by keeping a log beside its own state.
\<close>

definition logged_sock :: "'s sock_ops \<Rightarrow> ('s \<times> byte list) sock_ops" where
  "logged_sock W =
     \<lparr>sock_read = (\<lambda>n (w, l). let (r, w) = sock_read W n w in (r, (w, l))),
      sock_write = (\<lambda>bs (w, l). let (r, w) = sock_write W bs w
        in (r, (w, l @ (case r of Wrote n \<Rightarrow> take n bs | _ \<Rightarrow> []))))\<rparr>"

locale sock_log =
  fixes W :: "'s sock_ops" and sent :: "'s \<Rightarrow> byte list"
  assumes sent_write: "sent (snd (sock_write W bs w)) =
      sent w @ (case fst (sock_write W bs w) of Wrote n \<Rightarrow> take n bs | _ \<Rightarrow> [])"
    and sent_read: "sent (snd (sock_read W n w)) = sent w"
begin

lemma write_outbox_sent: "write_outbox W w out = (r, w', out') \<Longrightarrow> sent w' @ out' = sent w @ out"
proof (induction out arbitrary: w rule: measure_induct_rule [of length])
  case (less out)
  obtain got w1 where s: "sock_write W out w = (got, w1)" by force
  show ?case
  proof (cases "out = [] \<or> (\<forall>n. got \<noteq> Wrote n) \<or> got = Wrote 0")
    case True
    with less.prems s sent_write [of out w] show ?thesis
      by (auto simp: write_outbox.simps [of W w out] split: if_splits sock_out.splits)
  next
    case False
    then obtain n where n: "got = Wrote n" "0 < n" "out \<noteq> []" by (cases got) auto
    then have "sent w' @ out' = sent w1 @ drop n out"
      using less.prems s by (intro less.IH) (simp_all add: write_outbox.simps [of W w out])
    with n s sent_write [of out w] show ?thesis by simp
  qed
qed

lemma receive_sent: "sent (cl_stream (snd (receive W c))) = sent (cl_stream c)"
  using sent_read [of READ_CHUNK "cl_stream c"]
  by (simp add: receive_def Let_def split_beta split: sock_in.split sum.split)

end

interpretation logged_sock: sock_log "logged_sock W" snd for W
  by unfold_locales (simp_all add: logged_sock_def split_beta Let_def)

section \<open>What a client is sent\<close>

text \<open>
  The frames a client may be sent: refusals before it has a leaf; then, by its protocol, either
  data, or checkpoints and deltas.
\<close>

fun speaks :: "session_id option \<Rightarrow> byte \<Rightarrow> frame \<Rightarrow> bool" where
  "speaks leaf protocol (Refused _) \<longleftrightarrow> True"
| "speaks leaf protocol (Exit _) \<longleftrightarrow> leaf \<noteq> None"
| "speaks leaf protocol (Data _) \<longleftrightarrow> leaf \<noteq> None \<and> protocol \<noteq> PROTOCOL_2"
| "speaks leaf protocol (Delta _ _) \<longleftrightarrow> leaf \<noteq> None \<and> protocol = PROTOCOL_2"
| "speaks leaf protocol (Checkpoint _ _ _) \<longleftrightarrow> leaf \<noteq> None \<and> protocol = PROTOCOL_2"
| "speaks leaf protocol _ \<longleftrightarrow> False"

text \<open>
  A story of the output \<open>hist\<close> that has got to position \<open>k\<close>: every delta is the slice of the
  output at the offset it names, no earlier than where the one before it ended, every checkpoint is the
  grid of a fresh emulator that was fed what was retained of the output up to its offset, which lies
  between them, and data is true of the output.
\<close>

fun slices :: "byte list \<Rightarrow> nat \<Rightarrow> frame list \<Rightarrow> bool" where
  "slices hist k [] \<longleftrightarrow> k \<le> length hist"
| "slices hist k (Delta off bs # fs) \<longleftrightarrow> k \<le> unat off \<and> take (length bs) (drop (unat off) hist) = bs \<and>
     slices hist (unat off + length bs) fs"
| "slices hist k (Checkpoint off h blob # fs) \<longleftrightarrow> k \<le> unat off \<and>
     (\<exists>g. picture (keep_last RING_CAP (take (unat off) hist)) g \<and> h = pod_hash g \<and> blob = encode_pod_grid g) \<and>
     slices hist (unat off) fs"
| "slices hist k (Data bs # fs) \<longleftrightarrow> true_data hist bs \<and> slices hist k fs"
| "slices hist k (_ # fs) \<longleftrightarrow> slices hist k fs"

lemma slices_bound: "slices hist k fs \<Longrightarrow> k \<le> length hist"
  by (induction hist k fs rule: slices.induct) auto

lemma slices_grow: "slices hist k fs \<Longrightarrow> slices (hist @ new) k fs"
proof (induction hist k fs rule: slices.induct)
  case (2 hist k off bs fs)
  then have "unat off + length bs \<le> length hist" by (auto dest: slices_bound)
  with 2 show ?case by simp
next
  case (3 hist k off h blob fs)
  then have "unat off \<le> length hist" by (auto dest: slices_bound)
  with 3 show ?case by simp
qed (auto intro: true_data_grow)

lemma slices_append:
  assumes "slices hist k fs"
    and "\<And>j. k \<le> j \<Longrightarrow> j \<le> length hist \<Longrightarrow> slices (hist @ new) j gs"
  shows "slices (hist @ new) k (fs @ gs)"
  using assms
proof (induction hist k fs rule: slices.induct)
  case (2 hist k off bs fs)
  then have "unat off + length bs \<le> length hist" by (auto dest: slices_bound)
  with 2 show ?case by simp
next
  case (3 hist k off h blob fs)
  then have "unat off \<le> length hist" by (auto dest: slices_bound)
  with 3 show ?case by simp
qed (auto intro: true_data_grow)

definition heard :: "('p \<Rightarrow> pty_event list) \<Rightarrow> ('p, 's) daemon \<Rightarrow> 's client \<Rightarrow> byte list" where
  "heard log d c = (case cl_leaf c of None \<Rightarrow> []
     | Some i \<Rightarrow> (case the_leaf i d of None \<Rightarrow> [] | Some s \<Rightarrow> produced (log (ss_pty s))))"

definition told_so :: "('s \<Rightarrow> byte list) \<Rightarrow> byte list \<Rightarrow> 's client \<Rightarrow> bool" where
  "told_so sent hist c \<longleftrightarrow> (\<exists>fs. sent (cl_stream c) @ cl_outbox c = concat (map frame_bytes fs) \<and>
     list_all (\<lambda>f. frame_fits f \<and> speaks (cl_leaf c) (cl_protocol c) f) fs \<and>
     (length hist \<le> u64_max \<longrightarrow> slices hist 0 fs))"

definition wire_ok :: "('p \<Rightarrow> pty_event list) \<Rightarrow> ('s \<Rightarrow> byte list) \<Rightarrow> ('p, 's) daemon \<Rightarrow> bool" where
  "wire_ok log sent d \<longleftrightarrow>
     (\<forall>i s. the_leaf i d = Some s \<longrightarrow> session_ok log s \<and>
       list_all (sendable (produced (log (ss_pty s)))) (ss_outbound s)) \<and>
     (\<forall>c \<in> set (dm_clients d). told_so sent (heard log d c) c)"

lemma told_grow: "told_so sent hist c \<Longrightarrow> told_so sent (hist @ new) c"
  unfolding told_so_def using slices_grow by fastforce

text \<open>A client that is queued more frames.\<close>

lemma told_more:
  assumes "told_so sent hist c" "list_all (\<lambda>f. frame_fits f \<and> speaks leaf protocol f) gs"
    and "cl_leaf c = leaf \<or> cl_leaf c = None" "cl_protocol c = protocol \<or> cl_leaf c = None"
    and "\<And>j. length (hist @ new) \<le> u64_max \<Longrightarrow> j \<le> length hist \<Longrightarrow> slices (hist @ new) j gs"
    and "sent (cl_stream c') @ cl_outbox c' = sent (cl_stream c) @ cl_outbox c @ concat (map frame_bytes gs)"
      "cl_leaf c' = leaf" "cl_protocol c' = protocol"
  shows "told_so sent (hist @ new) c'"
proof -
  obtain fs where fs: "sent (cl_stream c) @ cl_outbox c = concat (map frame_bytes fs)"
    "list_all (\<lambda>f. frame_fits f \<and> speaks (cl_leaf c) (cl_protocol c) f) fs"
    "length hist \<le> u64_max \<longrightarrow> slices hist 0 fs"
    using assms(1) by (auto simp: told_so_def)
  have up: "speaks (cl_leaf c) (cl_protocol c) f \<Longrightarrow> speaks leaf protocol f" for f
    using assms(3,4) by (cases f) auto
  have all: "list_all (\<lambda>f. frame_fits f \<and> speaks leaf protocol f) (fs @ gs)"
    using fs(2) assms(2) up by (auto simp: list_all_iff)
  have "slices (hist @ new) 0 (fs @ gs)" if "length (hist @ new) \<le> u64_max"
    using that fs(3) assms(5) by (intro slices_append) auto
  with fs(1) all assms(6-8) show ?thesis
    unfolding told_so_def by (intro exI [of _ "fs @ gs"]) simp
qed

locale daemon_log = pty: pty_log P log + sock: sock_log W sent
  for P :: "'p pty_ops" and log and W :: "'s sock_ops" and sent
begin

lemma wire_leafwise:
  assumes "wire_ok log sent d" "leafwise (leaf_step log) d d'" "dm_clients d' = dm_clients d"
  shows "wire_ok log sent d'"
proof -
  have leaf: "rel_option (leaf_step log) (the_leaf i d) (the_leaf i d')" for i
    using assms(2) by (simp add: leafwise_def)
  have "\<exists>new. heard log d' c = heard log d c @ new" for c :: "'s client"
    using leaf [of "the (cl_leaf c)"]
    by (cases "the_leaf (the (cl_leaf c)) d"; cases "the_leaf (the (cl_leaf c)) d'")
      (auto simp: heard_def leaf_step_def split: option.split)
  then have "told_so sent (heard log d' c) c" if "c \<in> set (dm_clients d')" for c
    using that assms(1,3) told_grow by (metis wire_ok_def)
  moreover have "session_ok log s' \<and> list_all (sendable (produced (log (ss_pty s')))) (ss_outbound s')" if "the_leaf i d' = Some s'" for i s'
    using leaf [of i] that assms(1) by (auto simp: option_rel_Some2 wire_ok_def leaf_step_def)
  ultimately show ?thesis by (simp add: wire_ok_def)
qed

lemma heard_same [simp]:
  "heard log (d\<lparr>dm_clients := cs\<rparr>) c = heard log d c" "heard log (d\<lparr>dm_chip := e\<rparr>) c = heard log d c"
  by (simp_all add: heard_def cong: option.case_cong)

lemma wire_clients:
  assumes "wire_ok log sent d" "\<And>c. c \<in> set cs \<Longrightarrow> told_so sent (heard log d c) c"
  shows "wire_ok log sent (d\<lparr>dm_clients := cs\<rparr>)"
  using assms by (simp add: wire_ok_def)

lemma wire_chip [simp]: "wire_ok log sent (d\<lparr>dm_chip := e\<rparr>) = wire_ok log sent d"
  by (simp add: wire_ok_def)

lemma wire_set:
  assumes "wire_ok log sent d" "\<And>c. client_at ci d = Some c \<Longrightarrow> told_so sent (heard log d (f c)) (f c)"
  shows "wire_ok log sent (set_client ci f d)"
proof (cases "ci < length (dm_clients d)")
  case True
  with assms show ?thesis
    by (auto simp: set_client_def client_at_some wire_ok_def in_set_conv_nth nth_list_update
        intro!: wire_clients split: if_splits)
qed (use assms in \<open>simp add: set_client_def\<close>)

lemma wire_put:
  "wire_ok log sent d \<Longrightarrow> the_leaf i d = Some s \<Longrightarrow> leaf_step log s s' \<Longrightarrow> wire_ok log sent (put_session i s' d)"
  by (rule wire_leafwise) (auto intro: leafwise_put)

lemma wire_told: "wire_ok log sent d \<Longrightarrow> client_at ci d = Some c \<Longrightarrow> told_so sent (heard log d c) c"
  by (auto simp: wire_ok_def client_at_some)

lemma queue_frame_wire:
  assumes ok: "wire_ok log sent d" and r: "queue_frame ci f d = (r, d')"
    and f: "\<And>c. client_at ci d = Some c \<Longrightarrow> speaks (cl_leaf c) (cl_protocol c) f \<and>
      (\<forall>j \<le> length (heard log d c). length (heard log d c) \<le> u64_max \<longrightarrow> slices (heard log d c) j [f])"
  shows "wire_ok log sent d'"
proof (cases "client_at ci d = None \<or> (\<exists>e. encode f = Inl e)")
  case True
  with ok r show ?thesis by (auto simp: queue_frame_def split: option.splits sum.splits)
next
  case False
  then obtain c bs where c: "client_at ci d = Some c" "encode f = Inr bs" by (cases "encode f") auto
  have e: "frame_fits f" "bs = frame_bytes f" using c(2) by (simp_all add: encode_eq_Inr)
  have d': "d' = set_client ci (\<lambda>c. c\<lparr>cl_outbox := cl_outbox c @ bs\<rparr>) d" using r c by (simp add: queue_frame_def)
  have "told_so sent (heard log d c @ []) (c\<lparr>cl_outbox := cl_outbox c @ bs\<rparr>)"
    by (rule told_more [OF wire_told [OF ok c(1)], of "cl_leaf c" "cl_protocol c" "[f]"]) (use f [OF c(1)] e in auto)
  then show ?thesis unfolding d' using c by (intro wire_set [OF ok]) (simp add: heard_def)
qed

end

context daemon_log
begin

lemma heard_leaf: "cl_leaf c = Some i \<Longrightarrow> the_leaf i d = Some s \<Longrightarrow> heard log d c = produced (log (ss_pty s))"
  by (simp add: heard_def)

lemma heard_none: "cl_leaf c = None \<Longrightarrow> heard log d c = []"
  by (simp add: heard_def)

lemma wire_session: "wire_ok log sent d \<Longrightarrow> the_leaf i d = Some s \<Longrightarrow>
    session_ok log s \<and> list_all (sendable (produced (log (ss_pty s)))) (ss_outbound s)"
  by (simp add: wire_ok_def)

lemma delivered_word:
  "session_ok log s \<Longrightarrow> length (produced (log (ss_pty s))) \<le> u64_max \<Longrightarrow>
    unat (of_nat (ss_bytes_delivered s) :: u64) = length (produced (log (ss_pty s)))"
  by (simp add: session_ok_def unat_of_nat)

lemma true_history:
  assumes "session_ok log s" "length (produced (log (ss_pty s))) \<le> u64_max"
  shows "true_data (produced (log (ss_pty s))) (history s)"
proof -
  let ?h = "produced (log (ss_pty s))"
  have "?h = take (length ?h - RING_CAP) ?h @ keep_last RING_CAP ?h @ []" by (simp add: keep_last_def)
  then show ?thesis unfolding true_data_def history_ok [OF assms] by blast
qed

lemma emit_checkpoint_wire:
  assumes ok: "wire_ok log sent d" and r: "emit_checkpoint ci i d = Some (r, d')"
    and c: "\<And>c. client_at ci d = Some c \<Longrightarrow> cl_leaf c = Some i \<and> cl_protocol c = PROTOCOL_2"
  shows "wire_ok log sent d'"
  using r
proof (cases rule: emit_checkpoint_cases)
  case (3 e g s)
  show ?thesis
  proof (rule queue_frame_wire [OF _ 3(3) [symmetric]])
    fix c assume "client_at ci (d\<lparr>dm_chip := e\<rparr>) = Some c"
    then have "client_at ci d = Some c" using client_at_cong [of "d\<lparr>dm_chip := e\<rparr>" d ci] by simp
    with c heard_leaf [OF _ 3(1)] delivered_word [of s] wire_session [OF ok 3(1)] 3(2) history_ok [of log s]
    show "speaks (cl_leaf c) (cl_protocol c) (Checkpoint (word_of_nat (ss_bytes_delivered s)) (pod_hash g) (encode_pod_grid g)) \<and>
        (\<forall>j\<le>length (heard log (d\<lparr>dm_chip := e\<rparr>) c). length (heard log (d\<lparr>dm_chip := e\<rparr>) c) \<le> u64_max \<longrightarrow>
          slices (heard log (d\<lparr>dm_chip := e\<rparr>) c) j
            [Checkpoint (word_of_nat (ss_bytes_delivered s)) (pod_hash g) (encode_pod_grid g)])" by auto
  qed (use ok in simp)
qed (use ok in simp_all)

lemma forward_wire: "wire_ok log sent d \<Longrightarrow> wire_ok log sent (snd (forward P now grace i f d))"
  using wire_leafwise forward_leafwise [where R = "leaf_step log", OF pty.frame_step leaf_step_refl] forward_clients by blast

lemma take_seat_wire:
  assumes ok: "wire_ok log sent d" and c: "client_at ci d = Some c" "cl_leaf c = None"
  shows "wire_ok log sent (set_client ci (\<lambda>c. c\<lparr>cl_leaf := Some i, cl_observe := observe, cl_protocol := protocol\<rparr>) d)"
proof (rule wire_set [OF ok])
  fix x assume x: "client_at ci d = Some x"
  let ?c = "c\<lparr>cl_leaf := Some i, cl_observe := observe, cl_protocol := protocol\<rparr>"
  have "told_so sent ([] @ heard log d ?c) ?c"
    by (rule told_more [OF wire_told [OF ok c(1), unfolded heard_none [OF c(2)]], of "Some i" protocol "[]"])
      (use c(2) in auto)
  then show "told_so sent (heard log d (x\<lparr>cl_leaf := Some i, cl_observe := observe, cl_protocol := protocol\<rparr>))
      (x\<lparr>cl_leaf := Some i, cl_observe := observe, cl_protocol := protocol\<rparr>)" using x c by simp
qed

lemma dispatch_attach_wire:
  assumes ok: "wire_ok log sent d" and c: "client_at ci d = Some c" "cl_leaf c = None"
    and r: "dispatch_attach P now grace ci g sid protocol observe d = Some (r, d')"
  shows "wire_ok log sent d'"
proof -
  define d1 where "d1 = (\<lambda>i. snd (forward P now grace i (Attach g sid protocol observe) d))"
  define d2 where "d2 = (\<lambda>i. set_client ci (\<lambda>c. c\<lparr>cl_leaf := Some i, cl_observe := observe, cl_protocol := protocol\<rparr>) (d1 i))"
  have at: "client_at ci (d1 i) = Some c" for i
    unfolding d1_def client_at_cong [OF forward_clients] by (rule c(1))
  have ok2: "wire_ok log sent (d2 i)" for i
    unfolding d2_def using take_seat_wire [OF forward_wire [OF ok] at [unfolded d1_def] c(2)] by (simp add: d1_def)
  have seat: "client_at ci (d2 i) = Some x \<Longrightarrow> cl_leaf x = Some i \<and> cl_protocol x = protocol" for i x
    using at by (auto simp: d2_def client_at_def set_client_def split: if_splits)
  note d2' = d2_def [unfolded d1_def, THEN fun_cong]
  show ?thesis
    using c r d2'
  proof (cases rule: dispatch_attach_cases)
    case (refused why)
    show ?thesis by (rule queue_frame_wire [OF ok refused]) simp
  next
    case (checkpoint i s)
    show ?thesis by (rule emit_checkpoint_wire [OF ok2 checkpoint(4)]) (use seat checkpoint(3) in blast)
  next
    case (history i s bs t)
    note t = wire_session [OF ok2 history(5)] heard_leaf [OF _ history(5)]
    show ?thesis
    proof (rule queue_frame_wire [OF ok2 history(4)])
      fix x assume "client_at ci (d2 i) = Some x"
      with seat history(3,6) t true_history [of t]
      show "speaks (cl_leaf x) (cl_protocol x) (Data bs) \<and> (\<forall>j \<le> length (heard log (d2 i) x).
          length (heard log (d2 i) x) \<le> u64_max \<longrightarrow> slices (heard log (d2 i) x) j [Data bs])"
        by fastforce
    qed
  qed (use ok ok2 in simp_all)
qed

lemma drop_client_wire:
  assumes ok: "wire_ok log sent d"
  shows "wire_ok log sent (drop_client P ci d)"
proof (cases "client_at ci d")
  case None
  with ok show ?thesis by (simp add: drop_client_def)
next
  case (Some c)
  let ?cs = "take ci (dm_clients d) @ drop (Suc ci) (dm_clients d)"
  have "set ?cs \<subseteq> set (dm_clients d)" using set_take_subset set_drop_subset by fastforce
  then have cut: "wire_ok log sent (e\<lparr>dm_clients := ?cs\<rparr>)" if "wire_ok log sent e" "dm_clients e = dm_clients d" for e :: "('p, 's) daemon"
    using that by (intro wire_clients) (auto simp: wire_ok_def)
  have "wire_ok log sent (put_session i (if cl_observe c then release_observer s else detach P s) d)"
    if "the_leaf i d = Some s" for i s
    using wire_put [OF ok that] small_steps(1) [of log s] pty.detach_step by simp
  with cut [OF this] cut [OF ok] Some show ?thesis
    by (simp add: drop_client_def Let_def split: option.split)
qed

lemma dispatch_other_wire:
  assumes ok: "wire_ok log sent d"
  shows "wire_ok log sent (snd (dispatch_other P now grace ci f d))"
proof -
  have "told_so sent h (c\<lparr>cl_credit := n\<rparr>) = told_so sent h c" for h c n by (simp add: told_so_def)
  then have "wire_ok log sent (take_credit ci f d)"
    using ok by (auto simp: take_credit_def heard_def dest: wire_told [OF ok] intro!: wire_set split: frame.split)
  with ok drop_client_wire [OF ok] show ?thesis by (simp add: dispatch_other_def Let_def forward_wire)
qed

text \<open>Fanning out what a drain gave.\<close>

lemma fanout_clients_told:
  assumes "\<forall>c \<in> set cs. told_so sent (if cl_leaf c = Some i then hist else h c) c"
    and off: "length (hist @ bs) \<le> u64_max \<longrightarrow> off = length (hist @ bs)"
    and h: "\<And>c n out. h (c\<lparr>cl_credit := n, cl_outbox := out\<rparr>) = h c" "\<And>c n. h (c\<lparr>cl_credit := n\<rparr>) = h c"
  shows "\<forall>c \<in> set (snd (fanout_clients i off bs cs)). told_so sent (if cl_leaf c = Some i then hist @ bs else h c) c"
  using assms(1)
proof (induction cs)
  case (Cons c cs)
  have IH: "\<forall>c \<in> set (snd (fanout_clients i off bs cs)). told_so sent (if cl_leaf c = Some i then hist @ bs else h c) c"
    "\<forall>c \<in> set cs. told_so sent (if cl_leaf c = Some i then hist @ bs else h c) c"
    using Cons by (auto simp: told_grow)
  show ?case
  proof (cases "cl_leaf c = Some i \<and> live_chunk (cl_credit c) (length bs) \<noteq> None")
    case False
    with Cons.prems IH show ?thesis by (auto simp: Let_def split_beta told_grow split: option.split)
  next
    case True
    then have n: "live_chunk (cl_credit c) (length bs) = Some (length bs)" by (auto simp: live_chunk_def split: if_splits)
    let ?f = "live_frame (cl_protocol c) off bs (length bs)"
    have told: "told_so sent hist c" using Cons.prems True by simp
    then have credit: "told_so sent hist (c\<lparr>cl_credit := m\<rparr>)" for m by (simp add: told_so_def)
    have "told_so sent (hist @ bs) (c\<lparr>cl_credit := m, cl_outbox := cl_outbox c @ frame_bytes ?f\<rparr>)" if "frame_fits ?f" for m
    proof (rule told_more [OF told, of "Some i" "cl_protocol c" "[?f]"])
      fix j assume j: "length (hist @ bs) \<le> u64_max" "j \<le> length hist"
      then have "unat (of_nat (off - length bs) :: u64) = length hist" using off by (simp add: unat_of_nat)
      with j show "slices (hist @ bs) j [?f]" by (simp add: live_frame_def true_data_last)
    qed (use True that in \<open>auto simp: live_frame_def\<close>)
    with True n IH told_grow [OF credit] show ?thesis
      by (auto simp: Let_def split_beta encode_eq_Inr split: sum.split)
  qed
qed simp

lemma fanout_wire:
  assumes ok: "wire_ok log sent d" and s: "the_leaf i d = Some s"
    and dr: "drain_pty_at_most P mx s = (Inr (Some bs), s')"
  shows "wire_ok log sent (snd (fanout_pty_bytes i (ss_bytes_delivered s') bs (put_session i s' d)))"
proof -
  let ?hist = "produced (log (ss_pty s))"
  let ?d = "put_session i s' d"
  have step: "leaf_step log s s'" "produced (log (ss_pty s')) = ?hist @ bs" using pty.drain_cases [OF dr] by simp_all
  have ok': "wire_ok log sent ?d" by (rule wire_put [OF ok s step(1)])
  have "session_ok log s'" using wire_session [OF ok', of i] by simp
  then have off: "length (?hist @ bs) \<le> u64_max \<longrightarrow> ss_bytes_delivered s' = length (?hist @ bs)"
    using step(2) by (simp add: session_ok_def)
  have here: "heard log d c = (if cl_leaf c = Some i then ?hist else heard log d c)"
    "heard log ?d c = (if cl_leaf c = Some i then ?hist @ bs else heard log d c)" for c
    using s step(2) by (auto simp: heard_def split: option.split)
  have "\<forall>c \<in> set (dm_clients d). told_so sent (if cl_leaf c = Some i then ?hist else heard log d c) c"
    using ok unfolding here(1) [symmetric] by (simp add: wire_ok_def)
  then have "\<forall>c \<in> set (snd (fanout_clients i (ss_bytes_delivered s') bs (dm_clients d))).
      told_so sent (if cl_leaf c = Some i then ?hist @ bs else heard log d c) c"
    by (rule fanout_clients_told [OF _ off]) (simp_all add: heard_def)
  then have "\<forall>c \<in> set (snd (fanout_clients i (ss_bytes_delivered s') bs (dm_clients d))). told_so sent (heard log ?d c) c"
    by (simp only: here(2))
  with wire_clients [OF ok'] show ?thesis by (simp add: fanout_pty_bytes_def split_beta)
qed

end

sublocale daemon_log \<subseteq> wire: daemon_rel "\<lambda>d d'. wire_ok log sent d \<longrightarrow> wire_ok log sent d'" P
proof
  fix d d' d'' :: "('p, 's) daemon" and i s s' r mx bs n h e e' now
  assume s: "the_leaf i d = Some s"
  note put = wire_put [OF _ s]
  show "wire_ok log sent d \<longrightarrow> wire_ok log sent (put_session i (note_stalled_read s) d)"
    using put small_steps(2) by blast
  show "drain_pty_at_most P mx s = (r, s') \<Longrightarrow> \<forall>bs. r \<noteq> Inr (Some bs) \<Longrightarrow>
      wire_ok log sent d \<longrightarrow> wire_ok log sent (put_session i s' d)"
    using put pty.drain_cases by blast
  show "drain_pty_at_most P mx s = (Inr (Some bs), s') \<Longrightarrow> wire_ok log sent d \<longrightarrow>
      wire_ok log sent (snd (fanout_pty_bytes i (ss_bytes_delivered s') bs (put_session i s' d)))"
    using fanout_wire [OF _ s] by blast
  show "on_pty_readable P s = (n, s') \<Longrightarrow> wire_ok log sent d \<longrightarrow> wire_ok log sent (put_session i s' d)"
    using put pty.readable_step by (metis snd_conv)
  show "take_resync_history s = (h, s') \<Longrightarrow> wire_ok log sent d \<longrightarrow> wire_ok log sent (put_session i s' d)"
    using put small_steps(3) by (metis snd_conv)
  show "resync_from_history (history s) e = Some (Inr bs, e') \<Longrightarrow>
      wire_ok log sent d \<longrightarrow> wire_ok log sent (put_session i (enqueue_outbound (Data bs) s) d)"
  proof
    assume r: "resync_from_history (history s) e = Some (Inr bs, e')" and ok: "wire_ok log sent d"
    have "true_data (produced (log (ss_pty s))) bs" if "length (produced (log (ss_pty s))) \<le> u64_max"
      using r history_ok [of log s, OF _ that] wire_session [OF ok s] unfolding true_data_def by (metis append_Nil2)
    then show "wire_ok log sent (put_session i (enqueue_outbound (Data bs) s) d)"
      by (intro put [OF ok] enqueue_step) simp
  qed
  show "wire_ok log sent d \<longrightarrow> wire_ok log sent (d\<lparr>dm_kernel := snd (reap P now i (dm_kernel d))\<rparr>)"
    using wire_leafwise [OF _ leafwise_reap [where R = "leaf_step log", OF s pty.reap_step leaf_step_refl]] by simp
qed simp_all

section \<open>The flush\<close>

lemma queue_frames_told:
  assumes "queue_frames protocol fs out = (r, out')" "list_all (sendable hist) fs" "fs = [] \<or> leaf \<noteq> None"
  obtains gs where "out' = out @ concat (map frame_bytes gs)"
    "list_all (\<lambda>f. frame_fits f \<and> speaks leaf protocol f) gs"
    "\<And>j. length hist \<le> u64_max \<Longrightarrow> j \<le> length hist \<Longrightarrow> slices hist j gs"
proof -
  have "\<exists>gs. out' = out @ concat (map frame_bytes gs) \<and> list_all (\<lambda>f. frame_fits f \<and> speaks leaf protocol f) gs \<and>
      (\<forall>j. length hist \<le> u64_max \<longrightarrow> j \<le> length hist \<longrightarrow> slices hist j gs)"
    using assms
  proof (induction protocol fs out rule: queue_frames.induct)
    case (2 protocol f fs out)
    show ?case
    proof (cases "protocol = PROTOCOL_2 \<and> is_data f")
      case True
      with 2 show ?thesis by simp
    next
      case False
      show ?thesis
      proof (cases "encode f")
        case (Inl e)
        with 2 False show ?thesis by (intro exI [of _ "[]"]) auto
      next
        case (Inr bs)
        then have b: "frame_fits f" "bs = frame_bytes f" by (simp_all add: encode_eq_Inr)
        have "speaks leaf protocol f" "length hist \<le> u64_max \<Longrightarrow> slices hist j gs \<Longrightarrow> slices hist j (f # gs)" for j gs
          using 2 False by (cases f; simp)+
        moreover from 2 False Inr obtain gs where "out' = (out @ bs) @ concat (map frame_bytes gs)"
          "list_all (\<lambda>f. frame_fits f \<and> speaks leaf protocol f) gs"
          "\<forall>j. length hist \<le> u64_max \<longrightarrow> j \<le> length hist \<longrightarrow> slices hist j gs"
          by auto
        ultimately show ?thesis using b by (intro exI [of _ "f # gs"]) simp
      qed
    qed
  qed (intro exI [of _ "[]"], simp)
  with that show thesis by blast
qed

lemma pending_sendable:
  assumes "take_pending cl' (trim_unclaimed ids cl k) Map.empty = (pending, k')"
    and "\<And>i s. k_leaves k i = Some s \<Longrightarrow> list_all (sendable (h i)) (ss_outbound s)"
    and "pending i = Some fs"
  shows "list_all (sendable (h i)) fs"
proof -
  have "pending = fst (take_pending cl' (trim_unclaimed ids cl k) Map.empty)" using assms(1) by simp
  with assms(2,3) show ?thesis
    by (auto simp: take_pending_eq trim_unclaimed_eq keep_control_eq list_all_filter split: if_splits option.splits)
qed

context daemon_log
begin

lemma flush_clients_told:
  assumes "\<forall>c \<in> set cs. told_so sent (h c) c"
    and "\<And>c i fs. cl_leaf c = Some i \<Longrightarrow> pending i = Some fs \<Longrightarrow> list_all (sendable (h c)) fs"
    and h: "\<And>c w out. h (c\<lparr>cl_stream := w, cl_outbox := out\<rparr>) = h c" "\<And>c out. h (c\<lparr>cl_outbox := out\<rparr>) = h c"
  shows "\<forall>c \<in> set (snd (flush_clients W pending cs)). told_so sent (h c) c"
  using assms(1)
proof (induction cs)
  case (Cons c cs)
  let ?fs = "case cl_leaf c of None \<Rightarrow> [] | Some i \<Rightarrow> (case pending i of None \<Rightarrow> [] | Some fs \<Rightarrow> fs)"
  obtain r out where q: "queue_frames (cl_protocol c) ?fs (cl_outbox c) = (r, out)" by force
  have "list_all (sendable (h c)) ?fs" "?fs = [] \<or> cl_leaf c \<noteq> None" using assms(2) [of c] by (auto split: option.split)
  from queue_frames_told [OF q this] obtain gs where gs: "out = cl_outbox c @ concat (map frame_bytes gs)"
    "list_all (\<lambda>f. frame_fits f \<and> speaks (cl_leaf c) (cl_protocol c) f) gs"
    "\<And>j. length (h c) \<le> u64_max \<Longrightarrow> j \<le> length (h c) \<Longrightarrow> slices (h c) j gs"
    by blast
  have told: "told_so sent (h c) c'"
    if "sent (cl_stream c') @ cl_outbox c' = sent (cl_stream c) @ out" "cl_leaf c' = cl_leaf c" "cl_protocol c' = cl_protocol c" for c'
  proof -
    have "told_so sent (h c @ []) c'"
      by (rule told_more [of sent "h c" c "cl_leaf c" "cl_protocol c" gs]) (use Cons.prems gs that in auto)
    then show ?thesis by simp
  qed
  obtain v w out' where w: "write_outbox W (cl_stream c) out = (v, w, out')" by (metis prod_cases3)
  note t = told [of "c\<lparr>cl_outbox := out\<rparr>"] told [of "c\<lparr>cl_stream := w, cl_outbox := out'\<rparr>"]
  show ?case
    using Cons q w t sock.write_outbox_sent [OF w] h by (auto simp: Let_def split_beta split: sum.split)
qed simp

lemma flush_wire:
  assumes ok: "wire_ok log sent d"
  shows "wire_ok log sent (snd (flush_outbound W P ids d))"
proof -
  let ?cl = "claimed d"
  let ?k = "trim_unclaimed ids ?cl (dm_kernel d)"
  obtain pending k where t: "take_pending ?cl ?k Map.empty = (pending, k)" by force
  obtain r cs where f: "flush_clients W pending (dm_clients d) = (r, cs)" by force
  have steps: "rel_option (leaf_step log) (k_leaves (dm_kernel d) j) (k_leaves k j)" for j
    using t small_steps(4,5) leaf_step_refl leaf_step_trans by (rule flush_leaves)
  have kernel: "wire_ok log sent (d\<lparr>dm_kernel := k\<rparr>)"
    using steps by (intro wire_leafwise [OF ok]) (simp_all add: leafwise_kernel the_leaf_def)
  let ?h = "\<lambda>i. case the_leaf i d of None \<Rightarrow> [] | Some s \<Rightarrow> produced (log (ss_pty s))"
  have p: "pending i = Some fs \<Longrightarrow> list_all (sendable (?h i)) fs" for i fs
    using pending_sendable [OF t, of ?h] ok by (simp add: wire_ok_def the_leaf_def)
  have "list_all (sendable (heard log (d\<lparr>dm_kernel := k\<rparr>) c)) fs" if "cl_leaf c = Some i" "pending i = Some fs" for c :: "'s client" and i fs
  proof -
    have "heard log (d\<lparr>dm_kernel := k\<rparr>) c = (case k_leaves k i of None \<Rightarrow> [] | Some s \<Rightarrow> produced (log (ss_pty s)))"
      using that(1) by (simp add: heard_def the_leaf_def)
    moreover have "\<exists>new. (case k_leaves k i of None \<Rightarrow> [] | Some s \<Rightarrow> produced (log (ss_pty s))) = ?h i @ new"
      using steps [of i]
      by (cases "k_leaves (dm_kernel d) i"; cases "k_leaves k i") (auto simp: the_leaf_def leaf_step_def)
    ultimately obtain new where "heard log (d\<lparr>dm_kernel := k\<rparr>) c = ?h i @ new" by auto
    with all_sendable_grow [OF p [OF that(2)]] show ?thesis by simp
  qed
  moreover have "\<forall>c \<in> set (dm_clients d). told_so sent (heard log (d\<lparr>dm_kernel := k\<rparr>) c) c"
    using kernel by (simp add: wire_ok_def)
  ultimately have "\<forall>c \<in> set cs. told_so sent (heard log (d\<lparr>dm_kernel := k\<rparr>) c) c"
    using flush_clients_told [of "dm_clients d" "heard log (d\<lparr>dm_kernel := k\<rparr>)" pending] f
    by (simp add: heard_def)
  then have "wire_ok log sent (d\<lparr>dm_kernel := k, dm_clients := cs\<rparr>)"
    using wire_clients [OF kernel, of cs] by simp
  with t f drop_client_wire [OF this] show ?thesis
    by (simp add: flush_outbound_def Let_def split: sum.split option.split)
qed

lemma wire_gains:
  assumes "wire_ok log sent d" "dm_clients d' = dm_clients d" "gains spawned (k_leaves (dm_kernel d)) (k_leaves (dm_kernel d'))"
    "\<forall>s. spawned = Inr s \<longrightarrow> new_session (\<lambda>p. log p = []) s"
  shows "wire_ok log sent d'"
proof -
  have new: "session_ok log s \<and> list_all (sendable (produced (log (ss_pty s)))) (ss_outbound s) \<and> produced (log (ss_pty s)) = []"
    if "spawned = Inr s" for s
    using that assms(4) new_session_ok [of log "ss_pty s" "ss_size s" "ss_ephemeral s"]
    by (auto simp: new_session_def) (metis list.pred_inject(1) session_new_def session.select_convs)
  have leaf: "the_leaf j d' = the_leaf j d \<or> (\<exists>s. spawned = Inr s \<and> the_leaf j d = None \<and> the_leaf j d' = Some s)" for j
    using assms(3) by (auto simp: gains_def the_leaf_def)
  have "heard log d' c = heard log d c" for c :: "'s client"
    using leaf [of "the (cl_leaf c)"] new by (auto simp: heard_def split: option.split)
  with assms(1,2) leaf new show ?thesis by (auto simp: wire_ok_def) (metis option.sel option.distinct(1))+
qed

end

sublocale daemon_log \<subseteq> wiring: daemon_inv "wire_ok log sent" W P grace "\<lambda>p. log p = []" "\<lambda>w. sent w = []" for grace
proof
  fix d d' :: "('p, 's) daemon" and s sz w stream ci c f now r i ids spawned
  show "new_session (\<lambda>p. log p = []) s \<Longrightarrow> daemon_bind (Inr s) sz w = Some (Inr d) \<Longrightarrow> wire_ok log sent d"
  proof -
    assume a: "new_session (\<lambda>p. log p = []) s" "daemon_bind (Inr s) sz w = Some (Inr d)"
    have "wire_ok log sent (d\<lparr>dm_kernel := kernel_new\<rparr>)"
      using bind_gains [OF a(2)] by (simp add: wire_ok_def the_leaf_def kernel_new_def)
    from wire_gains [OF this, of d "Inr s"] bind_gains [OF a(2)] a(1) show ?thesis by (simp add: kernel_new_def)
  qed
  show "wire_ok log sent d \<Longrightarrow> sent stream = [] \<Longrightarrow> length (dm_clients d) < u32_max \<Longrightarrow>
      wire_ok log sent (d\<lparr>dm_clients := dm_clients d @ [client_new stream]\<rparr>)"
  proof -
    assume a: "wire_ok log sent d" "sent stream = []"
    have "told_so sent [] (client_new stream)"
      using a(2) unfolding told_so_def by (intro exI [of _ "[]"]) (simp add: client_new_def)
    with a(1) show ?thesis by (intro wire_clients) (auto simp: wire_ok_def heard_none client_new_def)
  qed
  show "wire_ok log sent d \<Longrightarrow> client_at ci d = Some c \<Longrightarrow> wire_ok log sent (set_client ci (\<lambda>_. snd (receive W c)) d)"
  proof -
    assume a: "wire_ok log sent d" "client_at ci d = Some c"
    have same: "cl_leaf (snd (receive W c)) = cl_leaf c" "cl_protocol (snd (receive W c)) = cl_protocol c"
      "cl_outbox (snd (receive W c)) = cl_outbox c"
      by (simp_all add: receive_def Let_def split_beta split: sock_in.split sum.split)
    have "told_so sent (heard log d (snd (receive W c))) (snd (receive W c))"
      using wire_told [OF a] by (simp add: told_so_def heard_def same sock.receive_sent)
    with a show ?thesis by (intro wire_set) auto
  qed
  show "wire_ok log sent d \<Longrightarrow> may_attach ci f d \<Longrightarrow> dispatch_frame P now grace ci f d = Some (r, d') \<Longrightarrow> wire_ok log sent d'"
  proof (cases f)
    case (Attach g sid pr ob)
    assume "wire_ok log sent d" "may_attach ci f d" "dispatch_frame P now grace ci f d = Some (r, d')"
    with Attach show ?thesis
      by (auto simp: may_attach_def split: option.splits intro: dispatch_attach_wire)
  qed (use dispatch_other_wire [of d now grace ci f] in \<open>auto simp: prod_eq_iff\<close>)
  show "wire_ok log sent d \<Longrightarrow> \<forall>s. spawned = Inr s \<longrightarrow> new_session (\<lambda>p. log p = []) s \<Longrightarrow>
      spawn_tab_leaf spawned d = Some (r, d') \<Longrightarrow> wire_ok log sent d'"
    using wire_gains spawn_tab_gains by blast
  show "wire_ok log sent d \<Longrightarrow> pump_leaf P i d = Some (r, d') \<Longrightarrow> wire_ok log sent d'"
    using wire.pump_leaf_rel by blast
  show "wire_ok log sent d \<Longrightarrow> maybe_resync ids d = Some (r, d') \<Longrightarrow> wire_ok log sent d'"
    using wire.maybe_resync_rel by blast
  show "wire_ok log sent d \<Longrightarrow> wire_ok log sent (snd (reap_all P now ids d))"
    using wire.reap_all_rel by blast
qed (auto intro: drop_client_wire flush_wire)

interpretation logged_daemon: daemon_log "logged P" snd "logged_sock W" snd
  for P :: "'p pty_ops" and W :: "'s sock_ops" ..

end
