(* ===== verification/Sock_Tape.thy ===== *)
theory Sock_Tape imports Daemon_Wire begin

text \<open>
  A socket with a tape: a log of the bytes it gave and of those it took, and what the code's loops on a
  socket do to it (\<open>sock_tape\<close>).
\<close>

section \<open>Sockets with a tape\<close>

definition taped_sock :: "'s sock_ops \<Rightarrow> ('s \<times> byte list \<times> byte list) sock_ops" where
  "taped_sock W =
     \<lparr>sock_read = (\<lambda>n (w, i, l). let (r, w) = sock_read W n w
        in (r, (w, i @ (case r of ReadBytes bs \<Rightarrow> take n bs | _ \<Rightarrow> []), l))),
      sock_write = (\<lambda>bs (w, i, l). let (r, w) = sock_write W bs w
        in (r, (w, i, l @ (case r of Wrote n \<Rightarrow> take n bs | _ \<Rightarrow> []))))\<rparr>"

section \<open>Writes\<close>

lemma eager_write:
  assumes "\<And>bs w. bs \<noteq> [] \<Longrightarrow> \<exists>n w'. sock_write W bs w = (Wrote n, w') \<and> 0 < n"
  shows "\<exists>w'. write_outbox W w out = (Inr (), w', [])"
proof (induction out arbitrary: w rule: measure_induct_rule [of length])
  case (less out)
  show ?case
  proof (cases "out = []")
    case False
    then obtain n w' where "sock_write W out w = (Wrote n, w')" "0 < n" using assms by blast
    with less.IH [of "drop n out" w'] False show ?thesis by (simp add: write_outbox.simps [of W w out])
  qed (simp add: write_outbox.simps)
qed

lemma write_outbox_shorter: "write_outbox W w out = (r, w', out') \<Longrightarrow> length out' \<le> length out"
proof (induction out arbitrary: w rule: measure_induct_rule [of length])
  case (less out)
  obtain got w1 where s: "sock_write W out w = (got, w1)" by force
  show ?case
  proof (cases "out = [] \<or> (\<forall>n. got \<noteq> Wrote n) \<or> got = Wrote 0")
    case True
    with less.prems s show ?thesis
      by (auto simp: write_outbox.simps [of W w out] split: if_splits sock_out.splits)
  next
    case False
    then obtain n where n: "got = Wrote n" "0 < n" "out \<noteq> []" by (cases got) auto
    then have "length out' \<le> length (drop n out)"
      using less.prems s by (intro less.IH) (simp_all add: write_outbox.simps [of W w out])
    then show ?thesis by simp
  qed
qed

section \<open>The tape\<close>

locale sock_tape = sock_log W sent for W :: "'s sock_ops" and sent +
  fixes received :: "'s \<Rightarrow> byte list"
  assumes received_read: "received (snd (sock_read W n w)) =
      received w @ (case fst (sock_read W n w) of ReadBytes bs \<Rightarrow> take n bs | _ \<Rightarrow> [])"
    and received_write: "received (snd (sock_write W bs w)) = received w"
begin

lemma write_outbox_received: "write_outbox W w out = (r, w', out') \<Longrightarrow> received w' = received w"
proof (induction out arbitrary: w rule: measure_induct_rule [of length])
  case (less out)
  obtain got w1 where s: "sock_write W out w = (got, w1)" by force
  then have w1: "received w1 = received w" using received_write [of out w] by simp
  show ?case
  proof (cases "out = [] \<or> (\<forall>n. got \<noteq> Wrote n) \<or> got = Wrote 0")
    case True
    with less.prems s w1 show ?thesis
      by (auto simp: write_outbox.simps [of W w out] split: if_splits sock_out.splits)
  next
    case False
    then obtain n where n: "got = Wrote n" "0 < n" "out \<noteq> []" by (cases got) auto
    then have "received w' = received w1"
      using less.prems s by (intro less.IH) (simp_all add: write_outbox.simps [of W w out])
    with w1 show ?thesis by simp
  qed
qed

end

interpretation taped_sock: sock_tape "taped_sock W" "\<lambda>w. snd (snd w)" "\<lambda>w. fst (snd w)" for W
  by unfold_locales (simp_all add: taped_sock_def split_beta Let_def)

end
