(* ===== verification/Host_Runs.thy ===== *)
theory Host_Runs imports Host_Client Sock_Tape Session_Flow begin

text \<open>
  The host over time. Its socket keeps a log of the bytes it gave and of those it took
  (\<open>sock_tape\<close>); \<open>host_ok\<close> says what the client is, given the frames it took from the daemon and
  those it sent: its emulator shows what was fed between the resizes, and credit follows delivery.
\<close>

section \<open>What the emulator is shown\<close>

datatype view_event = Fed "byte list" | Resized nat nat nat nat

fun watch :: "view_event list \<Rightarrow> engine \<Rightarrow> engine option" where
  "watch [] e = Some e"
| "watch (Fed bs # vs) e = engine_feed bs e \<bind> watch vs"
| "watch (Resized cs rs cell_w cell_h # vs) e = engine_resize cs rs cell_w cell_h e \<bind> (\<lambda>(r, e). watch vs e)"

lemma watch_append: "watch (us @ vs) e = watch us e \<bind> watch vs"
proof (induction us arbitrary: e)
  case (Cons u us)
  show ?case
  proof (cases u)
    case (Fed bs)
    then show ?thesis using Cons by (cases "engine_feed bs e") simp_all
  next
    case (Resized cs rs cw ch)
    then show ?thesis using Cons by (cases "engine_resize cs rs cw ch e") (simp_all add: split_beta)
  qed
qed simp

fun fed_bytes :: "view_event list \<Rightarrow> byte list" where
  "fed_bytes [] = []"
| "fed_bytes (Fed bs # vs) = bs @ fed_bytes vs"
| "fed_bytes (_ # vs) = fed_bytes vs"

fun sizes :: "view_event list \<Rightarrow> (nat \<times> nat) list" where
  "sizes [] = []"
| "sizes (Resized cs rs _ _ # vs) = (cs, rs) # sizes vs"
| "sizes (_ # vs) = sizes vs"

lemma view_append [simp]: "fed_bytes (us @ vs) = fed_bytes us @ fed_bytes vs" "sizes (us @ vs) = sizes us @ sizes vs"
  by (induction us rule: fed_bytes.induct) simp_all

definition same_view :: "engine \<Rightarrow> engine \<Rightarrow> bool" where
  "same_view e f \<longleftrightarrow> alike (eng_parser e) (eng_parser f) \<and> agree (eng_screen e) (eng_screen f)"

lemma same_view_feed: "same_view e f \<Longrightarrow> rel_option same_view (engine_feed bs e) (engine_feed bs f)"
  unfolding same_view_def engine_feed_def
  by (rule rel_option_bind_I [OF view.feed_rel]) auto

lemma agree_resize: "agree s t \<Longrightarrow> rel_option (rel_prod (=) agree) (screen_resize cs rs s) (screen_resize cs rs t)"
proof -
  assume a: "agree s t"
  note f = a [unfolded agree_def]
  show ?thesis
  proof (cases "resize_cells (s_cells s) (s_cols s) (s_rows s) cs rs")
    case (Some cells)
    show ?thesis
    proof (cases "s_saved_grid s")
      case None
      then show ?thesis using f Some by (simp add: screen_resize_def agree_def)
    next
      case (Some g)
      then show ?thesis
        using f \<open>resize_cells (s_cells s) (s_cols s) (s_rows s) cs rs = Some cells\<close>
        by (cases "resize_cells g (s_cols s) (s_rows s) cs rs") (simp_all add: screen_resize_def agree_def)
    qed
  qed (use f in \<open>simp add: screen_resize_def agree_def\<close>)
qed

lemma same_view_resize:
  "same_view e f \<Longrightarrow> rel_option (rel_prod (=) same_view) (engine_resize cs rs cw ch e) (engine_resize cs rs cw ch f)"
  unfolding same_view_def engine_resize_def
  by (rule rel_option_bind_I [OF agree_resize]) auto

lemma same_view_drained [simp]:
  "same_view e (snd (engine_take_replies f)) = same_view e f"
  "same_view e (snd (engine_take_scrolled_off f)) = same_view e f"
  "same_view e (snd (engine_snapshot f)) = same_view e f"
  by (simp_all add: same_view_def agree_def engine_take_replies_def take_replies_def engine_take_scrolled_off_def
      take_scrolled_off_def engine_snapshot_def snapshot_def Let_def split_beta)

definition mirrors :: "engine \<Rightarrow> view_event list \<Rightarrow> engine \<Rightarrow> bool" where
  "mirrors e0 vs chip \<longleftrightarrow> (\<exists>e. watch vs e0 = Some e \<and> same_view e chip)"

lemma mirrors_feed: "mirrors e0 vs chip \<Longrightarrow> engine_feed bs chip = Some chip' \<Longrightarrow> mirrors e0 (vs @ [Fed bs]) chip'"
proof -
  assume a: "mirrors e0 vs chip" "engine_feed bs chip = Some chip'"
  then obtain e where e: "watch vs e0 = Some e" "same_view e chip" by (auto simp: mirrors_def)
  from same_view_feed [OF e(2), of bs] a(2) obtain e' where "engine_feed bs e = Some e'" "same_view e' chip'"
    by (auto simp: option_rel_Some2)
  with e show ?thesis by (simp add: mirrors_def watch_append)
qed

lemma mirrors_resize:
  "mirrors e0 vs chip \<Longrightarrow> engine_resize cs rs cw ch chip = Some (r, chip') \<Longrightarrow>
    mirrors e0 (vs @ [Resized cs rs cw ch]) chip'"
proof -
  assume a: "mirrors e0 vs chip" "engine_resize cs rs cw ch chip = Some (r, chip')"
  then obtain e where e: "watch vs e0 = Some e" "same_view e chip" by (auto simp: mirrors_def)
  from same_view_resize [OF e(2), of cs rs cw ch] a(2) obtain e' where
    "engine_resize cs rs cw ch e = Some (r, e')" "same_view e' chip'" by (auto simp: option_rel_Some2)
  with e show ?thesis by (simp add: mirrors_def watch_append)
qed

section \<open>What the client has been told and has said\<close>

fun credit_of :: "frame \<Rightarrow> nat" where
  "credit_of (Credit n) = unat n"
| "credit_of _ = 0"

fun size_of :: "frame \<Rightarrow> (nat \<times> nat) list" where
  "size_of (Resize cs rs _ _) = [(unat cs, unat rs)]"
| "size_of _ = []"

fun exit_of :: "frame \<Rightarrow> u32 option" where
  "exit_of (Exit status) = Some status"
| "exit_of _ = None"

fun client_frame :: "frame \<Rightarrow> bool" where
  "client_frame (Data _) \<longleftrightarrow> True"
| "client_frame (Credit _) \<longleftrightarrow> True"
| "client_frame (Resize _ _ _ _) \<longleftrightarrow> True"
| "client_frame _ \<longleftrightarrow> False"

definition credit_granted :: "frame list \<Rightarrow> nat" where "credit_granted gs = sum_list (map credit_of gs)"
definition asked :: "frame list \<Rightarrow> (nat \<times> nat) list" where "asked gs = concat (map size_of gs)"

definition last_exit :: "frame list \<Rightarrow> u32 option" where
  "last_exit fs = (case rev (List.map_filter exit_of fs) of [] \<Rightarrow> None | s # _ \<Rightarrow> Some s)"

definition said :: "u64 option \<Rightarrow> frame list \<Rightarrow> bool" where
  "said sid gs \<longleftrightarrow> (\<exists>more. gs = attach_frame 1 sid # Credit (of_nat CREDIT_WINDOW) # more \<and> list_all client_frame more)"

text \<open>
  The client after the frames \<open>fs\<close>, of which the last \<open>fed\<close> bytes of data are not yet paid for, and
  after sending \<open>gs\<close>.
\<close>

definition host_facts ::
    "('s \<Rightarrow> byte list) \<Rightarrow> engine \<Rightarrow> u64 option \<Rightarrow> nat \<Rightarrow> frame list \<Rightarrow> frame list \<Rightarrow> view_event list \<Rightarrow> 's host \<Rightarrow> bool"
where
  "host_facts sent e0 sid fed fs gs vs h \<longleftrightarrow>
     sent (hc_stream h) @ hc_outbox h = concat (map frame_bytes gs) \<and> said sid gs \<and>
     (length (payload fs) \<le> u32_max \<longrightarrow>
        credit_granted gs + fed = CREDIT_WINDOW + length (payload fs) \<and> hc_outstanding_credit h = credit_granted gs) \<and>
     mirrors e0 vs (hc_chip h) \<and> fed_bytes vs = payload fs \<and> sizes vs = asked gs \<and>
     (\<forall>r. Refused r \<notin> set fs) \<and> (hc_alive h \<longleftrightarrow> (\<forall>s. Exit s \<notin> set fs)) \<and> hc_exit_status h = last_exit fs"

definition host_ok :: "('s \<Rightarrow> byte list) \<Rightarrow> engine \<Rightarrow> u64 option \<Rightarrow> nat \<Rightarrow> frame list \<Rightarrow> 's host \<Rightarrow> bool" where
  "host_ok sent e0 sid fed fs h \<longleftrightarrow> (\<exists>gs vs. host_facts sent e0 sid fed fs gs vs h)"

lemma host_ok_cong:
  "hc_stream h' = hc_stream h \<Longrightarrow> hc_outbox h' = hc_outbox h \<Longrightarrow> hc_outstanding_credit h' = hc_outstanding_credit h \<Longrightarrow>
    hc_chip h' = hc_chip h \<Longrightarrow> hc_alive h' = hc_alive h \<Longrightarrow> hc_exit_status h' = hc_exit_status h \<Longrightarrow>
    host_ok sent e0 sid fed fs h' = host_ok sent e0 sid fed fs h"
  by (simp add: host_ok_def host_facts_def)

lemma said_more: "said sid gs \<Longrightarrow> client_frame f \<Longrightarrow> said sid (gs @ [f])"
  by (auto simp: said_def)

lemma granted_simps [simp]: "credit_granted (gs @ [f]) = credit_granted gs + credit_of f" "asked (gs @ [f]) = asked gs @ size_of f"
  by (simp_all add: credit_granted_def asked_def)

lemma last_exit_simps [simp]:
  "last_exit [] = None" "last_exit (fs @ [f]) = (case exit_of f of None \<Rightarrow> last_exit fs | Some s \<Rightarrow> Some s)"
  by (auto simp: last_exit_def map_filter_def split: option.split)

text \<open>Nothing but the connection and the counters changes when a frame is sent.\<close>

definition same_client :: "'s host \<Rightarrow> 's host \<Rightarrow> bool" where
  "same_client h h' \<longleftrightarrow>
     h' = h\<lparr>hc_stream := hc_stream h', hc_outbox := hc_outbox h', hc_violations := hc_violations h'\<rparr>"

lemma same_client_fields:
  assumes "same_client h h'"
  shows "hc_decoder h' = hc_decoder h" "hc_chip h' = hc_chip h" "hc_alive h' = hc_alive h"
    "hc_exit_status h' = hc_exit_status h" "hc_outstanding_credit h' = hc_outstanding_credit h"
    "hc_history_rows h' = hc_history_rows h" "hc_scroll_offset h' = hc_scroll_offset h"
    "hc_cached h' = hc_cached h" "hc_live_cached h' = hc_live_cached h"
  by (subst assms [unfolded same_client_def], simp)+

text \<open>One round of the read loop: the end of the pump, or the next round.\<close>

definition host_round :: "'s sock_ops \<Rightarrow> nat \<Rightarrow> 's host \<Rightarrow> (('s, nat) hrun + nat \<times> 's host) option" where
  "host_round W fed h =
     (let (got, stream) = sock_read W PUMP_CHUNK (hc_stream h); h = h\<lparr>hc_stream := stream\<rparr>
      in case got of
           ReadWouldBlock \<Rightarrow> Some (Inl (Inr fed, h))
         | ReadFailed \<Rightarrow> Some (Inl (Inl HIo, h))
         | ReadBytes bs \<Rightarrow>
             if take PUMP_CHUNK bs = [] then Some (Inl (Inr fed, h))
             else let (r, buf) = decoder_push (hc_decoder h) (take PUMP_CHUNK bs); h = h\<lparr>hc_decoder := buf\<rparr>
             in case r of
                  Inl e \<Rightarrow> Some (Inl (Inl (HAttach e), h))
                | Inr frames \<Rightarrow>
                    pump_frames W frames fed h \<bind>
                      (\<lambda>(r, h). Some (case r of Inl e \<Rightarrow> Inl (Inl e, h) | Inr fed \<Rightarrow> Inr (fed, h))))"

lemma host_rounds:
  "pump_loop W fed h = host_round W fed h \<bind> (\<lambda>x. case x of Inl y \<Rightarrow> Some y | Inr (fed, h) \<Rightarrow> pump_loop W fed h)"
  by (subst pump_loop.simps)
    (auto simp: host_round_def Let_def bind_assoc split: prod.split sock_in.split sum.split intro!: arg_cong2 [where f = Option.bind])

lemma pump_loop_induct:
  assumes r: "pump_loop W fed h = Some x"
    and stops: "\<And>fed h y. host_round W fed h = Some (Inl y) \<Longrightarrow> R fed h y"
    and rounds: "\<And>fed h fed' h' y. host_round W fed h = Some (Inr (fed', h')) \<Longrightarrow> R fed' h' y \<Longrightarrow> R fed h y"
  shows "R fed h x"
proof -
  have "W' = W \<longrightarrow> R fed h x" if r: "pump_loop W' fed h = Some x" for W' fed h x
  proof (rule pump_loop.raw_induct [where P = "\<lambda>W' fed h x. W' = W \<longrightarrow> R fed h x", OF _ r], goal_cases)
    case (1 loop W' fed h x)
    have "host_round W' fed h \<bind> (\<lambda>x. case x of Inl y \<Rightarrow> Some y | Inr (fed, h) \<Rightarrow> loop W' fed h) = Some x"
      unfolding 1(2) [symmetric]
      by (auto simp: host_round_def Let_def bind_assoc split: prod.split sock_in.split sum.split intro!: arg_cong2 [where f = Option.bind])
    then obtain y where y: "host_round W' fed h = Some y" "(case y of Inl y \<Rightarrow> Some y | Inr (fed, h) \<Rightarrow> loop W' fed h) = Some x"
      by (auto simp: bind_eq_Some_conv)
    show ?case
    proof
      assume W: "W' = W"
      show "R fed h x"
      proof (cases y)
        case (Inl z)
        then show ?thesis using y stops W by simp
      next
        case (Inr z)
        obtain fed1 h1 where z: "z = (fed1, h1)" by (cases z)
        then have "loop W' fed1 h1 = Some x" using y(2) Inr by simp
        then show ?thesis using 1(1) rounds y(1) Inr z W by blast
      qed
    qed
  qed
  with r show ?thesis by blast
qed

context stream_decoder begin

lemma loop_prepend:
  "loop buf (fs @ xs) = (case loop buf xs of (Inl e, r) \<Rightarrow> (Inl e, r) | (Inr gs, r) \<Rightarrow> (Inr (fs @ gs), r))"
proof (induction "length buf" arbitrary: buf xs rule: less_induct)
  case less
  show ?case
  proof (cases "step buf")
    case (Got f b)
    then show ?thesis
      using less.hyps [OF step_shrinks [OF Got], of "xs @ [f]"] by (simp add: loop_unfold [of buf])
  qed (simp_all add: loop_unfold [of buf])
qed

lemma loop_acc: "loop buf [] = (Inr gs, rest) \<Longrightarrow> loop buf fs = (Inr (fs @ gs), rest)"
  using loop_prepend [of buf fs "[]"] by simp

end

lemma not_Inl: "(\<forall>x. a \<noteq> Inl x) \<longleftrightarrow> (\<exists>y. a = Inr y)"
  by (cases a) auto

text \<open>The steps of \<open>pump_data\<close> that succeeds.\<close>

lemma pump_data_steps:
  assumes "pump_data W bs fed h = Some (Inr fed', h')"
  obtains chip rows chip1 replies chip2 hist h1 h2 where "engine_feed bs (hc_chip h) = Some chip"
    "engine_take_scrolled_off chip = (rows, chip1)" "engine_take_replies chip1 = (replies, chip2)"
    "hist = ingest_scrolled (hc_history_rows h) rows"
    "h1 = h\<lparr>hc_chip := chip2, hc_history_rows := hist,
      hc_scroll_offset := clamp_offset (length hist) (hc_surface_rows h) (hc_scroll_offset h)\<rparr>"
    "(if replies \<noteq> [] then host_send W (Data replies) h1 else (Inr (), h1)) = (Inr (), h2)" "fed' = fed + length bs"
    "h' = h2\<lparr>hc_modes := engine_mode_state (hc_chip h2), hc_cached := None, hc_live_cached := None\<rparr>"
proof -
  obtain chip where chip: "engine_feed bs (hc_chip h) = Some chip"
    using assms by (cases "engine_feed bs (hc_chip h)") (auto simp: pump_data_def)
  obtain rows chip1 where c1: "engine_take_scrolled_off chip = (rows, chip1)" by force
  obtain replies chip2 where c2: "engine_take_replies chip1 = (replies, chip2)" by force
  define hist where "hist = ingest_scrolled (hc_history_rows h) rows"
  define h1 where "h1 = h\<lparr>hc_chip := chip2, hc_history_rows := hist,
    hc_scroll_offset := clamp_offset (length hist) (hc_surface_rows h) (hc_scroll_offset h)\<rparr>"
  define step where "step = (if replies \<noteq> [] then host_send W (Data replies) h1 else (Inr (), h1))"
  have "pump_data W bs fed h = Some (case step of
      (Inl e, h) \<Rightarrow> (Inl e, h)
    | (Inr _, h) \<Rightarrow> (Inr (fed + length bs), h\<lparr>hc_modes := engine_mode_state (hc_chip h), hc_cached := None, hc_live_cached := None\<rparr>))"
    unfolding step_def h1_def hist_def
    by (simp add: pump_data_def chip c1 c2 split_beta Let_def split: sum.split)
  with assms obtain h2 where "step = (Inr (), h2)" "fed' = fed + length bs"
    "h' = h2\<lparr>hc_modes := engine_mode_state (hc_chip h2), hc_cached := None, hc_live_cached := None\<rparr>"
    by (auto split: prod.splits sum.splits)
  with that [OF chip c1 c2 hist_def h1_def] show thesis unfolding step_def .
qed

locale host_link = sock_tape W sent received for W :: "'s sock_ops" and sent received
begin

lemma flush_said:
  assumes "flush_outbox W h = (r, h')"
  shows "same_client h h'" "sent (hc_stream h') @ hc_outbox h' = sent (hc_stream h) @ hc_outbox h"
    "received (hc_stream h') = received (hc_stream h)"
proof -
  obtain q w out where "write_outbox W (hc_stream h) (hc_outbox h) = (q, w, out)" by (cases "write_outbox W (hc_stream h) (hc_outbox h)")
  with assms write_outbox_sent [OF this] write_outbox_received [OF this]
  show "same_client h h'" "sent (hc_stream h') @ hc_outbox h' = sent (hc_stream h) @ hc_outbox h"
    "received (hc_stream h') = received (hc_stream h)"
    by (auto simp: flush_outbox_def same_client_def Let_def split: sum.splits)
qed

lemma send_said:
  assumes "host_send W f h = (Inr u, h')"
  shows "same_client h h'" "sent (hc_stream h') @ hc_outbox h' = sent (hc_stream h) @ hc_outbox h @ frame_bytes f"
    "received (hc_stream h') = received (hc_stream h)"
proof -
  define h1 where "h1 = (if hc_auditing h \<and> \<not> is_warm_path f then h\<lparr>hc_violations := hc_violations h + 1\<rparr> else h)"
  obtain bs where bs: "encode f = Inr bs" "flush_outbox W (h1\<lparr>hc_outbox := hc_outbox h1 @ bs\<rparr>) = (Inr u, h')"
    using assms by (auto simp: host_send_def h1_def [symmetric] Let_def split: sum.splits)
  note fl = flush_said [OF bs(2)]
  have b: "bs = frame_bytes f" using bs(1) by (simp add: encode_eq_Inr)
  show "same_client h h'" using fl(1) by (simp add: same_client_def h1_def split: if_splits)
  show "sent (hc_stream h') @ hc_outbox h' = sent (hc_stream h) @ hc_outbox h @ frame_bytes f"
    "received (hc_stream h') = received (hc_stream h)"
    using fl(2,3) by (simp_all add: b h1_def)
qed

lemma send_ok:
  assumes "host_ok sent e0 sid fed fs h" "host_send W f h = (Inr u, h')" "client_frame f" "credit_of f = 0" "size_of f = []"
  shows "host_ok sent e0 sid fed fs h'"
proof -
  note s = send_said [OF assms(2)]
  from assms(1) obtain gs vs where "host_facts sent e0 sid fed fs gs vs h" by (auto simp: host_ok_def)
  note g = this [unfolded host_facts_def]
  with s(2) said_more assms(3-5) same_client_fields [OF s(1)] show ?thesis
    unfolding host_ok_def host_facts_def by (intro exI [of _ "gs @ [f]"] exI [of _ vs]) simp
qed

lemma grant_ok:
  assumes "host_ok sent e0 sid fed fs h" "grant_credit W (min fed u32_max) h = (Inr u, h')" "fed \<le> length (payload fs)"
  shows "host_ok sent e0 sid 0 fs h'"
proof -
  let ?n = "min fed u32_max"
  note s = send_said [OF assms(2) [unfolded grant_credit_def]]
  from assms(1) obtain gs vs where "host_facts sent e0 sid fed fs gs vs h" by (auto simp: host_ok_def)
  note g = this [unfolded host_facts_def]
  have n: "unat (of_nat ?n :: u32) = ?n" by (simp add: unat_of_nat min_def)
  have c: "credit_granted (gs @ [Credit (of_nat ?n)]) + 0 = CREDIT_WINDOW + length (payload fs) \<and>
      hc_outstanding_credit h' = credit_granted (gs @ [Credit (of_nat ?n)])" if "length (payload fs) \<le> u32_max"
    using that g assms(3) n same_client_fields(5) [OF s(1)] by (simp add: sat_add_def CREDIT_WINDOW_def)
  from g s(2) c said_more same_client_fields [OF s(1)] show ?thesis
    unfolding host_ok_def host_facts_def by (intro exI [of _ "gs @ [Credit (of_nat ?n)]"] exI [of _ vs]) simp
qed

text \<open>One frame, and the frames of one read.\<close>

lemma pump_data_ok:
  assumes "host_ok sent e0 sid fed fs h" "pump_data W bs fed h = Some (Inr fed', h')"
  shows "host_ok sent e0 sid fed' (fs @ [Data bs]) h'" "fed' = fed + length bs"
    "received (hc_stream h') = received (hc_stream h)" "hc_decoder h' = hc_decoder h"
proof -
  obtain chip rows chip1 replies chip2 hist h1 h2 where chip: "engine_feed bs (hc_chip h) = Some chip"
    and c1: "engine_take_scrolled_off chip = (rows, chip1)" and c2: "engine_take_replies chip1 = (replies, chip2)"
    and h1_def: "h1 = h\<lparr>hc_chip := chip2, hc_history_rows := hist,
      hc_scroll_offset := clamp_offset (length hist) (hc_surface_rows h) (hc_scroll_offset h)\<rparr>"
    and h2: "(if replies \<noteq> [] then host_send W (Data replies) h1 else (Inr (), h1)) = (Inr (), h2)" and fed: "fed' = fed + length bs"
    and h': "h' = h2\<lparr>hc_modes := engine_mode_state (hc_chip h2), hc_cached := None, hc_live_cached := None\<rparr>"
    using pump_data_steps [OF assms(2)] .
  have chip1_def: "chip1 = snd (engine_take_scrolled_off chip)" and chip2_def: "chip2 = snd (engine_take_replies chip1)"
    by (simp_all add: c1 c2)
  from assms(1) obtain gs vs where "host_facts sent e0 sid fed fs gs vs h" by (auto simp: host_ok_def)
  note g = this [unfolded host_facts_def]
  have "mirrors e0 (vs @ [Fed bs]) chip2"
    using mirrors_feed [OF _ chip] g by (simp add: mirrors_def chip2_def chip1_def)
  with g have ok1: "host_ok sent e0 sid fed' (fs @ [Data bs]) h1"
    unfolding host_ok_def host_facts_def by (intro exI [of _ gs] exI [of _ "vs @ [Fed bs]"]) (simp add: h1_def fed)
  have ok2: "host_ok sent e0 sid fed' (fs @ [Data bs]) h2"
    using h2 ok1 send_ok [OF ok1, of "Data replies"] by (auto split: if_splits)
  then show "host_ok sent e0 sid fed' (fs @ [Data bs]) h'" unfolding h' by (subst host_ok_cong) simp_all
  show "fed' = fed + length bs" by (rule fed)
  show "received (hc_stream h') = received (hc_stream h)" "hc_decoder h' = hc_decoder h"
    using h2 send_said(1,3) [of "Data replies" h1] same_client_fields(1) [of h1 h2]
    by (auto simp: h' h1_def split: if_splits)
qed

lemma quiet_ok:
  assumes "host_ok sent e0 sid fed fs h" "data_of f = []" "\<forall>r. f \<noteq> Refused r"
    and "hc_stream h' = hc_stream h" "hc_outbox h' = hc_outbox h" "hc_outstanding_credit h' = hc_outstanding_credit h"
      "hc_chip h' = hc_chip h" "hc_alive h' = (hc_alive h \<and> exit_of f = None)"
      "hc_exit_status h' = (case exit_of f of None \<Rightarrow> hc_exit_status h | Some s \<Rightarrow> Some s)"
  shows "host_ok sent e0 sid fed (fs @ [f]) h'"
proof -
  from assms(1) obtain gs vs where "host_facts sent e0 sid fed fs gs vs h" by (auto simp: host_ok_def)
  note g = this [unfolded host_facts_def]
  have "exit_of f = None \<longleftrightarrow> (\<forall>s. f \<noteq> Exit s)" by (cases f) auto
  then have "hc_alive h' \<longleftrightarrow> (\<forall>s. Exit s \<notin> set (fs @ [f]))" using g assms(8) by auto
  moreover have "\<forall>r. Refused r \<notin> set (fs @ [f])" using g assms(3) by auto
  moreover have "hc_exit_status h' = last_exit (fs @ [f])" using g assms(9) by (simp split: option.split)
  ultimately show ?thesis
    using g assms(2,4-7) unfolding host_ok_def host_facts_def by (intro exI [of _ gs] exI [of _ vs]) simp
qed

lemma note_violation_fields [simp]:
  "hc_stream (note_violation h) = hc_stream h" "hc_outbox (note_violation h) = hc_outbox h"
  "hc_outstanding_credit (note_violation h) = hc_outstanding_credit h" "hc_chip (note_violation h) = hc_chip h"
  "hc_alive (note_violation h) = hc_alive h" "hc_exit_status (note_violation h) = hc_exit_status h"
  "hc_decoder (note_violation h) = hc_decoder h"
  by (simp_all add: note_violation_def)

lemma pump_frame_ok:
  assumes "host_ok sent e0 sid fed fs h" "pump_frame W f fed h = Some (Inr fed', h')"
  shows "host_ok sent e0 sid fed' (fs @ [f]) h' \<and> fed' = fed + length (payload [f]) \<and>
    received (hc_stream h') = received (hc_stream h) \<and> hc_decoder h' = hc_decoder h"
proof (cases "\<exists>bs. f = Data bs")
  case True
  then obtain bs where f: "f = Data bs" by blast
  then have "pump_data W bs fed h = Some (Inr fed', h')" using assms(2) by simp
  from pump_data_ok [OF assms(1) this] show ?thesis by (simp add: f)
next
  case False
  let ?k = "case exit_of f of None \<Rightarrow> h | Some s \<Rightarrow> h\<lparr>hc_alive := False, hc_exit_status := Some s\<rparr>"
  have h': "fed' = fed" "h' = note_violation ?k" "\<forall>r. f \<noteq> Refused r" "data_of f = []"
    using False assms(2) by (cases f; simp)+
  have "host_ok sent e0 sid fed (fs @ [f]) h'"
    by (rule quiet_ok [OF assms(1) h'(4,3)]) (simp_all add: h'(2) split: option.split)
  then show ?thesis by (simp add: h' split: option.split)
qed

lemma pump_frames_ok:
  assumes "host_ok sent e0 sid fed fs h" "pump_frames W gs fed h = Some (Inr fed', h')"
  shows "host_ok sent e0 sid fed' (fs @ gs) h' \<and> fed' = fed + length (payload gs) \<and>
    received (hc_stream h') = received (hc_stream h) \<and> hc_decoder h' = hc_decoder h"
  using assms
proof (induction gs arbitrary: fed fs h)
  case (Cons g gs)
  obtain fed1 h1 where s: "pump_frame W g fed h = Some (Inr fed1, h1)" "pump_frames W gs fed1 h1 = Some (Inr fed', h')"
    using Cons.prems(2) by (auto simp: bind_eq_Some_conv not_Inl split: sum.splits)
  from pump_frame_ok [OF Cons.prems(1) s(1)] Cons.IH [OF _ s(2)] show ?case by fastforce
qed simp

text \<open>The read loop keeps pace with the tape.\<close>

definition taken :: "frame list \<Rightarrow> 's host \<Rightarrow> bool" where
  "taken fs h \<longleftrightarrow> decoder_push [] (received (hc_stream h)) = (Inr fs, hc_decoder h)"

lemma host_round_ok:
  assumes "host_ok sent e0 sid fed fs h" "taken fs h" "fed \<le> length (payload fs)"
  shows "host_round W fed h = Some (Inl (Inr fed', h')) \<Longrightarrow> host_ok sent e0 sid fed' fs h' \<and> taken fs h' \<and> fed' = fed"
    and "host_round W fed h = Some (Inr (fed', h')) \<Longrightarrow>
      \<exists>gs. host_ok sent e0 sid fed' (fs @ gs) h' \<and> taken (fs @ gs) h' \<and> fed' \<le> length (payload (fs @ gs))"
proof -
  obtain got w where rd: "sock_read W PUMP_CHUNK (hc_stream h) = (got, w)" by force
  have rec: "received w = received (hc_stream h) @ (case got of ReadBytes bs \<Rightarrow> take PUMP_CHUNK bs | _ \<Rightarrow> [])"
    "sent w = sent (hc_stream h)"
    using received_read [of PUMP_CHUNK "hc_stream h"] sent_read [of PUMP_CHUNK "hc_stream h"] rd by simp_all
  have ok: "host_ok sent e0 sid fed fs (h\<lparr>hc_stream := w, hc_decoder := buf\<rparr>)" "host_ok sent e0 sid fed fs (h\<lparr>hc_stream := w\<rparr>)" for buf
    using assms(1) rec(2) by (simp_all add: host_ok_def host_facts_def)
  show "host_ok sent e0 sid fed' fs h' \<and> taken fs h' \<and> fed' = fed" if "host_round W fed h = Some (Inl (Inr fed', h'))"
    using that rd rec ok(2) assms(2)
    by (cases got) (auto simp: host_round_def taken_def Let_def bind_eq_Some_conv split_beta not_Inl split: if_splits sum.splits)
  show "\<exists>gs. host_ok sent e0 sid fed' (fs @ gs) h' \<and> taken (fs @ gs) h' \<and> fed' \<le> length (payload (fs @ gs))"
    if r: "host_round W fed h = Some (Inr (fed', h'))"
  proof -
    from r rd obtain bs where bs: "got = ReadBytes bs" "take PUMP_CHUNK bs \<noteq> []"
      by (cases got) (auto simp: host_round_def Let_def split: if_splits)
    obtain q buf where q: "decoder_push (hc_decoder h) (take PUMP_CHUNK bs) = (q, buf)" by force
    from r rd bs q obtain gs where b: "got = ReadBytes bs" "decoder_push (hc_decoder h) (take PUMP_CHUNK bs) = (Inr gs, buf)"
      "pump_frames W gs fed (h\<lparr>hc_stream := w, hc_decoder := buf\<rparr>) = Some (Inr fed', h')"
      by (cases q) (auto simp: host_round_def Let_def bind_eq_Some_conv not_Inl split: sum.splits)
    from pump_frames_ok [OF ok(1) b(3)] have f: "host_ok sent e0 sid fed' (fs @ gs) h'" "fed' = fed + length (payload gs)"
      "received (hc_stream h') = received w" "hc_decoder h' = buf" by auto
    have "decoder_push [] (received (hc_stream h) @ take PUMP_CHUNK bs) = (Inr (fs @ gs), buf)"
      using attach.loop_append [of "received (hc_stream h)" "[]" fs "hc_decoder h" "take PUMP_CHUNK bs"] assms(2) b(2)
        attach.loop_acc [of "hc_decoder h @ take PUMP_CHUNK bs" gs buf fs]
      by (simp add: taken_def decoder_push_def)
    with f rec(1) b(1) assms(3) show ?thesis by (intro exI [of _ gs]) (simp add: taken_def)
  qed
qed

lemma pump_loop_ok:
  assumes "pump_loop W fed h = Some (Inr fed', h')"
    and "host_ok sent e0 sid fed fs h" "taken fs h" "fed \<le> length (payload fs)"
  shows "\<exists>gs. host_ok sent e0 sid fed' (fs @ gs) h' \<and> taken (fs @ gs) h' \<and> fed' \<le> length (payload (fs @ gs))"
proof -
  have "\<forall>fs fed' h'. x = (Inr fed', h') \<longrightarrow> host_ok sent e0 sid fed fs h \<longrightarrow> taken fs h \<longrightarrow> fed \<le> length (payload fs) \<longrightarrow>
      (\<exists>gs. host_ok sent e0 sid fed' (fs @ gs) h' \<and> taken (fs @ gs) h' \<and> fed' \<le> length (payload (fs @ gs)))"
    if "pump_loop W fed h = Some x" for fed h x
    using that
  proof (rule pump_loop_induct)
    fix fed h y assume "host_round W fed h = Some (Inl y)"
    then show "\<forall>fs fed' h'. y = (Inr fed', h') \<longrightarrow> host_ok sent e0 sid fed fs h \<longrightarrow> taken fs h \<longrightarrow> fed \<le> length (payload fs) \<longrightarrow>
      (\<exists>gs. host_ok sent e0 sid fed' (fs @ gs) h' \<and> taken (fs @ gs) h' \<and> fed' \<le> length (payload (fs @ gs)))"
      using host_round_ok(1) by (metis append.right_neutral)
  next
    fix fed h fed1 h1 y
    assume r: "host_round W fed h = Some (Inr (fed1, h1))"
      and IH: "\<forall>fs fed' h'. y = (Inr fed', h') \<longrightarrow> host_ok sent e0 sid fed1 fs h1 \<longrightarrow> taken fs h1 \<longrightarrow>
        fed1 \<le> length (payload fs) \<longrightarrow>
        (\<exists>gs. host_ok sent e0 sid fed' (fs @ gs) h' \<and> taken (fs @ gs) h' \<and> fed' \<le> length (payload (fs @ gs)))"
    show "\<forall>fs fed' h'. y = (Inr fed', h') \<longrightarrow> host_ok sent e0 sid fed fs h \<longrightarrow> taken fs h \<longrightarrow> fed \<le> length (payload fs) \<longrightarrow>
      (\<exists>gs. host_ok sent e0 sid fed' (fs @ gs) h' \<and> taken (fs @ gs) h' \<and> fed' \<le> length (payload (fs @ gs)))"
      using host_round_ok(2) [OF _ _ _ r] IH by (metis append.assoc)
  qed
  with assms show ?thesis by blast
qed

lemma taken_same: "received (hc_stream h') = received (hc_stream h) \<Longrightarrow> hc_decoder h' = hc_decoder h \<Longrightarrow> taken fs h' = taken fs h"
  by (simp add: taken_def)

lemma flush_ok:
  assumes "flush_outbox W h = (r, h')" "host_ok sent e0 sid fed fs h" "taken fs h"
  shows "host_ok sent e0 sid fed fs h'" "taken fs h'"
proof -
  note f = flush_said [OF assms(1)]
  from assms(2) obtain gs vs where "host_facts sent e0 sid fed fs gs vs h" by (auto simp: host_ok_def)
  then have "host_facts sent e0 sid fed fs gs vs h'"
    using f(2) same_client_fields [OF f(1)] by (simp add: host_facts_def)
  then show "host_ok sent e0 sid fed fs h'" by (auto simp: host_ok_def)
  show "taken fs h'" using assms(3) taken_same [OF f(3) same_client_fields(1) [OF f(1)]] by simp
qed

lemma pump_ok:
  assumes "pump W h = Some (Inr n, h')" "host_ok sent e0 sid 0 fs h" "taken fs h"
  shows "\<exists>gs. host_ok sent e0 sid 0 (fs @ gs) h' \<and> taken (fs @ gs) h'"
proof -
  obtain r0 h1 where f0: "flush_outbox W h = (r0, h1)" by force
  with assms(1) have f: "flush_outbox W h = (Inr (), h1)" by (cases r0) (simp_all add: pump_def)
  note ok1 = flush_ok [OF f assms(2,3)]
  have eq: "pump W h = pump_loop W 0 h1 \<bind> (\<lambda>(r, h). Some (case r of
      Inl e \<Rightarrow> (Inl e, h)
    | Inr fed \<Rightarrow> if fed > 0
        then (case grant_credit W (min fed u32_max) h of (Inl e, h) \<Rightarrow> (Inl e, h) | (Inr _, h) \<Rightarrow> (Inr fed, h))
        else (Inr fed, h)))" by (simp add: pump_def f)
  obtain r h2 where l0: "pump_loop W 0 h1 = Some (r, h2)"
    using assms(1) unfolding eq by (cases "pump_loop W 0 h1") auto
  with assms(1) obtain fed where r: "r = Inr fed" unfolding eq by (cases r) auto
  note l = l0 [unfolded r]
  obtain q h3 where q: "grant_credit W (min fed u32_max) h2 = (q, h3)" by force
  have g: "if fed > 0 then grant_credit W (min fed u32_max) h2 = (Inr (), h') else h' = h2"
    using assms(1) q unfolding eq l by (cases q) (auto split: if_splits)
  obtain gs where gs: "host_ok sent e0 sid fed (fs @ gs) h2" "taken (fs @ gs) h2" "fed \<le> length (payload (fs @ gs))"
    using pump_loop_ok [OF l ok1] by auto
  show ?thesis
  proof (cases "fed > 0")
    case True
    then have c: "grant_credit W (min fed u32_max) h2 = (Inr (), h')" using g by simp
    note s = send_said [OF c [unfolded grant_credit_def]]
    have "taken (fs @ gs) h'" using gs(2) s(3) same_client_fields(1) [OF s(1)] by (simp add: taken_def)
    with grant_ok [OF gs(1) c gs(3)] show ?thesis by blast
  next
    case False
    then show ?thesis using g gs by auto
  qed
qed

lemma resize_ok:
  assumes "host_resize W cs rs pw ph h = Some (Inr u, h')" "host_ok sent e0 sid 0 fs h" "taken fs h"
  shows "host_ok sent e0 sid 0 fs h'" "taken fs h'"
proof -
  let ?cw = "unat pw div max (unat cs) 1" and ?ch = "unat ph div max (unat rs) 1"
  define h1 where "h1 = h\<lparr>hc_cached := None, hc_live_cached := None, hc_viewport_jumped := True\<rparr>"
  obtain v chip where r: "engine_resize (unat cs) (unat rs) ?cw ?ch (hc_chip h) = Some (Inr v, chip)"
    and s: "host_send W (Resize cs rs pw ph) (h1\<lparr>hc_chip := chip\<rparr>) = (Inr u, h')"
    using assms(1) by (auto simp: host_resize_def h1_def Let_def bind_eq_Some_conv not_Inl split: sum.splits prod.splits)
  note s' = send_said [OF s]
  from assms(2) obtain gs vs where "host_facts sent e0 sid 0 fs gs vs h" by (auto simp: host_ok_def)
  note g = this [unfolded host_facts_def]
  have "mirrors e0 (vs @ [Resized (unat cs) (unat rs) ?cw ?ch]) chip" using mirrors_resize [OF _ r] g by simp
  with g s'(2) said_more same_client_fields [OF s'(1)]
  have "host_facts sent e0 sid 0 fs (gs @ [Resize cs rs pw ph]) (vs @ [Resized (unat cs) (unat rs) ?cw ?ch]) h'"
    by (simp add: host_facts_def h1_def)
  then show "host_ok sent e0 sid 0 fs h'" by (auto simp: host_ok_def)
  show "taken fs h'" using assms(3) s'(3) same_client_fields(1) [OF s'(1)] by (simp add: taken_def h1_def)
qed

lemma input_ok:
  assumes "send_input W bs h = (Inr u, h')" "host_ok sent e0 sid 0 fs h" "taken fs h"
  shows "host_ok sent e0 sid 0 fs h'" "taken fs h'"
proof -
  define h1 where "h1 = (follow_live h)\<lparr>hc_bytes_sent := sat_add u64_max (hc_bytes_sent h) (length bs)\<rparr>"
  have s: "host_send W (Data bs) h1 = (Inr u, h')"
    using assms(1) by (simp add: send_input_def h1_def follow_live_def Let_def split: if_splits)
  have "host_ok sent e0 sid 0 fs h1" using assms(2) by (subst host_ok_cong [of _ h]) (simp_all add: h1_def follow_live_def)
  from send_ok [OF this s] show "host_ok sent e0 sid 0 fs h'" by simp
  note s' = send_said [OF s]
  show "taken fs h'" using assms(3) s'(3) same_client_fields(1) [OF s'(1)] by (simp add: taken_def h1_def follow_live_def)
qed

lemma connect_ok:
  assumes "connect_session W identity nav_read stream cs rs colors sid = Inr h" "sent stream = []" "received stream = []"
    and "engine_new cs rs = Inr e" "e0 = (case colors of None \<Rightarrow> e | Some c \<Rightarrow> engine_set_palette (palette_from_theme c) e)"
  shows "host_ok sent e0 sid 0 [] h" "taken [] h"
proof -
  define h0 where "h0 = \<lparr>hc_stream = stream, hc_decoder = decoder_new, hc_chip = e0, hc_surface_rows = rs,
    hc_alive = True, hc_exit_status = None, hc_outbox = [], hc_outstanding_credit = 0,
    hc_violations = 0, hc_auditing = False, hc_cached = None, hc_live_cached = None,
    hc_history_rows = [], hc_scroll_offset = 0, hc_viewport_jumped = True,
    hc_workspace_id = cold_workspace_id nav_read, hc_modes = mode_state_fresh, hc_bytes_sent = 0,
    hc_content_items = [], hc_execution_id = (case sid of None \<Rightarrow> 0 | Some i \<Rightarrow> i)\<rparr>"
  obtain bs where i: "identity = Inr bs" using assms(1) by (cases identity) (simp_all add: connect_session_def)
  then have l: "bs = [0x6c, 0x6f, 0x63, 0x61, 0x6c, 0x0a]" using assms(1) by (simp add: connect_session_def split: if_splits)
  have c: "(case host_send W (attach_frame 1 sid) h0 of (Inl e, _) \<Rightarrow> Inl e
      | (Inr _, h) \<Rightarrow> (case grant_credit W CREDIT_WINDOW h of (Inl e, _) \<Rightarrow> Inl e | (Inr _, h) \<Rightarrow> Inr h)) = Inr h"
    using assms(1) by (simp only: connect_session_def i l assms(4) sum.case Let_def assms(5) [symmetric] h0_def [symmetric]
        not_True_eq_False if_False simp_thms)
  obtain r1 h1 where h1: "host_send W (attach_frame 1 sid) h0 = (r1, h1)" by force
  obtain r2 h2 where h2: "grant_credit W CREDIT_WINDOW h1 = (r2, h2)" by force
  have s: "host_send W (attach_frame 1 sid) h0 = (Inr (), h1)" "grant_credit W CREDIT_WINDOW h1 = (Inr (), h)"
    using c h1 h2 by (cases r1; cases r2; simp)+
  note s1 = send_said [OF s(1)] and s2 = send_said [OF s(2) [unfolded grant_credit_def]]
  note f1 = same_client_fields [OF s1(1)] and f2 = same_client_fields [OF s2(1)]
  have "wf_parser (eng_parser e0)" "alike (eng_parser e0) (eng_parser e0)"
    using assms(4,5) wf_parser_new alike_refl [OF wf_parser_new]
    by (auto simp: engine_new_def engine_set_palette_def split: sum.splits option.splits)
  then have m: "mirrors e0 [] e0" by (simp add: mirrors_def same_view_def)
  have n: "unat (of_nat CREDIT_WINDOW :: u32) = CREDIT_WINDOW" by (simp add: unat_of_nat CREDIT_WINDOW_def)
  have "host_facts sent e0 sid 0 [] [attach_frame 1 sid, Credit (of_nat CREDIT_WINDOW)] [] h"
    using m n s1(2) s2(2) f1 f2 assms(2)
    by (simp add: host_facts_def h0_def said_def credit_granted_def asked_def attach_frame_def sat_add_def CREDIT_WINDOW_def)
  then show "host_ok sent e0 sid 0 [] h" by (auto simp: host_ok_def)
  show "taken [] h"
    using s1(3) s2(3) f1(1) f2(1) assms(3) attach.step_nil
    by (simp add: taken_def h0_def decoder_new_def decoder_push_def attach.loop_NeedMore)
qed

end

interpretation taped_host: host_link "taped_sock W" "\<lambda>w. snd (snd w)" "\<lambda>w. fst (snd w)" for W
  by unfold_locales

section \<open>Runs\<close>

datatype host_op =
    Pump
  | Type "byte list"
  | Paste "byte list"
  | Point byte byte u16 u16
  | Fit u16 u16 u16 u16
  | Scroll int
  | Follow
  | Paint
  | AuditOn
  | AuditOff

fun host_do :: "'s sock_ops \<Rightarrow> host_op \<Rightarrow> 's host \<Rightarrow> ('s, unit) hrun option" where
  "host_do W Pump h = map_option (\<lambda>(r, h). (map_sum id (\<lambda>_. ()) r, h)) (pump W h)"
| "host_do W (Type bs) h = Some (send_input W bs h)"
| "host_do W (Paste bs) h = Some (paste W bs h)"
| "host_do W (Point kind button col row) h =
     Some (case send_pointer W kind button col row h of (r, h) \<Rightarrow> (map_sum id (\<lambda>_. ()) r, h))"
| "host_do W (Fit cs rs pw ph) h = host_resize W cs rs pw ph h"
| "host_do W (Scroll n) h = Some (Inr (), scroll_lines n h)"
| "host_do W Follow h = Some (Inr (), follow_live h)"
| "host_do W Paint h = Some (Inr (), ensure_snapshots h)"
| "host_do W AuditOn h = Some (Inr (), begin_warm_path_audit h)"
| "host_do W AuditOff h = Some (Inr (), snd (end_warm_path_audit h))"

text \<open>A client that connected on a fresh socket and has done any operations, none of which failed.\<close>

inductive host_run :: "('s \<times> byte list \<times> byte list) sock_ops \<Rightarrow> engine \<Rightarrow> u64 option \<Rightarrow> ('s \<times> byte list \<times> byte list) host \<Rightarrow> bool"
  for W e0 sid
where
  host_start: "connect_session W identity nav_read (w, [], []) cs rs colors sid = Inr h \<Longrightarrow> engine_new cs rs = Inr e \<Longrightarrow>
    e0 = (case colors of None \<Rightarrow> e | Some c \<Rightarrow> engine_set_palette (palette_from_theme c) e) \<Longrightarrow> host_run W e0 sid h"
| host_step: "host_run W e0 sid h \<Longrightarrow> host_do W op h = Some (Inr u, h') \<Longrightarrow> host_run W e0 sid h'"

lemma ensure_ok: "host_ok sent e0 sid fed fs (ensure_snapshots h) = host_ok sent e0 sid fed fs h"
  by (simp add: host_ok_def host_facts_def ensure_snapshots_def mirrors_def Let_def split_beta)

lemma host_run_ok:
  assumes "host_run (taped_sock W) e0 sid h"
  shows "\<exists>fs. host_ok (\<lambda>w. snd (snd w)) e0 sid 0 fs h \<and> taped_host.taken fs h"
  using assms
proof (induction rule: host_run.induct)
  case (host_start identity nav_read w cs rs colors h e)
  from taped_host.connect_ok [OF host_start(1) _ _ host_start(2,3)] show ?case by auto
next
  case (host_step h op u h')
  then obtain fs where fs: "host_ok (\<lambda>w. snd (snd w)) e0 sid 0 fs h" "taped_host.taken fs h" by blast
  have quiet: ?case if "hc_stream h' = hc_stream h" "hc_outbox h' = hc_outbox h"
      "hc_outstanding_credit h' = hc_outstanding_credit h" "hc_chip h' = hc_chip h" "hc_alive h' = hc_alive h"
      "hc_exit_status h' = hc_exit_status h" "hc_decoder h' = hc_decoder h"
  proof (intro exI conjI)
    show "host_ok (\<lambda>w. snd (snd w)) e0 sid 0 fs h'" using fs(1) by (subst host_ok_cong [OF that(1-6)])
    show "taped_host.taken fs h'" using fs(2) by (subst taped_host.taken_same) (simp_all only: that(1,7))
  qed
  show ?case
  proof (cases op)
    case Pump
    with host_step(2) obtain n where "pump (taped_sock W) h = Some (Inr n, h')"
      by (auto simp: map_sum_def not_Inl split: sum.splits)
    from taped_host.pump_ok [OF this fs] show ?thesis by blast
  next
    case (Type bs)
    with host_step(2) have "send_input (taped_sock W) bs h = (Inr u, h')" by simp
    from taped_host.input_ok [OF this fs] show ?thesis by blast
  next
    case (Paste bs)
    with host_step(2) have "send_input (taped_sock W) (wrap_paste (ms_bracketed_paste (hc_modes h)) bs) h = (Inr u, h')"
      by (simp add: paste_def)
    from taped_host.input_ok [OF this fs] show ?thesis by blast
  next
    case (Point kind button col row)
    let ?bs = "encode_pointer (hc_modes h) kind button col row"
    from Point host_step(2) have "if ?bs = [] then h' = h else send_input (taped_sock W) ?bs h = (Inr (), h')"
      by (auto simp: send_pointer_def Let_def map_sum_def not_Inl split: if_splits prod.splits sum.splits)
    then show ?thesis using taped_host.input_ok [OF _ fs, of W ?bs] fs by (auto split: if_splits)
  next
    case (Fit cs rs pw ph)
    with host_step(2) have "host_resize (taped_sock W) cs rs pw ph h = Some (Inr u, h')" by simp
    from taped_host.resize_ok [OF this fs] show ?thesis by blast
  next
    case Paint
    with host_step(2) have "h' = ensure_snapshots h" by simp
    moreover have "taped_host.taken fs (ensure_snapshots h)"
      using fs(2) by (simp add: taped_host.taken_def ensure_snapshots_def Let_def split_beta)
    ultimately show ?thesis using fs(1) ensure_ok by blast
  next
    case (Scroll n)
    then show ?thesis using host_step(2) by (intro quiet) (auto simp: scroll_lines_def Let_def)
  next
    case Follow
    then show ?thesis using host_step(2) by (intro quiet) (auto simp: follow_live_def)
  next
    case AuditOn
    then show ?thesis using host_step(2) by (intro quiet) (auto simp: begin_warm_path_audit_def)
  next
    case AuditOff
    then show ?thesis using host_step(2) by (intro quiet) (auto simp: end_warm_path_audit_def)
  qed
qed

end
