(* ===== verification/Host_Paint.thy ===== *)
theory Host_Paint imports Host_Runs begin

text \<open>
  What the host paints: the pictures it keeps agree with its emulator, its history and its offset
  (\<open>view_inv\<close>), whatever its socket does, and every cell of them is a cell of the window.
\<close>

section \<open>The state of the view\<close>

definition pictures :: "engine \<Rightarrow> pod_cell list list \<Rightarrow> nat \<Rightarrow> pod_grid option \<Rightarrow> pod_grid option \<Rightarrow> bool" where
  "pictures chip hist offset view live \<longleftrightarrow>
     (\<forall>v l. view = Some v \<longrightarrow> live = Some l \<longrightarrow>
        pg_cols l = s_cols (eng_screen chip) \<and> pg_rows l = s_rows (eng_screen chip) \<and>
        pg_default_fg l = pack (foreground (s_palette (eng_screen chip))) \<and>
        pg_default_bg l = pack (background (s_palette (eng_screen chip))) \<and>
        pg_cells l = map (to_pod_cell (eng_screen chip)) (s_cells (eng_screen chip)) \<and>
        (\<exists>j. v = mark_full_if_viewport_jumped (compose_viewport hist l offset) j))"

definition view_inv :: "'s host \<Rightarrow> bool" where
  "view_inv h \<longleftrightarrow> engine_inv (hc_chip h) \<and> length (hc_history_rows h) \<le> MAX_HISTORY_ROWS \<and>
     hc_scroll_offset h \<le> length (hc_history_rows h) \<and>
     pictures (hc_chip h) (hc_history_rows h) (hc_scroll_offset h) (hc_cached h) (hc_live_cached h)"

lemma view_inv_cong:
  "hc_chip h' = hc_chip h \<Longrightarrow> hc_history_rows h' = hc_history_rows h \<Longrightarrow> hc_scroll_offset h' = hc_scroll_offset h \<Longrightarrow>
    hc_cached h' = hc_cached h \<Longrightarrow> hc_live_cached h' = hc_live_cached h \<Longrightarrow> view_inv h' = view_inv h"
  by (simp add: view_inv_def)

lemma no_pictures [simp]: "pictures chip hist offset None live"
  by (simp add: pictures_def)

lemma same_client_view: "same_client h h' \<Longrightarrow> view_inv h' = view_inv h"
  by (rule view_inv_cong) (simp_all add: same_client_fields)

lemma same_client_iff: "same_client h h' \<longleftrightarrow> (\<exists>w b n. h' = h\<lparr>hc_stream := w, hc_outbox := b, hc_violations := n\<rparr>)"
  by (auto simp: same_client_def)

lemma same_client_trans: "same_client h h1 \<Longrightarrow> same_client h1 h2 \<Longrightarrow> same_client h h2"
  unfolding same_client_iff by (elim exE) (intro exI, simp)

lemma flush_same: "same_client h (snd (flush_outbox W h))"
  by (simp add: flush_outbox_def same_client_def Let_def split_beta split: sum.split)

lemma send_same: "same_client h (snd (host_send W f h))"
proof -
  define h1 where "h1 = (if hc_auditing h \<and> \<not> is_warm_path f then h\<lparr>hc_violations := hc_violations h + 1\<rparr> else h)"
  have 1: "same_client h h1" "same_client h (h1\<lparr>hc_outbox := b\<rparr>)" for b by (simp_all add: same_client_def h1_def)
  have "snd (host_send W f h) = (case encode f of Inl e \<Rightarrow> h1 | Inr bs \<Rightarrow> snd (flush_outbox W (h1\<lparr>hc_outbox := hc_outbox h1 @ bs\<rparr>)))"
    by (simp add: host_send_def h1_def [symmetric] Let_def split: sum.split)
  then show ?thesis using 1 same_client_trans [OF 1(2) flush_same [of _ W]] by (simp split: sum.split)
qed

lemma send_view: "host_send W f h = (r, h') \<Longrightarrow> view_inv h' = view_inv h"
  using same_client_view [OF send_same [of h W f]] by simp

lemma grant_view: "grant_credit W n h = (r, h') \<Longrightarrow> view_inv h' = view_inv h"
  unfolding grant_credit_def by (drule send_view) (simp add: view_inv_def)

lemma note_violation_view [simp]: "view_inv (note_violation h) = view_inv h"
  by (simp add: view_inv_def note_violation_def)

section \<open>History and offset\<close>

lemma ingest_bounds:
  assumes "length hist \<le> MAX_HISTORY_ROWS"
  shows "length hist \<le> length (ingest_scrolled hist rows)" "length (ingest_scrolled hist rows) \<le> MAX_HISTORY_ROWS"
  using assms by (simp_all add: ingest_keeps_last keep_last_def)

lemma clamp_bound: "clamp_offset n m off \<le> n"
  by (simp add: clamp_offset_def min_def) (meson mod_less_eq_dividend order_trans nat_le_linear)

lemma drained_screen [simp]:
  "engine_inv e \<Longrightarrow> engine_inv (snd (engine_take_replies e))" "engine_inv e \<Longrightarrow> engine_inv (snd (engine_take_scrolled_off e))"
  "engine_inv e \<Longrightarrow> engine_inv (snd (engine_snapshot e))"
  by (rule drain_inv; assumption)+

lemma fed_inv: "engine_inv e \<Longrightarrow> engine_feed bs e = Some e' \<Longrightarrow> engine_inv e'"
  using feed_inv [of e bs] by (auto simp: runs_iff)

lemma resized_inv:
  assumes "engine_inv e" "cs \<le> 65528" "rs \<le> u16_max" "engine_resize cs rs x y e = Some (r, e')"
  shows "engine_inv e'"
proof -
  have "perform (OpResize cs rs) e = Some e'" using assms(4) by (auto simp: engine_resize_def bind_eq_Some_conv)
  with perform_inv [OF assms(1), of "OpResize cs rs"] assms(2,3) show ?thesis by (auto simp: runs_iff)
qed

lemma theme_palette_wf: "wf_palette (palette_from_theme c)"
proof -
  have "length (foldl (\<lambda>a (i, v). a[i := u32_to_rgb v]) p vs) = length p" for p and vs :: "(nat \<times> u32) list"
    by (induction vs arbitrary: p) auto
  then show ?thesis by (auto simp: palette_from_theme_def wf_palette_def vt_default_def Let_def split: option.split)
qed

section \<open>The operations keep it\<close>

lemma pump_data_view:
  assumes "view_inv h" "pump_data W bs fed h = Some (Inr n, h')"
  shows "view_inv h'"
proof -
  obtain chip rows chip1 replies chip2 hist h1 h2 where chip: "engine_feed bs (hc_chip h) = Some chip"
    and c1: "engine_take_scrolled_off chip = (rows, chip1)" and c2: "engine_take_replies chip1 = (replies, chip2)"
    and hist_def: "hist = ingest_scrolled (hc_history_rows h) rows"
    and h1_def: "h1 = h\<lparr>hc_chip := chip2, hc_history_rows := hist,
      hc_scroll_offset := clamp_offset (length hist) (hc_surface_rows h) (hc_scroll_offset h)\<rparr>"
    and h2: "(if replies \<noteq> [] then host_send W (Data replies) h1 else (Inr (), h1)) = (Inr (), h2)"
    and h': "h' = h2\<lparr>hc_modes := engine_mode_state (hc_chip h2), hc_cached := None, hc_live_cached := None\<rparr>"
    using pump_data_steps [OF assms(2)] .
  have i: "engine_inv chip2"
    using assms(1) fed_inv [OF _ chip] drained_screen(1) [of chip1] drained_screen(2) [of chip] c1 c2 by (simp add: view_inv_def)
  have "same_client h1 h2" using h2 send_same [of h1 W "Data replies"] by (auto simp: same_client_def split: if_splits)
  note s = same_client_fields [OF this]
  have "length hist \<le> MAX_HISTORY_ROWS" unfolding hist_def using assms(1) by (intro ingest_bounds) (simp add: view_inv_def)
  then show ?thesis using i clamp_bound by (simp add: h' view_inv_def s) (simp add: h1_def)
qed

lemma exit_view: "view_inv (h\<lparr>hc_alive := a, hc_exit_status := x\<rparr>) = view_inv h"
  by (rule view_inv_cong) simp_all

lemma pump_frame_view: "view_inv h \<Longrightarrow> pump_frame W f fed h = Some (Inr n, h') \<Longrightarrow> view_inv h'"
  by (cases f) (auto simp: pump_data_view exit_view)

lemma pump_frames_view: "view_inv h \<Longrightarrow> pump_frames W fs fed h = Some (Inr n, h') \<Longrightarrow> view_inv h'"
proof (induction fs arbitrary: fed h)
  case (Cons f fs)
  obtain fed1 h1 where "pump_frame W f fed h = Some (Inr fed1, h1)" "pump_frames W fs fed1 h1 = Some (Inr n, h')"
    using Cons.prems(2) by (auto simp: bind_eq_Some_conv not_Inl split: sum.splits)
  with Cons pump_frame_view show ?case by blast
qed simp

lemma host_round_view:
  assumes "view_inv h"
  shows "host_round W fed h = Some (Inl (Inr n, h')) \<Longrightarrow> view_inv h'"
    and "host_round W fed h = Some (Inr (n, h')) \<Longrightarrow> view_inv h'"
proof -
  obtain got w where rd: "sock_read W PUMP_CHUNK (hc_stream h) = (got, w)" by force
  have v: "view_inv (h\<lparr>hc_stream := w\<rparr>)" "view_inv (h\<lparr>hc_stream := w, hc_decoder := b\<rparr>)" for b
    using assms by (simp_all add: view_inv_def)
  show "view_inv h'" if "host_round W fed h = Some (Inl (Inr n, h'))"
    using that v by (cases got) (auto simp: host_round_def rd Let_def bind_eq_Some_conv split_beta not_Inl split: if_splits sum.splits)
  show "view_inv h'" if r: "host_round W fed h = Some (Inr (n, h'))"
  proof (cases got)
    case (ReadBytes bs)
    obtain q buf where d: "decoder_push (hc_decoder h) (take PUMP_CHUNK bs) = (q, buf)" by force
    obtain gs where "pump_frames W gs fed (h\<lparr>hc_stream := w, hc_decoder := buf\<rparr>) = Some (Inr n, h')"
      using r d by (cases q) (auto simp: host_round_def rd ReadBytes Let_def bind_eq_Some_conv not_Inl split: if_splits sum.splits)
    then show ?thesis by (rule pump_frames_view [OF v(2)])
  qed (use r in \<open>simp_all add: host_round_def rd\<close>)
qed

lemma pump_loop_view: "pump_loop W fed h = Some x \<Longrightarrow> view_inv h \<longrightarrow> (\<forall>n h'. x = (Inr n, h') \<longrightarrow> view_inv h')"
  by (erule pump_loop_induct [where R = "\<lambda>fed h x. view_inv h \<longrightarrow> (\<forall>n h'. x = (Inr n, h') \<longrightarrow> view_inv h')"])
    (blast dest: host_round_view)+

lemma pump_view:
  assumes "view_inv h" "pump W h = Some (Inr n, h')"
  shows "view_inv h'"
proof -
  obtain h1 where h1: "flush_outbox W h = (Inr (), h1)" using assms(2) by (auto simp: pump_def split: prod.splits sum.splits)
  then have "view_inv h1" using assms(1) same_client_view [OF flush_same [of h W]] by simp
  moreover obtain r h2 where l: "pump_loop W 0 h1 = Some (r, h2)" using assms(2) h1 by (auto simp: pump_def bind_eq_Some_conv)
  ultimately have v: "\<And>k. r = Inr k \<Longrightarrow> view_inv h2" using pump_loop_view by blast
  obtain k where k: "r = Inr k" using assms(2) h1 l by (cases r) (auto simp: pump_def)
  show ?thesis using assms(2) h1 l k v [OF k]
    by (auto simp: pump_def dest: grant_view split: if_splits prod.splits sum.splits)
qed

lemma cleared_view:
  "engine_inv (hc_chip h) \<Longrightarrow> length (hc_history_rows h) \<le> MAX_HISTORY_ROWS \<Longrightarrow>
    hc_scroll_offset h \<le> length (hc_history_rows h) \<Longrightarrow> hc_cached h = None \<Longrightarrow> view_inv h"
  by (simp add: view_inv_def)

lemma follow_view: "view_inv h \<Longrightarrow> view_inv (follow_live h)"
  by (rule cleared_view) (simp_all add: view_inv_def follow_live_def follow_live_after_input_def)

lemma scroll_view: "view_inv h \<Longrightarrow> view_inv (scroll_lines n h)"
proof (rule cleared_view)
  assume v: "view_inv h"
  have "nat (max 0 (min (int (length (hc_history_rows h))) (int (hc_scroll_offset h) + n))) mod 2 ^ 32 \<le> length (hc_history_rows h)"
    by (rule order_trans [OF mod_less_eq_dividend]) simp
  then show "hc_scroll_offset (scroll_lines n h) \<le> length (hc_history_rows (scroll_lines n h))"
    by (simp add: scroll_lines_def Let_def)
qed (simp_all add: view_inv_def scroll_lines_def Let_def)

lemma input_view: "view_inv h \<Longrightarrow> send_input W bs h = (r, h') \<Longrightarrow> view_inv h'"
proof -
  assume v: "view_inv h" and s: "send_input W bs h = (r, h')"
  have "view_inv ((follow_live h)\<lparr>hc_bytes_sent := n\<rparr>)" for n
    using follow_view [OF v] by (subst view_inv_cong) simp_all
  with s v show ?thesis by (auto simp: send_input_def Let_def dest: send_view split: if_splits)
qed

lemma resize_view:
  assumes "view_inv h" "unat cs \<le> 65528" "host_resize W cs rs x y h = Some (r, h')"
  shows "view_inv h'"
proof -
  obtain q chip a b where q: "engine_resize (unat cs) (unat rs) a b (hc_chip h) = Some (q, chip)"
    and h': "(case q of Inl e \<Rightarrow> (Inl (HChip e), h\<lparr>hc_cached := None, hc_live_cached := None, hc_viewport_jumped := True, hc_chip := chip\<rparr>)
      | Inr _ \<Rightarrow> host_send W (Resize cs rs x y) (h\<lparr>hc_cached := None, hc_live_cached := None, hc_viewport_jumped := True, hc_chip := chip\<rparr>)) = (r, h')"
    using assms(3) by (auto simp: host_resize_def Let_def bind_eq_Some_conv)
  have "unat rs < 2 ^ 16" using unsigned_less [of rs] by simp
  then have "unat rs \<le> u16_max" by simp
  then have "engine_inv chip" using assms(1,2) resized_inv [OF _ _ _ q] by (simp add: view_inv_def)
  then have "view_inv (h\<lparr>hc_cached := None, hc_live_cached := None, hc_viewport_jumped := True, hc_chip := chip\<rparr>)"
    using assms(1) by (simp add: view_inv_def)
  with h' show ?thesis by (auto dest: send_view split: sum.splits)
qed

section \<open>Painting\<close>

lemma pod_cell_clean:
  "to_pod_cell (s\<lparr>s_full_damage := f, s_damage_row0 := a, s_damage_row1 := b\<rparr>) = to_pod_cell s"
  by (simp add: to_pod_cell_def resolve_def fun_eq_iff split: color.split)

lemma ensure_view:
  assumes "view_inv h"
  shows "view_inv (ensure_snapshots h)" "hc_cached (ensure_snapshots h) \<noteq> None" "hc_live_cached (ensure_snapshots h) \<noteq> None"
proof -
  obtain rows chip1 where c1: "engine_take_scrolled_off (hc_chip h) = (rows, chip1)" by force
  obtain live chip2 where c2: "engine_snapshot chip1 = (live, chip2)" by force
  let ?hist = "ingest_scrolled (hc_history_rows h) rows"
  let ?view = "mark_full_if_viewport_jumped (compose_viewport ?hist live (hc_scroll_offset h)) (hc_viewport_jumped h)"
  have e: "ensure_snapshots h = (if hc_cached h \<noteq> None \<and> hc_live_cached h \<noteq> None then h
    else h\<lparr>hc_chip := chip2, hc_history_rows := ?hist, hc_viewport_jumped := False, hc_live_cached := Some live, hc_cached := Some ?view\<rparr>)"
    by (simp add: ensure_snapshots_def c1 c2 Let_def)
  have i: "engine_inv chip2"
    using assms drained_screen(3) [of chip1] drained_screen(2) [of "hc_chip h"] c1 c2 by (simp add: view_inv_def)
  have p: "pictures chip2 ?hist (hc_scroll_offset h) (Some ?view) (Some live)"
    using c2 by (auto simp: pictures_def engine_snapshot_def snapshot_def pod_cell_clean)
  have "length (hc_history_rows h) \<le> MAX_HISTORY_ROWS" "hc_scroll_offset h \<le> length (hc_history_rows h)"
    using assms by (simp_all add: view_inv_def)
  with ingest_bounds [of "hc_history_rows h" rows] i p assms show "view_inv (ensure_snapshots h)"
    by (simp add: e) (simp add: view_inv_def)
  show "hc_cached (ensure_snapshots h) \<noteq> None" "hc_live_cached (ensure_snapshots h) \<noteq> None" by (simp_all add: e)
qed

lemma connect_view:
  assumes "connect_session W identity nav_read stream cs rs colors sid = Inr h" "cs \<le> 65528" "rs \<le> u16_max"
  shows "view_inv h"
proof -
  from assms(1) obtain e where e: "engine_new cs rs = Inr e"
    by (auto simp: connect_session_def split: sum.splits if_splits)
  define e0 where "e0 = (case colors of None \<Rightarrow> e | Some c \<Rightarrow> engine_set_palette (palette_from_theme c) e)"
  have "engine_inv e" by (rule fresh_inv [OF e assms(2,3)])
  then have i: "engine_inv e0"
    using drain_inv(4) [OF _ theme_palette_wf] by (simp add: e0_def split: option.split)
  obtain h0 h1 where h: "view_inv h0" "host_send W (attach_frame 1 sid) h0 = (Inr (), h1)" "grant_credit W CREDIT_WINDOW h1 = (Inr (), h)"
  proof
    let ?h0 = "\<lparr>hc_stream = stream, hc_decoder = decoder_new, hc_chip = e0, hc_surface_rows = rs,
      hc_alive = True, hc_exit_status = None, hc_outbox = [], hc_outstanding_credit = 0,
      hc_violations = 0, hc_auditing = False, hc_cached = None, hc_live_cached = None,
      hc_history_rows = [], hc_scroll_offset = 0, hc_viewport_jumped = True,
      hc_workspace_id = cold_workspace_id nav_read, hc_modes = mode_state_fresh, hc_bytes_sent = 0,
      hc_content_items = [], hc_execution_id = (case sid of None \<Rightarrow> 0 | Some i \<Rightarrow> i)\<rparr>"
    let ?h1 = "snd (host_send W (attach_frame 1 sid) ?h0)"
    show "view_inv ?h0" using i by (simp add: view_inv_def)
    show "host_send W (attach_frame 1 sid) ?h0 = (Inr (), ?h1)" "grant_credit W CREDIT_WINDOW ?h1 = (Inr (), h)"
      using assms(1) by (auto simp: connect_session_def e e0_def [symmetric] Let_def split: sum.splits if_splits prod.splits)
  qed
  show ?thesis using h(1) send_view [OF h(2)] grant_view [OF h(3)] by simp
qed

text \<open>
  Any client whose surface has at most 65528 columns, on any socket, after operations none of which failed.
\<close>

fun fits_surface :: "host_op \<Rightarrow> bool" where
  "fits_surface (Fit cs _ _ _) \<longleftrightarrow> unat cs \<le> 65528"
| "fits_surface _ \<longleftrightarrow> True"

inductive host_live :: "'s sock_ops \<Rightarrow> 's host \<Rightarrow> bool" for W where
  live_start: "connect_session W identity nav_read stream cs rs colors sid = Inr h \<Longrightarrow> cs \<le> 65528 \<Longrightarrow> rs \<le> u16_max \<Longrightarrow> host_live W h"
| live_step: "host_live W h \<Longrightarrow> fits_surface op \<Longrightarrow> host_do W op h = Some (Inr u, h') \<Longrightarrow> host_live W h'"

lemma host_live_view: "host_live W h \<Longrightarrow> view_inv h"
proof (induction rule: host_live.induct)
  case (live_start identity nav_read stream cs rs colors sid h)
  then show ?case by (rule connect_view)
next
  case (live_step h op u h')
  note v = live_step.IH
  have same: "view_inv (begin_warm_path_audit h)" "view_inv (snd (end_warm_path_audit h))"
    using v by (simp_all add: view_inv_def begin_warm_path_audit_def end_warm_path_audit_def)
  show ?case using live_step(2,3) v
    by (cases op) (auto simp: paste_def send_pointer_def Let_def map_sum_def not_Inl ensure_view follow_view scroll_view same
        intro: pump_view [OF v] input_view [OF v] resize_view [OF v] split: sum.splits if_splits prod.splits)
qed

lemma compose_live [simp]: "compose_viewport hist live 0 = live"
  by (simp add: compose_viewport_def)

lemma live_row:
  assumes "wf_grid live" "r < pg_rows live"
  shows "live_rows live ! r = take (pg_cols live) (drop (r * pg_cols live) (pg_cells live))"
    and "length (live_rows live ! r) = pg_cols live"
  using assms row_in_grid [OF assms(2), of "pg_cols live"] by (simp_all add: live_rows_eq wf_grid_def)

lemma window_cell:
  assumes g: "wf_grid live" and b: "off \<le> length hist" "length hist \<le> MAX_HISTORY_ROWS"
  shows "r < pg_rows live \<Longrightarrow> c < pg_cols live \<Longrightarrow> pg_cells (compose_viewport hist live off) ! (r * pg_cols live + c) =
      fit_row live ((hist @ live_rows live) ! (length hist - off + r)) ! c" (is "_ \<Longrightarrow> _ \<Longrightarrow> ?cell")
    and "length (pg_cells (compose_viewport hist live off)) = pg_cols live * pg_rows live" (is ?length)
proof -
  let ?win = "window (pg_rows live) off (hist @ live_rows live)"
  have l: "length (hist @ live_rows live) = length hist + pg_rows live" by (simp add: live_rows_eq [OF g])
  have w: "length ?win = pg_rows live" using l b(1) by (intro length_window) simp
  have cells: "pg_cells (compose_viewport hist live off) = concat (map (fit_row live) ?win)" if "off \<noteq> 0"
    using that b by (intro compose_window [OF g]) simp_all
  show ?length
  proof (cases "off = 0")
    case False
    then show ?thesis using cells w by (simp add: length_concat_rows [of _ "pg_cols live"])
  qed (use g in \<open>simp add: wf_grid_def\<close>)
  show ?cell if r: "r < pg_rows live" and c: "c < pg_cols live"
  proof (cases "off = 0")
    case True
    have "fit_row live (live_rows live ! r) = live_rows live ! r" using live_row(2) [OF g r] by (simp add: fit_row_def)
    moreover have "r * pg_cols live \<le> length (pg_cells live)"
      using row_in_grid [OF r, of "pg_cols live"] g unfolding wf_grid_def by linarith
    ultimately show ?thesis using True c r live_row(1) [OF g r] by (simp add: nth_append add.commute)
  next
    case False
    have "?win ! r = (hist @ live_rows live) ! (length hist - off + r)"
      using l b(1) r by (subst nth_window) (simp_all del: nth_append)
    then show ?thesis using cells [OF False] w r c by (simp add: nth_concat_rows)
  qed
qed

lemma compose_size [simp]:
  "pg_cols (compose_viewport hist live off) = pg_cols live" "pg_rows (compose_viewport hist live off) = pg_rows live"
  by (simp_all add: compose_viewport_def Let_def)

lemma compose_cursor: "pg_cursor_visible (compose_viewport hist live off) \<Longrightarrow> off = 0 \<or> hist = []"
  by (auto simp: compose_viewport_def Let_def split: if_splits)

lemma same_grid:
  assumes "pg_cols l = pg_cols g" "pg_rows l = pg_rows g" "pg_cells l = pg_cells g"
    "pg_default_fg l = pg_default_fg g" "pg_default_bg l = pg_default_bg g"
  shows "live_rows l = live_rows g" "fit_row l = fit_row g"
  unfolding live_rows_def fit_row_def blank_cell_def assms by (rule refl)+

text \<open>The picture that is returned, and the row at line \<open>r\<close> of the window.\<close>

definition window_row :: "'s host \<Rightarrow> nat \<Rightarrow> pod_cell list" where
  "window_row h r =
     (hc_history_rows h @ live_rows (fst (engine_snapshot (hc_chip h)))) ! (length (hc_history_rows h) - hc_scroll_offset h + r)"

lemma painted_window:
  assumes v: "view_inv h" and c: "hc_cached h = Some g" "hc_live_cached h \<noteq> None"
  defines "live \<equiv> fst (engine_snapshot (hc_chip h))"
  shows "pg_cols g = pg_cols live" "pg_rows g = pg_rows live" "length (pg_cells g) = pg_cols live * pg_rows live"
    "r < pg_rows live \<Longrightarrow> col < pg_cols live \<Longrightarrow> pod_grid_cell g col r = Some (fit_row live (window_row h r) ! col)"
    "pg_cursor_visible g \<Longrightarrow> hc_scroll_offset h = 0"
proof -
  have live: "pg_cols live = s_cols (eng_screen (hc_chip h))" "pg_rows live = s_rows (eng_screen (hc_chip h))"
    "pg_default_fg live = pack (foreground (s_palette (eng_screen (hc_chip h))))"
    "pg_default_bg live = pack (background (s_palette (eng_screen (hc_chip h))))"
    "pg_cells live = map (to_pod_cell (eng_screen (hc_chip h))) (s_cells (eng_screen (hc_chip h)))"
    by (simp_all add: live_def engine_snapshot_def snapshot_def)
  obtain l j where l: "hc_live_cached h = Some l"
    and g: "g = mark_full_if_viewport_jumped (compose_viewport (hc_history_rows h) l (hc_scroll_offset h)) j"
    and eq: "pg_cols l = pg_cols live" "pg_rows l = pg_rows live" "pg_cells l = pg_cells live"
      "pg_default_fg l = pg_default_fg live" "pg_default_bg l = pg_default_bg live"
    using v c by (auto simp: view_inv_def pictures_def live)
  have wf: "wf_grid l" using v by (simp add: wf_grid_def eq live view_inv_def engine_inv_def wf_screen_def)
  have b: "hc_scroll_offset h \<le> length (hc_history_rows h)" "length (hc_history_rows h) \<le> MAX_HISTORY_ROWS"
    using v by (simp_all add: view_inv_def)
  have m [simp]: "pg_cols g = pg_cols l" "pg_rows g = pg_rows l"
    "pg_cells g = pg_cells (compose_viewport (hc_history_rows h) l (hc_scroll_offset h))"
    "pg_cursor_visible g = pg_cursor_visible (compose_viewport (hc_history_rows h) l (hc_scroll_offset h))"
    by (simp_all add: g mark_full_if_viewport_jumped_def)
  note cell = window_cell [OF wf b]
  show "pg_cols g = pg_cols live" "pg_rows g = pg_rows live" by (simp_all add: eq)
  show len: "length (pg_cells g) = pg_cols live * pg_rows live" using cell(2) by (simp add: eq)
  show "pg_cursor_visible g \<Longrightarrow> hc_scroll_offset h = 0" 
    using compose_cursor [of "hc_history_rows h" l "hc_scroll_offset h"] b(1) by auto
  show "pod_grid_cell g col r = Some (fit_row live (window_row h r) ! col)" if "r < pg_rows live" "col < pg_cols live"
  proof -
    have "r * pg_cols live + col < pg_cols live * pg_rows live"
      using row_in_grid [OF that(1), of "pg_cols live"] that(2) by simp
    then show ?thesis
      using cell(1) [of r col] that len same_grid [OF eq] by (simp add: pod_grid_cell_def window_row_def live_def [symmetric] eq)
  qed
qed

end
