(* ===== verification/Daemon_Claims.thy ===== *)
theory Daemon_Claims
  imports Sock_Tape Session_Flow
begin

text \<open>
  What holds of the daemon: one writer per leaf and true streams in every orderly run, what a flush
  delivers and what it loses, when the pump of a leaf returns and when it does not, and what clients
  that do not keep to the protocol can do to others.
\<close>

section \<open>A daemon for the examples\<close>

text \<open>A socket that has the given reads ahead and takes whatever is written to it.\<close>

definition demo_sock :: "byte list list sock_ops" where
  "demo_sock =
     \<lparr>sock_read = (\<lambda>n w. case w of [] \<Rightarrow> (ReadWouldBlock, []) | bs # w \<Rightarrow> (ReadBytes bs, w)),
      sock_write = (\<lambda>bs w. (Wrote (length bs), w))\<rparr>"

definition demo_grid :: winsize where
  "demo_grid = \<lparr>ws_cols = 4, ws_rows = 3, ws_px_w = 0, ws_px_h = 0\<rparr>"

definition demo_session :: "(byte list \<times> pty_event list) session" where
  "demo_session = session_new ([1, 2, 3], []) demo_size False"

lemma push_frames:
  assumes "\<forall>f \<in> set fs. wire_exact f \<and> frame_fits f"
  shows "decoder_push [] (concat (map frame_bytes fs)) = (Inr fs, [])"
  using attach.loop_encs [OF assms, of "[]" "[]"] attach.loop_NeedMore [of "[]" fs] attach.step_nil
  by (simp add: decoder_push_def)

text \<open>\<open>after ops d\<close>: the daemon after orderly operations, none of which fails.\<close>

fun after ::
    "'s sock_ops \<Rightarrow> 'p pty_ops \<Rightarrow> nat \<Rightarrow> ('p, 's) daemon_op list \<Rightarrow> ('p, 's) daemon \<Rightarrow> ('p, 's) daemon option" where
  "after W P grace [] d = Some d"
| "after W P grace (op # ops) d =
     (case daemon_do W P grace op d of Some (Inr _, d) \<Rightarrow> after W P grace ops d | _ \<Rightarrow> None)"

fun all_orderly ::
    "'s sock_ops \<Rightarrow> 'p pty_ops \<Rightarrow> nat \<Rightarrow> ('p \<Rightarrow> bool) \<Rightarrow> ('s \<Rightarrow> bool) \<Rightarrow> ('p, 's) daemon_op list \<Rightarrow> ('p, 's) daemon \<Rightarrow> bool"
where
  "all_orderly W P grace fp fs [] d \<longleftrightarrow> True"
| "all_orderly W P grace fp fs (op # ops) d \<longleftrightarrow> orderly W P grace fp fs op d \<and>
     (case daemon_do W P grace op d of Some (Inr _, d) \<Rightarrow> all_orderly W P grace fp fs ops d | _ \<Rightarrow> True)"

lemma after_reach:
  "daemon_reach W P grace fp fs d \<Longrightarrow> all_orderly W P grace fp fs ops d \<Longrightarrow> after W P grace ops d = Some d' \<Longrightarrow>
    daemon_reach W P grace fp fs d'"
proof (induction ops arbitrary: d)
  case (Cons op ops)
  then obtain u d1 where "daemon_do W P grace op d = Some (Inr u, d1)" by (auto split: option.splits prod.splits sum.splits)
  with Cons show ?case by (auto intro: daemon_step)
qed simp

definition demo_chip :: engine where
  "demo_chip = (case engine_new 4 3 of Inr e \<Rightarrow> e | Inl _ \<Rightarrow> undefined)"

lemma demo_chip: "engine_new 4 3 = Inr demo_chip"
  by (simp add: demo_chip_def engine_new_def screen_new_def)

text \<open>The daemon with one leaf, in a given state, and given clients; \<open>k\<close> is the rest of the kernel.\<close>

definition demo_base :: "'p kernel" where
  "demo_base =
     \<lparr>k_next = 2, k_leaves = Map.empty,
      k_events = [\<lparr>ge_id = 1, ge_session = SessionId 1, ge_kind = EvSpawn\<rparr>], k_next_event = 2,
      k_nodes = [NodeId 1 \<mapsto> \<lparr>cn_kind = Workspace, cn_parent = None, cn_children = [Node (NodeId 2)]\<rparr>,
        NodeId 2 \<mapsto> \<lparr>cn_kind = Tab, cn_parent = Some (NodeId 1), cn_children = [Leaf (SessionId 1)]\<rparr>],
      k_next_node = 3\<rparr>"

definition demo_kernel_of :: "'p kernel \<Rightarrow> 'p session \<Rightarrow> 'p kernel" where
  "demo_kernel_of k s = k\<lparr>k_leaves := [SessionId 1 \<mapsto> s]\<rparr>"

definition demo_with :: "'p kernel \<Rightarrow> 'p session \<Rightarrow> 's client list \<Rightarrow> ('p, 's) daemon" where
  "demo_with k s cs =
     \<lparr>dm_kernel = demo_kernel_of k s, dm_workspace_id = NodeId 1, dm_default_id = SessionId 1, dm_clients = cs,
      dm_chip = demo_chip, dm_is_worker = False\<rparr>"

lemma demo_bind: "daemon_bind (Inr s) demo_grid False = Some (Inr (demo_with demo_base s []))"
proof -
  have b: "bump 1 = 2" "bump 2 = 3" by (simp_all add: bump_def)
  have c: "engine_new (unat (ws_cols demo_grid)) (unat (ws_rows demo_grid)) = Inr demo_chip"
    by (simp add: demo_grid_def demo_chip)
  show ?thesis
    by (simp add: c daemon_bind_def kernel_new_def create_node_def allocate_node_id_def allocate_id_def allocate_now b Let_def
        spawn_leaf_with_def record_graph_def attach_leaf_def sat_add_def demo_with_def demo_kernel_of_def demo_base_def
        fun_upd_twist numeral_2_eq_2)
qed

lemma demo_start: "new_session fp s \<Longrightarrow> daemon_reach W P grace fp fs (demo_with demo_base s [])"
  by (rule daemon_start [OF _ demo_bind])

lemma demo_kernel_simps [simp]:
  "k_leaves (demo_kernel_of k s) = [SessionId 1 \<mapsto> s]"
  "put_leaf (SessionId 1) s' (demo_kernel_of k s) = demo_kernel_of k s'"
  "record_graph i e (demo_kernel_of k s) = demo_kernel_of (record_graph i e k) s"
  by (simp_all add: demo_kernel_of_def put_leaf_def record_graph_def)

lemma demo_with_simps [simp]:
  "the_leaf i (demo_with k s cs) = (if i = SessionId 1 then Some s else None)"
  "put_session (SessionId 1) s' (demo_with k s cs) = demo_with k s' cs"
  "dm_clients (demo_with k s cs) = cs" "dm_default_id (demo_with k s cs) = SessionId 1"
  "dm_is_worker (demo_with k s cs) = False" "dm_chip (demo_with k s cs) = demo_chip"
  "(demo_with k s cs)\<lparr>dm_clients := cs'\<rparr> = demo_with k s cs'"
  "dm_kernel (demo_with k s cs) = demo_kernel_of k s"
  "(demo_with k s cs)\<lparr>dm_kernel := demo_kernel_of k' s'\<rparr> = demo_with k' s' cs"
  by (simp_all add: demo_with_def the_leaf_def put_session_def)

lemma demo_forward [simp]:
  "forward P now grace (SessionId 1) f (demo_with k s cs) =
     (let (r, s') = on_frame P now grace f s
      in case r of
           Inr _ \<Rightarrow> (Inr (), demo_with (if is_writer_attach f \<and> \<not> attached s \<and> attached s'
               then record_graph (SessionId 1) EvAttach k else k) s' cs)
         | Inl Dead \<Rightarrow> (Inr (), demo_with k s' cs)
         | Inl e \<Rightarrow> (Inl (DKernel e), demo_with k s' cs))"
  by (auto simp: forward_def kernel_on_frame_def split_beta Let_def split: sum.split kernel_error.split)

abbreviation "W0 \<equiv> logged_sock demo_sock"
abbreviation "P0 \<equiv> logged demo_pty"

lemma receive_demo:
  assumes "cl_stream c = (concat (map frame_bytes fs) # w, l)" "cl_decoder c = []" "fs \<noteq> []"
    and "\<forall>f \<in> set fs. wire_exact f \<and> frame_fits f" "length (concat (map frame_bytes fs)) \<le> READ_CHUNK"
  shows "receive (logged_sock demo_sock) c = (Frames fs, c\<lparr>cl_stream := (w, l)\<rparr>)"
proof -
  have ne: "concat (map frame_bytes fs) \<noteq> []" using assms(3) by (cases fs) (auto simp: frame_bytes_def)
  have t: "take READ_CHUNK (concat (map frame_bytes fs)) = concat (map frame_bytes fs)" using assms(5) by simp
  have "sock_read W0 READ_CHUNK (cl_stream c) = (ReadBytes (concat (map frame_bytes fs)), (w, l))"
    by (simp add: assms(1) logged_sock_def demo_sock_def)
  with ne push_frames [OF assms(4)] assms(2) show ?thesis
    unfolding receive_def Let_def by (cases c) (simp add: t del: concat.simps)
qed

lemmas demo_frames = wire_exact.simps frame_fits_def MAX_FRAME_def READ_CHUNK_def

definition demo_attach :: frame where
  "demo_attach = Attach 7 None PROTOCOL_VERSION False"

definition demo_input :: "byte list" where
  "demo_input = concat (map frame_bytes [demo_attach, Credit 5])"

definition demo_run :: "(byte list \<times> pty_event list, byte list list \<times> byte list) daemon_op list" where
  "demo_run = [Accept ([demo_input], []) True, ReadFrom 0 0, PumpLeaf (SessionId 1), FlushAll [SessionId 1]]"

lemma demo_reads:
  "receive W0 (client_new ([demo_input], [])) = (Frames [demo_attach, Credit 5], client_new ([], []))"
proof -
  have "receive W0 (client_new ([demo_input], [])) =
      (Frames [demo_attach, Credit 5], (client_new ([demo_input], []))\<lparr>cl_stream := ([], [])\<rparr>)"
    unfolding demo_input_def
    by (rule receive_demo) (simp_all add: client_new_def decoder_new_def demo_attach_def demo_frames attach_extra_def)
  then show ?thesis by (simp add: client_new_def)
qed

lemmas demo_eval = client_at_def set_client_def Let_def

lemma demo_session_simps [simp]: "\<not> attached demo_session" "attached (on_attach now grace g False demo_session)"
  by (simp_all add: demo_session_def session_new_def attached_def on_attach_def Let_def take_input_lease_def)

lemma demo_flush:
  assumes "cl_leaf c = Some (SessionId 1)" "cl_protocol c = 1" "cl_outbox c = []" "cl_stream c = ([], [])"
    and "ss_outbound s = [Data [1, 2, 3]]"
  shows "flush_outbound W0 P0 ids (demo_with k s [c]) =
    (Inr (), demo_with k (s\<lparr>ss_outbound := []\<rparr>) [c\<lparr>cl_stream := ([], frame_bytes (Data [1, 2, 3])), cl_outbox := []\<rparr>])"
proof -
  have fits: "encode (Data [1, 2, 3]) = Inr (frame_bytes (Data [1, 2, 3]))"
    by (simp add: encode_eq_Inr frame_fits_def MAX_FRAME_def)
  have ne: "frame_bytes (Data [1, 2, 3]) \<noteq> []" by (simp add: frame_bytes_def)
  have trim: "trim_unclaimed ids [SessionId 1] (demo_kernel_of k s) = demo_kernel_of k s"
    by (induction ids) simp_all
  show ?thesis
    using fits ne assms
    by (simp add: flush_outbound_def claimed_def trim pop_all_eq Let_def PROTOCOL_2_def write_outbox.simps
        logged_sock_def demo_sock_def map_filter_simps)
qed

lemma demo_runs:
  obtains k s c where "after W0 P0 0 demo_run (demo_with demo_base demo_session []) = Some (demo_with k s [c])"
    "cl_leaf c = Some (SessionId 1)" "snd (cl_stream c) = frame_bytes (Data [1, 2, 3])"
    "all_orderly W0 P0 0 (\<lambda>p. snd p = []) (\<lambda>w. snd w = []) demo_run (demo_with demo_base demo_session [])"
proof -
  define k :: "(byte list \<times> pty_event list) kernel" where "k = record_graph (SessionId 1) EvAttach demo_base"
  define s0 where "s0 = on_attach 0 0 7 False demo_session"
  define s where "s = s0\<lparr>ss_credit := 5\<rparr>"
  have s0: "ss_credit s0 = 0"
    by (simp add: s0_def on_attach_def demo_session_def session_new_def Let_def take_input_lease_def)
  define c where "c = (client_new ([], [] :: byte list) :: (byte list list \<times> byte list) client)
    \<lparr>cl_leaf := Some (SessionId 1), cl_observe := False, cl_protocol := 1, cl_credit := 5\<rparr>"
  let ?d0 = "demo_with demo_base demo_session [client_new ([demo_input], [])]"
  let ?d1 = "demo_with demo_base demo_session [client_new ([], []) :: (byte list list \<times> byte list) client]"
  have att: "dispatch_frame P0 0 0 0 demo_attach ?d1 = Some (Inr (), demo_with k s0 [c\<lparr>cl_credit := 0\<rparr>])"
    by (simp add: demo_attach_def dispatch_attach_def protocol_supported_def resolve_attach_def demo_eval
        PROTOCOL_VERSION_def PROTOCOL_2_def k_def s0_def c_def client_new_def)
  have cred: "dispatch_frame P0 0 0 0 (Credit 5) (demo_with k s0 [c\<lparr>cl_credit := 0\<rparr>]) =
      Some (Inr (), demo_with k s [c])"
    by (simp add: dispatch_other_def take_credit_def demo_eval c_def client_new_def s_def s0 sat_add_def)
  have read: "daemon_do W0 P0 0 (ReadFrom 0 0) ?d0 = Some (Inr (), demo_with k s [c])"
    using att cred by (simp add: read_client_def client_at_def set_client_def demo_reads)
  have cf: "cl_leaf c = Some (SessionId 1)" "cl_protocol c = 1" "cl_outbox c = []" "cl_stream c = ([], [])"
    by (simp_all add: c_def client_new_def)
  have sf: "ss_credit s = 5" "ss_outbound s = []" "ss_pty s = ([1, 2, 3], [])" "ss_attach_generation s = Some 7"
    by (simp_all add: s_def s0_def on_attach_def demo_session_def session_new_def Let_def take_input_lease_def)
  define s1 where "s1 = snd (on_pty_readable P0 s)"
  have s1: "on_pty_readable P0 s = (Inr 3, s1)" "ss_outbound s1 = [Data [1, 2, 3]]" "ss_credit s1 = 2"
    "fst (ss_pty s1) = []"
    by (simp_all add: s1_def on_pty_readable_def read_pty_def Let_def sf logged_def demo_pty_def READ_BUF_def
        take_in_def enqueue_outbound_def has_listeners_def)
  define s2 where "s2 = snd (on_pty_readable P0 s1)"
  have s2: "on_pty_readable P0 s1 = (Inr 0, s2)" "ss_outbound s2 = [Data [1, 2, 3]]"
    using s1(2-4) by (cases "ss_pty s1"; simp add: s2_def on_pty_readable_def read_pty_def Let_def logged_def demo_pty_def
        note_stalled_read_def)+
  have pump: "daemon_do W0 P0 0 (PumpLeaf (SessionId 1)) (demo_with k s [c]) = Some (Inr (), demo_with k s2 [c])"
    using s1 s2 sf by (simp add: pump_leaf.simps [of P0 _ "demo_with k s [c]"] pump_leaf.simps [of P0 _ "demo_with k s1 [c]"]
        speaks2_def PROTOCOL_2_def cf)
  let ?c = "c\<lparr>cl_stream := ([], frame_bytes (Data [1, 2, 3])), cl_outbox := []\<rparr>"
  have flush: "daemon_do W0 P0 0 (FlushAll [SessionId 1]) (demo_with k s2 [c]) = Some (Inr (), demo_with k (s2\<lparr>ss_outbound := []\<rparr>) [?c])"
    using demo_flush [OF cf s2(2)] by simp
  have run: "after W0 P0 0 demo_run (demo_with demo_base demo_session []) = Some (demo_with k (s2\<lparr>ss_outbound := []\<rparr>) [?c])"
    using read pump flush by (simp add: demo_run_def accept_client_def del: daemon_do.simps(2-7))
  have once: "attach_once P0 0 0 0 [demo_attach, Credit 5] ?d1"
    using att cred by (simp add: may_attach_def demo_eval client_new_def)
  have ord: "all_orderly W0 P0 0 (\<lambda>p. snd p = []) (\<lambda>w. snd w = []) demo_run (demo_with demo_base demo_session [])"
    using read pump flush once
    by (simp add: demo_run_def accept_client_def demo_reads client_at_def set_client_def del: daemon_do.simps(2-7) attach_once.simps)
  show thesis by (rule that [OF run _ _ ord]) (simp_all add: c_def)
qed

section \<open>Properties of the daemon\<close>

text \<open>
  C26: one writer per leaf. In every run in which clients attach once, a leaf has at most one client
  that is not an observer, the kernel counts it as attached exactly when it has one, it counts its
  observers exactly, and no client sits on a leaf that does not exist.
\<close>

theorem one_writer_per_leaf:
  assumes "daemon_reach W P grace fp fs d"
  shows "headcount (writes_to i) (dm_clients d) \<le> 1 \<and>
    (case the_leaf i d of
       None \<Rightarrow> \<forall>c \<in> set (dm_clients d). cl_leaf c \<noteq> Some i
     | Some s \<Rightarrow> (attached s \<longleftrightarrow> headcount (writes_to i) (dm_clients d) = 1) \<and>
         ss_observers s = headcount (watches i) (dm_clients d))"
proof -
  have "seats i (the_leaf i d) (dm_clients d)" using seating.inv_reach [OF assms] by (simp add: claims_ok_def)
  then show ?thesis
    by (cases "the_leaf i d") (auto simp: seats_def headcount_def filter_empty_conv writes_to_def watches_def)
qed

lemma demo_new: "new_session (\<lambda>p. snd p = []) demo_session"
  by (simp add: new_session_def demo_session_def session_new_def)

lemma one_writer_per_leaf_witness:
  "\<exists>k s c. daemon_reach W0 P0 0 (\<lambda>p. snd p = []) (\<lambda>w. snd w = []) (demo_with k s [c]) \<and>
    cl_leaf c = Some (SessionId 1) \<and> ss_observers s = headcount (watches (SessionId 1)) [c]"
proof (rule demo_runs)
  fix k s c
  assume run: "after W0 P0 0 demo_run (demo_with demo_base demo_session []) = Some (demo_with k s [c])"
    "cl_leaf c = Some (SessionId 1)" "snd (cl_stream c) = frame_bytes (Data [1, 2, 3])"
    "all_orderly W0 P0 0 (\<lambda>p. snd p = []) (\<lambda>w. snd w = []) demo_run (demo_with demo_base demo_session [])"
  note r = after_reach [OF demo_start [OF demo_new] run(4,1)]
  from one_writer_per_leaf [OF r, of "SessionId 1"] r run(2) show ?thesis by auto
qed

text \<open>
  C27: what a client is sent is well formed and true. In every run in which clients attach once,
  the bytes its socket accepted followed by those waiting for it are the encodings of a sequence of
  frames that its protocol has: refusals before it has a leaf, then data for protocol 1, checkpoints
  and deltas for protocol 2. While the leaf has put out at most \<open>2 ^ 64 - 1\<close> bytes, what these frames
  carry is true of it. The deltas are slices of its output at the offsets they name, in order and
  without overlap. A checkpoint lies between them, and its blob and hash are those of the grid of a
  fresh emulator of some size that was fed what the ring keeps of the output up to the offset that the
  checkpoint names. The bytes of a data frame are a piece of the output, or the
  repaint that a resync makes of what the ring had kept at some point of the output; no order is
  claimed among data frames. A reader that has got any part of the stream, in any pieces,
  decodes the first of these frames and never an error.
\<close>

theorem clients_are_told_the_truth:
  assumes "daemon_reach (logged_sock W) (logged P) grace (\<lambda>p. snd p = []) (\<lambda>w. snd w = []) d"
    and "c \<in> set (dm_clients d)"
  shows "\<exists>fs encoded. list_all2 (\<lambda>f bs. encode f = Inr bs) fs encoded \<and>
    snd (cl_stream c) @ cl_outbox c = concat encoded \<and>
    list_all (speaks (cl_leaf c) (cl_protocol c)) fs \<and>
    (length (heard snd d c) \<le> u64_max \<longrightarrow> slices (heard snd d c) 0 fs) \<and>
    (\<forall>chunks. concat chunks = snd (cl_stream c) \<longrightarrow> (\<exists>k rest. read_stream chunks = (Inr (take k fs), rest)))"
proof -
  from logged_daemon.wiring.inv_reach [OF assms(1)] assms(2) obtain fs where
    fs: "snd (cl_stream c) @ cl_outbox c = concat (map frame_bytes fs)"
    "list_all (\<lambda>f. frame_fits f \<and> speaks (cl_leaf c) (cl_protocol c) f) fs"
    "length (heard snd d c) \<le> u64_max \<longrightarrow> slices (heard snd d c) 0 fs"
    by (auto simp: wire_ok_def told_so_def)
  have fine: "\<forall>f \<in> set fs. wire_exact f \<and> frame_fits f"
  proof
    fix f assume "f \<in> set fs"
    with fs(2) have "frame_fits f" "speaks (cl_leaf c) (cl_protocol c) f" by (auto simp: list_all_iff)
    then show "wire_exact f \<and> frame_fits f" by (cases f) auto
  qed
  have enc: "list_all2 (\<lambda>f bs. encode f = Inr bs) fs (map frame_bytes fs)"
    using fine by (simp add: list_all2_map2 list_all2_same encode_eq_Inr)
  have "\<exists>k rest. read_stream chunks = (Inr (take k fs), rest)" if "concat chunks = snd (cl_stream c)" for chunks
  proof -
    have "concat (map frame_bytes fs) = ([] @ concat chunks) @ cl_outbox c" using fs(1) that by simp
    from attach.chunks_prefix [OF fine this attach.step_nil] obtain hs ts rest where
      "fs = hs @ ts" "push_chunks decoder_loop [] chunks = (Inr hs, rest)" by auto
    then show ?thesis by (intro exI [of _ "length hs"] exI [of _ rest]) (simp add: read_stream_def decoder_new_def)
  qed
  with fs enc show ?thesis
    by (intro exI [of _ fs] exI [of _ "map frame_bytes fs"]) (auto simp: list_all_iff)
qed

lemma clients_are_told_the_truth_witness:
  "\<exists>k s c fs encoded. daemon_reach W0 P0 0 (\<lambda>p. snd p = []) (\<lambda>w. snd w = []) (demo_with k s [c]) \<and>
    list_all2 (\<lambda>f bs. encode f = Inr bs) fs encoded \<and> snd (cl_stream c) = frame_bytes (Data [1, 2, 3]) \<and>
    snd (cl_stream c) @ cl_outbox c = concat encoded"
proof (rule demo_runs)
  fix k s c
  assume run: "after W0 P0 0 demo_run (demo_with demo_base demo_session []) = Some (demo_with k s [c])"
    "cl_leaf c = Some (SessionId 1)" "snd (cl_stream c) = frame_bytes (Data [1, 2, 3])"
    "all_orderly W0 P0 0 (\<lambda>p. snd p = []) (\<lambda>w. snd w = []) demo_run (demo_with demo_base demo_session [])"
  note r = after_reach [OF demo_start [OF demo_new] run(4,1)]
  have "c \<in> set (dm_clients (demo_with k s [c]))" by simp
  from clients_are_told_the_truth [OF r this] r run(3) show ?thesis by blast
qed

section \<open>The flush\<close>

text \<open>What a flush has for a client: the frames of its leaf, without data for protocol 2.\<close>

definition waiting :: "('p, 's) daemon \<Rightarrow> 's client \<Rightarrow> frame list" where
  "waiting d c =
     filter (\<lambda>f. \<not> (cl_protocol c = PROTOCOL_2 \<and> is_data f))
       (case cl_leaf c of None \<Rightarrow> [] | Some i \<Rightarrow> (case the_leaf i d of None \<Rightarrow> [] | Some s \<Rightarrow> ss_outbound s))"

lemma queue_frames_all:
  "queue_frames protocol fs out = (Inr (), out') \<Longrightarrow>
    out' = out @ concat (map frame_bytes (filter (\<lambda>f. \<not> (protocol = PROTOCOL_2 \<and> is_data f)) fs))"
  by (induction protocol fs out rule: queue_frames.induct) (auto simp: encode_eq_Inr split: if_splits sum.splits)

text \<open>The pending frames are those of the leaves of the clients, which are left with none.\<close>

lemma pending_exact:
  assumes "take_pending cl (trim_unclaimed ids cl k) Map.empty = (pending, k')" and "i \<in> set cl"
  shows "pending i = Some (case k_leaves k i of None \<Rightarrow> [] | Some s \<Rightarrow> ss_outbound s) \<and>
    (\<forall>s. k_leaves k' i = Some s \<longrightarrow> ss_outbound s = [])"
proof -
  have "pending = fst (take_pending cl (trim_unclaimed ids cl k) Map.empty)"
    "k' = snd (take_pending cl (trim_unclaimed ids cl k) Map.empty)" using assms(1) by simp_all
  with assms(2) show ?thesis by (auto simp: take_pending_eq trim_unclaimed_eq)
qed

lemma flush_clients_all:
  assumes eager: "\<And>bs w. bs \<noteq> [] \<Longrightarrow> \<exists>n w'. sock_write W bs w = (Wrote n, w') \<and> 0 < n"
    and log: "sock_log W sent" and "flush_clients W pending cs = (Inr (Some k), cs') \<or> flush_clients W pending cs = (Inr None, cs')"
  shows "list_all2 (\<lambda>c c'. cl_outbox c' = [] \<and> sent (cl_stream c') = sent (cl_stream c) @ cl_outbox c @
      concat (map frame_bytes (filter (\<lambda>f. \<not> (cl_protocol c = PROTOCOL_2 \<and> is_data f))
        (case cl_leaf c of None \<Rightarrow> [] | Some i \<Rightarrow> (case pending i of None \<Rightarrow> [] | Some fs \<Rightarrow> fs))))) cs cs' \<and>
    flush_clients W pending cs = (Inr None, cs')"
  using assms(3)
proof (induction cs arbitrary: cs' k)
  case (Cons c cs)
  let ?fs = "case cl_leaf c of None \<Rightarrow> [] | Some i \<Rightarrow> (case pending i of None \<Rightarrow> [] | Some fs \<Rightarrow> fs)"
  obtain r out where q: "queue_frames (cl_protocol c) ?fs (cl_outbox c) = (r, out)" by force
  obtain w where w: "write_outbox W (cl_stream c) out = (Inr (), w, [])" using eager_write [OF eager] by blast
  obtain r' cs1 where f: "flush_clients W pending cs = (r', cs1)" by force
  have r: "r = Inr ()" using Cons.prems q by (cases r) (auto simp: Let_def)
  have sent: "sent w = sent (cl_stream c) @ out" using sock_log.write_outbox_sent [OF log w] by simp
  have "cs' = c\<lparr>cl_stream := w, cl_outbox := []\<rparr> # cs1 \<and> (\<exists>k. r' = Inr (Some k) \<or> r' = Inr None)"
    using Cons.prems q r w f by (cases r') (auto simp: Let_def)
  with Cons.IH [of _ cs1] f q r w sent queue_frames_all [of "cl_protocol c" ?fs "cl_outbox c" out] show ?case
    by (auto simp: Let_def)
qed auto

text \<open>
  C28: a flush delivers. If every write to a socket takes at least one byte and the flush returns
  without an error, it keeps every client, empties every outbox and every queue of a leaf with a
  client, and each socket has got exactly what was in the client's outbox followed by the encodings
  of the frames its leaf had waiting, in order, without the data frames if its protocol is 2.
\<close>

theorem flush_delivers:
  assumes "\<And>bs w. bs \<noteq> [] \<Longrightarrow> \<exists>n w'. sock_write W bs w = (Wrote n, w') \<and> 0 < n"
    and "flush_outbound (logged_sock W) P ids d = (Inr (), d')"
  shows "list_all2 (\<lambda>c c'. cl_outbox c' = [] \<and>
      snd (cl_stream c') = snd (cl_stream c) @ cl_outbox c @ concat (map frame_bytes (waiting d c)))
      (dm_clients d) (dm_clients d') \<and>
    (\<forall>c \<in> set (dm_clients d). \<forall>i s. cl_leaf c = Some i \<longrightarrow> the_leaf i d' = Some s \<longrightarrow> ss_outbound s = [])"
proof -
  have eager: "bs \<noteq> [] \<Longrightarrow> \<exists>n w'. sock_write (logged_sock W) bs w = (Wrote n, w') \<and> 0 < n" for bs w
    using assms(1) [of bs "fst w"] by (cases w) (auto simp: logged_sock_def)
  let ?cl = "claimed d"
  let ?k = "trim_unclaimed ids ?cl (dm_kernel d)"
  obtain pending k where t: "take_pending ?cl ?k Map.empty = (pending, k)" by force
  obtain r cs where f: "flush_clients (logged_sock W) pending (dm_clients d) = (r, cs)" by force
  have log: "sock_log (logged_sock W) snd" ..
  have "\<exists>k. r = Inr (Some k) \<or> r = Inr None" using assms(2) t f by (cases r) (auto simp: flush_outbound_def Let_def)
  then have all: "list_all2 (\<lambda>c c'. cl_outbox c' = [] \<and> snd (cl_stream c') = snd (cl_stream c) @ cl_outbox c @
      concat (map frame_bytes (filter (\<lambda>f. \<not> (cl_protocol c = PROTOCOL_2 \<and> is_data f))
        (case cl_leaf c of None \<Rightarrow> [] | Some i \<Rightarrow> (case pending i of None \<Rightarrow> [] | Some fs \<Rightarrow> fs)))))
      (dm_clients d) cs" "r = Inr None"
    using flush_clients_all [OF eager log, of pending "dm_clients d" _ cs] f by auto
  have d': "d' = d\<lparr>dm_kernel := k, dm_clients := cs\<rparr>"
    using assms(2) t f all(2) by (simp add: flush_outbound_def Let_def)
  have mem: "c \<in> set (dm_clients d) \<Longrightarrow> cl_leaf c = Some i \<Longrightarrow> i \<in> set ?cl" for c i
    by (auto simp: claimed_def List.map_filter_def intro!: image_eqI [of _ _ c])
  have p: "pending i = Some (case the_leaf i d of None \<Rightarrow> [] | Some s \<Rightarrow> ss_outbound s) \<and>
      (\<forall>s. k_leaves k i = Some s \<longrightarrow> ss_outbound s = [])" if "i \<in> set ?cl" for i
    using pending_exact [OF t that] by (simp add: the_leaf_def)
  have "list_all2 (\<lambda>c c'. cl_outbox c' = [] \<and>
      snd (cl_stream c') = snd (cl_stream c) @ cl_outbox c @ concat (map frame_bytes (waiting d c))) (dm_clients d) cs"
    using all(1)
  proof (rule list.rel_mono_strong)
    fix c c' assume "c \<in> set (dm_clients d)"
      "cl_outbox c' = [] \<and> snd (cl_stream c') = snd (cl_stream c) @ cl_outbox c @
        concat (map frame_bytes (filter (\<lambda>f. \<not> (cl_protocol c = PROTOCOL_2 \<and> is_data f))
          (case cl_leaf c of None \<Rightarrow> [] | Some i \<Rightarrow> (case pending i of None \<Rightarrow> [] | Some fs \<Rightarrow> fs))))"
    with mem p show "cl_outbox c' = [] \<and>
        snd (cl_stream c') = snd (cl_stream c) @ cl_outbox c @ concat (map frame_bytes (waiting d c))"
      by (cases "cl_leaf c") (simp_all add: waiting_def)
  qed
  with d' mem p show ?thesis by (auto simp: the_leaf_def)
qed

lemma demo_waiting:
  "cl_leaf c = Some (SessionId 1) \<Longrightarrow> cl_protocol c = 1 \<Longrightarrow> waiting (demo_with k s cs) c = ss_outbound s"
  by (simp add: waiting_def PROTOCOL_2_def)

lemma flush_delivers_witness:
  "\<exists>d d' c'. flush_outbound (logged_sock demo_sock) P0 [] d = (Inr (), d') \<and> dm_clients d' = [c'] \<and>
    cl_outbox c' = [] \<and> snd (cl_stream c') = frame_bytes (Data [1, 2, 3])"
proof -
  let ?c = "(client_new ([], []) :: (byte list list \<times> byte list) client)\<lparr>cl_leaf := Some (SessionId 1), cl_protocol := 1\<rparr>"
  let ?d = "demo_with demo_base (demo_session\<lparr>ss_outbound := [Data [1, 2, 3]]\<rparr>) [?c]"
  obtain d' where f: "flush_outbound W0 P0 [] ?d = (Inr (), d')"
    using demo_flush [of ?c "demo_session\<lparr>ss_outbound := [Data [1, 2, 3]]\<rparr>" "[]" demo_base] by (auto simp: client_new_def)
  have "\<And>bs w. bs \<noteq> [] \<Longrightarrow> \<exists>n w'. sock_write demo_sock bs w = (Wrote n, w') \<and> 0 < n" by (simp add: demo_sock_def)
  from flush_delivers [OF this f, unfolded demo_with_simps] obtain c' where "dm_clients d' = [c']" "cl_outbox c' = []"
    "snd (cl_stream c') = frame_bytes (Data [1, 2, 3])"
    by (auto simp: demo_waiting list_all2_Cons1 client_new_def)
  with f show ?thesis by blast
qed

text \<open>
  A failed socket costs the others their frames. When two clients sit on a leaf and the socket of
  the first fails during a flush, that client is dropped and the flush still returns without an error,
  but the frames that were waiting in the leaf have left its queue and are not in the outbox of the
  second client either: nobody gets them.
\<close>

theorem failed_socket_loses_frames:
  assumes "dm_clients d = c1 # c2 # cs" and "cl_leaf c1 = Some i" and "the_leaf i d = Some s"
    and "\<forall>f \<in> set (ss_outbound s). frame_fits f"
    and "fst (write_outbox W (cl_stream c1) (cl_outbox c1 @ concat (map frame_bytes (waiting d c1)))) = Inl e"
  shows "\<exists>d'. flush_outbound W P ids d = (Inr (), d') \<and> dm_clients d' = c2 # cs \<and>
    (\<forall>s'. the_leaf i d' = Some s' \<longrightarrow> ss_outbound s' = [])"
proof -
  let ?cl = "claimed d"
  let ?k = "trim_unclaimed ids ?cl (dm_kernel d)"
  obtain pending k where t: "take_pending ?cl ?k Map.empty = (pending, k)" by force
  have i: "i \<in> set ?cl" using assms(1,2) by (simp add: claimed_def map_filter_simps)
  then have p: "pending i = Some (ss_outbound s)" "\<forall>s. k_leaves k i = Some s \<longrightarrow> ss_outbound s = []"
    using pending_exact [OF t i] assms(3) by (simp_all add: the_leaf_def)
  have q: "queue_frames protocol fs out =
      (Inr (), out @ concat (map frame_bytes (filter (\<lambda>f. \<not> (protocol = PROTOCOL_2 \<and> is_data f)) fs)))"
    if "\<forall>f \<in> set fs. frame_fits f" for protocol fs out
    using that by (induction protocol fs out rule: queue_frames.induct) (auto simp: encode_eq_Inr [THEN iffD2])
  obtain w out where w: "write_outbox W (cl_stream c1) (cl_outbox c1 @ concat (map frame_bytes (waiting d c1))) = (Inl e, w, out)"
    using assms(5) by (metis prod.collapse)
  let ?c = "c1\<lparr>cl_stream := w, cl_outbox := out\<rparr>"
  have "flush_clients W pending (dm_clients d) = (Inr (Some 0), ?c # c2 # cs)"
    using q [OF assms(4)] w assms(1-3) p(1) by (simp add: waiting_def)
  then have "flush_outbound W P ids d = (Inr (), drop_client P 0 (d\<lparr>dm_kernel := k, dm_clients := ?c # c2 # cs\<rparr>))"
    using t by (simp add: flush_outbound_def)
  moreover have "dm_clients (drop_client P 0 (d\<lparr>dm_kernel := k, dm_clients := ?c # c2 # cs\<rparr>)) = c2 # cs"
    by (simp add: drop_client_def client_at_def Let_def split: option.split)
  moreover have "ss_outbound s' = []"
    if "the_leaf i (drop_client P 0 (d\<lparr>dm_kernel := k, dm_clients := ?c # c2 # cs\<rparr>)) = Some s'" for s'
    using that p(2) assms(2)
    by (auto simp: drop_client_def client_at_def Let_def the_leaf_def put_session_def detach_def release_observer_def
        split: option.splits if_splits)
  ultimately show ?thesis by blast
qed

definition broken_sock :: "unit sock_ops" where
  "broken_sock = \<lparr>sock_read = (\<lambda>_ w. (ReadWouldBlock, w)), sock_write = (\<lambda>_ w. (WriteFailed, w))\<rparr>"

lemma failed_socket_loses_frames_witness:
  "\<exists>d d' :: (byte list \<times> pty_event list, unit) daemon. \<exists>c2 s. flush_outbound broken_sock P0 [] d = (Inr (), d') \<and>
    the_leaf (SessionId 1) d = Some s \<and> ss_outbound s = [Data [1, 2, 3]] \<and>
    dm_clients d' = [c2] \<and> cl_leaf c2 = Some (SessionId 1) \<and> cl_outbox c2 = [] \<and>
    (\<forall>s. the_leaf (SessionId 1) d' = Some s \<longrightarrow> ss_outbound s = [])"
proof -
  let ?c = "(client_new ())\<lparr>cl_leaf := Some (SessionId 1), cl_protocol := 1, cl_observe := True\<rparr>"
  let ?s = "demo_session\<lparr>ss_outbound := [Data [1, 2, 3]]\<rparr>"
  let ?d = "demo_with demo_base ?s [?c, ?c] :: (byte list \<times> pty_event list, unit) daemon"
  have "frame_bytes (Data [1, 2, 3]) \<noteq> []" by (simp add: frame_bytes_def)
  then have w: "fst (write_outbox broken_sock (cl_stream ?c) (cl_outbox ?c @ concat (map frame_bytes (waiting ?d ?c)))) = Inl DIo"
    by (simp add: demo_waiting write_outbox.simps broken_sock_def client_new_def)
  have "\<forall>f \<in> set (ss_outbound ?s). frame_fits f" by (simp add: frame_fits_def MAX_FRAME_def)
  from failed_socket_loses_frames [of ?d ?c ?c "[]" "SessionId 1" ?s, OF _ _ _ this w, of P0 "[]"] obtain d' where
    "flush_outbound broken_sock P0 [] ?d = (Inr (), d')" "dm_clients d' = [?c]"
    "\<forall>s'. the_leaf (SessionId 1) d' = Some s' \<longrightarrow> ss_outbound s' = []" by auto
  then show ?thesis
    by (intro exI [of _ ?d] exI [of _ d'] exI [of _ ?c] exI [of _ ?s]) (simp add: client_new_def)
qed

section \<open>The pump\<close>

lemma credited_fanout:
  assumes "\<forall>m. protocol1_writer_credit cs i = Some m \<longrightarrow> length bs \<le> m"
    and "fst (fanout_clients i off bs cs) = Inr ()"
  shows "protocol1_writer_credit (snd (fanout_clients i off bs cs)) i =
    map_option (\<lambda>m. m - length bs) (protocol1_writer_credit cs i)"
  using assms
proof (induction cs)
  case (Cons c cs)
  obtain r cs' where f: "fanout_clients i off bs cs = (r, cs')" by force
  have r: "r = Inr ()" using Cons.prems(2) f
    by (cases r) (auto simp: Let_def split: if_splits option.splits sum.splits)
  have rest: "protocol1_writer_credit cs' i = map_option (\<lambda>m. m - length bs) (protocol1_writer_credit cs i)"
    using Cons.IH Cons.prems(1) f r by (auto split: if_splits option.splits)
  show ?case
  proof (cases "cl_leaf c = Some i \<and> \<not> cl_observe c \<and> cl_protocol c \<noteq> PROTOCOL_2")
    case True
    then have "length bs \<le> cl_credit c" using Cons.prems(1) by (auto split: option.splits)
    then have "live_chunk (cl_credit c) (length bs) = Some (length bs)" by (simp add: live_chunk_def)
    with True Cons.prems(2) f rest show ?thesis
      by (auto simp: Let_def split: option.split sum.splits)
  next
    case False
    with Cons.prems(2) f rest show ?thesis
      by (auto simp: Let_def split: option.split sum.splits)
  qed
qed simp

lemma put_speaks [simp]: "speaks2 i (put_session j s d) = speaks2 i d" "dm_is_worker (put_session j s d) = dm_is_worker d"
  by (simp_all add: speaks2_def put_session_def)

lemma fanout_same_speakers:
  "list_all2 (\<lambda>c c'. cl_leaf c' = cl_leaf c \<and> cl_protocol c' = cl_protocol c) cs (snd (fanout_clients i off bs cs))"
  by (induction cs) (auto simp: Let_def split_beta list_all2_refl split: option.split sum.split)

lemma fanout_speaks2:
  assumes "fanout_pty_bytes i off bs d = (r, d')"
  shows "speaks2 i d' = speaks2 i d" "dm_is_worker d' = dm_is_worker d" "the_leaf j d' = the_leaf j d"
proof -
  have d': "d' = d\<lparr>dm_clients := snd (fanout_clients i off bs (dm_clients d))\<rparr>"
    using assms by (simp add: fanout_pty_bytes_def split_beta)
  have "list_ex (\<lambda>c. cl_leaf c = Some i \<and> cl_protocol c = PROTOCOL_2) cs' = list_ex (\<lambda>c. cl_leaf c = Some i \<and> cl_protocol c = PROTOCOL_2) cs"
    if "list_all2 (\<lambda>c c'. cl_leaf c' = cl_leaf c \<and> cl_protocol c' = cl_protocol c) cs cs'" for cs cs' :: "'b client list"
    using that by (induction rule: list_all2_induct) auto
  from this [OF fanout_same_speakers] show "speaks2 i d' = speaks2 i d" by (simp add: d' speaks2_def)
  show "dm_is_worker d' = dm_is_worker d" "the_leaf j d' = the_leaf j d" by (simp_all add: d')
qed

lemma drain_sized:
  "drain_pty_at_most P mx s = (Inr (Some bs), s') \<Longrightarrow>
    bs \<noteq> [] \<and> length bs \<le> READ_BUF \<and> (\<forall>m. mx = Some m \<longrightarrow> length bs \<le> m) \<and> ss_child_exit s' = ss_child_exit s"
  by (auto simp: drain_pty_at_most_def read_pty_def Let_def take_in_def record_event_def
      split: if_splits sum.splits prod.splits)

lemma pump_credited:
  "protocol1_writer_credit (dm_clients d) i = Some m \<Longrightarrow> speaks2 i d \<or> dm_is_worker d \<Longrightarrow> pump_leaf P i d \<noteq> None"
proof (induction m arbitrary: d rule: less_induct)
  case (less m)
  have "pump_leaf P i d' \<noteq> None" if r: "pump_round P i d = Inr d'" for d'
  proof -
    obtain s s' bs where s: "the_leaf i d = Some s" "0 < m" "drain_pty_at_most P (Some m) s = (Inr (Some bs), s')"
      "fanout_pty_bytes i (ss_bytes_delivered s') bs (put_session i s' d) = (Inr (), d')"
      using r less.prems
      by (auto simp: pump_round_def Let_def split: option.splits if_splits prod.splits sum.splits)
    have bs: "bs \<noteq> []" "length bs \<le> m" using drain_sized [OF s(3)] by simp_all
    have "protocol1_writer_credit (dm_clients d') i = Some (m - length bs)"
      using credited_fanout [of "dm_clients d" i bs "ss_bytes_delivered s'"] s(4) less.prems(1) bs(2)
      by (auto simp: fanout_pty_bytes_def split_beta)
    moreover have "speaks2 i d' \<or> dm_is_worker d'"
      using fanout_speaks2 [OF s(4)] less.prems(2) by simp
    moreover have "m - length bs < m" using bs s(2) by (cases bs) auto
    ultimately show ?thesis using less.IH by blast
  qed
  then show ?case by (subst pump_rounds) (simp split: sum.split)
qed

lemma readable_spends:
  "on_pty_readable P s = (Inr n, s') \<Longrightarrow> 0 < n \<Longrightarrow> ss_credit s' + n = ss_credit s"
  by (auto simp: on_pty_readable_def read_pty_def Let_def take_in_def record_event_def enqueue_outbound_def
      split: if_splits sum.splits prod.splits)

lemma pump_plain: "the_leaf i d = Some s \<Longrightarrow> \<not> (speaks2 i d \<or> dm_is_worker d) \<Longrightarrow> pump_leaf P i d \<noteq> None"
proof (induction "ss_credit s" arbitrary: d s rule: less_induct)
  case less
  have "pump_leaf P i d' \<noteq> None" if r: "pump_round P i d = Inr d'" for d'
  proof -
    obtain n s' where n: "on_pty_readable P s = (Inr n, s')" "0 < n" "d' = put_session i s' d"
      using r less.prems by (auto simp: pump_round_def Let_def split: if_splits prod.splits sum.splits)
    have "ss_credit s' < ss_credit s" using readable_spends [OF n(1,2)] n(2) by simp
    moreover have "\<not> (speaks2 i d' \<or> dm_is_worker d')" using less.prems(2) n(3) by simp
    ultimately show ?thesis using less.hyps n(3) by simp
  qed
  then show ?case by (subst pump_rounds) (simp split: sum.split)
qed

lemma readable_reads:
  assumes runs_dry: "\<And>n p bs p'. pty_read P n p = (Inr bs, p') \<Longrightarrow> bs \<noteq> [] \<Longrightarrow> left p' < (left p :: nat)"
  shows "on_pty_readable P s = (Inr n, s') \<Longrightarrow> 0 < n \<Longrightarrow> left (ss_pty s') < left (ss_pty s)"
    and "drain_pty_at_most P mx s = (Inr (Some bs), s') \<Longrightarrow> left (ss_pty s') < left (ss_pty s)"
  by (auto simp: on_pty_readable_def drain_pty_at_most_def read_pty_def Let_def take_in_def record_event_def
      enqueue_outbound_def split: if_splits sum.splits prod.splits dest!: runs_dry)

lemma pump_dry:
  assumes runs_dry: "\<And>n p bs p'. pty_read P n p = (Inr bs, p') \<Longrightarrow> bs \<noteq> [] \<Longrightarrow> left p' < (left p :: nat)"
  shows "the_leaf i d = Some s \<Longrightarrow> pump_leaf P i d \<noteq> None"
proof (induction "left (ss_pty s)" arbitrary: d s rule: less_induct)
  case less
  have "pump_leaf P i d' \<noteq> None" if r: "pump_round P i d = Inr d'" for d'
  proof (cases "speaks2 i d \<or> dm_is_worker d")
    case True
    then obtain s' mx bs where s: "drain_pty_at_most P mx s = (Inr (Some bs), s')"
      "fanout_pty_bytes i (ss_bytes_delivered s') bs (put_session i s' d) = (Inr (), d')"
      using r less.prems by (auto simp: pump_round_def Let_def split: option.splits if_splits prod.splits sum.splits)
    have "left (ss_pty s') < left (ss_pty s)" by (rule readable_reads(2) [OF _ s(1)]) (rule runs_dry)
    moreover have "the_leaf i d' = Some s'" using fanout_speaks2(3) [OF s(2), of i] less.prems by simp
    ultimately show ?thesis using less.hyps by blast
  next
    case False
    then obtain n s' where n: "on_pty_readable P s = (Inr n, s')" "0 < n" "d' = put_session i s' d"
      using r less.prems by (auto simp: pump_round_def Let_def split: if_splits prod.splits sum.splits)
    have "left (ss_pty s') < left (ss_pty s)" by (rule readable_reads(1) [OF _ n(1,2)]) (rule runs_dry)
    moreover have "the_leaf i d' = Some s'" using n(3) less.prems by simp
    ultimately show ?thesis using less.hyps by blast
  qed
  then show ?case by (subst pump_rounds) (simp split: sum.split)
qed

text \<open>
  C29: the pump ends where credit or the output ends. Draining one readable leaf returns in each of
  three cases: the leaf has a writer of protocol 1, whose credit bounds what is read, whatever the
  pseudoterminal answers; or the daemon is no worker and no client of the leaf speaks protocol 2, and
  the credit of the session bounds it; or the output runs dry, that is, some number \<open>left\<close> falls with
  every read of the pseudoterminal that returns bytes.
\<close>

theorem pump_returns:
  fixes left :: "'p \<Rightarrow> nat" and d :: "('p, 's) daemon"
  assumes "protocol1_writer_credit (dm_clients d) i \<noteq> None \<or> \<not> speaks2 i d \<and> \<not> dm_is_worker d \<or>
    (\<forall>n p bs p'. pty_read P n p = (Inr bs, p') \<and> bs \<noteq> [] \<longrightarrow> left p' < left p)"
  shows "\<exists>r d'. pump_leaf P i d = Some (r, d')"
proof -
  have "pump_leaf P i d \<noteq> None"
  proof (cases "the_leaf i d")
    case (Some s)
    from assms consider m where "speaks2 i d \<or> dm_is_worker d" "protocol1_writer_credit (dm_clients d) i = Some m"
      | "\<not> (speaks2 i d \<or> dm_is_worker d)"
      | "\<forall>n p bs p'. pty_read P n p = (Inr bs, p') \<and> bs \<noteq> [] \<longrightarrow> left p' < left p" by blast
    then show ?thesis
    proof cases
      case 1
      then show ?thesis by (rule pump_credited [rotated])
    next
      case 2
      then show ?thesis by (rule pump_plain [OF Some])
    next
      case 3
      show ?thesis by (rule pump_dry [OF _ Some, of P left]) (use 3 in blast)
    qed
  qed (subst pump_rounds, simp add: pump_round_def)
  then show ?thesis by auto
qed

text \<open>A leaf with a client of protocol 2 and none of protocol 1, whose program has three bytes to say.\<close>

lemma pump_returns_witness:
  "\<exists>r d'. pump_leaf demo_pty (SessionId 1) (demo_with demo_base (session_new [1, 2, 3] demo_size False)
    [(client_new ())\<lparr>cl_leaf := Some (SessionId 1), cl_protocol := PROTOCOL_2\<rparr>]) = Some (r, d')"
  by (rule pump_returns [where left = length]) (auto simp: demo_pty_def)

lemma fanout_fits: "length bs \<le> READ_BUF \<Longrightarrow> fst (fanout_clients i off bs cs) = Inr ()"
proof (induction cs)
  case (Cons c cs)
  have "frame_fits (live_frame (cl_protocol c) off bs n)" for n
    using Cons.prems by (simp add: frame_fits_def live_frame_def READ_BUF_def MAX_FRAME_def min_le_iff_disj)
  then have e: "encode (live_frame (cl_protocol c) off bs n) = Inr (frame_bytes (live_frame (cl_protocol c) off bs n))" for n
    by (simp add: encode_eq_Inr)
  show ?case using Cons by (auto simp: Let_def split_beta e split: option.split)
qed simp

text \<open>
  A defect: endless output holds the daemon. With a client of protocol 2, or in a worker, and
  without a writer of protocol 1, draining a leaf whose program never stops writing does not return: no
  other leaf is read, no client is served and nothing is flushed from then on. The documents ask for
  the opposite: one flooding pane must not stall another (PRD, NFR-DROP; SPEC-ATTACH, section 5;
  SPEC-TERMINAL-PERFORMANCE, section 5).
\<close>

theorem pump_never_returns:
  assumes endless: "\<And>n p. 0 < n \<Longrightarrow> \<exists>bs p'. pty_read P n p = (Inr bs, p') \<and> bs \<noteq> []"
    and "speaks2 i d \<or> dm_is_worker d" and "protocol1_writer_credit (dm_clients d) i = None"
    and "the_leaf i d = Some s" and "ss_child_exit s = None"
  shows "pump_leaf P i d = None"
proof -
  let ?spins = "\<lambda>d. (speaks2 i d \<or> dm_is_worker d) \<and> protocol1_writer_credit (dm_clients d) i = None \<and>
    (\<exists>s. the_leaf i d = Some s \<and> ss_child_exit s = None)"
  have goes_on: "\<exists>d'. pump_round P i d = Inr d' \<and> ?spins d'" if "?spins d" for d :: "('a, 'b) daemon"
  proof -
    from that obtain s where s: "speaks2 i d \<or> dm_is_worker d" "protocol1_writer_credit (dm_clients d) i = None"
      "the_leaf i d = Some s" "ss_child_exit s = None" by auto
    have buf: "0 < READ_BUF" by (simp add: READ_BUF_def)
    from endless [OF this] obtain bs p where "pty_read P READ_BUF (ss_pty s) = (Inr bs, p)" "bs \<noteq> []" by blast
    then obtain s' where dr: "drain_pty_at_most P None s = (Inr (Some (take READ_BUF bs)), s')"
      using s(4) buf by (simp add: drain_pty_at_most_def read_pty_def)
    have fine: "fst (fanout_clients i (ss_bytes_delivered s') (take READ_BUF bs) (dm_clients d)) = Inr ()"
      by (rule fanout_fits) simp
    then obtain d' where f: "fanout_pty_bytes i (ss_bytes_delivered s') (take READ_BUF bs) (put_session i s' d) = (Inr (), d')"
      "dm_clients d' = snd (fanout_clients i (ss_bytes_delivered s') (take READ_BUF bs) (dm_clients d))"
      by (simp add: fanout_pty_bytes_def split_beta)
    have "protocol1_writer_credit (dm_clients d') i = None" using credited_fanout [OF _ fine] s(2) f(2) by simp
    then have "?spins d'"
      using fanout_speaks2 [OF f(1)] fanout_speaks2(3) [OF f(1), of i] drain_sized [OF dr] s(1,4)
      by simp
    with s dr f(1) show ?thesis by (simp add: pump_round_def)
  qed
  have "?spins d \<Longrightarrow> False" if "pump_leaf P i d = Some x" for x and d :: "('a, 'b) daemon"
    using that
  proof (induction rule: pump_induct)
    case (stops d x)
    with goes_on [of d] show ?case by simp
  next
    case (rounds d d' x)
    with goes_on [of d] show ?case by simp
  qed
  with assms(2-5) show ?thesis by (cases "pump_leaf P i d") auto
qed

definition yes_pty :: "unit pty_ops" where
  "yes_pty =
     \<lparr>pty_write_all = (\<lambda>_ p. (Inr (), p)), pty_read = (\<lambda>_ p. (Inr [121, 10], p)), pty_set_winsize = (\<lambda>_ p. (Inr (), p)),
      pty_try_wait = (\<lambda>p. (Inr None, p)), pty_terminate = (\<lambda>p. (Inr (), p)), pty_fg_cwd = (\<lambda>_. Inl CwdUnreadable)\<rparr>"

lemma pump_never_returns_witness:
  "pump_leaf yes_pty (SessionId 1) (demo_with demo_base (session_new () demo_size False)
    [(client_new ())\<lparr>cl_leaf := Some (SessionId 1), cl_protocol := PROTOCOL_2\<rparr>]) = None"
  by (rule pump_never_returns [where s = "session_new () demo_size False"])
    (simp_all add: yes_pty_def speaks2_def client_new_def session_new_def)

section \<open>Attaching twice, and talking after the end\<close>

text \<open>
  A defect: an observer can become a second writer. When a client that observes a leaf sends an
  attach without the observe flag, the guard that keeps a second writer out does not apply, because the
  leaf is already the client's own; the session refuses the attach, but the client is counted as a
  writer all the same, beside the one that is attached: the leaf has one writer more than before. The
  documents forbid it: a second writer attach is to be refused, and an observer must not write
  (SPEC-ATTACH, section 6; SPEC-GRAPH, section 5).
\<close>

theorem observer_becomes_second_writer:
  assumes "client_at ci d = Some c" and "cl_leaf c = Some i" and "cl_observe c"
    and "the_leaf i d = Some s" and "attached s" and "resolve_attach sid d = Inr i"
  shows "\<exists>d'. dispatch_frame P now grace ci (Attach g sid PROTOCOL_VERSION False) d = Some (Inr (), d') \<and>
    headcount (writes_to i) (dm_clients d') = Suc (headcount (writes_to i) (dm_clients d)) \<and>
    (\<exists>c'. client_at ci d' = Some c' \<and> cl_leaf c' = Some i \<and> \<not> cl_observe c')"
proof -
  let ?f = "forward P now grace i (Attach g sid PROTOCOL_VERSION False) d"
  have "fst ?f = Inr ()" by (rule forward_some(3) [OF assms(4)]) simp
  then obtain d1 where f: "?f = (Inr (), d1)" by (metis prod.collapse)
  have l: "the_leaf i d1 = Some (on_attach now grace g False s)" "dm_clients d1 = dm_clients d"
    using forward_some(1) [OF assms(4), of i P now grace "Attach g sid PROTOCOL_VERSION False"]
      forward_clients [of P now grace i "Attach g sid PROTOCOL_VERSION False" d] f by simp_all
  have "attached (on_attach now grace g False s)"
    using assms(5) by (auto simp: on_attach_def attached_def enqueue_outbound_def)
  with l f assms have r: "dispatch_frame P now grace ci (Attach g sid PROTOCOL_VERSION False) d =
      Some (Inr (), set_client ci (\<lambda>c. c\<lparr>cl_leaf := Some i, cl_observe := False, cl_protocol := PROTOCOL_VERSION\<rparr>) d1)"
    by (simp add: dispatch_attach_def protocol_supported_def Let_def PROTOCOL_VERSION_def PROTOCOL_2_def)
  have ci: "ci < length (dm_clients d)" "c = dm_clients d ! ci" using assms(1) by (simp_all add: client_at_some)
  have "\<not> writes_to i c" using assms(2,3) by (simp add: writes_to_def)
  moreover have "writes_to i (c\<lparr>cl_leaf := Some i, cl_observe := False, cl_protocol := PROTOCOL_VERSION\<rparr>)" by (simp add: writes_to_def)
  ultimately show ?thesis
    using headcount_update [OF ci(1), of "writes_to i" "c\<lparr>cl_leaf := Some i, cl_observe := False, cl_protocol := PROTOCOL_VERSION\<rparr>"]
      ci l(2) r by (auto simp: set_client_def client_at_def)
qed

lemma observer_becomes_second_writer_witness:
  fixes d :: "(byte list \<times> pty_event list, unit) daemon"
  defines "d \<equiv> demo_with demo_base (on_attach 0 0 7 False demo_session)
      [(client_new ())\<lparr>cl_leaf := Some (SessionId 1)\<rparr>, (client_new ())\<lparr>cl_leaf := Some (SessionId 1), cl_observe := True\<rparr>]"
  shows "\<exists>d'. dispatch_frame P0 0 0 1 (Attach 8 None PROTOCOL_VERSION False) d = Some (Inr (), d') \<and>
    headcount (writes_to (SessionId 1)) (dm_clients d') = 2"
proof -
  have "client_at 1 d = Some ((client_new ())\<lparr>cl_leaf := Some (SessionId 1), cl_observe := True\<rparr>)"
    "headcount (writes_to (SessionId 1)) (dm_clients d) = 1"
    by (simp_all add: d_def client_at_def headcount_def writes_to_def client_new_def)
  with observer_becomes_second_writer [where ci = 1 and d = d and i = "SessionId 1" and sid = None and
      s = "on_attach 0 0 7 False demo_session" and c = "(client_new ())\<lparr>cl_leaf := Some (SessionId 1), cl_observe := True\<rparr>"
      and P = P0 and now = 0 and grace = 0 and g = 8]
  show ?thesis by (auto simp: d_def resolve_attach_def client_new_def)
qed

text \<open>
  A defect: frames after the end are another client's. A client without a leaf that sends
  anything but an attach is dropped; the frames that came in the same read are still dispatched under
  its index, which is by then that of the client after it: what the dropped client sent reaches the
  leaf of the other as if that one had sent it. The documents ask that such a frame closes only the
  connection it came on and that nothing directed at a pane is accepted before an attach
  (SPEC-ATTACH, section 6; SPEC-CLIENT-AUTHORITY, section 3).
\<close>

theorem frames_after_drop_reach_the_next_client:
  assumes "client_at ci d = Some c" and "cl_leaf c = None"
    and "client_at (Suc ci) d = Some v" and "cl_leaf v = Some i" and "\<not> cl_observe v"
  shows "dispatch_frames P now grace ci [Credit n, Data bs] d =
    Some (forward P now grace i (Data bs) (drop_client P ci d))"
proof -
  have ci: "Suc ci < length (dm_clients d)" "v = dm_clients d ! Suc ci" using assms(3) by (simp_all add: client_at_some)
  have "dm_clients (drop_client P ci d) = take ci (dm_clients d) @ drop (Suc ci) (dm_clients d)"
    using assms(1,2) by (simp add: drop_client_def)
  then have at: "client_at ci (drop_client P ci d) = Some v"
    using ci by (simp add: client_at_def nth_append)
  have first: "dispatch_frame P now grace ci (Credit n) d = Some (Inr (), drop_client P ci d)"
    using assms(1,2) by (simp add: dispatch_other_def)
  obtain r d' where f: "forward P now grace i (Data bs) (drop_client P ci d) = (r, d')" by force
  then have "dispatch_frame P now grace ci (Data bs) (drop_client P ci d) = Some (r, d')"
    using at assms(4,5) by (simp add: dispatch_other_def take_credit_def)
  with first f show ?thesis by (cases r) simp_all
qed

lemma frames_after_drop_reach_the_next_client_witness:
  fixes d :: "(byte list \<times> pty_event list, unit) daemon"
  defines "d \<equiv> demo_with demo_base (on_attach 0 9 7 False demo_session) [client_new (), (client_new ())\<lparr>cl_leaf := Some (SessionId 1)\<rparr>]"
  shows "dispatch_frames P0 1 9 0 [Credit 0, Data [114, 109]] d =
    Some (forward P0 1 9 (SessionId 1) (Data [114, 109]) (drop_client P0 0 d))"
  by (rule frames_after_drop_reach_the_next_client [where c = "client_new ()" and v = "(client_new ())\<lparr>cl_leaf := Some (SessionId 1)\<rparr>"])
    (simp_all add: d_def client_at_def client_new_def)

end
