(* ===== verification/Host_Claims.thy ===== *)
theory Host_Claims imports Host_Paint Daemon_Claims begin

text \<open>
  What holds of the desktop host: the emulator of a client is the emulator of the leaf, what it paints
  is a window of the rows that were shown, and the navigation line is read back as it was written.
\<close>

section \<open>The emulator of the host\<close>

definition demo_conn :: "byte list list \<times> byte list \<times> byte list" where
  "demo_conn = ([concat (map frame_bytes [Data [0x41], Exit 3])], [], [])"

abbreviation "T0 \<equiv> taped_sock demo_sock"

definition local_identity :: "byte list" where
  "local_identity = [0x6c, 0x6f, 0x63, 0x61, 0x6c, 0x0a]"

lemma demo_write: "write_outbox T0 (w, i, l) out = (Inr (), (w, i, l @ out), [])"
  by (simp add: write_outbox.simps [of _ _ out] write_outbox.simps [of _ _ "[]"] taped_sock_def demo_sock_def)

lemma demo_send:
  "hc_stream h = (w, i, l) \<Longrightarrow> hc_outbox h = [] \<Longrightarrow> \<not> hc_auditing h \<Longrightarrow> encode f = Inr bs \<Longrightarrow>
    host_send T0 f h = (Inr (), h\<lparr>hc_stream := (w, i, l @ bs)\<rparr>)"
  by (simp add: host_send_def flush_outbox_def demo_write)

definition demo_fresh :: "(byte list list \<times> byte list \<times> byte list) host" where
  "demo_fresh = \<lparr>hc_stream = demo_conn, hc_decoder = decoder_new, hc_chip = demo_chip, hc_surface_rows = 3,
     hc_alive = True, hc_exit_status = None, hc_outbox = [], hc_outstanding_credit = 0,
     hc_violations = 0, hc_auditing = False, hc_cached = None, hc_live_cached = None,
     hc_history_rows = [], hc_scroll_offset = 0, hc_viewport_jumped = True,
     hc_workspace_id = None, hc_modes = mode_state_fresh, hc_bytes_sent = 0,
     hc_content_items = [], hc_execution_id = 0\<rparr>"

definition demo_said :: "byte list" where
  "demo_said = frame_bytes (attach_frame 1 None) @ frame_bytes (Credit (of_nat CREDIT_WINDOW))"

definition demo_host :: "(byte list list \<times> byte list \<times> byte list) host" where
  "demo_host = demo_fresh\<lparr>hc_stream := (fst demo_conn, [], demo_said), hc_outstanding_credit := CREDIT_WINDOW\<rparr>"

lemma encode_small: "frame_fits f \<Longrightarrow> encode f = Inr (frame_bytes f)"
  by (auto simp: frame_fits_def encode_def frame_bytes_def Let_def)

lemma demo_connect: "connect_session T0 (Inr local_identity) None demo_conn 4 3 None None = Inr demo_host"
proof -
  have a: "host_send T0 (attach_frame 1 None) demo_fresh =
      (Inr (), demo_fresh\<lparr>hc_stream := (fst demo_conn, [], frame_bytes (attach_frame 1 None))\<rparr>)"
    by (subst demo_send [OF _ _ _ encode_small])
      (simp_all add: demo_fresh_def demo_conn_def attach_frame_def frame_fits_def MAX_FRAME_def)
  have b: "grant_credit T0 CREDIT_WINDOW (demo_fresh\<lparr>hc_stream := (fst demo_conn, [], frame_bytes (attach_frame 1 None))\<rparr>) =
      (Inr (), demo_host)"
    unfolding grant_credit_def
    by (subst demo_send [OF _ _ _ encode_small])
      (simp_all add: demo_fresh_def demo_host_def demo_said_def frame_fits_def MAX_FRAME_def sat_add_def CREDIT_WINDOW_def)
  show ?thesis
    using a b by (simp add: connect_session_def local_identity_def demo_chip cold_workspace_id_def demo_fresh_def [symmetric])
qed

lemma demo_started: "host_run T0 demo_chip None demo_host"
  by (rule host_start [OF demo_connect [unfolded demo_conn_def] demo_chip]) simp

lemma demo_feed:
  "\<exists>chip. engine_feed [0x41] demo_chip = Some chip \<and> frame_fits (Data (fst (engine_take_replies (snd (engine_take_scrolled_off chip)))))"
proof -
  have "engine_inv demo_chip" by (rule fresh_inv [OF demo_chip]) simp_all
  from feed_inv [OF this, of "[0x41]"] obtain chip where chip: "engine_feed [0x41] demo_chip = Some chip" "engine_inv chip"
    by (auto simp: runs_iff)
  from drain_inv(2) [OF this(2)] have "length (s_replies (eng_screen (snd (engine_take_scrolled_off chip)))) \<le> REPLY_CAP"
    by (simp add: engine_inv_def wf_screen_def)
  with chip(1) show ?thesis
    by (auto simp: engine_take_replies_def take_replies_def Let_def frame_fits_def MAX_FRAME_def REPLY_CAP_def)
qed

lemma demo_pumped: "\<exists>h. host_run T0 demo_chip None h \<and> fst (snd (hc_stream h)) = concat (map frame_bytes [Data [0x41], Exit 3])"
proof -
  let ?in = "concat (map frame_bytes [Data [0x41], Exit 3])"
  let ?h = "demo_host\<lparr>hc_stream := ([], ?in, demo_said)\<rparr>"
  obtain chip where chip: "engine_feed [0x41] demo_chip = Some chip"
    "frame_fits (Data (fst (engine_take_replies (snd (engine_take_scrolled_off chip)))))" using demo_feed by blast
  note send = demo_send [OF _ _ _ encode_small [OF chip(2)], of _ "[]" ?in demo_said]
  have "\<exists>h1 l. pump_data T0 [0x41] 0 ?h = Some (Inr 1, h1) \<and> hc_stream h1 = ([], ?in, l) \<and> hc_outbox h1 = [] \<and> \<not> hc_auditing h1"
    using chip(1)
    by (simp add: pump_data_def demo_host_def demo_fresh_def Let_def split_beta send del: concat.simps)
  then obtain h1 l where h1: "pump_data T0 [0x41] 0 ?h = Some (Inr 1, h1)" "hc_stream h1 = ([], ?in, l)" "hc_outbox h1 = []"
      "\<not> hc_auditing h1" by blast
  have p: "decoder_push [] ?in = (Inr [Data [0x41], Exit 3], [])" by (rule push_frames) (simp add: demo_frames)
  have l: "length ?in \<le> PUMP_CHUNK" "?in \<noteq> []" by (simp_all add: PUMP_CHUNK_def frame_bytes_def)
  have r: "sock_read T0 PUMP_CHUNK (hc_stream demo_host) = (ReadBytes ?in, ([], ?in, demo_said))"
    using l(1) by (simp add: demo_host_def demo_conn_def taped_sock_def demo_sock_def del: concat.simps)
  let ?x = "h1\<lparr>hc_alive := False, hc_exit_status := Some 3\<rparr>"
  have f: "pump_frames T0 [Data [0x41], Exit 3] 0 ?h = Some (Inr 1, ?x)"
    using h1 by (simp add: note_violation_def del: concat.simps)
  have d: "hc_decoder demo_host = []" "demo_host\<lparr>hc_stream := z, hc_decoder := []\<rparr> = demo_host\<lparr>hc_stream := z\<rparr>" for z
    by (simp_all add: demo_host_def demo_fresh_def decoder_new_def)
  have x: "?x\<lparr>hc_stream := ([], ?in, l)\<rparr> = ?x" using h1(2) by (cases h1) (simp del: concat.simps)
  have "pump_loop T0 1 ?x = Some (Inr 1, ?x)"
    using h1(2) x by (simp add: pump_loop.simps taped_sock_def demo_sock_def del: concat.simps)
  with l have "pump_loop T0 0 demo_host = Some (Inr 1, ?x)"
    by (subst pump_loop.simps) (simp add: r Let_def d p f take_all del: concat.simps list.map pump_frames.simps)
  moreover have "flush_outbox T0 demo_host = (Inr (), demo_host)"
    by (simp add: flush_outbox_def demo_write demo_host_def demo_fresh_def)
  moreover obtain h2 where "grant_credit T0 1 ?x = (Inr (), h2)" "fst (snd (hc_stream h2)) = ?in"
    using h1(2,3,4) by (simp add: grant_credit_def demo_send [OF _ _ _ encode_small] frame_fits_def MAX_FRAME_def del: concat.simps)
  ultimately have "pump T0 demo_host = Some (Inr 1, h2)" by (simp add: pump_def)
  then have "host_do T0 Pump demo_host = Some (Inr (), h2)" by simp
  from host_step [OF demo_started this] \<open>fst (snd (hc_stream h2)) = ?in\<close> show ?thesis by blast
qed

text \<open>
  C32: A host that connected to a socket, and then pumped, typed, pasted, pointed, resized, scrolled
  and painted in any order without an error, mirrors the frames it read, whatever the other side is:
  the bytes it took from the socket decode to frames \<open>fs\<close>, the bytes it sent (with those still queued)
  are frames \<open>gs\<close> that begin with the attach and the first window of credit, and its emulator looks like
  a fresh one that was fed the payload of \<open>fs\<close> with the resizes of \<open>gs\<close>, in the order they happened.
  While that payload has at most \<open>2 ^ 32 - 1\<close> bytes, the credit it granted is the window plus every byte
  fed. It is alive until an exit frame, and its exit status is that of the last one.
\<close>

theorem host_mirrors_frames:
  assumes "host_run (taped_sock W) e0 sid h"
  shows "\<exists>fs gs vs e.
    decoder_push [] (fst (snd (hc_stream h))) = (Inr fs, hc_decoder h) \<and>
    snd (snd (hc_stream h)) @ hc_outbox h = concat (map frame_bytes gs) \<and> said sid gs \<and>
    watch vs e0 = Some e \<and> same_view e (hc_chip h) \<and> fed_bytes vs = payload fs \<and> sizes vs = asked gs \<and>
    (length (payload fs) \<le> u32_max \<longrightarrow> credit_granted gs = CREDIT_WINDOW + length (payload fs) \<and>
      hc_outstanding_credit h = credit_granted gs) \<and>
    hc_alive h = (\<forall>s. Exit s \<notin> set fs) \<and> hc_exit_status h = last_exit fs"
proof -
  obtain fs gs vs where f: "host_facts (\<lambda>w. snd (snd w)) e0 sid 0 fs gs vs h" and t: "taped_host.taken fs h"
    using host_run_ok [OF assms] by (auto simp: host_ok_def)
  from f obtain e where e: "watch vs e0 = Some e" "same_view e (hc_chip h)" by (auto simp: host_facts_def mirrors_def)
  from f t e show ?thesis unfolding host_facts_def taped_host.taken_def
    by (intro exI [of _ fs] exI [of _ gs] exI [of _ vs] exI [of _ e]) simp
qed

lemma host_mirrors_frames_witness:
  "\<exists>h vs e. host_run T0 demo_chip None h \<and> watch vs demo_chip = Some e \<and> same_view e (hc_chip h) \<and>
    fed_bytes vs = [0x41] \<and> hc_outstanding_credit h = CREDIT_WINDOW + 1 \<and> hc_exit_status h = Some 3"
proof -
  obtain h where h: "host_run T0 demo_chip None h" "fst (snd (hc_stream h)) = concat (map frame_bytes [Data [0x41], Exit 3])"
    using demo_pumped by blast
  have p: "decoder_push [] (fst (snd (hc_stream h))) = (Inr [Data [0x41], Exit 3], [])"
    unfolding h(2) by (rule push_frames) (simp add: demo_frames)
  have x: "last_exit [Data [0x41], Exit 3] = Some 3" "payload [Data [0x41], Exit 3] = [0x41]"
    by (simp_all add: last_exit_def map_filter_def)
  from host_mirrors_frames [OF h(1)] obtain gs vs e where
    "watch vs demo_chip = Some e" "same_view e (hc_chip h)" "fed_bytes vs = [0x41]"
    "hc_outstanding_credit h = CREDIT_WINDOW + 1" "hc_exit_status h = Some 3"
    unfolding p by (auto simp: x)
  with h(1) show ?thesis by blast
qed

section \<open>The painted window\<close>

text \<open>
  C33: Whatever the daemon sends and the user does, as long as no operation failed and the surface has
  at most 65528 columns, the host can paint, and paints a window of the rows that were shown: line
  \<open>r\<close> of the grid is the row so far above the end of history and live rows, cut or padded to the width
  of the surface. The offset never exceeds the history, the history never exceeds its cap, and the
  cursor shows only at the live end.
\<close>

theorem host_paints_the_window:
  assumes "host_live W h"
  shows "\<exists>g h'. host_snapshot h = (Inr g, h') \<and>
    hc_scroll_offset h' \<le> length (hc_history_rows h') \<and> length (hc_history_rows h') \<le> MAX_HISTORY_ROWS \<and>
    (pg_cursor_visible g \<longrightarrow> hc_scroll_offset h' = 0) \<and>
    (let live = fst (engine_snapshot (hc_chip h'))
     in pg_cols g = pg_cols live \<and> pg_rows g = pg_rows live \<and> length (pg_cells g) = pg_cols live * pg_rows live \<and>
       (\<forall>r < pg_rows live. \<forall>c < pg_cols live. pod_grid_cell g c r = Some (fit_row live (window_row h' r) ! c)))"
proof -
  let ?h' = "ensure_snapshots h"
  note v = ensure_view [OF host_live_view [OF assms]]
  obtain g where g: "hc_cached ?h' = Some g" using v(2) by blast
  have "host_snapshot h = (Inr g, ?h')" using g by (simp add: host_snapshot_def)
  moreover have "hc_scroll_offset ?h' \<le> length (hc_history_rows ?h')" "length (hc_history_rows ?h') \<le> MAX_HISTORY_ROWS"
    using v(1) by (simp_all add: view_inv_def)
  moreover note painted_window [OF v(1) g v(3)]
  ultimately show ?thesis unfolding Let_def by blast
qed

lemma host_paints_the_window_witness:
  "\<exists>g h'. host_snapshot (follow_live demo_host) = (Inr g, h') \<and> hc_scroll_offset h' \<le> length (hc_history_rows h')"
proof -
  have "host_live T0 demo_host" by (rule live_start [OF demo_connect]) simp_all
  then have "host_live T0 (follow_live demo_host)" by (rule live_step [of _ _ Follow]) simp_all
  from host_paints_the_window [OF this] show ?thesis by blast
qed

section \<open>The navigation line\<close>

text \<open>
  C34: The line that the daemon writes on the navigation socket can be read back: it is text, and the
  host's parser, given the whole line, finds the workspace, the tabs and the first leaves of the
  snapshot of the kernel, whatever their number. A connecting client, which reads at most 512 bytes of
  it, always learns the workspace.
\<close>

theorem nav_line_round_trip:
  "\<exists>txt. from_utf8 (nav_snapshot_line d) = Some txt \<and>
    parse_nav_line txt = Some \<lparr>ns_workspace_id = node_as_u64 (dm_workspace_id d),
      ns_tabs = map fst (nav_rows d), ns_leaves = map snd (nav_rows d)\<rparr> \<and>
    cold_workspace_id (Some (nav_snapshot_line d)) = Some (node_as_u64 (dm_workspace_id d))"
proof -
  let ?line = "nav_snapshot_line d"
  have "\<forall>b \<in> set ?line. b \<le> 0x7f" unfolding nav_snapshot_line_def by (rule nav_line_ascii)
  from ascii_from_utf8 [OF this, of "length ?line"] have "from_utf8 ?line = Some (chars ?line)"
    by (simp add: chars_def)
  moreover have "parse_nav_line (chars ?line) = Some \<lparr>ns_workspace_id = node_as_u64 (dm_workspace_id d),
      ns_tabs = map fst (nav_rows d), ns_leaves = map snd (nav_rows d)\<rparr>"
    unfolding nav_snapshot_line_def nav_line_eq by (rule parse_nav_words)
  moreover have "cold_workspace_id (Some ?line) = Some (node_as_u64 (dm_workspace_id d))"
    unfolding nav_snapshot_line_def by (rule workspace_of_cut_line)
  ultimately show ?thesis by blast
qed

end
