(* ===== verification/Content_Claims.thy ===== *)
theory Content_Claims imports Host_Content Daemon_Claims begin

text \<open>
  What holds of content: the timelines of the daemon are the texts its hosts submitted, and a host
  reads back what it submitted.
\<close>

section \<open>Submitted texts at the host\<close>

definition shown_text :: "session_id \<Rightarrow> nat \<times> rstring \<Rightarrow> content_item" where
  "shown_text i = (\<lambda>(n, t). \<lparr>it_kind = 1, it_sequence = of_nat n, it_event_id = input_id i n, it_text = t\<rparr>)"

lemma item_of_input [simp]: "item_of (input_event i n t) = shown_text i (n, t)"
  by (simp add: item_of_def shown_text_def event_text_def)

lemma items_of_inputs: "map item_of (input_events i ts) = map (shown_text i) (enumerate 1 ts)"
  by (simp add: input_events_def split_beta comp_def)

lemma take_enumerate: "take k (enumerate n xs) = enumerate n (take k xs)"
  by (rule nth_equalityI) (simp_all add: nth_enumerate_eq)

lemma utf8_ascii: "\<forall>b \<in> set bs. b \<le> 0x7f \<Longrightarrow> from_utf8 bs \<noteq> None"
  by (induction bs) auto

lemma digits_ascii: "b \<in> set (digits n) \<Longrightarrow> b \<le> 0x7f"
proof -
  assume "b \<in> set (digits n)"
  then obtain d where "d \<in> set (dec n)" "b = 0x30 + word_of_nat d" by (auto simp: digits_def)
  then have "d < 10" "b = word_of_nat (48 + d)" using dec_digits by auto
  then show ?thesis by (simp add: word_le_nat_alt unat_of_nat del: of_nat_add)
qed

lemma input_id_ascii: "from_utf8 (input_id i n) \<noteq> None"
  by (rule utf8_ascii) (auto simp: input_id_def dest: digits_ascii)

lemma input_id_length: "n \<le> 64 \<Longrightarrow> length (input_id i n) \<le> u16_max"
proof -
  assume n: "n \<le> 64"
  have "unat (session_as_u64 i) < 2 ^ 64" using unsigned_less [of "session_as_u64 i"] by simp
  then have "unat (session_as_u64 i) < 10 ^ 20" by simp
  then have "length (dec (unat (session_as_u64 i))) \<le> 20" by (intro length_dec) simp_all
  moreover have "length (dec n) \<le> 2" using n by (intro length_dec) simp_all
  ultimately show ?thesis by (simp add: input_id_def digits_def)
qed

lemma inputs_presentable:
  assumes "\<forall>t \<in> set ts. from_utf8 t \<noteq> None \<and> length t \<le> CONTENT_REQUEST_MAX" "length ts \<le> 64"
  shows "\<forall>e \<in> set (input_events i ts). presentable e"
proof
  fix e assume "e \<in> set (input_events i ts)"
  then obtain n t where e: "e = input_event i n t" "(n, t) \<in> set (enumerate 1 ts)" by (auto simp: input_events_def)
  then have "t \<in> set ts" "n \<le> 64" using assms(2) by (auto simp: in_set_enumerate_eq)
  moreover have "input_id i n \<noteq> []" by (simp add: input_id_def)
  ultimately show "presentable e"
    using assms(1) input_id_ascii [of i n] input_id_length [of n i] by (simp add: e presentable_def event_text_def)
qed

lemma decode_submit:
  assumes "length t \<le> CONTENT_REQUEST_MAX"
  shows "decode_content_request (submit_request execution t) =
    Inr (Some \<lparr>cq_kind = 2, cq_execution = execution, cq_payload = t\<rparr>)"
  using decode_whole [of "\<lparr>cq_kind = 2, cq_execution = execution, cq_payload = t\<rparr>"] assms
  by (simp add: request_bytes_def submit_request_def)

section \<open>Properties of content\<close>

text \<open>
  C30: the timelines are the submitted texts. Whatever bytes come over the content socket in the course
  of a day, to whatever daemons, the answers are those of the abstract state that keeps for every leaf
  the list of its accepted texts, and the timelines stay the representation of that state: one
  structured input per text, numbered from one, with distinct identifiers and at most 64 of them; a
  refused request changes no text.
\<close>

theorem content_timelines_refine:
  "fst (serve_content rs Map.empty) = fst (serve_texts rs (\<lambda>_. [])) \<and>
   holds_texts (snd (serve_texts rs (\<lambda>_. []))) (snd (serve_content rs Map.empty))"
  by (rule serve_refines [OF holds_no_texts])

text \<open>
  C31: what a host submits is what it reads back. When the host submits a text of at most 64 KiB of
  valid UTF-8 to a leaf that the daemon has and that holds fewer than 64 texts, the daemon accepts it
  as the next text of the leaf, and the host reads the first \<open>n\<close> texts of the leaf, in order and under
  their numbers, where \<open>n\<close> is as large as a megabyte allows: their items and the header fit in it, and
  unless these are all texts, the next one would not. So the host reads all texts, its own last, exactly
  when they fit; otherwise only a prefix is shown, without its own.
\<close>

theorem content_submission_round_trip:
  assumes "holds_texts ts tls" "the_leaf i d = Some s" "session_as_u64 i \<noteq> 0"
    and "from_utf8 t \<noteq> None" "length t \<le> 64 * 1024" "length (ts i) < 64"
  defines "all \<equiv> ts i @ [t]"
  shows "holds_texts (ts(i := all)) (snd (content_exchange d tls (submit_request (session_as_u64 i) t))) \<and>
    (\<exists>n \<le> length all. content_submit (\<lambda>bs. Inr (fst (content_exchange d tls bs))) (session_as_u64 i) t =
        Inr (map (shown_text i) (enumerate 1 (take n all))) \<and>
      9 + (\<Sum>e \<leftarrow> take n (input_events i all). length (item_bytes e)) \<le> 1024 * 1024 \<and>
      (n < length all \<longrightarrow> 1024 * 1024 < 9 + (\<Sum>e \<leftarrow> take (Suc n) (input_events i all). length (item_bytes e))))"
proof -
  let ?q = "\<lparr>cq_kind = 2, cq_execution = session_as_u64 i, cq_payload = t\<rparr>"
  let ?bs = "submit_request (session_as_u64 i) t"
  have n: "length t \<le> CONTENT_REQUEST_MAX" using assms(5) by (simp add: CONTENT_REQUEST_MAX_def)
  have i: "content_id d ?q = i" using assms(3) by (cases i) (simp add: content_id_def)
  have acc: "accepted ?q (ts i)" using assms(4,6) by (simp add: accepted_def CONTENT_TIMELINE_MAX_ITEMS_def)
  have x: "content_exchange d tls ?bs = content_response d ?q tls" by (simp add: content_exchange_def decode_submit [OF n])
  also have "\<dots> = (encode_content_snapshot (timeline_of i all), tls(i \<mapsto> timeline_of i all))"
    using content_response_answer [OF assms(1), of d ?q] acc assms(2) by (simp add: i answer_def submit_text_def all_def)
  finally have ex: "content_exchange d tls ?bs = (encode_content_snapshot (timeline_of i all), tls(i \<mapsto> timeline_of i all))" .
  have R: "holds_texts (ts(i := all)) (tls(i \<mapsto> timeline_of i all))"
    using holds_texts_submit [OF assms(1), of ?q i] n acc by (simp add: submit_text_def all_def)
  have v: "\<forall>u \<in> set all. from_utf8 u \<noteq> None \<and> length u \<le> CONTENT_REQUEST_MAX" "length all \<le> 64"
    using R [unfolded holds_texts_def, rule_format, of i] by (simp_all add: CONTENT_TIMELINE_MAX_ITEMS_def)
  have P: "\<forall>e \<in> set (tl_events (timeline_of i all)). presentable e" "length (tl_events (timeline_of i all)) \<le> 64"
    using inputs_presentable [OF v] v(2) by (simp_all add: timeline_of_def)
  obtain rest where rest: "input_events i all = fitting 0 (input_events i all) @ rest" using fitting_prefix by blast
  define k where "k = length (fitting 0 (input_events i all))"
  have "fitting 0 (input_events i all) = take k (input_events i all)" using rest by (metis append_eq_conv_conj k_def)
  note F = this
  from F have "map item_of (fitting 0 (input_events i all)) = take k (map (shown_text i) (enumerate 1 all))"
    by (simp add: items_of_inputs take_map [symmetric])
  also have "\<dots> = map (shown_text i) (enumerate 1 (take k all))" by (simp add: take_map take_enumerate)
  finally have items: "map item_of (fitting 0 (input_events i all)) = map (shown_text i) (enumerate 1 (take k all))" .
  have "content_submit (\<lambda>bs. Inr (fst (content_exchange d tls bs))) (session_as_u64 i) t =
      Inr (map (shown_text i) (enumerate 1 (take k all)))"
    using parse_snapshot [OF P] snapshot_bound [of "timeline_of i all"] assms(5) items
    by (simp add: content_submit_def ex Let_def RESPONSE_MAX_def CONTENT_RESPONSE_MAX_def timeline_of_def)
  moreover have L: "length (input_events i all) = length all" by (simp add: input_events_def)
  then have "k \<le> length all" using arg_cong [OF rest, of length] by (simp add: k_def)
  moreover have "9 + (\<Sum>e \<leftarrow> take k (input_events i all). length (item_bytes e)) \<le> 1024 * 1024"
    using fitting_bound [of 0 "input_events i all"] F by (simp add: length_concat comp_def CONTENT_RESPONSE_MAX_def)
  moreover have "1024 * 1024 < 9 + (\<Sum>e \<leftarrow> take (Suc k) (input_events i all). length (item_bytes e))" if "k < length all"
    using fitting_stops [of 0 "input_events i all"] that P(1) L
    by (auto simp: length_concat comp_def CONTENT_RESPONSE_MAX_def timeline_of_def presentable_def k_def [symmetric])
  ultimately show ?thesis using R by (intro conjI exI [of _ k]) (simp_all add: ex)
qed

lemma content_submission_round_trip_witness:
  "content_submit (\<lambda>bs. Inr (fst (content_exchange (demo_with demo_base demo_session ([] :: unit client list)) Map.empty bs))) 1 [0x6c, 0x73] =
    Inr [\<lparr>it_kind = 1, it_sequence = 1, it_event_id = [0x69, 0x6e, 0x70, 0x75, 0x74, 0x2d, 0x31, 0x2d, 0x31], it_text = [0x6c, 0x73]\<rparr>]"
proof -
  have d: "dec (Suc 0) = [1]" by (simp add: dec.simps)
  have e: "input_events (SessionId 1) [[0x6c, 0x73]] = [input_event (SessionId 1) 1 [0x6c, 0x73]]"
    by (simp add: input_events_def)
  have e1: "take k (input_events (SessionId 1) [[0x6c, 0x73]]) = (if k = 0 then [] else [input_event (SessionId 1) 1 [0x6c, 0x73]])" for k
    by (simp add: e take_Cons')
  obtain n where n: "content_submit (\<lambda>bs. Inr (fst (content_exchange (demo_with demo_base demo_session ([] :: unit client list)) Map.empty bs))) 1 [0x6c, 0x73] =
      Inr (map (shown_text (SessionId 1)) (enumerate 1 (take n [[0x6c, 0x73]])))" "take n [[0x6c, 0x73 :: byte]] = [[0x6c, 0x73]]"
    using content_submission_round_trip [OF holds_no_texts, of "SessionId 1" "demo_with demo_base demo_session ([] :: unit client list)" demo_session "[0x6c, 0x73]"]
    by (auto simp: e1 length_item input_id_def digits_def d event_text_def take_Cons' split: if_splits)
  show ?thesis unfolding n by (simp add: shown_text_def input_id_def digits_def d)
qed

end
