(* ===== verification/Transcript.thy ===== *)
theory Transcript imports Content begin

text \<open>
  The semantic transcript of a leaf (\<open>crates/rill-kernel/src/transcript.rs\<close>): events that say what they
  are on whose authority, and the ledger that takes them, each once and in the order of the bytes. An
  event is made by \<open>event_make\<close>; the ledger is refined by the plain list of the events it accepted.
\<close>

section \<open>Events\<close>

datatype event_id = EventId rstring

datatype event_provenance = Pty | StructuredInput | ShellMark | Process | ToolAdapter | Runtime

datatype event_payload =
    TerminalOutput u64 u64
  | CommandSubmitted rstring
  | ProcessExited u32
  | Unstructured u64 u64
  | Discontinuity u64 u64

datatype transcript_error =
    EmptyEventId
  | ConflictingEventId event_id
  | TOutOfOrderSequence u64 u64
  | GenerationMismatch u64 u64
  | InvalidTerminalRange u64 u64
  | OverlappingTerminalRange u64 u64
  | UnauthorizedProvenance event_provenance string
  | CapacityExceeded nat u64

definition event_id_new :: "rstring \<Rightarrow> transcript_error + event_id" where
  "event_id_new v = (if v = [] then Inl EmptyEventId else Inr (EventId v))"

fun terminal_range :: "event_payload \<Rightarrow> (u64 \<times> u64) option" where
  "terminal_range (TerminalOutput a b) = Some (a, b)"
| "terminal_range (Unstructured a b) = Some (a, b)"
| "terminal_range (Discontinuity a b) = Some (a, b)"
| "terminal_range (CommandSubmitted _) = None"
| "terminal_range (ProcessExited _) = None"

fun is_command_submitted :: "event_payload \<Rightarrow> bool" where
  "is_command_submitted (CommandSubmitted _) = True"
| "is_command_submitted _ = False"

fun is_process_exited :: "event_payload \<Rightarrow> bool" where
  "is_process_exited (ProcessExited _) = True"
| "is_process_exited _ = False"

record semantic_event =
  se_event_id :: event_id
  se_sequence :: u64
  se_generation :: u64
  se_provenance :: event_provenance
  se_payload :: event_payload

definition event_make ::
    "event_id \<Rightarrow> u64 \<Rightarrow> u64 \<Rightarrow> event_provenance \<Rightarrow> event_payload \<Rightarrow> transcript_error + semantic_event" where
  "event_make i sequence generation provenance payload =
     (let e = \<lparr>se_event_id = i, se_sequence = sequence, se_generation = generation, se_provenance = provenance,
        se_payload = payload\<rparr>;
          rest =
            (if is_command_submitted payload \<and> provenance \<noteq> StructuredInput \<and> provenance \<noteq> ShellMark
             then Inl (UnauthorizedProvenance provenance ''command submitted'')
             else if is_process_exited payload \<and> provenance \<noteq> Process
             then Inl (UnauthorizedProvenance provenance ''process exited'')
             else Inr e)
      in case terminal_range payload of
           None \<Rightarrow> rest
         | Some (start, e) \<Rightarrow> if start \<ge> e then Inl (InvalidTerminalRange start e) else rest)"

section \<open>The ledger\<close>

record ledger =
  ld_events :: "semantic_event list"
  ld_by_id :: "event_id \<rightharpoonup> nat"
  ld_last_sequence :: "u64 option"
  ld_generation :: "u64 option"
  ld_last_end :: "u64 option"
  ld_max :: nat

definition with_max_events :: "nat \<Rightarrow> ledger" where
  "with_max_events n =
     \<lparr>ld_events = [], ld_by_id = Map.empty, ld_last_sequence = None, ld_generation = None, ld_last_end = None,
      ld_max = max n 1\<rparr>"

definition ledger_new :: ledger where "ledger_new = with_max_events 4096"

text \<open>The checks of an event against what the ledger has, and the record of one that passed.\<close>

definition check_order :: "semantic_event \<Rightarrow> ledger \<Rightarrow> transcript_error option" where
  "check_order e l =
     (case ld_last_sequence l of
        Some n \<Rightarrow> if se_sequence e \<le> n then Some (TOutOfOrderSequence n (se_sequence e)) else None
      | None \<Rightarrow> None)"

definition check_generation :: "semantic_event \<Rightarrow> ledger \<Rightarrow> transcript_error option" where
  "check_generation e l =
     (case ld_generation l of
        Some g \<Rightarrow> if se_generation e \<noteq> g then Some (GenerationMismatch g (se_generation e)) else None
      | None \<Rightarrow> None)"

definition check_overlap :: "u64 \<Rightarrow> ledger \<Rightarrow> transcript_error option" where
  "check_overlap start l =
     (case ld_last_end l of
        Some p \<Rightarrow> if start < p then Some (OverlappingTerminalRange p start) else None
      | None \<Rightarrow> None)"

definition check_event :: "semantic_event \<Rightarrow> ledger \<Rightarrow> transcript_error option" where
  "check_event e l =
     (case check_order e l of
        Some x \<Rightarrow> Some x
      | None \<Rightarrow>
          (case terminal_range (se_payload e) of
             None \<Rightarrow> None
           | Some (start, _) \<Rightarrow> (case check_generation e l of Some x \<Rightarrow> Some x | None \<Rightarrow> check_overlap start l)))"

definition note_terminal :: "semantic_event \<Rightarrow> ledger \<Rightarrow> ledger" where
  "note_terminal e l =
     (case terminal_range (se_payload e) of
        None \<Rightarrow> l
      | Some (_, p) \<Rightarrow> l\<lparr>ld_generation := Some (se_generation e), ld_last_end := Some p\<rparr>)"

text \<open>\<open>None\<close> is the panic of an index that \<open>by_id\<close> should not have.\<close>

definition ledger_append :: "semantic_event \<Rightarrow> ledger \<Rightarrow> ((transcript_error + unit) \<times> ledger) option" where
  "ledger_append e l =
     (case ld_by_id l (se_event_id e) of
        Some i \<Rightarrow>
          get_at (ld_events l) i \<bind>
            (\<lambda>old. Some (if old = e then (Inr (), l) else (Inl (ConflictingEventId (se_event_id e)), l)))
      | None \<Rightarrow>
          Some
            (if length (ld_events l) \<ge> ld_max l
             then (Inl (CapacityExceeded (ld_max l) (case ld_last_sequence l of None \<Rightarrow> 0 | Some n \<Rightarrow> n)), l)
             else case check_event e l of
               Some x \<Rightarrow> (Inl x, l)
             | None \<Rightarrow>
                 let l = note_terminal e l; l = l\<lparr>ld_last_sequence := Some (se_sequence e)\<rparr>;
                     l = l\<lparr>ld_by_id := (ld_by_id l)(se_event_id e \<mapsto> length (ld_events l))\<rparr>
                 in (Inr (), l\<lparr>ld_events := ld_events l @ [e]\<rparr>)))"

fun append_all :: "semantic_event list \<Rightarrow> ledger \<Rightarrow> ((transcript_error + unit) list \<times> ledger) option" where
  "append_all [] l = Some ([], l)"
| "append_all (e # es) l =
     ledger_append e l \<bind> (\<lambda>(r, l). append_all es l \<bind> (\<lambda>(rs, l). Some (r # rs, l)))"

section \<open>The list of accepted events\<close>

text \<open>Generation and range of the events that name terminal bytes.\<close>

definition ranges :: "semantic_event list \<Rightarrow> (u64 \<times> u64 \<times> u64) list" where
  "ranges es = List.map_filter (\<lambda>e. map_option (Pair (se_generation e)) (terminal_range (se_payload e))) es"

text \<open>
  What an event has against it, given the accepted events: another event of its name, no room, a
  sequence that is not larger, another generation, or a range that starts before the last one ends.
\<close>

definition refusal :: "nat \<Rightarrow> semantic_event \<Rightarrow> semantic_event list \<Rightarrow> transcript_error option" where
  "refusal n e es =
     (if se_event_id e \<in> se_event_id ` set es then Some (ConflictingEventId (se_event_id e))
      else if length es \<ge> n then Some (CapacityExceeded n (if es = [] then 0 else se_sequence (last es)))
      else if es \<noteq> [] \<and> se_sequence e \<le> se_sequence (last es)
      then Some (TOutOfOrderSequence (se_sequence (last es)) (se_sequence e))
      else case terminal_range (se_payload e) of
        None \<Rightarrow> None
      | Some (start, _) \<Rightarrow>
          if ranges es = [] then None
          else let (g, _, p) = last (ranges es)
            in if se_generation e \<noteq> g then Some (GenerationMismatch g (se_generation e))
               else if start < p then Some (OverlappingTerminalRange p start) else None)"

definition offer :: "nat \<Rightarrow> semantic_event \<Rightarrow> semantic_event list \<Rightarrow> (transcript_error + unit) \<times> semantic_event list" where
  "offer n e es =
     (if e \<in> set es then (Inr (), es)
      else case refusal n e es of Some x \<Rightarrow> (Inl x, es) | None \<Rightarrow> (Inr (), es @ [e]))"

fun offer_all :: "nat \<Rightarrow> semantic_event list \<Rightarrow> semantic_event list \<Rightarrow> (transcript_error + unit) list \<times> semantic_event list" where
  "offer_all n [] acc = ([], acc)"
| "offer_all n (e # es) acc = (let (r, acc) = offer n e acc; (rs, acc) = offer_all n es acc in (r # rs, acc))"

definition ledger_of :: "nat \<Rightarrow> semantic_event list \<Rightarrow> ledger" where
  "ledger_of n es =
     \<lparr>ld_events = es, ld_by_id = map_of (zip (map se_event_id es) [0..<length es]),
      ld_last_sequence = (if es = [] then None else Some (se_sequence (last es))),
      ld_generation = (if ranges es = [] then None else Some (fst (last (ranges es)))),
      ld_last_end = (if ranges es = [] then None else Some (snd (snd (last (ranges es))))), ld_max = n\<rparr>"

lemma ranges_simps [simp]:
  "ranges [] = []"
  "ranges (es @ [e]) = ranges es @ (case terminal_range (se_payload e) of None \<Rightarrow> [] | Some r \<Rightarrow> [(se_generation e, r)])"
  by (simp_all add: ranges_def map_filter_def split: option.split)

lemma by_id_in:
  assumes "distinct (map se_event_id es)"
  shows "ld_by_id (ledger_of n es) i = Some k \<longleftrightarrow> k < length es \<and> se_event_id (es ! k) = i"
proof -
  have "ld_by_id (ledger_of n es) i = Some k \<longleftrightarrow> (i, k) \<in> set (zip (map se_event_id es) [0..<length es])"
    using assms by (simp add: ledger_of_def)
  also have "\<dots> \<longleftrightarrow> k < length es \<and> se_event_id (es ! k) = i" by (force simp: set_zip)
  finally show ?thesis .
qed

lemma by_id_none:
  "map_of (zip (map se_event_id es) [0..<length es]) i = None \<longleftrightarrow> i \<notin> se_event_id ` set es"
  using dom_map_of_zip [of "map se_event_id es" "[0..<length es]"] by (simp add: domIff set_eq_iff)

lemma add_new: "m i = None \<Longrightarrow> map_of [(i, k)] ++ m = m(i \<mapsto> k)"
  by (auto simp: map_add_def fun_eq_iff split: option.split)

lemma ledger_of_snoc:
  assumes "se_event_id e \<notin> se_event_id ` set es"
  shows "ledger_of n (es @ [e]) =
    (let l = (note_terminal e (ledger_of n es))\<lparr>ld_last_sequence := Some (se_sequence e)\<rparr>;
         l = l\<lparr>ld_by_id := (ld_by_id l)(se_event_id e \<mapsto> length (ld_events l))\<rparr>
     in l\<lparr>ld_events := ld_events l @ [e]\<rparr>)"
proof -
  let ?m = "map_of (zip (map se_event_id es) [0..<length es])"
  have "map_of (zip (map se_event_id (es @ [e])) [0..<length (es @ [e])]) = map_of [(se_event_id e, length es)] ++ ?m"
    by (simp add: map_of_append)
  also have "\<dots> = ?m(se_event_id e \<mapsto> length es)"
    using assms by (intro add_new) (simp only: by_id_none simp_thms)
  finally have m: "map_of (zip (map se_event_id (es @ [e])) [0..<length (es @ [e])]) = ?m(se_event_id e \<mapsto> length es)" .
  show ?thesis unfolding ledger_of_def m
    by (simp add: note_terminal_def Let_def split: option.split)
qed

lemma check_event_refusal:
  assumes "se_event_id e \<notin> se_event_id ` set es" "length es < n"
  shows "check_event e (ledger_of n es) = refusal n e es"
proof -
  have o: "check_order e (ledger_of n es) = (if es \<noteq> [] \<and> se_sequence e \<le> se_sequence (last es)
      then Some (TOutOfOrderSequence (se_sequence (last es)) (se_sequence e)) else None)"
    by (simp add: check_order_def ledger_of_def)
  have g: "check_generation e (ledger_of n es) = (if ranges es \<noteq> [] \<and> se_generation e \<noteq> fst (last (ranges es))
      then Some (GenerationMismatch (fst (last (ranges es))) (se_generation e)) else None)"
    by (simp add: check_generation_def ledger_of_def)
  have v: "check_overlap start (ledger_of n es) = (if ranges es \<noteq> [] \<and> start < snd (snd (last (ranges es)))
      then Some (OverlappingTerminalRange (snd (snd (last (ranges es)))) start) else None)" for start
    by (simp add: check_overlap_def ledger_of_def)
  show ?thesis using assms unfolding check_event_def o g v refusal_def Let_def split_beta
    by (cases "terminal_range (se_payload e)") simp_all
qed

lemma append_offer:
  assumes "distinct (map se_event_id es)"
  shows "ledger_append e (ledger_of n es) = Some (case offer n e es of (r, es') \<Rightarrow> (r, ledger_of n es'))"
proof (cases "se_event_id e \<in> se_event_id ` set es")
  case True
  then obtain k where k: "k < length es" "se_event_id (es ! k) = se_event_id e" by (auto simp: in_set_conv_nth)
  then have b: "ld_by_id (ledger_of n es) (se_event_id e) = Some k" using by_id_in [OF assms] by simp
  have same: "e \<in> set es \<longleftrightarrow> es ! k = e"
  proof
    assume "e \<in> set es"
    then obtain j where "j < length es" "es ! j = e" by (auto simp: in_set_conv_nth)
    then show "es ! k = e" using k nth_eq_iff_index_eq [OF assms, of j k] by simp
  qed (use k in auto)
  have "ld_events (ledger_of n es) = es" by (simp add: ledger_of_def)
  then show ?thesis using True k same by (simp add: ledger_append_def b get_at_def offer_def refusal_def)
next
  case False
  then have b: "ld_by_id (ledger_of n es) (se_event_id e) = None" using by_id_none [of es] by (simp add: ledger_of_def)
  have f: "ld_events (ledger_of n es) = es" "ld_max (ledger_of n es) = n"
    "ld_last_sequence (ledger_of n es) = (if es = [] then None else Some (se_sequence (last es)))"
    by (simp_all add: ledger_of_def)
  have e: "e \<notin> set es" using False by blast
  show ?thesis
  proof (cases "n \<le> length es")
    case True
    then show ?thesis using False e by (simp add: ledger_append_def b f offer_def refusal_def)
  next
    case room: False
    then show ?thesis using check_event_refusal [OF False, of n] ledger_of_snoc [OF False, of n] e
      by (simp add: ledger_append_def b f offer_def Let_def split: option.split)
  qed
qed

lemma offer_distinct: "offer n e es = (r, es') \<Longrightarrow> distinct (map se_event_id es) \<Longrightarrow> distinct (map se_event_id es')"
  by (auto simp: offer_def refusal_def split: if_splits option.splits)

lemma append_all_offers:
  "distinct (map se_event_id es) \<Longrightarrow>
    append_all evs (ledger_of n es) = Some (case offer_all n evs es of (rs, es') \<Rightarrow> (rs, ledger_of n es'))"
proof (induction evs arbitrary: es)
  case (Cons e evs)
  obtain r es1 where o: "offer n e es = (r, es1)" by force
  with Cons.IH [OF offer_distinct [OF o Cons.prems]] append_offer [OF Cons.prems, of e n] show ?case
    by (simp add: split_beta Let_def)
qed simp

section \<open>The order of what was accepted\<close>

definition event_made :: "semantic_event \<Rightarrow> bool" where
  "event_made e \<longleftrightarrow>
     event_make (se_event_id e) (se_sequence e) (se_generation e) (se_provenance e) (se_payload e) = Inr e"

definition follows :: "u64 \<times> u64 \<times> u64 \<Rightarrow> u64 \<times> u64 \<times> u64 \<Rightarrow> bool" where
  "follows = (\<lambda>(g, _, b) (g', a', _). g = g' \<and> b \<le> a')"

definition orderly_story :: "nat \<Rightarrow> semantic_event list \<Rightarrow> bool" where
  "orderly_story n es \<longleftrightarrow> distinct (map se_event_id es) \<and> sorted_wrt (<) (map se_sequence es) \<and> length es \<le> n \<and>
     sorted_wrt follows (ranges es) \<and> (\<forall>(g, a, b) \<in> set (ranges es). a < b)"

lemma made_range: "event_made e \<Longrightarrow> terminal_range (se_payload e) = Some (a, b) \<Longrightarrow> a < b"
  by (auto simp: event_made_def event_make_def Let_def split: if_splits)

lemma made_authority:
  "event_made e \<Longrightarrow> is_command_submitted (se_payload e) \<Longrightarrow> se_provenance e \<in> {StructuredInput, ShellMark}"
  "event_made e \<Longrightarrow> is_process_exited (se_payload e) \<Longrightarrow> se_provenance e = Process"
  by (cases "se_payload e"; auto simp: event_made_def event_make_def Let_def split: if_splits)+

lemma sorted_snoc_last: "sorted_wrt (<) (xs @ [x]) \<longleftrightarrow> sorted_wrt (<) xs \<and> (xs \<noteq> [] \<longrightarrow> last xs < (x :: 'a :: linorder))"
  by (cases xs rule: rev_cases) (auto simp: sorted_wrt_append dest: less_trans)

lemma follows_snoc_last:
  assumes "sorted_wrt follows rs" "\<forall>(g, a, b) \<in> set rs. a < b" "rs \<noteq> []" "follows (last rs) r"
  shows "sorted_wrt follows (rs @ [r])"
proof -
  have "follows x r" if "x \<in> set rs" for x
  proof (cases "x = last rs")
    case False
    obtain xs y where rs: "rs = xs @ [y]" using assms(3) by (cases rs rule: rev_cases) auto
    then have "follows x y" using assms(1) that False by (auto simp: sorted_wrt_append)
    moreover have "follows y r" "\<forall>g a b. y = (g, a, b) \<longrightarrow> a < b" using assms(2,4) rs by auto
    ultimately show ?thesis by (fastforce simp: follows_def)
  qed (use assms(4) in simp)
  then show ?thesis using assms(1) by (simp add: sorted_wrt_append)
qed

lemma offer_orderly:
  assumes "offer n e es = (r, es')" "orderly_story n es" "event_made e"
  shows "orderly_story n es'"
proof (cases "e \<in> set es \<or> refusal n e es \<noteq> None")
  case False
  then have es': "es' = es @ [e]" and ok: "refusal n e es = None" using assms(1) by (auto simp: offer_def)
  from ok have f: "se_event_id e \<notin> se_event_id ` set es" "length es < n" "es = [] \<or> se_sequence (last es) < se_sequence e"
    by (auto simp: refusal_def split: if_splits)
  have q: "sorted_wrt (<) (map se_sequence (es @ [e]))"
    using assms(2) f(3) by (auto simp: orderly_story_def sorted_snoc_last last_map simp del: sorted_wrt_map)
  show ?thesis
  proof (cases "terminal_range (se_payload e)")
    case None
    then show ?thesis using assms(2) f q unfolding es' orderly_story_def by (intro conjI q) simp_all
  next
    case (Some x)
    obtain a b where x: "x = (a, b)" by force
    then have ab: "a < b" using made_range [OF assms(3)] Some by simp
    let ?r = "(se_generation e, a, b)"
    have "sorted_wrt follows (ranges es @ [?r])"
    proof (cases "ranges es = []")
      case False
      then have "follows (last (ranges es)) ?r"
        using ok f Some x by (auto simp: refusal_def follows_def Let_def split_beta split: if_splits)
      with assms(2) False show ?thesis by (intro follows_snoc_last) (auto simp: orderly_story_def)
    qed simp
    then show ?thesis using assms(2) f q Some x ab unfolding es' orderly_story_def by (intro conjI q) auto
  qed
qed (use assms in \<open>auto simp: offer_def split: option.splits if_splits\<close>)

lemma offer_keeps: "offer n e es = (r, es') \<Longrightarrow> \<exists>more. es' = es @ more \<and> set more \<subseteq> {e}"
  by (auto simp: offer_def split: if_splits option.splits)

lemma offers_orderly:
  "offer_all n evs es = (rs, es') \<Longrightarrow> orderly_story n es \<Longrightarrow> \<forall>e \<in> set evs. event_made e \<Longrightarrow>
    orderly_story n es' \<and> set es' \<subseteq> set es \<union> set evs"
proof (induction evs arbitrary: es rs)
  case (Cons e evs)
  obtain r es1 where o: "offer n e es = (r, es1)" by force
  obtain rs1 where a: "offer_all n evs es1 = (rs1, es')" using Cons.prems(1) o by (auto simp: Let_def split: prod.splits)
  have "orderly_story n es1" using offer_orderly [OF o Cons.prems(2)] Cons.prems(3) by simp
  from Cons.IH [OF a this] Cons.prems(3) have "orderly_story n es'" "set es' \<subseteq> set es1 \<union> set evs" by simp_all
  with offer_keeps [OF o] show ?case by fastforce
qed simp

text \<open>What is in the ledger is taken again without a change.\<close>

lemma offer_again: "set evs \<subseteq> set es \<Longrightarrow> offer_all n evs es = (replicate (length evs) (Inr ()), es)"
  by (induction evs) (auto simp: offer_def)

section \<open>What holds of every ledger\<close>

text \<open>
  The ledger is the list of the events it accepted. For any events offered to a new ledger, no
  append panics, every answer is the one the list of accepted events gives (replayed, refused for a
  reason, or taken), and the index and the three marks the ledger keeps beside the events are exactly
  what that list determines.
\<close>

theorem ledger_refines_event_list:
  "append_all evs (with_max_events n) =
    Some (case offer_all (max n 1) evs [] of (rs, es) \<Rightarrow> (rs, ledger_of (max n 1) es))"
proof -
  have "with_max_events n = ledger_of (max n 1) []" by (simp add: with_max_events_def ledger_of_def)
  then show ?thesis using append_all_offers [of "[]" evs "max n 1"] by simp
qed

text \<open>
  C37: the transcript is told in order and on authority. A ledger that was offered any events made by
  the constructor holds at most its cap of them, no two under one name, in strictly growing sequence;
  those that name terminal bytes are of one generation and follow each other without overlap; a command
  comes from structured input or a shell mark and an exit from the process; and offering all of them
  again is accepted and changes nothing.
\<close>

theorem ledger_is_orderly:
  assumes "append_all evs (with_max_events n) = Some (rs, l)" and "\<forall>e \<in> set evs. event_made e"
  shows "length (ld_events l) \<le> max n 1 \<and> distinct (map se_event_id (ld_events l)) \<and>
    sorted_wrt (<) (map se_sequence (ld_events l)) \<and>
    sorted_wrt (\<lambda>(g, _, b) (g', a', _). g = g' \<and> b \<le> a') (ranges (ld_events l)) \<and>
    (\<forall>e \<in> set (ld_events l).
      (is_command_submitted (se_payload e) \<longrightarrow> se_provenance e \<in> {StructuredInput, ShellMark}) \<and>
      (is_process_exited (se_payload e) \<longrightarrow> se_provenance e = Process)) \<and>
    append_all (ld_events l) l = Some (replicate (length (ld_events l)) (Inr ()), l)"
proof -
  have new: "with_max_events n = ledger_of (max n 1) []" by (simp add: with_max_events_def ledger_of_def)
  obtain es where es: "offer_all (max n 1) evs [] = (rs, es)" "l = ledger_of (max n 1) es"
    using assms(1) append_all_offers [of "[]" evs "max n 1"] by (auto simp: new split: prod.splits)
  have "orderly_story (max n 1) []" by (simp add: orderly_story_def)
  from offers_orderly [OF es(1) this assms(2)] have o: "orderly_story (max n 1) es" "set es \<subseteq> set evs" by simp_all
  have l: "ld_events l = es" by (simp add: es(2) ledger_of_def)
  have "append_all es l = Some (replicate (length es) (Inr ()), l)"
    using append_all_offers [of es es "max n 1"] offer_again [of es es "max n 1"] o(1)
    by (simp add: es(2) orderly_story_def)
  moreover have "\<forall>e \<in> set es. event_made e" using assms(2) o(2) by blast
  ultimately show ?thesis using o(1) made_authority unfolding l by (auto simp: orderly_story_def follows_def)
qed

definition demo_events :: "semantic_event list" where
  "demo_events =
     [\<lparr>se_event_id = EventId [1], se_sequence = 1, se_generation = 7, se_provenance = Pty, se_payload = TerminalOutput 0 8\<rparr>,
      \<lparr>se_event_id = EventId [2], se_sequence = 2, se_generation = 7, se_provenance = Pty, se_payload = TerminalOutput 4 9\<rparr>,
      \<lparr>se_event_id = EventId [3], se_sequence = 3, se_generation = 7, se_provenance = Pty, se_payload = TerminalOutput 8 9\<rparr>]"

lemma ledger_is_orderly_witness:
  "\<exists>rs l. append_all demo_events (with_max_events 9) = Some (rs, l) \<and> rs = [Inr (), Inl (OverlappingTerminalRange 8 4), Inr ()] \<and>
    distinct (map se_event_id (ld_events l)) \<and> append_all (ld_events l) l = Some ([Inr (), Inr ()], l)"
proof -
  have "append_all demo_events (with_max_events 9) =
      Some ([Inr (), Inl (OverlappingTerminalRange 8 4), Inr ()], ledger_of 9 [demo_events ! 0, demo_events ! 2])"
    by (simp add: append_all_offers [of "[]" _ 9, unfolded ledger_of_def [of 9 "[]"], simplified] with_max_events_def max_def
        demo_events_def offer_def refusal_def Let_def ranges_def map_filter_simps word_le_nat_alt)
  moreover have "\<forall>e \<in> set demo_events. event_made e" by (simp add: demo_events_def event_made_def event_make_def)
  moreover have "length (ld_events (ledger_of 9 [demo_events ! 0, demo_events ! 2])) = 2" by (simp add: ledger_of_def)
  ultimately show ?thesis using ledger_is_orderly [of demo_events 9] by (auto simp: numeral_2_eq_2)
qed

end
