(* ===== verification/Attention.thy ===== *)
theory Attention imports Rill_Std begin

text \<open>
  The attention queue (\<open>crates/rill-orchestrate/src/attention.rs\<close>): what asks for the user, and what may
  be forgotten. An identifier is a number; the code's \<open>u64\<close> would overflow after \<open>2\<^sup>6\<^sup>4\<close> entries.
\<close>

section \<open>States\<close>

datatype attention_state = CompletedUnread | Disconnected | Failed | NeedsInput | Approval

text \<open>The derived order of the source: later constructors are more urgent.\<close>

primrec urgency :: "attention_state \<Rightarrow> nat" where
  "urgency CompletedUnread = 0"
| "urgency Disconnected = 1"
| "urgency Failed = 2"
| "urgency NeedsInput = 3"
| "urgency Approval = 4"

instantiation attention_state :: linorder
begin

definition less_eq_attention_state :: "attention_state \<Rightarrow> attention_state \<Rightarrow> bool" where
  "less_eq_attention_state a b \<longleftrightarrow> urgency a \<le> urgency b"

definition less_attention_state :: "attention_state \<Rightarrow> attention_state \<Rightarrow> bool" where
  "less_attention_state a b \<longleftrightarrow> urgency a < urgency b"

instance
proof
  fix x y z :: attention_state
  show "(x < y) = (x \<le> y \<and> \<not> y \<le> x)" "x \<le> x" "x \<le> y \<or> y \<le> x"
    by (auto simp: less_eq_attention_state_def less_attention_state_def)
  show "x \<le> y \<Longrightarrow> y \<le> z \<Longrightarrow> x \<le> z" by (simp add: less_eq_attention_state_def)
  show "x \<le> y \<Longrightarrow> y \<le> x \<Longrightarrow> x = y" by (cases x; cases y; simp add: less_eq_attention_state_def)
qed

end

definition is_actionable :: "attention_state \<Rightarrow> bool" where
  "is_actionable s \<longleftrightarrow> s = NeedsInput \<or> s = Approval"

section \<open>The queue\<close>

record attention_entry =
  at_id :: nat
  at_target :: str
  at_state :: attention_state
  at_origin :: str
  at_seq :: nat
  at_time :: u64
  at_read :: bool

record view_event =
  ve_visible :: bool
  ve_key :: bool
  ve_dwell :: u64

definition MIN_DWELL_MS :: u64 where "MIN_DWELL_MS = 250"

record attention_queue =
  aq_entries :: "attention_entry list"
  aq_next_id :: nat
  aq_next_seq :: nat
  aq_cap :: nat

definition attention_new :: "nat \<Rightarrow> attention_queue" where
  "attention_new cap = \<lparr>aq_entries = [], aq_next_id = 1, aq_next_seq = 1, aq_cap = cap\<rparr>"

definition attention_enqueue ::
    "str \<Rightarrow> attention_state \<Rightarrow> str \<Rightarrow> u64 \<Rightarrow> attention_queue \<Rightarrow> nat \<times> attention_queue" where
  "attention_enqueue target state origin now q =
     (let i = aq_next_id q;
          e = \<lparr>at_id = i, at_target = target, at_state = state, at_origin = origin, at_seq = aq_next_seq q,
            at_time = now, at_read = False\<rparr>;
          q = q\<lparr>aq_next_id := i + 1, aq_next_seq := aq_next_seq q + 1, aq_entries := aq_entries q @ [e]\<rparr>;
          count = length (filter (\<lambda>e. at_target e = target) (aq_entries q))
      in (i, if count > aq_cap q
             then q\<lparr>aq_entries :=
               remove_first (\<lambda>e. at_target e = target \<and> \<not> is_actionable (at_state e)) (aq_entries q)\<rparr>
             else q))"

definition rollup :: "str list \<Rightarrow> attention_queue \<Rightarrow> attention_state option" where
  "rollup targets q =
     (let unread = map at_state (filter (\<lambda>e. at_target e \<in> set targets \<and> \<not> at_read e) (aq_entries q))
      in case unread of [] \<Rightarrow> None | s # ss \<Rightarrow> Some (foldl max s ss))"

definition observe_view :: "nat \<Rightarrow> view_event \<Rightarrow> attention_queue \<Rightarrow> attention_queue" where
  "observe_view i v q =
     (if ve_visible v \<and> ve_key v \<and> ve_dwell v \<ge> MIN_DWELL_MS
      then q\<lparr>aq_entries := update_first (\<lambda>e. at_id e = i) (\<lambda>e. e\<lparr>at_read := True\<rparr>) (aq_entries q)\<rparr>
      else q)"

definition is_read :: "nat \<Rightarrow> attention_queue \<Rightarrow> bool" where
  "is_read i q = (case List.find (\<lambda>e. at_id e = i) (aq_entries q) of None \<Rightarrow> False | Some e \<Rightarrow> at_read e)"

definition mailbox_entries :: "str \<Rightarrow> attention_queue \<Rightarrow> attention_entry list" where
  "mailbox_entries target q = filter (\<lambda>e. at_target e = target \<and> \<not> at_read e) (aq_entries q)"

definition badge_count :: "str \<Rightarrow> attention_queue \<Rightarrow> nat" where
  "badge_count target q = length (filter (\<lambda>e. at_target e = target \<and> \<not> at_read e) (aq_entries q))"

section \<open>What is never forgotten\<close>

datatype attention_op = Enqueue str attention_state str u64 | Observe nat view_event

fun attention_do :: "attention_op \<Rightarrow> attention_queue \<Rightarrow> attention_queue" where
  "attention_do (Enqueue t s w now) q = snd (attention_enqueue t s w now q)"
| "attention_do (Observe i v) q = observe_view i v q"

text \<open>Everything that was ever enqueued, with the views that count: the queue without its cap.\<close>

fun remember :: "attention_op \<Rightarrow> attention_entry list \<Rightarrow> attention_entry list" where
  "remember (Enqueue t s w now) es =
     es @ [\<lparr>at_id = length es + 1, at_target = t, at_state = s, at_origin = w, at_seq = length es + 1, at_time = now,
       at_read = False\<rparr>]"
| "remember (Observe i v) es =
     (if ve_visible v \<and> ve_key v \<and> ve_dwell v \<ge> 250
      then map (\<lambda>e. if at_id e = i then e\<lparr>at_read := True\<rparr> else e) es else es)"

text \<open>The entries of a target that may be forgotten, and those that may not.\<close>

definition idle_of :: "str \<Rightarrow> attention_entry list \<Rightarrow> attention_entry list" where
  "idle_of t = filter (\<lambda>e. at_target e = t \<and> \<not> is_actionable (at_state e))"

definition urgent_of :: "attention_entry list \<Rightarrow> attention_entry list" where
  "urgent_of = filter (\<lambda>e. is_actionable (at_state e))"

definition count_of :: "str \<Rightarrow> attention_entry list \<Rightarrow> nat" where
  "count_of t es = length (filter (\<lambda>e. at_target e = t) es)"

definition kept :: "attention_queue \<Rightarrow> attention_entry list \<Rightarrow> bool" where
  "kept q es \<longleftrightarrow> aq_next_id q = length es + 1 \<and> aq_next_seq q = length es + 1 \<and> map at_id es = [1..<length es + 1] \<and>
     subseq (aq_entries q) es \<and> urgent_of (aq_entries q) = urgent_of es \<and>
     (\<forall>t. \<exists>k. idle_of t (aq_entries q) = drop k (idle_of t es)) \<and>
     (\<forall>t. count_of t (aq_entries q) \<le> aq_cap q \<or> idle_of t (aq_entries q) = [])"

lemma kept_ids: "kept q es \<Longrightarrow> distinct (map at_id (aq_entries q))"
  using subseq_distinct [OF subseq_map [of "aq_entries q" es at_id]] by (simp add: kept_def)

lemma marked_filters:
  assumes "\<And>e. at_target (m e) = at_target e" "\<And>e. at_state (m e) = at_state e"
  shows "idle_of t (map m es) = map m (idle_of t es)" "urgent_of (map m es) = map m (urgent_of es)"
    "count_of t (map m es) = count_of t es"
  by (simp_all add: idle_of_def urgent_of_def count_of_def filter_map comp_def assms)

lemma observe_kept:
  assumes "kept q es"
  shows "kept (observe_view i v q) (remember (Observe i v) es)"
proof (cases "ve_visible v \<and> ve_key v \<and> ve_dwell v \<ge> 250")
  case True
  let ?m = "\<lambda>e :: attention_entry. if at_id e = i then e\<lparr>at_read := True\<rparr> else e"
  have o: "observe_view i v q = q\<lparr>aq_entries := map ?m (aq_entries q)\<rparr>"
    using True update_first_map [OF kept_ids [OF assms]] by (simp add: observe_view_def MIN_DWELL_MS_def)
  have m: "at_target (?m e) = at_target e" "at_state (?m e) = at_state e" "at_id (?m e) = at_id e" for e by simp_all
  note f = marked_filters [of ?m, OF m(1,2)]
  have ids: "map at_id (map ?m es) = map at_id es" by (simp add: comp_def m(3))
  have d: "\<exists>k. map ?m (idle_of t (aq_entries q)) = drop k (map ?m (idle_of t es))" for t
  proof -
    obtain k where "idle_of t (aq_entries q) = drop k (idle_of t es)" using assms unfolding kept_def by blast
    then show ?thesis by (intro exI [of _ k]) (simp only: drop_map)
  qed
  have c: "count_of t (map ?m (aq_entries q)) \<le> aq_cap q \<or> idle_of t (map ?m (aq_entries q)) = []" for t
    using assms unfolding f by (simp add: kept_def)
  have q': "aq_entries (observe_view i v q) = map ?m (aq_entries q)" "aq_next_id (observe_view i v q) = aq_next_id q"
    "aq_next_seq (observe_view i v q) = aq_next_seq q" "aq_cap (observe_view i v q) = aq_cap q"
    by (simp_all add: o)
  have es': "remember (Observe i v) es = map ?m es" using True by simp
  show ?thesis unfolding kept_def q' es'
  proof (intro conjI allI)
    show "subseq (map ?m (aq_entries q)) (map ?m es)" using assms by (intro subseq_map) (simp add: kept_def)
    show "\<exists>k. idle_of t (map ?m (aq_entries q)) = drop k (idle_of t (map ?m es))" for t unfolding f by (rule d)
    show "urgent_of (map ?m (aq_entries q)) = urgent_of (map ?m es)" unfolding f using assms by (simp add: kept_def)
  qed (use assms c ids in \<open>simp_all add: kept_def\<close>)
next
  case False
  then have "observe_view i v q = q" "remember (Observe i v) es = es"
    by (simp_all only: observe_view_def MIN_DWELL_MS_def remember.simps if_False)
  then show ?thesis using assms by simp
qed

lemma snoc_filters:
  "idle_of t (es @ [e]) = idle_of t es @ (if at_target e = t \<and> \<not> is_actionable (at_state e) then [e] else [])"
  "urgent_of (es @ [e]) = urgent_of es @ (if is_actionable (at_state e) then [e] else [])"
  "count_of t (es @ [e]) = count_of t es + (if at_target e = t then 1 else 0)"
  by (simp_all add: idle_of_def urgent_of_def count_of_def)

lemma enqueue_kept:
  assumes "kept q es"
  shows "kept (snd (attention_enqueue t s w now q)) (remember (Enqueue t s w now) es)"
proof -
  define e where "e = \<lparr>at_id = length es + 1, at_target = t, at_state = s, at_origin = w, at_seq = length es + 1,
    at_time = now, at_read = False\<rparr>"
  define xs where "xs = aq_entries q @ [e]"
  define p where "p = (\<lambda>e :: attention_entry. at_target e = t \<and> \<not> is_actionable (at_state e))"
  define ys where "ys = (if count_of t xs > aq_cap q then remove_first p xs else xs)"
  note k = assms [unfolded kept_def]
  have q: "snd (attention_enqueue t s w now q) =
      q\<lparr>aq_next_id := length es + 2, aq_next_seq := length es + 2, aq_entries := ys\<rparr>"
    using k by (simp add: attention_enqueue_def Let_def ys_def xs_def p_def count_of_def e_def)
  have r: "remember (Enqueue t s w now) es = es @ [e]" by (simp add: e_def)
  have sub: "subseq xs (es @ [e])" using k by (simp add: xs_def)
  have urgent: "urgent_of xs = urgent_of (es @ [e])" using k by (simp add: xs_def snoc_filters)
  have idle: "\<exists>k. idle_of u xs = drop k (idle_of u (es @ [e]))" for u
  proof -
    obtain j where j: "idle_of u (aq_entries q) = drop j (idle_of u es)" using k by blast
    show ?thesis unfolding xs_def snoc_filters j
      by (rule exI [of _ "min j (length (idle_of u es))"]) (simp add: min_def)
  qed
  have other: "u \<noteq> t \<Longrightarrow> idle_of u (remove_first p xs) = idle_of u xs" "u \<noteq> t \<Longrightarrow> count_of u (remove_first p xs) = count_of u xs" for u
    unfolding idle_of_def count_of_def by (subst filter_remove_first(1); simp add: p_def)+
  have same: "idle_of t (remove_first p xs) = tl (idle_of t xs)"
    using filter_remove_first(2) [of p xs] by (simp add: idle_of_def p_def)
  have "count_of u ys \<le> aq_cap q \<or> idle_of u ys = []" for u
  proof (cases "u = t")
    case True
    show ?thesis
    proof (cases "count_of t xs > aq_cap q \<and> idle_of t xs \<noteq> []")
      case over: True
      have "Suc (count_of t (remove_first p xs)) = count_of t xs"
        unfolding count_of_def by (rule count_remove_first) (use over in \<open>auto simp: p_def idle_of_def\<close>)
      moreover have "count_of t xs \<le> Suc (aq_cap q) \<or> idle_of t (aq_entries q) = []"
        using k by (auto simp: xs_def snoc_filters e_def)
      ultimately show ?thesis using over True same
        by (auto simp: ys_def) (auto simp: xs_def snoc_filters split: if_splits)
    qed (use True same in \<open>auto simp: ys_def\<close>)
  next
    case False
    have "count_of u xs = count_of u (aq_entries q)" "idle_of u xs = idle_of u (aq_entries q)"
      using False by (simp_all add: xs_def snoc_filters e_def)
    then show ?thesis using k other [OF False] by (simp add: ys_def)
  qed
  moreover have "\<exists>k. idle_of u ys = drop k (idle_of u (es @ [e]))" for u
    using idle [of u] other(1) [of u] same by (cases "u = t") (auto simp: ys_def drop_Suc [symmetric] tl_drop)
  moreover have "urgent_of ys = urgent_of xs"
    unfolding urgent_of_def ys_def using filter_remove_first(1) [of p "\<lambda>e. is_actionable (at_state e)" xs] by (simp add: p_def)
  moreover have "subseq ys (es @ [e])"
    using sub subseq_order.order_trans [OF subseq_remove_first sub] by (simp add: ys_def)
  moreover have "map at_id (es @ [e]) = [1..<length (es @ [e]) + 1]" using k by (simp add: e_def)
  ultimately show ?thesis unfolding q r kept_def using urgent by simp
qed

lemma run_kept: "kept (fold attention_do ops (attention_new cap)) (fold remember ops [])"
proof (induction ops rule: rev_induct)
  case Nil
  then show ?case by (simp add: kept_def attention_new_def idle_of_def urgent_of_def)
next
  case (snoc op ops)
  then show ?case by (cases op) (simp_all add: enqueue_kept observe_kept del: remember.simps)
qed

lemma run_cap: "aq_cap (fold attention_do ops q) = aq_cap q"
proof (induction ops arbitrary: q)
  case (Cons op ops)
  then show ?case by (cases op) (simp_all add: attention_enqueue_def observe_view_def Let_def)
qed simp

text \<open>
  C39: attention that asks for an answer is never forgotten. After any sequence of entries and views,
  the queue is what was ever entered, in its order and with its read marks, less some entries: none that
  needs input or approval, and for each target the oldest of the others first; and a target has more
  entries than the cap only when all of them need an answer.
\<close>

theorem actionable_attention_is_never_dropped:
  "let q = fold attention_do ops (attention_new cap); es = fold remember ops []
   in subseq (aq_entries q) es \<and> urgent_of (aq_entries q) = urgent_of es \<and>
     (\<forall>t. \<exists>k. idle_of t (aq_entries q) = drop k (idle_of t es)) \<and>
     (\<forall>t. count_of t (aq_entries q) \<le> cap \<or> idle_of t (aq_entries q) = [])"
  using run_kept [of ops cap] run_cap [of ops "attention_new cap"]
  by (simp add: kept_def Let_def attention_new_def)

section \<open>The surfaces\<close>

lemma foldl_max: "foldl max s ss = (Max (set (s # ss)) :: attention_state)"
proof (induction ss arbitrary: s)
  case (Cons a ss)
  show ?case
  proof (cases "ss = []")
    case False
    then show ?thesis using Cons by (simp add: Max_insert max.assoc)
  qed simp
qed simp

text \<open>
  All surfaces tell the same. The badge of a target counts its mailbox; the rollup of some targets
  is empty exactly when all their badges are, and otherwise the most urgent state of their mailboxes.
\<close>

theorem surfaces_agree:
  "badge_count t q = length (mailbox_entries t q) \<and>
   (rollup ts q = None \<longleftrightarrow> (\<forall>t \<in> set ts. badge_count t q = 0)) \<and>
   (rollup ts q = Some s \<longleftrightarrow>
     (\<exists>t \<in> set ts. \<exists>e \<in> set (mailbox_entries t q). at_state e = s) \<and>
     (\<forall>t \<in> set ts. \<forall>e \<in> set (mailbox_entries t q). at_state e \<le> s))"
proof -
  let ?u = "map at_state (filter (\<lambda>e. at_target e \<in> set ts \<and> \<not> at_read e) (aq_entries q))"
  have r: "rollup ts q = (if ?u = [] then None else Some (Max (set ?u)))"
    unfolding rollup_def Let_def by (cases ?u) (simp_all only: list.case foldl_max if_True if_False list.distinct refl)
  have u: "x \<in> set ?u \<longleftrightarrow> (\<exists>t \<in> set ts. \<exists>e \<in> set (mailbox_entries t q). at_state e = x)" for x
    by (auto simp: mailbox_entries_def)
  have "rollup ts q = None \<longleftrightarrow> (\<forall>t \<in> set ts. badge_count t q = 0)"
    unfolding r by (auto simp: badge_count_def filter_empty_conv)
  moreover have "rollup ts q = Some s \<longleftrightarrow> s \<in> set ?u \<and> (\<forall>x \<in> set ?u. x \<le> s)"
    unfolding r using Max_eq_iff [of "set ?u" s] Max_in [of "set ?u"] by (auto simp del: set_map)
  ultimately show ?thesis unfolding u by (auto simp: badge_count_def mailbox_entries_def)
qed

end
