(* ===== verification/Trust.thy ===== *)
theory Trust imports Rill_Std Vt_Checkpoint begin

text \<open>
  Trust in a project and the redaction of secrets (\<open>crates/rill-orchestrate/src/trust.rs\<close>). Paths are of
  any type, up to the equality of \<open>PathBuf\<close>.
\<close>

section \<open>Trust bound to content\<close>

definition content_digest :: "byte list \<Rightarrow> u64" where
  "content_digest bs = foldl (\<lambda>h b. (h XOR ucast b) * 0x100000001b3) 0xcbf29ce484222325 bs"

type_synonym 'path trust_store = "'path \<rightharpoonup> u64"

definition trust :: "'path \<Rightarrow> byte list \<Rightarrow> 'path trust_store \<Rightarrow> 'path trust_store" where
  "trust path content t = t(path \<mapsto> content_digest content)"

definition revoke :: "'path \<Rightarrow> 'path trust_store \<Rightarrow> 'path trust_store" where
  "revoke path t = t(path := None)"

definition is_trusted :: "'path \<Rightarrow> byte list \<Rightarrow> 'path trust_store \<Rightarrow> bool" where
  "is_trusted path content t \<longleftrightarrow> t path = Some (content_digest content)"

datatype 'path trust_op = Grant 'path "byte list" | Revoke 'path

fun trust_do :: "'path trust_op \<Rightarrow> 'path trust_store \<Rightarrow> 'path trust_store" where
  "trust_do (Grant path content) t = trust path content t"
| "trust_do (Revoke path) t = revoke path t"

text \<open>The content of the last grant of a path that was not revoked since.\<close>

fun granted_content :: "'path \<Rightarrow> 'path trust_op list \<Rightarrow> byte list option" where
  "granted_content p [] = None"
| "granted_content p (op # ops) =
     (case granted_content p ops of
        Some c \<Rightarrow> Some c
      | None \<Rightarrow> (case op of Grant q c \<Rightarrow> if q = p \<and> Revoke p \<notin> set ops then Some c else None | Revoke _ \<Rightarrow> None))"

lemma store_is_last_grant:
  "fold trust_do ops t p =
    (case granted_content p ops of
       Some c \<Rightarrow> Some (content_digest c)
     | None \<Rightarrow> if Revoke p \<in> set ops then None else t p)"
proof (induction ops arbitrary: t)
  case (Cons op ops)
  show ?case
    by (cases op) (auto simp: Cons trust_def revoke_def split: option.split)
qed simp

lemma digest_step_inj: "(h XOR c) * FNV_PRIME = (h' XOR c) * FNV_PRIME \<Longrightarrow> h = h'"
  by (auto dest!: fnv_prime_inj xor_cancel_right)

lemma digest_one_byte:
  assumes "i < length bs" "b \<noteq> bs ! i"
  shows "content_digest (bs[i := b]) \<noteq> content_digest bs"
proof
  let ?f = "\<lambda>h b. (h XOR ucast (b :: byte)) * (0x100000001b3 :: u64)"
  have f: "?f h b = (h XOR ucast b) * FNV_PRIME" for h b by (simp add: FNV_PRIME_def)
  have inj: "foldl ?f h xs = foldl ?f h' xs \<Longrightarrow> h = h'" for xs h h'
    by (induction xs arbitrary: h h') (auto simp: f dest: digest_step_inj)
  define h where "h = foldl ?f 0xcbf29ce484222325 (take i bs)"
  have d: "content_digest (take i bs @ x # drop (Suc i) bs) = foldl ?f (?f h x) (drop (Suc i) bs)" for x
    by (simp add: content_digest_def h_def)
  assume "content_digest (bs[i := b]) = content_digest bs"
  then have "content_digest (take i bs @ b # drop (Suc i) bs) = content_digest (take i bs @ bs ! i # drop (Suc i) bs)"
    using assms(1) by (simp add: upd_conv_take_nth_drop id_take_nth_drop [symmetric])
  then have "?f h b = ?f h (bs ! i)" unfolding d by (rule inj)
  then have "ucast b = (ucast (bs ! i) :: u64)" unfolding f by (metis fnv_prime_inj xor.commute xor_cancel_right)
  then show False using assms(2) byte_widen_inj by blast
qed

text \<open>
  Trust is bound to content. After any grants and revocations, a content of a path is trusted
  exactly when the path was granted and not revoked since, with a content of the same digest; in
  particular, once any single byte of a granted file is changed, the file is trusted no more.
\<close>

theorem trust_is_bound_to_content:
  assumes "t = fold trust_do ops Map.empty"
  shows "(is_trusted p c t \<longleftrightarrow> (\<exists>c'. granted_content p ops = Some c' \<and> content_digest c = content_digest c')) \<and>
    (granted_content p ops = Some c \<and> i < length c \<and> b \<noteq> c ! i \<longrightarrow> is_trusted p c t \<and> \<not> is_trusted p (c[i := b]) t)"
  using store_is_last_grant [of ops Map.empty p] digest_one_byte [of i c b]
  by (auto simp: assms is_trusted_def split: option.splits)

lemma trust_is_bound_to_content_witness:
  "is_trusted (1::nat) [7, 8] (fold trust_do [Grant 1 [7, 8], Revoke 2] Map.empty) \<and>
   \<not> is_trusted (1::nat) [7, 9] (fold trust_do [Grant 1 [7, 8], Revoke 2] Map.empty)"
  using trust_is_bound_to_content [of "fold trust_do [Grant 1 [7, 8], Revoke 2] Map.empty" "[Grant 1 [7, 8], Revoke 2]" "1::nat" "[7, 8]" 1 9]
  by simp

section \<open>Redaction\<close>

definition SECRET_KEY_HINTS :: "str list" where
  "SECRET_KEY_HINTS =
     [[0x53, 0x45, 0x43, 0x52, 0x45, 0x54], [0x54, 0x4f, 0x4b, 0x45, 0x4e],
      [0x50, 0x41, 0x53, 0x53, 0x57, 0x4f, 0x52, 0x44], [0x50, 0x41, 0x53, 0x53, 0x57, 0x44],
      [0x41, 0x50, 0x49, 0x5f, 0x4b, 0x45, 0x59], [0x41, 0x50, 0x49, 0x4b, 0x45, 0x59],
      [0x50, 0x52, 0x49, 0x56, 0x41, 0x54, 0x45, 0x5f, 0x4b, 0x45, 0x59]]"

definition SECRET_VALUE_PREFIXES :: "str list" where
  "SECRET_VALUE_PREFIXES =
     [[0x73, 0x6b, 0x2d], [0x67, 0x68, 0x70, 0x5f], [0x67, 0x68, 0x6f, 0x5f], [0x41, 0x4b, 0x49, 0x41],
      [0x78, 0x6f, 0x78, 0x62, 0x2d], [0x78, 0x6f, 0x78, 0x70, 0x2d], [0x78, 0x6f, 0x78, 0x61, 0x2d]]"

definition REDACTED :: str where
  "REDACTED = [0x5b, 0x52, 0x45, 0x44, 0x41, 0x43, 0x54, 0x45, 0x44, 0x5d]"

text \<open>
  \<open>to_uppercase\<close>, as far as a hint can tell: the hints are ASCII, so only what becomes an ASCII letter
  matters. Besides the small letters these are the scalars listed here; every other stays as it is.
\<close>

definition upper_char :: "nat \<Rightarrow> str" where
  "upper_char c =
     (if 0x61 \<le> c \<and> c \<le> 0x7a then [c - 0x20]
      else if c = 0xdf then [0x53, 0x53] else if c = 0x131 then [0x49] else if c = 0x149 then [0x2bc, 0x4e]
      else if c = 0x17f then [0x53] else if c = 0x1f0 then [0x4a, 0x30c] else if c = 0x1e96 then [0x48, 0x331]
      else if c = 0x1e97 then [0x54, 0x308] else if c = 0x1e98 then [0x57, 0x30a] else if c = 0x1e99 then [0x59, 0x30a]
      else if c = 0x1e9a then [0x41, 0x2be] else if c = 0xfb00 then [0x46, 0x46] else if c = 0xfb01 then [0x46, 0x49]
      else if c = 0xfb02 then [0x46, 0x4c] else if c = 0xfb03 then [0x46, 0x46, 0x49]
      else if c = 0xfb04 then [0x46, 0x46, 0x4c] else if c = 0xfb05 \<or> c = 0xfb06 then [0x53, 0x54] else [c])"

definition to_uppercase :: "str \<Rightarrow> str" where
  "to_uppercase s = concat (map upper_char s)"

text \<open>One pass for a prefix: from its first occurrence to the end of the word.\<close>

definition mask_prefix :: "str \<Rightarrow> str \<Rightarrow> str" where
  "mask_prefix p out =
     (case find_str p out of
        None \<Rightarrow> out
      | Some pos \<Rightarrow>
          let e = pos + length (takeWhile (\<lambda>c. \<not> is_whitespace c) (drop pos out))
          in take pos out @ REDACTED @ drop e out)"

text \<open>The key of a line, up to its first equals sign, and whether it names a secret.\<close>

definition line_key :: "str \<Rightarrow> str" where
  "line_key line = takeWhile (\<lambda>c. c \<noteq> 0x3d) line"

definition secret_key :: "str \<Rightarrow> bool" where
  "secret_key line \<longleftrightarrow> 0x3d \<in> set line \<and>
     (\<exists>h \<in> set SECRET_KEY_HINTS. has_str h (to_uppercase (trim (line_key line))))"

definition redact_line :: "str \<Rightarrow> str" where
  "redact_line line =
     (if secret_key line
      then line_key line @ 0x3d # REDACTED @ (if line \<noteq> [] \<and> last line = 0x0a then [0x0a] else [])
      else foldl (\<lambda>out p. mask_prefix p out) line SECRET_VALUE_PREFIXES)"

text \<open>\<open>split_inclusive\<close> at line feeds.\<close>

fun split_inclusive :: "str \<Rightarrow> str list" where
  "split_inclusive [] = []"
| "split_inclusive (c # cs) =
     (if c = 0x0a then [c] # split_inclusive cs
      else case split_inclusive cs of [] \<Rightarrow> [[c]] | l # ls \<Rightarrow> (c # l) # ls)"

definition redact_secrets :: "str \<Rightarrow> str" where
  "redact_secrets txt = concat (map redact_line (split_inclusive txt))"

definition write_live_surface :: "str \<Rightarrow> str \<Rightarrow> str" where "write_live_surface written txt = written @ txt"

section \<open>What redaction leaves\<close>

























text \<open>A second word with the prefix of a first is not masked: \<open>sk-a sk-b\<close>.\<close>

lemma second_secret_survives:
  "redact_secrets [0x73, 0x6b, 0x2d, 0x61, 0x20, 0x73, 0x6b, 0x2d, 0x62] = REDACTED @ [0x20, 0x73, 0x6b, 0x2d, 0x62]"
  by (simp add: redact_secrets_def redact_line_def secret_key_def mask_prefix_def SECRET_VALUE_PREFIXES_def REDACTED_def is_whitespace_def Let_def)


end
