(* ===== verification/Task.thy ===== *)
theory Task imports Trust begin

text \<open>
  The agent task (\<open>crates/rill-orchestrate/src/task.rs\<close>): its sections, the decisions on its approvals,
  the queue of prompts that waits for it, replay, persistence and attachments. The \<open>toml\<close> crate is a
  parameter. A section index is a number; the code's \<open>u64\<close> would overflow after \<open>2\<^sup>6\<^sup>4\<close> sections.
\<close>

section \<open>Sections\<close>

datatype section_kind = Prompt | Plan | Tool | Command | Output | Approval | Diff | Result | Question

primrec kind_str :: "section_kind \<Rightarrow> str" where
  "kind_str Prompt = [0x70, 0x72, 0x6f, 0x6d, 0x70, 0x74]"
| "kind_str Plan = [0x70, 0x6c, 0x61, 0x6e]"
| "kind_str Tool = [0x74, 0x6f, 0x6f, 0x6c]"
| "kind_str Command = [0x63, 0x6f, 0x6d, 0x6d, 0x61, 0x6e, 0x64]"
| "kind_str Output = [0x6f, 0x75, 0x74, 0x70, 0x75, 0x74]"
| "kind_str Approval = [0x61, 0x70, 0x70, 0x72, 0x6f, 0x76, 0x61, 0x6c]"
| "kind_str Diff = [0x64, 0x69, 0x66, 0x66]"
| "kind_str Result = [0x72, 0x65, 0x73, 0x75, 0x6c, 0x74]"
| "kind_str Question = [0x71, 0x75, 0x65, 0x73, 0x74, 0x69, 0x6f, 0x6e]"

definition kind_from_tag :: "str \<Rightarrow> section_kind" where
  "kind_from_tag t =
     (if t = [0x70, 0x72, 0x6f, 0x6d, 0x70, 0x74] then Prompt
      else if t = [0x70, 0x6c, 0x61, 0x6e] then Plan
      else if t = [0x74, 0x6f, 0x6f, 0x6c] then Tool
      else if t = [0x63, 0x6f, 0x6d, 0x6d, 0x61, 0x6e, 0x64] then Command
      else if t = [0x6f, 0x75, 0x74, 0x70, 0x75, 0x74] then Output
      else if t = [0x61, 0x70, 0x70, 0x72, 0x6f, 0x76, 0x61, 0x6c] then Approval
      else if t = [0x64, 0x69, 0x66, 0x66] then Diff
      else if t = [0x72, 0x65, 0x73, 0x75, 0x6c, 0x74] then Result
      else if t = [0x71, 0x75, 0x65, 0x73, 0x74, 0x69, 0x6f, 0x6e] then Question
      else Output)"

record task_section =
  sc_index :: nat
  sc_kind :: section_kind
  sc_content :: str
  sc_closed :: bool

datatype task_error = UnknownSection | SectionClosed | StillBlocked | NotAnApproval | NotAQuestion

datatype approval_decision = Approved | Rejected | Cancelled

record task_decision =
  de_decision :: approval_decision
  de_actor :: str
  de_at :: u64

record agent_task =
  tk_id :: u64
  tk_next :: nat
  tk_sections :: "task_section list"
  tk_decisions :: "nat \<rightharpoonup> task_decision"

definition task_new :: "u64 \<Rightarrow> agent_task" where
  "task_new i = \<lparr>tk_id = i, tk_next = 0, tk_sections = [], tk_decisions = Map.empty\<rparr>"

definition task_append :: "section_kind \<Rightarrow> str \<Rightarrow> agent_task \<Rightarrow> nat \<times> agent_task" where
  "task_append kind content t =
     (let i = tk_next t; s = \<lparr>sc_index = i, sc_kind = kind, sc_content = content, sc_closed = False\<rparr>
      in (i, t\<lparr>tk_next := i + 1, tk_sections := tk_sections t @ [s]\<rparr>))"

definition find_section :: "nat \<Rightarrow> agent_task \<Rightarrow> task_section option" where
  "find_section i t = List.find (\<lambda>s. sc_index s = i) (tk_sections t)"

definition task_close :: "nat \<Rightarrow> agent_task \<Rightarrow> (task_error + unit) \<times> agent_task" where
  "task_close i t =
     (case find_section i t of
        None \<Rightarrow> (Inl UnknownSection, t)
      | Some _ \<Rightarrow>
          (Inr (), t\<lparr>tk_sections := update_first (\<lambda>s. sc_index s = i) (\<lambda>s. s\<lparr>sc_closed := True\<rparr>) (tk_sections t)\<rparr>))"

definition mutate_content :: "nat \<Rightarrow> str \<Rightarrow> agent_task \<Rightarrow> (task_error + unit) \<times> agent_task" where
  "mutate_content i content t =
     (case find_section i t of
        None \<Rightarrow> (Inl UnknownSection, t)
      | Some s \<Rightarrow>
          if sc_closed s then (Inl SectionClosed, t)
          else (Inr (), t\<lparr>tk_sections :=
            update_first (\<lambda>s. sc_index s = i) (\<lambda>s. s\<lparr>sc_content := content\<rparr>) (tk_sections t)\<rparr>))"

section \<open>Gates\<close>

text \<open>The mark \<open>[answers #N]\<close> of an answer.\<close>

definition answer_mark :: "nat \<Rightarrow> str" where
  "answer_mark n = [0x5b, 0x61, 0x6e, 0x73, 0x77, 0x65, 0x72, 0x73, 0x20, 0x23] @ map (\<lambda>d. 0x30 + d) (dec n) @ [0x5d]"

definition has_answer :: "nat \<Rightarrow> agent_task \<Rightarrow> bool" where
  "has_answer i t \<longleftrightarrow> (\<exists>s \<in> set (tk_sections t). begins_with (answer_mark i) (sc_content s))"

definition is_gate :: "section_kind \<Rightarrow> bool" where
  "is_gate k \<longleftrightarrow> k = Approval \<or> k = Question"

definition is_blocked :: "agent_task \<Rightarrow> bool" where
  "is_blocked t =
     (case List.find (\<lambda>s. is_gate (sc_kind s)) (rev (tk_sections t)) of
        None \<Rightarrow> False
      | Some s \<Rightarrow>
          if sc_kind s = Approval then tk_decisions t (sc_index s) = None
          else if sc_kind s = Question then \<not> has_answer (sc_index s) t else False)"

definition task_decide :: "nat \<Rightarrow> approval_decision \<Rightarrow> str \<Rightarrow> u64 \<Rightarrow> agent_task \<Rightarrow> (task_error + unit) \<times> agent_task" where
  "task_decide i d actor now t =
     (case find_section i t of
        None \<Rightarrow> (Inl UnknownSection, t)
      | Some s \<Rightarrow>
          if sc_kind s \<noteq> Approval then (Inl NotAnApproval, t)
          else task_close i
            (t\<lparr>tk_decisions := (tk_decisions t)(i \<mapsto> \<lparr>de_decision = d, de_actor = actor, de_at = now\<rparr>)\<rparr>))"

definition task_answer :: "nat \<Rightarrow> str \<Rightarrow> agent_task \<Rightarrow> (task_error + nat) \<times> agent_task" where
  "task_answer i txt t =
     (case find_section i t of
        None \<Rightarrow> (Inl UnknownSection, t)
      | Some s \<Rightarrow>
          if sc_kind s \<noteq> Question then (Inl NotAQuestion, t)
          else
            let (j, t) = task_append Result (answer_mark i @ 0x20 # txt) t
            in case task_close i t of (Inl e, t) \<Rightarrow> (Inl e, t) | (Inr _, t) \<Rightarrow> (Inr j, t))"

definition task_fork :: "u64 \<Rightarrow> nat \<Rightarrow> agent_task \<Rightarrow> agent_task" where
  "task_fork new_id up_to t =
     (let ss = filter (\<lambda>s. sc_index s \<le> up_to) (tk_sections t)
      in \<lparr>tk_id = new_id, tk_next = (if ss = [] then 0 else sc_index (last ss) + 1), tk_sections = ss,
          tk_decisions = (\<lambda>i. if i \<le> up_to then tk_decisions t i else None)\<rparr>)"

text \<open>The prompt queue, oldest first.\<close>

definition queue_push :: "str \<Rightarrow> str list \<Rightarrow> str list" where "queue_push p q = q @ [p]"

definition try_send :: "agent_task \<Rightarrow> str list \<Rightarrow> (task_error + str option) \<times> str list" where
  "try_send t q =
     (if is_blocked t then (Inl StillBlocked, q)
      else case q of [] \<Rightarrow> (Inr None, []) | p # ps \<Rightarrow> (Inr (Some p), ps))"

text \<open>Replay: the recorded events, by tag and content, and how many there were.\<close>

fun replay_drive :: "(str \<times> str) list \<Rightarrow> agent_task \<Rightarrow> nat \<times> agent_task" where
  "replay_drive [] t = (0, t)"
| "replay_drive ((tag, content) # evs) t =
     (let (_, t) = task_append (kind_from_tag tag) content t; (n, t) = replay_drive evs t in (n + 1, t))"

section \<open>Persistence\<close>

record section_entry =
  xs_index :: nat
  xs_kind :: str
  xs_content :: str
  xs_closed :: bool

record decision_entry =
  xd_index :: nat
  xd_decision :: str
  xd_actor :: str
  xd_at :: u64

record snapshot_doc =
  sd_id :: u64
  sd_next :: nat
  sd_section :: "section_entry list"
  sd_decision :: "decision_entry list"
  sd_queue :: "str list"

primrec decision_to_str :: "approval_decision \<Rightarrow> str" where
  "decision_to_str Approved = [0x61, 0x70, 0x70, 0x72, 0x6f, 0x76, 0x65, 0x64]"
| "decision_to_str Rejected = [0x72, 0x65, 0x6a, 0x65, 0x63, 0x74, 0x65, 0x64]"
| "decision_to_str Cancelled = [0x63, 0x61, 0x6e, 0x63, 0x65, 0x6c, 0x6c, 0x65, 0x64]"

definition decision_from_str :: "str \<Rightarrow> approval_decision" where
  "decision_from_str s =
     (if s = [0x61, 0x70, 0x70, 0x72, 0x6f, 0x76, 0x65, 0x64] then Approved
      else if s = [0x72, 0x65, 0x6a, 0x65, 0x63, 0x74, 0x65, 0x64] then Rejected else Cancelled)"

text \<open>
  The document of a task, with its decisions in the order \<open>is\<close> in which the \<open>HashMap\<close> gives its keys.
  A document that \<open>toml\<close> does not write is the empty text, and one it does not read is the default.
\<close>

definition snapshot_of :: "nat list \<Rightarrow> agent_task \<Rightarrow> str list \<Rightarrow> snapshot_doc" where
  "snapshot_of order t q =
     \<lparr>sd_id = tk_id t, sd_next = tk_next t,
      sd_section = map (\<lambda>s. \<lparr>xs_index = sc_index s, xs_kind = kind_str (sc_kind s), xs_content = sc_content s,
        xs_closed = sc_closed s\<rparr>) (tk_sections t),
      sd_decision = List.map_filter (\<lambda>i. map_option (\<lambda>d. \<lparr>xd_index = i, xd_decision = decision_to_str (de_decision d),
        xd_actor = de_actor d, xd_at = de_at d\<rparr>) (tk_decisions t i)) order,
      sd_queue = q\<rparr>"

definition persist_task_and_queue :: "(snapshot_doc \<Rightarrow> str option) \<Rightarrow> nat list \<Rightarrow> agent_task \<Rightarrow> str list \<Rightarrow> str" where
  "persist_task_and_queue to_string order t q =
     (case to_string (snapshot_of order t q) of None \<Rightarrow> [] | Some txt \<Rightarrow> txt)"

definition restore_task_and_queue :: "(str \<Rightarrow> snapshot_doc option) \<Rightarrow> u64 \<Rightarrow> str \<Rightarrow> agent_task \<times> str list" where
  "restore_task_and_queue from_str i txt =
     (let doc = (case from_str txt of
           None \<Rightarrow> \<lparr>sd_id = i, sd_next = 0, sd_section = [], sd_decision = [], sd_queue = []\<rparr>
         | Some doc \<Rightarrow> doc)
      in (\<lparr>tk_id = sd_id doc, tk_next = sd_next doc,
           tk_sections = map (\<lambda>e. \<lparr>sc_index = xs_index e, sc_kind = kind_from_tag (xs_kind e), sc_content = xs_content e,
             sc_closed = xs_closed e\<rparr>) (sd_section doc),
           tk_decisions = map_of (rev (map (\<lambda>e. (xd_index e, \<lparr>de_decision = decision_from_str (xd_decision e),
             de_actor = xd_actor e, de_at = xd_at e\<rparr>)) (sd_decision doc)))\<rparr>, sd_queue doc))"

section \<open>Attachments\<close>

datatype attach_context_error = EmptyScope

record context_attachment =
  ca_scope :: str
  ca_content :: str

definition attach_context :: "str \<Rightarrow> str \<Rightarrow> attach_context_error + context_attachment" where
  "attach_context scope raw =
     (if trim scope = [] then Inl EmptyScope else Inr \<lparr>ca_scope = scope, ca_content = redact_secrets raw\<rparr>)"

section \<open>History\<close>

datatype task_op =
    TAppend section_kind str
  | TMutate nat str
  | TDecide nat approval_decision str u64
  | TAnswer nat str

fun task_do :: "task_op \<Rightarrow> agent_task \<Rightarrow> agent_task" where
  "task_do (TAppend k c) t = snd (task_append k c t)"
| "task_do (TMutate i c) t = snd (mutate_content i c t)"
| "task_do (TDecide i d a now) t = snd (task_decide i d a now t)"
| "task_do (TAnswer i c) t = snd (task_answer i c t)"

text \<open>A task that was made new, or forked, and used in any way.\<close>

inductive task_reach :: "agent_task \<Rightarrow> bool" where
  task_fresh: "task_reach (task_new i)"
| task_used: "task_reach t \<Longrightarrow> task_reach (task_do op t)"
| task_forked: "task_reach t \<Longrightarrow> task_reach (task_fork i k t)"

definition section_at :: "agent_task \<Rightarrow> nat \<Rightarrow> task_section" where
  "section_at t i = tk_sections t ! i"

definition wf_task :: "agent_task \<Rightarrow> bool" where
  "wf_task t \<longleftrightarrow> map sc_index (tk_sections t) = [0..<tk_next t] \<and>
     (\<forall>i d. tk_decisions t i = Some d \<longrightarrow> i < tk_next t \<and> sc_kind (section_at t i) = Approval \<and> sc_closed (section_at t i))"

lemma wf_length: "wf_task t \<Longrightarrow> length (tk_sections t) = tk_next t"
  unfolding wf_task_def by (metis diff_zero length_map length_upt)

lemma wf_index: "wf_task t \<Longrightarrow> i < tk_next t \<Longrightarrow> sc_index (section_at t i) = i"
  using wf_length [of t] unfolding wf_task_def section_at_def by (metis add_0 nth_map nth_upt)

lemma find_index: "map k xs = [0..<n] \<Longrightarrow> List.find (\<lambda>x. k x = i) xs = (if i < n then Some (xs ! i) else None)"
proof -
  assume m: "map k xs = [0..<n]"
  then have l: "length xs = n" by (metis diff_zero length_map length_upt)
  then have k: "j < n \<Longrightarrow> k (xs ! j) = j" for j using m by (metis add_0 nth_map nth_upt)
  show ?thesis
  proof (cases "i < n")
    case True
    then have "List.find (\<lambda>x. k x = i) xs = Some (xs ! i)"
      unfolding find_Some_iff by (intro exI [of _ i]) (use k l in auto)
    then show ?thesis using True by simp
  qed (use k l in \<open>auto simp: find_None_iff in_set_conv_nth\<close>)
qed

lemma update_index:
  assumes "map k xs = [0..<n]" "i < n"
  shows "update_first (\<lambda>x. k x = i) f xs = xs[i := f (xs ! i)]"
proof -
  have l: "length xs = n" using assms(1) by (metis diff_zero length_map length_upt)
  then have k: "j < n \<Longrightarrow> k (xs ! j) = j" for j using assms(1) by (metis add_0 nth_map nth_upt)
  have "update_first (\<lambda>x. k x = i) f xs = map (\<lambda>x. if k x = i then f x else x) xs"
    by (rule update_first_map) (simp add: assms(1))
  also have "\<dots> = xs[i := f (xs ! i)]" by (rule nth_equalityI) (use k l in \<open>auto simp: nth_list_update\<close>)
  finally show ?thesis .
qed

lemma find_section_wf: "wf_task t \<Longrightarrow> find_section i t = (if i < tk_next t then Some (section_at t i) else None)"
  by (simp add: find_section_def section_at_def wf_task_def find_index)

definition set_section :: "nat \<Rightarrow> task_section \<Rightarrow> agent_task \<Rightarrow> agent_task" where
  "set_section i s t = t\<lparr>tk_sections := (tk_sections t)[i := s]\<rparr>"

lemma close_wf:
  "wf_task t \<Longrightarrow> task_close i t =
    (if i < tk_next t then (Inr (), set_section i (section_at t i\<lparr>sc_closed := True\<rparr>) t) else (Inl UnknownSection, t))"
  by (simp add: task_close_def find_section_wf set_section_def section_at_def wf_task_def update_index)

lemma mutate_wf:
  "wf_task t \<Longrightarrow> mutate_content i c t =
    (if i < tk_next t then
       (if sc_closed (section_at t i) then (Inl SectionClosed, t)
        else (Inr (), set_section i (section_at t i\<lparr>sc_content := c\<rparr>) t))
     else (Inl UnknownSection, t))"
  by (simp add: mutate_content_def find_section_wf set_section_def section_at_def wf_task_def update_index)

lemma decide_wf:
  assumes "wf_task t"
  shows "task_decide i d a now t =
    (if i < tk_next t then
       (if sc_kind (section_at t i) \<noteq> Approval then (Inl NotAnApproval, t)
        else (Inr (), (set_section i (section_at t i\<lparr>sc_closed := True\<rparr>) t)\<lparr>tk_decisions :=
          (tk_decisions t)(i \<mapsto> \<lparr>de_decision = d, de_actor = a, de_at = now\<rparr>)\<rparr>))
     else (Inl UnknownSection, t))"
  using assms
  by (simp add: task_decide_def find_section_wf task_close_def set_section_def section_at_def wf_task_def update_index
      find_section_def find_index)

lemma append_snd:
  "snd (task_append k c t) = t\<lparr>tk_next := tk_next t + 1, tk_sections := tk_sections t @
    [\<lparr>sc_index = tk_next t, sc_kind = k, sc_content = c, sc_closed = False\<rparr>]\<rparr>" "fst (task_append k c t) = tk_next t"
  by (simp_all add: task_append_def Let_def)

lemma append_wf:
  assumes "wf_task t"
  shows "wf_task (snd (task_append k c t))"
proof -
  have "section_at (snd (task_append k c t)) i = section_at t i" if "i < tk_next t" for i
    using that wf_length [OF assms] by (simp add: append_snd section_at_def nth_append)
  then show ?thesis using assms unfolding wf_task_def by (auto simp: append_snd less_Suc_eq)
qed

lemma answer_wf:
  assumes "wf_task t"
  shows "task_answer i c t =
    (if i < tk_next t then
       (if sc_kind (section_at t i) \<noteq> Question then (Inl NotAQuestion, t)
        else let t' = snd (task_append Result (answer_mark i @ 0x20 # c) t)
          in (Inr (tk_next t), set_section i (section_at t i\<lparr>sc_closed := True\<rparr>) t'))
     else (Inl UnknownSection, t))"
proof -
  let ?t' = "snd (task_append Result (answer_mark i @ 0x20 # c) t)"
  have "i < tk_next t \<Longrightarrow> section_at ?t' i = section_at t i"
    using wf_length [OF assms] by (simp add: append_snd section_at_def nth_append)
  then show ?thesis
    using close_wf [OF append_wf [OF assms], of i Result "answer_mark i @ 0x20 # c"]
    by (simp add: task_answer_def find_section_wf [OF assms] split_beta append_snd Let_def)
qed

text \<open>What using a task keeps: its sections, their kinds, and what is closed.\<close>

definition task_keeps :: "agent_task \<Rightarrow> agent_task \<Rightarrow> bool" where
  "task_keeps t t' \<longleftrightarrow> tk_next t \<le> tk_next t' \<and>
     (\<forall>i < tk_next t. sc_kind (section_at t' i) = sc_kind (section_at t i) \<and>
       (sc_closed (section_at t i) \<longrightarrow> section_at t' i = section_at t i))"

lemma task_keeps_refl [simp]: "task_keeps t t"
  by (simp add: task_keeps_def)

lemma task_keeps_trans: "task_keeps t u \<Longrightarrow> task_keeps u v \<Longrightarrow> task_keeps t v"
  unfolding task_keeps_def by (metis order_less_le_trans order_trans)

lemma set_section_at [simp]:
  "wf_task t \<Longrightarrow> i < tk_next t \<Longrightarrow> section_at (set_section i s t) j = (if j = i then s else section_at t j)"
  "tk_next (set_section i s t) = tk_next t" "tk_decisions (set_section i s t) = tk_decisions t"
  by (auto simp: section_at_def set_section_def wf_length nth_list_update)

lemma section_at_decisions [simp]: "section_at (t\<lparr>tk_decisions := m\<rparr>) i = section_at t i"
  by (simp add: section_at_def)

lemma set_section_wf:
  assumes "wf_task t" "i < tk_next t" "sc_index s = i" "sc_kind s = sc_kind (section_at t i)"
    "sc_closed (section_at t i) \<longrightarrow> sc_closed s"
  shows "wf_task (set_section i s t)"
proof -
  have "map sc_index ((tk_sections t)[i := s]) = (map sc_index (tk_sections t))[i := i]" by (simp add: map_update assms(3))
  also have "\<dots> = [0..<tk_next t]" using assms(1,2) by (simp add: wf_task_def list_update_same_conv)
  finally have "map sc_index (tk_sections (set_section i s t)) = [0..<tk_next (set_section i s t)]" by (simp add: set_section_def)
  then show ?thesis using assms unfolding wf_task_def by (auto simp: wf_task_def)
qed

lemma append_keeps: "wf_task t \<Longrightarrow> task_keeps t (snd (task_append k c t))"
  by (auto simp: task_keeps_def append_snd section_at_def nth_append wf_length)

lemma set_section_keeps:
  "wf_task t \<Longrightarrow> i < tk_next t \<Longrightarrow> sc_kind s = sc_kind (section_at t i) \<Longrightarrow>
    (sc_closed (section_at t i) \<Longrightarrow> s = section_at t i) \<Longrightarrow> task_keeps t (set_section i s t)"
  by (simp add: task_keeps_def)

lemma decisions_wf:
  "wf_task t \<Longrightarrow> i < tk_next t \<Longrightarrow> sc_kind (section_at t i) = Approval \<Longrightarrow> sc_closed (section_at t i) \<Longrightarrow>
    wf_task (t\<lparr>tk_decisions := (tk_decisions t)(i \<mapsto> d)\<rparr>)"
  by (simp add: wf_task_def)

lemma do_task:
  assumes wf: "wf_task t"
  shows "wf_task (task_do op t) \<and> task_keeps t (task_do op t)"
proof (cases op)
  case (TAppend k c)
  then show ?thesis using append_wf [OF wf] append_keeps [OF wf] by simp
next
  case (TMutate i c)
  show ?thesis
  proof (cases "i < tk_next t \<and> \<not> sc_closed (section_at t i)")
    case True
    then show ?thesis using TMutate wf_index [OF wf] wf
      by (auto simp: mutate_wf intro!: set_section_wf set_section_keeps)
  qed (use TMutate wf in \<open>auto simp: mutate_wf\<close>)
next
  case (TDecide i d a now)
  show ?thesis
  proof (cases "i < tk_next t \<and> sc_kind (section_at t i) = Approval")
    case True
    let ?s = "section_at t i\<lparr>sc_closed := True\<rparr>"
    have c: "wf_task (set_section i ?s t)" "task_keeps t (set_section i ?s t)"
      using True wf_index [OF wf] wf by (auto intro!: set_section_wf set_section_keeps)
    have "wf_task ((set_section i ?s t)\<lparr>tk_decisions := (tk_decisions (set_section i ?s t))(i \<mapsto> x)\<rparr>)" for x
      using True wf by (intro decisions_wf [OF c(1)]) simp_all
    then show ?thesis using True TDecide wf c(2) by (simp add: decide_wf) (simp add: task_keeps_def)
  qed (use TDecide wf in \<open>auto simp: decide_wf\<close>)
next
  case (TAnswer i c)
  show ?thesis
  proof (cases "i < tk_next t \<and> sc_kind (section_at t i) = Question")
    case True
    let ?t' = "snd (task_append Result (answer_mark i @ 0x20 # c) t)" and ?s = "section_at t i\<lparr>sc_closed := True\<rparr>"
    have w: "wf_task ?t'" "task_keeps t ?t'" using append_wf [OF wf] append_keeps [OF wf] by simp_all
    have at: "section_at ?t' i = section_at t i" "i < tk_next ?t'"
      using True wf_length [OF wf] by (simp_all add: append_snd section_at_def nth_append)
    have c: "wf_task (set_section i ?s ?t')" "task_keeps ?t' (set_section i ?s ?t')"
      using True at wf_index [OF wf] w(1) by (auto intro!: set_section_wf set_section_keeps)
    then show ?thesis using True TAnswer task_keeps_trans [OF w(2) c(2)] by (simp add: answer_wf [OF wf] Let_def)
  qed (use TAnswer wf in \<open>auto simp: answer_wf\<close>)
qed

lemma fork_prefix:
  assumes "wf_task t"
  shows "tk_sections (task_fork i k t) = take (k + 1) (tk_sections t)" "tk_next (task_fork i k t) = min (k + 1) (tk_next t)"
proof -
  have ix: "j < length (tk_sections t) \<Longrightarrow> sc_index (tk_sections t ! j) = j" for j
    using wf_index [OF assms] wf_length [OF assms] by (simp add: section_at_def)
  have "filter (\<lambda>s. sc_index s \<le> k) xs = take (k + 1 - n) xs" if "map sc_index xs = [n..<m]" for xs n m
    using that
  proof (induction xs arbitrary: n)
    case (Cons x xs)
    have u: "[n..<m] = sc_index x # map sc_index xs" using Cons.prems by simp
    then have x: "sc_index x = n" "map sc_index xs = [Suc n..<m]" by (auto simp: upt_eq_Cons_conv)
    show ?case
    proof (cases "n \<le> k")
      case True
      then show ?thesis using Cons.IH [OF x(2)] x(1) by (simp add: Suc_diff_le)
    next
      case False
      then show ?thesis using Cons.IH [OF x(2)] x(1) by simp
    qed
  qed simp
  from this [of "tk_sections t" 0 "tk_next t"] show s: "tk_sections (task_fork i k t) = take (k + 1) (tk_sections t)"
    using assms wf_length [OF assms] by (simp add: task_fork_def wf_task_def Let_def)
  have "tk_next (task_fork i k t) = (if tk_sections (task_fork i k t) = [] then 0 else sc_index (last (tk_sections (task_fork i k t))) + 1)"
    by (simp add: task_fork_def Let_def)
  then show "tk_next (task_fork i k t) = min (k + 1) (tk_next t)"
    unfolding s using ix [of "tk_next t - 1"] ix [of k] wf_length [OF assms]
    by (cases "tk_next t = 0") (auto simp: last_conv_nth min_def)
qed

lemma fork_wf:
  assumes "wf_task t"
  shows "wf_task (task_fork i k t)"
proof -
  note f = fork_prefix [OF assms, of i k]
  have "map sc_index (take (k + 1) (tk_sections t)) = [0..<min (k + 1) (tk_next t)]"
    using assms by (simp add: take_map [symmetric] wf_task_def min_def)
  moreover have "section_at (task_fork i k t) j = section_at t j" if "j \<le> k" for j using that by (simp add: section_at_def f)
  moreover have "tk_decisions (task_fork i k t) = (\<lambda>j. if j \<le> k then tk_decisions t j else None)"
    by (simp add: task_fork_def Let_def)
  ultimately show ?thesis using assms unfolding wf_task_def f by (auto split: if_splits)
qed

lemma reach_wf: "task_reach t \<Longrightarrow> wf_task t"
  by (induction rule: task_reach.induct) (auto simp: do_task fork_wf, simp add: wf_task_def task_new_def)

lemma run_task: "wf_task t \<Longrightarrow> wf_task (fold task_do ops t) \<and> task_keeps t (fold task_do ops t)"
proof (induction ops arbitrary: t)
  case (Cons op ops)
  with do_task [OF Cons.prems, of op] Cons.IH [of "task_do op t"] show ?case by (auto intro: task_keeps_trans)
qed simp

section \<open>Gates stay shut\<close>

text \<open>The gate of a task: its last approval or question.\<close>

definition last_gate :: "nat \<Rightarrow> agent_task \<Rightarrow> bool" where
  "last_gate i t \<longleftrightarrow> i < tk_next t \<and> is_gate (sc_kind (section_at t i)) \<and>
     (\<forall>j. i < j \<and> j < tk_next t \<longrightarrow> \<not> is_gate (sc_kind (section_at t j)))"

definition gate_shut :: "nat \<Rightarrow> agent_task \<Rightarrow> bool" where
  "gate_shut i t \<longleftrightarrow> (if sc_kind (section_at t i) = Approval then tk_decisions t i = None else \<not> has_answer i t)"

lemma find_seam: "P y \<Longrightarrow> \<forall>x \<in> set xs. \<not> P x \<Longrightarrow> List.find P (xs @ y # ys) = Some y"
  by (induction xs) auto

lemma blocked_at_gate:
  assumes "wf_task t" "last_gate i t"
  shows "is_blocked t = gate_shut i t"
proof -
  let ?ss = "tk_sections t"
  have i: "i < length ?ss" using assms wf_length [OF assms(1)] by (simp add: last_gate_def)
  have "rev ?ss = rev (drop (Suc i) ?ss) @ section_at t i # rev (take i ?ss)"
    by (metis append.assoc append_Cons append_Nil i id_take_nth_drop rev.simps(2) rev_append section_at_def)
  moreover have "\<forall>s \<in> set (rev (drop (Suc i) ?ss)). \<not> is_gate (sc_kind s)"
    using assms(2) wf_length [OF assms(1)] by (auto simp: last_gate_def section_at_def in_set_conv_nth)
  moreover have "is_gate (sc_kind (section_at t i))" using assms(2) by (simp add: last_gate_def)
  ultimately have "List.find (\<lambda>s. is_gate (sc_kind s)) (rev ?ss) = Some (section_at t i)" by (simp add: find_seam)
  moreover have "sc_index (section_at t i) = i" using assms wf_index by (simp add: last_gate_def)
  moreover have "sc_kind (section_at t i) \<noteq> Approval \<Longrightarrow> sc_kind (section_at t i) = Question"
    using assms(2) by (auto simp: last_gate_def is_gate_def)
  ultimately show ?thesis by (auto simp: is_blocked_def gate_shut_def)
qed

text \<open>
  What can open a gate, or put another before it: a new gate, a decision on the approval, and for a
  question its answer or a text that passes for one.
\<close>

fun may_open :: "section_kind \<Rightarrow> nat \<Rightarrow> task_op \<Rightarrow> bool" where
  "may_open g i (TAppend k c) \<longleftrightarrow> is_gate k \<or> g = Question \<and> begins_with (answer_mark i) c"
| "may_open g i (TMutate j c) \<longleftrightarrow> g = Question \<and> begins_with (answer_mark i) c"
| "may_open g i (TDecide j d a now) \<longleftrightarrow> g = Approval \<and> j = i"
| "may_open g i (TAnswer j c) \<longleftrightarrow> g = Question \<and> j = i"

lemma mark_of_one: "begins_with (answer_mark i) (answer_mark j @ x) \<Longrightarrow> i = j"
proof -
  let ?d = "\<lambda>n. map (\<lambda>d. 0x30 + d) (dec n) :: str"
  assume "begins_with (answer_mark i) (answer_mark j @ x)"
  then have "prefix (?d i @ [0x5d]) (?d j @ 0x5d # x)" 
    unfolding begins_with_def take_prefix answer_mark_def by simp
  then obtain y where y: "?d i @ 0x5d # y = ?d j @ 0x5d # x" by (auto simp: prefix_def)
  have "takeWhile (\<lambda>c. c \<noteq> 0x5d) (?d n @ 0x5d # z) = ?d n" for n z
  proof -
    have "\<forall>c \<in> set (?d n). c \<noteq> 0x5d" using dec_digits [of n] by auto
    then show ?thesis by (subst takeWhile_append2) auto
  qed
  then have "?d i = ?d j" using arg_cong [OF y, of "takeWhile (\<lambda>c. c \<noteq> 0x5d)"] by simp
  then have "dec i = dec j" by (simp add: inj_map_eq_map inj_def)
  then show "i = j" using dec_value by metis
qed

lemma has_answer_at: "wf_task t \<Longrightarrow> has_answer i t \<longleftrightarrow> (\<exists>j < tk_next t. begins_with (answer_mark i) (sc_content (section_at t j)))"
  using wf_length [of t] unfolding has_answer_def section_at_def by (metis in_set_conv_nth)

lemma gate_after:
  assumes "wf_task t" "last_gate i t" "gate_shut i t" "wf_task t'" "task_keeps t t'"
    and "\<And>j. tk_next t \<le> j \<Longrightarrow> j < tk_next t' \<Longrightarrow> \<not> is_gate (sc_kind (section_at t' j))"
    and "sc_kind (section_at t i) = Approval \<Longrightarrow> tk_decisions t' i = tk_decisions t i"
    and "\<And>j. sc_kind (section_at t i) = Question \<Longrightarrow> j < tk_next t' \<Longrightarrow> begins_with (answer_mark i) (sc_content (section_at t' j)) \<Longrightarrow>
      j < tk_next t \<and> begins_with (answer_mark i) (sc_content (section_at t j))"
  shows "last_gate i t' \<and> gate_shut i t' \<and> sc_kind (section_at t' i) = sc_kind (section_at t i)"
proof -
  have k: "j < tk_next t \<Longrightarrow> sc_kind (section_at t' j) = sc_kind (section_at t j)" "tk_next t \<le> tk_next t'" for j
    using assms(5) by (simp_all add: task_keeps_def)
  have i: "i < tk_next t" "is_gate (sc_kind (section_at t i))" using assms(2) by (simp_all add: last_gate_def)
  have "last_gate i t'" using assms(2,6) k i unfolding last_gate_def by (metis leI order_less_le_trans)
  moreover have "sc_kind (section_at t i) = Question \<Longrightarrow> has_answer i t' \<Longrightarrow> has_answer i t"
    using assms(8) unfolding has_answer_at [OF assms(1)] has_answer_at [OF assms(4)] by blast
  then have "gate_shut i t'"
    using assms(3,7) k(1) [OF i(1)] i(2) by (auto simp: gate_shut_def is_gate_def)
  ultimately show ?thesis using k(1) [OF i(1)] by simp
qed

lemma gate_step:
  assumes wf: "wf_task t" and g: "last_gate i t" "gate_shut i t" and op: "\<not> may_open (sc_kind (section_at t i)) i op"
  shows "last_gate i (task_do op t) \<and> gate_shut i (task_do op t) \<and>
    sc_kind (section_at (task_do op t) i) = sc_kind (section_at t i)"
proof -
  note d = do_task [OF wf, of op]
  have appended: "section_at (snd (task_append k c t)) j =
      (if j < tk_next t then section_at t j else \<lparr>sc_index = tk_next t, sc_kind = k, sc_content = c, sc_closed = False\<rparr>)"
    if "j < tk_next t + 1" for k c j
    using that wf_length [OF wf] by (simp add: append_snd section_at_def nth_append)
  have more: "tk_next (snd (task_append k c t)) = tk_next t + 1" "wf_task (snd (task_append k c t))" for k c
    using append_wf [OF wf] by (simp_all add: append_snd(1))
  show ?thesis
  proof (rule gate_after [OF wf g])
    show "wf_task (task_do op t)" "task_keeps t (task_do op t)" using d by simp_all
  next
    fix j assume j: "tk_next t \<le> j" "j < tk_next (task_do op t)"
    show "\<not> is_gate (sc_kind (section_at (task_do op t) j))"
      using op j wf appended
      by (cases op) (auto simp: mutate_wf decide_wf answer_wf more Let_def is_gate_def split: if_splits)
  next
    assume "sc_kind (section_at t i) = Approval"
    then show "tk_decisions (task_do op t) i = tk_decisions t i"
      using op wf by (cases op) (auto simp: mutate_wf decide_wf answer_wf append_snd Let_def)
  next
    fix j assume j: "sc_kind (section_at t i) = Question" "j < tk_next (task_do op t)"
      "begins_with (answer_mark i) (sc_content (section_at (task_do op t) j))"
    show "j < tk_next t \<and> begins_with (answer_mark i) (sc_content (section_at t j))"
      using op j wf appended
      by (cases op) (auto simp: mutate_wf decide_wf answer_wf more Let_def dest: mark_of_one split: if_splits)
  qed
qed

lemma gate_run:
  "wf_task t \<Longrightarrow> last_gate i t \<Longrightarrow> gate_shut i t \<Longrightarrow> \<forall>op \<in> set ops. \<not> may_open (sc_kind (section_at t i)) i op \<Longrightarrow>
    last_gate i (fold task_do ops t) \<and> gate_shut i (fold task_do ops t) \<and>
    sc_kind (section_at (fold task_do ops t) i) = sc_kind (section_at t i)"
proof (induction ops arbitrary: t)
  case (Cons op ops)
  have s: "last_gate i (task_do op t) \<and> gate_shut i (task_do op t) \<and> sc_kind (section_at (task_do op t) i) = sc_kind (section_at t i)"
    using Cons.prems by (intro gate_step) simp_all
  with Cons.IH [of "task_do op t"] do_task [OF Cons.prems(1)] Cons.prems(4) show ?case by simp
qed simp

lemma mark_begins: "begins_with (answer_mark i) (answer_mark i @ x)"
  by (simp add: begins_with_def)

lemma gate_opens:
  assumes "wf_task t" "last_gate i t"
  shows "sc_kind (section_at t i) = Approval \<Longrightarrow> \<not> is_blocked (task_do (TDecide i d a now) t)"
    and "sc_kind (section_at t i) = Question \<Longrightarrow> \<not> is_blocked (task_do (TAnswer i c) t)"
proof -
  have i: "i < tk_next t" using assms(2) by (simp add: last_gate_def)
  have g: "last_gate i (task_do op t)" if "\<And>j. tk_next t \<le> j \<Longrightarrow> j < tk_next (task_do op t) \<Longrightarrow> \<not> is_gate (sc_kind (section_at (task_do op t) j))" for op
    using do_task [OF assms(1), of op] assms(2) that unfolding last_gate_def task_keeps_def by (metis leI order_less_le_trans)
  { assume k: "sc_kind (section_at t i) = Approval"
    have "last_gate i (task_do (TDecide i d a now) t)" by (rule g) (use assms(1) in \<open>simp add: decide_wf split: if_splits\<close>)
    moreover have "\<not> gate_shut i (task_do (TDecide i d a now) t)"
      using k i assms(1) by (simp add: gate_shut_def decide_wf)
    ultimately show "\<not> is_blocked (task_do (TDecide i d a now) t)"
      using blocked_at_gate [of "task_do (TDecide i d a now) t"] do_task [OF assms(1)] by blast }
  { assume k: "sc_kind (section_at t i) = Question"
    let ?t' = "snd (task_append Result (answer_mark i @ 0x20 # c) t)"
    have t': "task_do (TAnswer i c) t = set_section i (section_at t i\<lparr>sc_closed := True\<rparr>) ?t'" "wf_task ?t'" "tk_next ?t' = tk_next t + 1"
      using k i append_wf [OF assms(1)] by (simp_all add: answer_wf [OF assms(1)] Let_def append_snd(1))
    have new: "section_at ?t' (tk_next t) = \<lparr>sc_index = tk_next t, sc_kind = Result, sc_content = answer_mark i @ 0x20 # c, sc_closed = False\<rparr>"
      using wf_length [OF assms(1)] by (simp add: append_snd section_at_def nth_append)
    have at: "section_at (task_do (TAnswer i c) t) (tk_next t) = section_at ?t' (tk_next t)" "tk_next (task_do (TAnswer i c) t) = tk_next t + 1"
      using t' i by simp_all
    have "last_gate i (task_do (TAnswer i c) t)"
      by (rule g) (use at new in \<open>auto simp: is_gate_def less_Suc_eq_le dest!: le_antisym\<close>)
    moreover have "has_answer i (task_do (TAnswer i c) t)"
      using do_task [OF assms(1), of "TAnswer i c"] at new mark_begins by (auto simp: has_answer_at)
    moreover have "sc_kind (section_at (task_do (TAnswer i c) t) i) = Question" using k t' i by simp
    ultimately show "\<not> is_blocked (task_do (TAnswer i c) t)"
      using blocked_at_gate [of "task_do (TAnswer i c) t" i] do_task [OF assms(1), of "TAnswer i c"] unfolding gate_shut_def by simp }
qed

text \<open>
  C36: the history of a task is append-only. In every task made new or by forking, sections are numbered
  from zero in order; whatever is done to it, no section goes away or changes its kind, and a closed
  section never changes at all; every decision is on a closed approval; and a fork is the prefix of the
  sections up to its cut with their decisions, and nothing more.
\<close>

theorem task_history_is_append_only:
  assumes "task_reach t" and "t' = fold task_do ops t"
  shows "map sc_index (tk_sections t') = [0..<tk_next t'] \<and> tk_next t \<le> tk_next t' \<and>
    (\<forall>i < tk_next t. sc_kind (section_at t' i) = sc_kind (section_at t i) \<and>
      (sc_closed (section_at t i) \<longrightarrow> section_at t' i = section_at t i)) \<and>
    (\<forall>i d. tk_decisions t' i = Some d \<longrightarrow>
      i < tk_next t' \<and> sc_kind (section_at t' i) = Approval \<and> sc_closed (section_at t' i)) \<and>
    tk_sections (task_fork j k t') = take (k + 1) (tk_sections t') \<and> tk_next (task_fork j k t') = min (k + 1) (tk_next t') \<and>
    tk_decisions (task_fork j k t') = (\<lambda>i. if i \<le> k then tk_decisions t' i else None)"
proof -
  have w: "wf_task t'" "task_keeps t t'" using run_task [OF reach_wf [OF assms(1)], of ops] by (simp_all add: assms(2))
  have "tk_decisions (task_fork j k t') = (\<lambda>i. if i \<le> k then tk_decisions t' i else None)"
    by (simp add: task_fork_def Let_def)
  then show ?thesis using w fork_prefix [OF w(1), of j k] unfolding wf_task_def task_keeps_def by simp
qed

lemma task_history_is_append_only_witness:
  "map sc_index (tk_sections (fold task_do [TAppend Approval [7], TAppend Result [8]] (task_new 3))) = [0, 1]"
proof -
  let ?t = "fold task_do [TAppend Approval [7], TAppend Result [8]] (task_new 3)"
  have n: "tk_next ?t = 2" by (simp add: task_new_def append_snd)
  have "map sc_index (tk_sections ?t) = [0..<tk_next ?t]"
    using task_history_is_append_only [OF task_fresh [of 3] refl, of "[TAppend Approval [7], TAppend Result [8]]"] by blast
  then show ?thesis unfolding n by (simp add: upt_rec)
qed

text \<open>
  C35: a gate opens only by its own decision. While the last approval or question of a task is open, the
  task is blocked and no queued prompt is sent; nothing that is done to the task changes that, short of
  a decision on that approval, an answer to that question (or text that passes for one) or a newer gate;
  and the decision or the answer unblocks it.
\<close>

theorem gate_opens_only_by_decision:
  assumes "task_reach t" "last_gate i t" "is_blocked t"
    and "\<forall>op \<in> set ops. \<not> may_open (sc_kind (section_at t i)) i op"
  shows "try_send (fold task_do ops t) q = (Inl StillBlocked, q) \<and>
    (sc_kind (section_at t i) = Approval \<longrightarrow> \<not> is_blocked (task_do (TDecide i d a now) (fold task_do ops t))) \<and>
    (sc_kind (section_at t i) = Question \<longrightarrow> \<not> is_blocked (task_do (TAnswer i c) (fold task_do ops t)))"
proof -
  have wf: "wf_task t" "wf_task (fold task_do ops t)" using run_task [OF reach_wf [OF assms(1)], of ops] reach_wf [OF assms(1)] by simp_all
  have shut: "gate_shut i t" using blocked_at_gate [OF wf(1) assms(2)] assms(3) by simp
  note g = gate_run [OF wf(1) assms(2) shut assms(4)]
  have "is_blocked (fold task_do ops t)" using blocked_at_gate [OF wf(2)] g by blast
  then have "try_send (fold task_do ops t) q = (Inl StillBlocked, q)" by (simp add: try_send_def)
  then show ?thesis using g gate_opens [OF wf(2)] by metis
qed

lemma gate_opens_only_by_decision_witness:
  "try_send (fold task_do [TAppend Output [7]] (task_do (TAppend Approval []) (task_new 3))) [[1]] = (Inl StillBlocked, [[1]])"
proof -
  let ?t = "task_do (TAppend Approval []) (task_new 3)"
  have "task_reach ?t" by (intro task_used task_fresh)
  moreover have "last_gate 0 ?t" "is_blocked ?t" "\<forall>op \<in> set [TAppend Output [7]]. \<not> may_open (sc_kind (section_at ?t 0)) 0 op"
    by (simp_all add: last_gate_def is_blocked_def section_at_def task_new_def append_snd is_gate_def) auto
  ultimately show ?thesis using gate_opens_only_by_decision [of ?t 0 "[TAppend Output [7]]" "[[1]]"] by blast
qed

section \<open>Restarts\<close>

lemma kind_round [simp]: "kind_from_tag (kind_str k) = k"
  by (cases k) (simp_all add: kind_from_tag_def)

lemma decision_round [simp]: "decision_from_str (decision_to_str d) = d"
  by (cases d) (simp_all add: decision_from_str_def)

lemma restored_decisions:
  assumes "distinct order" "set order = dom m"
  shows "map_of (rev (map (\<lambda>e. (xd_index e, \<lparr>de_decision = decision_from_str (xd_decision e), de_actor = xd_actor e, de_at = xd_at e\<rparr>))
      (List.map_filter (\<lambda>i. map_option (\<lambda>d. \<lparr>xd_index = i, xd_decision = decision_to_str (de_decision d),
        xd_actor = de_actor d, xd_at = de_at d\<rparr>) (m i)) order))) = m"
proof -
  let ?f = "\<lambda>i. (i, the (m i))"
  have "map (\<lambda>e. (xd_index e, \<lparr>de_decision = decision_from_str (xd_decision e), de_actor = xd_actor e, de_at = xd_at e\<rparr>))
      (List.map_filter (\<lambda>i. map_option (\<lambda>d. \<lparr>xd_index = i, xd_decision = decision_to_str (de_decision d),
        xd_actor = de_actor d, xd_at = de_at d\<rparr>) (m i)) xs) = map ?f xs" if "set xs \<subseteq> dom m" for xs
    using that by (induction xs) (auto simp: map_filter_simps)
  moreover have "map_of (rev (map ?f order)) = m"
  proof -
    have "map_of (map ?f xs) i = (if i \<in> set xs then Some (the (m i)) else None)" for xs i by (induction xs) auto
    then show ?thesis using assms(2) by (auto simp: rev_map fun_eq_iff domIff)
  qed
  ultimately show ?thesis using assms(2) by simp
qed

lemma section_eta [simp]:
  "map (\<lambda>s. \<lparr>sc_index = sc_index s, sc_kind = sc_kind s, sc_content = sc_content s, sc_closed = sc_closed s\<rparr>) ss = ss"
  by (rule map_idI) simp

lemma task_eta [simp]:
  "\<lparr>tk_id = tk_id t, tk_next = tk_next t, tk_sections = tk_sections t, tk_decisions = tk_decisions t\<rparr> = (t :: agent_task)"
  by simp

text \<open>
  A restart loses nothing and gains nothing. Where the text format gives back the documents it
  writes, and it writes this one, reading what was written gives back the task, every section and every
  decision of it, and the queue of prompts, whatever the order in which the map of decisions is listed.
\<close>

theorem restart_restores_task_and_queue:
  assumes "\<And>d s. to_string d = Some s \<Longrightarrow> from_str s = Some d"
    and "to_string (snapshot_of order t q) \<noteq> None" and "distinct order" "set order = dom (tk_decisions t)"
  shows "restore_task_and_queue from_str i (persist_task_and_queue to_string order t q) = (t, q)"
proof -
  obtain s where "to_string (snapshot_of order t q) = Some s" using assms(2) by auto
  then show ?thesis using assms(1) restored_decisions [OF assms(3,4)]
    by (simp add: persist_task_and_queue_def restore_task_and_queue_def snapshot_of_def comp_def)
qed

lemma restart_restores_task_and_queue_witness:
  "restore_task_and_queue (\<lambda>s. Some (snapshot_of [0] (task_do (TDecide 0 Approved [1] 5) (task_do (TAppend Approval [7]) (task_new 3))) [[8]]))
     9 (persist_task_and_queue (\<lambda>d. if sd_id d = 3 \<and> d = snapshot_of [0] (task_do (TDecide 0 Approved [1] 5) (task_do (TAppend Approval [7]) (task_new 3))) [[8]]
        then Some [1] else None) [0] (task_do (TDecide 0 Approved [1] 5) (task_do (TAppend Approval [7]) (task_new 3))) [[8]]) =
   (task_do (TDecide 0 Approved [1] 5) (task_do (TAppend Approval [7]) (task_new 3)), [[8]])"
proof -
  let ?t = "task_do (TDecide 0 Approved [1] 5) (task_do (TAppend Approval [7]) (task_new 3))"
  have "set [0] = dom (tk_decisions ?t)"
    by (simp add: task_new_def append_snd task_decide_def task_close_def find_section_def dom_def)
  moreover have "sd_id (snapshot_of [0] ?t [[8]]) = 3"
    by (simp add: snapshot_of_def task_new_def append_snd task_decide_def task_close_def find_section_def)
  ultimately show ?thesis
    by (intro restart_restores_task_and_queue) (auto split: if_splits simp del: task_do.simps)
qed

end
