(* ===== verification/Automation.thy ===== *)
theory Automation imports Rill_Std Complex_Main begin

text \<open>
  Automation (\<open>crates/rill-orchestrate/src/automation.rs\<close>): the kinds of semantic events, the actions that
  a script may ask for, and the bounded queue they wait in.
\<close>

section \<open>Events\<close>

datatype event_class = V1 | Future | NotAllowed

datatype rill_event_kind =
    WorkspaceOpened | WorkspaceClosed | TabCreated | TabFocused | PaneCreated | PaneFocused | CwdChanged
  | CommandStarted | CommandCompleted | Bell | AgentStarted | AgentCompleted | AgentAttention
  | AttentionCreated | ConfigReloaded

definition maturity :: "rill_event_kind \<Rightarrow> event_class" where
  "maturity k =
     (case k of
        AgentStarted \<Rightarrow> Future | AgentCompleted \<Rightarrow> Future | AgentAttention \<Rightarrow> Future | AttentionCreated \<Rightarrow> Future
      | _ \<Rightarrow> V1)"

record rill_event =
  re_kind :: rill_event_kind
  re_event_id :: str
  re_source :: str
  re_created_at_ms :: u64
  re_payload :: "str \<rightharpoonup> str"

section \<open>Actions\<close>

datatype split_direction = SplitLeft | SplitRight | SplitUp | SplitDown

primrec direction_str :: "split_direction \<Rightarrow> str" where
  "direction_str SplitLeft = [0x6c, 0x65, 0x66, 0x74]"
| "direction_str SplitRight = [0x72, 0x69, 0x67, 0x68, 0x74]"
| "direction_str SplitUp = [0x75, 0x70]"
| "direction_str SplitDown = [0x64, 0x6f, 0x77, 0x6e]"

text \<open>An \<open>f64\<close>, up to the sign of zero; no comparison with a NaN holds.\<close>

datatype f64 = NaN | PosInf | NegInf | Finite rat

definition in_unit :: "f64 \<Rightarrow> bool" where
  "in_unit x = (case x of Finite r \<Rightarrow> 0 \<le> r \<and> r \<le> 1 | _ \<Rightarrow> False)"

datatype rill_action =
    CreateTab "str option" "str option" "str option"
  | CloseTab str
  | SplitPane str split_direction "str option"
  | FocusPane str
  | SetTabTitle str str
  | SetTabBadge str str
  | ShowNotification str str
  | ChangeRuntimeAppearanceOverride str "f64 option"
  | RunCommand str "str option"
  | OpenWorkspace str

text \<open>The names of fields, as the errors carry them.\<close>

datatype field = FTabId | FPaneId | FTitle | FCommand | FBadge | FBody | FTheme | FCwd | FPath

datatype action_validation_error = EmptyValue field | MissingIdentifier field | InvalidOpacity

definition blank :: "str \<Rightarrow> bool" where "blank s \<longleftrightarrow> trim s = []"

definition blank_opt :: "str option \<Rightarrow> bool" where
  "blank_opt v = (case v of None \<Rightarrow> False | Some s \<Rightarrow> blank s)"

fun validate :: "rill_action \<Rightarrow> action_validation_error + unit" where
  "validate (CreateTab (Some i) title command) =
     (if blank i then Inl (MissingIdentifier FTabId)
      else if blank_opt title then Inl (EmptyValue FTitle)
      else if blank_opt command then Inl (EmptyValue FCommand) else Inr ())"
| "validate (CreateTab None title command) = Inr ()"
| "validate (CloseTab i) = (if blank i then Inl (MissingIdentifier FTabId) else Inr ())"
| "validate (SplitPane i _ command) =
     (if blank i then Inl (MissingIdentifier FPaneId)
      else if blank_opt command then Inl (EmptyValue FCommand) else Inr ())"
| "validate (FocusPane i) = (if blank i then Inl (MissingIdentifier FPaneId) else Inr ())"
| "validate (SetTabTitle i title) =
     (if blank i then Inl (MissingIdentifier FTabId) else if blank title then Inl (EmptyValue FTitle) else Inr ())"
| "validate (SetTabBadge i badge) =
     (if blank i then Inl (MissingIdentifier FTabId) else if blank badge then Inl (EmptyValue FBadge) else Inr ())"
| "validate (ShowNotification title body) =
     (if blank title then Inl (EmptyValue FTitle) else if blank body then Inl (EmptyValue FBody) else Inr ())"
| "validate (ChangeRuntimeAppearanceOverride theme opacity) =
     (if blank theme then Inl (EmptyValue FTheme)
      else case opacity of None \<Rightarrow> Inr () | Some x \<Rightarrow> if \<not> in_unit x then Inl InvalidOpacity else Inr ())"
| "validate (RunCommand command cwd) =
     (if blank command then Inl (EmptyValue FCommand) else if blank_opt cwd then Inl (EmptyValue FCwd) else Inr ())"
| "validate (OpenWorkspace path) = (if blank path then Inl (EmptyValue FPath) else Inr ())"

section \<open>The dispatcher\<close>

datatype action_dispatch_error = QueueFull nat | Validation action_validation_error

record action_dispatcher =
  ad_queue :: "rill_action list"
  ad_limit :: nat

definition dispatcher_new :: "nat \<Rightarrow> action_dispatcher" where
  "dispatcher_new limit = \<lparr>ad_queue = [], ad_limit = max limit 1\<rparr>"

definition action_enqueue :: "rill_action \<Rightarrow> action_dispatcher \<Rightarrow> (action_dispatch_error + unit) \<times> action_dispatcher" where
  "action_enqueue a d =
     (case validate a of
        Inl e \<Rightarrow> (Inl (Validation e), d)
      | Inr _ \<Rightarrow>
          if length (ad_queue d) \<ge> ad_limit d then (Inl (QueueFull (ad_limit d)), d)
          else (Inr (), d\<lparr>ad_queue := ad_queue d @ [a]\<rparr>))"

definition action_dispatch :: "rill_action \<Rightarrow> action_dispatcher \<Rightarrow> (action_dispatch_error + unit) \<times> action_dispatcher" where
  "action_dispatch a d = action_enqueue a d"

function action_drain :: "action_dispatcher \<Rightarrow> rill_action list \<times> action_dispatcher" where
  "action_drain d =
     (case ad_queue d of
        [] \<Rightarrow> ([], d)
      | a # q \<Rightarrow> let (out, d) = action_drain (d\<lparr>ad_queue := q\<rparr>) in (a # out, d))"
  by pat_completeness auto
termination
  by (relation "measure (\<lambda>d. length (ad_queue d))") auto

declare action_drain.simps [simp del]

definition queued_len :: "action_dispatcher \<Rightarrow> nat" where
  "queued_len d = length (ad_queue d)"

record lua_host_policy =
  lp_enabled :: bool
  lp_safe_mode :: bool
  lp_max_actions_per_event :: nat
  lp_timeout_ms :: nat
  lp_queue_limit :: nat

definition lua_host_policy_default :: lua_host_policy where
  "lua_host_policy_default =
     \<lparr>lp_enabled = False, lp_safe_mode = True, lp_max_actions_per_event = 16, lp_timeout_ms = 50, lp_queue_limit = 256\<rparr>"

section \<open>A dispatcher over time\<close>

lemma action_drain_all: "action_drain d = (ad_queue d, d\<lparr>ad_queue := []\<rparr>)"
proof (induction d rule: action_drain.induct)
  case (1 d)
  show ?case
  proof (cases "ad_queue d")
    case Nil
    then show ?thesis by (simp add: action_drain.simps [of d])
  next
    case (Cons a q)
    with 1 [OF Cons] show ?thesis by (simp add: action_drain.simps [of d])
  qed
qed

text \<open>A use of the dispatcher, and what the caller gets from it: the actions taken out.\<close>

datatype action_use = Offer rill_action | Drain

fun use_dispatcher :: "action_use list \<Rightarrow> action_dispatcher \<Rightarrow> rill_action list list \<times> action_dispatcher" where
  "use_dispatcher [] d = ([], d)"
| "use_dispatcher (Offer a # us) d = use_dispatcher us (snd (action_dispatch a d))"
| "use_dispatcher (Drain # us) d =
     (let (out, d) = action_drain d; (outs, d) = use_dispatcher us d in (out # outs, d))"

text \<open>What was accepted, as a plain list of the actions of a use.\<close>

fun accepted_actions :: "action_use list \<Rightarrow> nat \<Rightarrow> nat \<Rightarrow> rill_action list" where
  "accepted_actions [] limit n = []"
| "accepted_actions (Offer a # us) limit n =
     (if validate a = Inr () \<and> n < limit then a # accepted_actions us limit (n + 1) else accepted_actions us limit n)"
| "accepted_actions (Drain # us) limit n = accepted_actions us limit 0"

lemma use_dispatcher_accepts:
  "use_dispatcher us d = (outs, d') \<Longrightarrow>
    ad_limit d' = ad_limit d \<and> concat outs @ ad_queue d' = ad_queue d @ accepted_actions us (ad_limit d) (length (ad_queue d)) \<and>
    (length (ad_queue d) \<le> ad_limit d \<longrightarrow> length (ad_queue d') \<le> ad_limit d \<and> (\<forall>out \<in> set outs. length out \<le> ad_limit d))"
proof (induction us arbitrary: d outs)
  case (Cons u us)
  show ?case
  proof (cases u)
    case (Offer a)
    define d1 where "d1 = snd (action_dispatch a d)"
    have IH: "ad_limit d' = ad_limit d1 \<and>
        concat outs @ ad_queue d' = ad_queue d1 @ accepted_actions us (ad_limit d1) (length (ad_queue d1)) \<and>
        (length (ad_queue d1) \<le> ad_limit d1 \<longrightarrow> length (ad_queue d') \<le> ad_limit d1 \<and> (\<forall>out \<in> set outs. length out \<le> ad_limit d1))"
      using Cons.prems Offer by (intro Cons.IH) (simp add: d1_def)
    show ?thesis
    proof (cases "validate a = Inr () \<and> length (ad_queue d) < ad_limit d")
      case True
      then have "d1 = d\<lparr>ad_queue := ad_queue d @ [a]\<rparr>" by (simp add: d1_def action_dispatch_def action_enqueue_def)
      then show ?thesis using IH True Offer by simp
    next
      case False
      then have "d1 = d" by (cases "validate a") (auto simp: d1_def action_dispatch_def action_enqueue_def)
      then show ?thesis using IH False Offer by auto
    qed
  next
    case Drain
    obtain outs' where o: "use_dispatcher us (d\<lparr>ad_queue := []\<rparr>) = (outs', d')" "outs = ad_queue d # outs'"
      using Cons.prems Drain by (auto simp: action_drain_all split: prod.splits)
    show ?thesis using Cons.IH [OF o(1)] o(2) Drain by simp
  qed
qed simp

lemma accepted_actions_valid: "\<forall>a \<in> set (accepted_actions us limit n). validate a = Inr ()"
proof (induction us arbitrary: n)
  case (Cons u us)
  then show ?case by (cases u) simp_all
qed simp

text \<open>
  The dispatcher is a bounded queue of valid actions. However it is used, what is taken out, followed
  by what still waits, is exactly the actions that were accepted, in order: those that validate and found
  room. It never holds more than its limit, and no drain gives more; no limit of the caller is below one.
\<close>

theorem dispatcher_is_a_bounded_queue:
  assumes "use_dispatcher us (dispatcher_new limit) = (outs, d)"
  shows "concat outs @ ad_queue d = accepted_actions us (max limit 1) 0 \<and> queued_len d \<le> max limit 1 \<and>
    (\<forall>out \<in> set outs. length out \<le> max limit 1) \<and> (\<forall>a \<in> set (concat outs) \<union> set (ad_queue d). validate a = Inr ())"
proof -
  have a: "concat outs @ ad_queue d = accepted_actions us (max limit 1) 0"
    and b: "queued_len d \<le> max limit 1" "\<forall>out \<in> set outs. length out \<le> max limit 1"
    using use_dispatcher_accepts [OF assms] by (simp_all add: dispatcher_new_def queued_len_def)
  have "set (concat outs) \<union> set (ad_queue d) = set (accepted_actions us (max limit 1) 0)" using a by (metis set_append)
  then show ?thesis using a b accepted_actions_valid by metis
qed

lemma dispatcher_is_a_bounded_queue_witness:
  "concat [[FocusPane [0x61]]] @ [CloseTab [0x62]] =
     accepted_actions [Offer (FocusPane [0x61]), Offer (CloseTab [0x63]), Drain, Offer (FocusPane [0x20]), Offer (CloseTab [0x62])] (max 0 1) 0"
proof -
  have "use_dispatcher [Offer (FocusPane [0x61]), Offer (CloseTab [0x63]), Drain, Offer (FocusPane [0x20]), Offer (CloseTab [0x62])]
      (dispatcher_new 0) = ([[FocusPane [0x61]]], \<lparr>ad_queue = [CloseTab [0x62]], ad_limit = 1\<rparr>)"
    by (simp add: dispatcher_new_def action_dispatch_def action_enqueue_def action_drain_all blank_def trim_def is_whitespace_def)
  from dispatcher_is_a_bounded_queue [OF this] show ?thesis by simp
qed

end
