(* ===== verification/Config.thy ===== *)
theory Config imports Rill_Std "HOL-Library.List_Lexorder" begin

text \<open>
  Configuration (\<open>crates/rill-orchestrate/src/config.rs\<close>): layers resolved once, updates written into the
  file of the user, and chords that would swallow control characters. A \<open>table\<close> is the crate's ordered
  map: its entries in the order of their keys. The values, the text format and the file are parameters.
\<close>

section \<open>Tables\<close>

type_synonym 'v table = "(str \<times> 'v) list"

fun table_insert :: "str \<Rightarrow> 'v \<Rightarrow> 'v table \<Rightarrow> 'v table" where
  "table_insert k v [] = [(k, v)]"
| "table_insert k v ((k', w) # t) =
     (if k = k' then (k, v) # t else if k < k' then (k, v) # (k', w) # t else (k', w) # table_insert k v t)"

definition table_ok :: "'v table \<Rightarrow> bool" where
  "table_ok t \<longleftrightarrow> sorted_wrt (<) (map fst t)"

section \<open>Layers\<close>

datatype config_layer = Flag | Env | ProjectTrusted | UserFile | ShippedDefault

record unknown_key =
  uk_layer :: config_layer
  uk_key :: str

text \<open>The first layer, from the highest, that has a key.\<close>

fun first_value :: "str \<Rightarrow> (config_layer \<times> 'v table) list \<Rightarrow> 'v option" where
  "first_value k [] = None"
| "first_value k ((_, t) # ls) = (case map_of t k of Some v \<Rightarrow> Some v | None \<Rightarrow> first_value k ls)"

definition resolve_layers :: "(config_layer \<times> 'v table) list \<Rightarrow> str list \<Rightarrow> 'v table \<times> unknown_key list" where
  "resolve_layers layers schema_keys =
     (fold (\<lambda>key tbl. case first_value key layers of Some v \<Rightarrow> table_insert key v tbl | None \<Rightarrow> tbl) schema_keys [],
      concat (map (\<lambda>(layer, t). map (\<lambda>k. \<lparr>uk_layer = layer, uk_key = k\<rparr>)
        (filter (\<lambda>k. k \<notin> set schema_keys) (map fst t))) layers))"

record 'v resolved_config =
  rc_values :: "'v table"
  rc_unknown :: "unknown_key list"

text \<open>
  \<open>resolve_once\<close> calls each reader, on the world \<open>w\<close> that they read; what it makes holds no reader.
\<close>

definition resolve_once :: "'w \<Rightarrow> (config_layer \<times> ('w \<Rightarrow> 'v table)) list \<Rightarrow> str list \<Rightarrow> 'v resolved_config" where
  "resolve_once w layers schema_keys =
     (let (vals, unknown) = resolve_layers (map (\<lambda>(l, f). (l, f w)) layers) schema_keys
      in \<lparr>rc_values = vals, rc_unknown = unknown\<rparr>)"

definition config_get :: "'v resolved_config \<Rightarrow> str \<Rightarrow> 'v option" where
  "config_get r key = map_of (rc_values r) key"

definition unknown_keys :: "'v resolved_config \<Rightarrow> unknown_key list" where
  "unknown_keys r = rc_unknown r"

section \<open>The file of the user\<close>

text \<open>
  \<open>write_user_config\<close>, from what reading the file gave, to the text written to it: none when the table
  is not written as text, an error that leaves the file as it was.
\<close>

definition updated_doc :: "(str \<Rightarrow> 'v table option) \<Rightarrow> str option \<Rightarrow> 'v table \<Rightarrow> 'v table" where
  "updated_doc from_str file updates =
     (let existing = (case file of None \<Rightarrow> [] | Some s \<Rightarrow> s);
          doc = (case from_str existing of None \<Rightarrow> [] | Some t \<Rightarrow> t)
      in fold (\<lambda>(k, v) doc. table_insert k v doc) updates doc)"

definition write_user_config ::
    "(str \<Rightarrow> 'v table option) \<Rightarrow> ('v table \<Rightarrow> str option) \<Rightarrow> str option \<Rightarrow> 'v table \<Rightarrow> str option" where
  "write_user_config from_str to_string_pretty file updates = to_string_pretty (updated_doc from_str file updates)"

section \<open>Chords\<close>

definition CTRL :: "8 word" where "CTRL = 1"

record key_chord =
  kc_modifiers :: "8 word"
  kc_key :: str

record binding =
  bd_chord :: key_chord
  bd_action :: str

record swallow_warning =
  sw_chord :: key_chord
  sw_bound_to :: str

definition reserved_control_chords :: "key_chord list" where
  "reserved_control_chords = map (\<lambda>k. \<lparr>kc_modifiers = CTRL, kc_key = k\<rparr>) [[0x63], [0x64], [0x7a], [0x5c]]"

definition detect_swallowed_control_chars :: "binding list \<Rightarrow> swallow_warning list" where
  "detect_swallowed_control_chars bindings =
     map (\<lambda>b. \<lparr>sw_chord = bd_chord b, sw_bound_to = bd_action b\<rparr>)
       (filter (\<lambda>b. bd_chord b \<in> set reserved_control_chords) bindings)"

section \<open>What is resolved and what is kept\<close>

lemma table_insert_keys: "set (map fst (table_insert k v t)) = insert k (set (map fst t))"
  by (induction k v t rule: table_insert.induct) auto

lemma table_insert_ok: "table_ok t \<Longrightarrow> table_ok (table_insert k v t)"
proof (induction k v t rule: table_insert.induct)
  case (2 k v k' w t)
  then show ?case
    using table_insert_keys [of k v t] by (auto simp: table_ok_def)
qed (simp add: table_ok_def)

lemma table_insert_lookup: "table_ok t \<Longrightarrow> map_of (table_insert k v t) = (map_of t)(k \<mapsto> v)"
proof (induction k v t rule: table_insert.induct)
  case (2 k v k' w t)
  then show ?case by (auto simp: table_ok_def fun_eq_iff)
qed simp

lemma resolve_values:
  "table_ok tbl \<Longrightarrow> table_ok (fold (\<lambda>key tbl. case f key of Some v \<Rightarrow> table_insert key v tbl | None \<Rightarrow> tbl) ks tbl) \<and>
    map_of (fold (\<lambda>key tbl. case f key of Some v \<Rightarrow> table_insert key v tbl | None \<Rightarrow> tbl) ks tbl) x =
      (if x \<in> set ks \<and> f x \<noteq> None then f x else map_of tbl x)"
proof (induction ks arbitrary: tbl)
  case (Cons k ks)
  show ?case
  proof (cases "f k")
    case None
    then show ?thesis using Cons by auto
  next
    case (Some v)
    then show ?thesis
      using Cons.IH [of "table_insert k v tbl"] table_insert_ok [OF Cons.prems] table_insert_lookup [OF Cons.prems]
      by auto
  qed
qed simp

lemma first_value_Some:
  "first_value k ls = Some v \<longleftrightarrow>
    (\<exists>i < length ls. map_of (snd (ls ! i)) k = Some v \<and> (\<forall>j < i. map_of (snd (ls ! j)) k = None))"
proof (induction ls)
  case (Cons x ls)
  obtain l t where x: "x = (l, t)" by (cases x)
  have all: "(\<forall>j < Suc i. P j) \<longleftrightarrow> P 0 \<and> (\<forall>j < i. P (Suc j))" for P i using less_Suc_eq_0_disj by auto
  have ex: "(\<exists>i < Suc n. P i) \<longleftrightarrow> P 0 \<or> (\<exists>i < n. P (Suc i))" for P n using less_Suc_eq_0_disj by auto
  show ?case using Cons.IH by (cases "map_of t k") (simp_all add: x ex all)
qed simp

lemma updates_kept:
  "table_ok doc \<Longrightarrow> map_of (fold (\<lambda>(k, v) doc. table_insert k v doc) us doc) = map_of doc ++ map_of (rev us)"
proof (induction us arbitrary: doc)
  case (Cons u us)
  obtain k v where u: "u = (k, v)" by (cases u)
  show ?case
    using Cons.IH [OF table_insert_ok [OF Cons.prems, of k v]] table_insert_lookup [OF Cons.prems, of k v]
    by (simp add: u map_add_def fun_eq_iff split: option.split)
qed simp

lemma unknown_member:
  "\<lparr>uk_layer = l, uk_key = k\<rparr> \<in> set (concat (map (\<lambda>(l, f). map (\<lambda>k. \<lparr>uk_layer = l, uk_key = k\<rparr>)
        (filter (\<lambda>k. k \<notin> set schema) (map fst (f w)))) layers)) \<longleftrightarrow>
    k \<notin> set schema \<and> (\<exists>f. (l, f) \<in> set layers \<and> map_of (f w) k \<noteq> None)"
proof (induction layers)
  case (Cons x layers)
  obtain l' f where x: "x = (l', f)" by (cases x)
  have "map_of (f w) k \<noteq> None \<longleftrightarrow> k \<in> fst ` set (f w)" by (simp add: map_of_eq_None_iff)
  moreover have "\<lparr>uk_layer = l, uk_key = k\<rparr> \<in> set (map (\<lambda>k. \<lparr>uk_layer = l', uk_key = k\<rparr>)
        (filter (\<lambda>k. k \<notin> set schema) (map fst (f w)))) \<longleftrightarrow> l' = l \<and> k \<notin> set schema \<and> k \<in> fst ` set (f w)"
    by auto
  ultimately show ?case using Cons unfolding x by (simp only: list.map concat.simps set_append Un_iff prod.case list.set insert_iff prod.inject) blast
qed simp

text \<open>
  A configuration is resolved once and by precedence. A key of the schema has the value of the first
  layer that has it, and none when no layer has; any other key is never resolved, and is reported once
  for each layer that has it. What is read later does not depend on what the readers would say then.
\<close>

theorem config_resolves_by_precedence:
  assumes "r = resolve_once w layers schema"
  shows "(config_get r k = Some v \<longleftrightarrow> k \<in> set schema \<and>
      (\<exists>i < length layers. map_of (snd (layers ! i) w) k = Some v \<and> (\<forall>j < i. map_of (snd (layers ! j) w) k = None))) \<and>
    (\<lparr>uk_layer = l, uk_key = k\<rparr> \<in> set (unknown_keys r) \<longleftrightarrow>
      k \<notin> set schema \<and> (\<exists>f. (l, f) \<in> set layers \<and> map_of (f w) k \<noteq> None)) \<and>
    ((\<forall>(l, f) \<in> set layers. f w' = f w) \<longrightarrow> resolve_once w' layers schema = r)"
proof -
  let ?ls = "map (\<lambda>(l, f). (l, f w)) layers"
  have get: "config_get r k = (if k \<in> set schema then first_value k ?ls else None)"
    using resolve_values [of "[]" "\<lambda>k. first_value k ?ls" schema k]
    by (auto simp: assms config_get_def resolve_once_def resolve_layers_def table_ok_def)
  have nth: "map_of (snd (?ls ! i)) k = map_of (snd (layers ! i) w) k" if "i < length layers" for i
    using that by (simp add: split_beta)
  have "config_get r k = Some v \<longleftrightarrow> k \<in> set schema \<and>
      (\<exists>i < length layers. map_of (snd (layers ! i) w) k = Some v \<and> (\<forall>j < i. map_of (snd (layers ! j) w) k = None))"
    using first_value_Some [of k ?ls v] nth by (auto simp: get simp del: nth_map)
  moreover have "\<lparr>uk_layer = l, uk_key = k\<rparr> \<in> set (unknown_keys r) \<longleftrightarrow>
      k \<notin> set schema \<and> (\<exists>f. (l, f) \<in> set layers \<and> map_of (f w) k \<noteq> None)"
  proof -
    have "unknown_keys r = concat (map (\<lambda>(l, f). map (\<lambda>k. \<lparr>uk_layer = l, uk_key = k\<rparr>)
        (filter (\<lambda>k. k \<notin> set schema) (map fst (f w)))) layers)"
      by (simp add: assms unknown_keys_def resolve_once_def resolve_layers_def Let_def comp_def split_beta')
    then show ?thesis by (simp only: unknown_member)
  qed
  moreover have "(\<forall>(l, f) \<in> set layers. f w' = f w) \<longrightarrow> resolve_once w' layers schema = r"
  proof
    assume "\<forall>(l, f) \<in> set layers. f w' = f w"
    then have "map (\<lambda>(l, f). (l, f w')) layers = ?ls" by auto
    then show "resolve_once w' layers schema = r" by (simp only: assms resolve_once_def)
  qed
  ultimately show ?thesis by blast
qed

text \<open>
  Writing an update keeps the rest of the file. Where the text format gives back the tables it writes,
  and the file held the table \<open>t\<close>, what is read after the write has the updates over \<open>t\<close>, every other key
  as it was; but where the file is not a table, all it held is lost.
\<close>

theorem update_keeps_the_rest:
  assumes "\<And>t s. to_string_pretty t = Some s \<Longrightarrow> from_str s = Some t"
    and "from_str (case file of None \<Rightarrow> [] | Some s \<Rightarrow> s) = t" and "\<forall>t'. t = Some t' \<longrightarrow> table_ok t'"
    and "write_user_config from_str to_string_pretty file updates = Some s"
  shows "\<exists>doc. from_str s = Some doc \<and>
    map_of doc = (case t of None \<Rightarrow> Map.empty | Some t \<Rightarrow> map_of t) ++ map_of (rev updates)"
proof -
  have "table_ok (case t of None \<Rightarrow> [] | Some t \<Rightarrow> t)" using assms(3) by (auto simp: table_ok_def split: option.split)
  then have "map_of (updated_doc from_str file updates) = map_of (case t of None \<Rightarrow> [] | Some t \<Rightarrow> t) ++ map_of (rev updates)"
    using updates_kept by (simp add: updated_doc_def Let_def assms(2))
  moreover have "map_of (case t of None \<Rightarrow> [] | Some t \<Rightarrow> t) = (case t of None \<Rightarrow> Map.empty | Some t \<Rightarrow> map_of t)"
    by (cases t) simp_all
  ultimately show ?thesis using assms(1,4) by (auto simp: write_user_config_def)
qed

lemma config_resolves_by_precedence_witness:
  defines "r \<equiv> resolve_once True [(Env, \<lambda>w. if w then [([97], 1 :: nat)] else []), (ShippedDefault, \<lambda>w. [([97], 2), ([99], 3)])] [[97], [98]]"
  shows "config_get r [97] = Some 1 \<and> \<lparr>uk_layer = ShippedDefault, uk_key = [99]\<rparr> \<in> set (unknown_keys r)"
proof -
  note p = config_resolves_by_precedence [OF r_def [THEN meta_eq_to_obj_eq]]
  have "config_get r [97] = Some 1"
    using p [of "[97]" 1] by (simp add: exI [of _ 0])
  moreover have "\<lparr>uk_layer = ShippedDefault, uk_key = [99]\<rparr> \<in> set (unknown_keys r)"
    using p [of "[99]" 3 ShippedDefault] by simp
  ultimately show ?thesis ..
qed

lemma update_keeps_the_rest_witness:
  "\<exists>doc. (Some [([97], 1), ([98], 2)] :: nat table option) = Some doc \<and> map_of doc = map_of [([97], 1)] ++ map_of (rev [([98], 2)])"
  using update_keeps_the_rest [of "\<lambda>t. if t = [([97], 1), ([98], 2 :: nat)] then Some [99] else None"
    "\<lambda>s. if s = [99] then Some [([97], 1), ([98], 2)] else if s = [100] then Some [([97], 1)] else None"
    "Some [100]" "Some [([97], 1)]" "[([98], 2)]" "[99]"]
  by (auto simp: write_user_config_def updated_doc_def table_ok_def split: if_splits)

end
