(* ===== verification/Proxy.thy ===== *)
theory Proxy imports Sock_Tape begin

text \<open>
  The control plane that relays between a public socket and the worker behind it
  (\<open>crates/rilld/src/proxy.rs\<close>), and its checks of directory and peer (\<open>endpoint.rs\<close>). A pipe is a
  pair of sockets with what was read from either and not yet written to the other. Files, users and
  the worker process are parameters: what the calls on them return.
\<close>

section \<open>Endpoint\<close>

record dir_meta =
  dr_uid :: nat
  dr_mode :: nat

text \<open>
  \<open>ensure_protected_parent\<close>, from what \<open>parent\<close> is, whether \<open>create_dir_all\<close> and \<open>metadata\<close> succeed and
  whether \<open>set_permissions\<close> does; with the mode that the directory has at the end.
\<close>

definition ensure_protected_parent :: "nat \<Rightarrow> bool \<Rightarrow> bool \<Rightarrow> dir_meta option \<Rightarrow> bool \<Rightarrow> (daemon_error + unit) \<times> nat option" where
  "ensure_protected_parent uid has_parent created got chmod =
     (if \<not> has_parent then (Inl UnprotectedEndpoint, None)
      else if \<not> created then (Inl DIo, None)
      else case got of
        None \<Rightarrow> (Inl DIo, None)
      | Some meta \<Rightarrow>
          if dr_uid meta \<noteq> uid then (Inl UnprotectedEndpoint, Some (dr_mode meta))
          else if bit (dr_mode meta) 1 then (Inl UnprotectedEndpoint, Some (dr_mode meta))
          else if \<not> chmod then (Inl DIo, Some (dr_mode meta))
          else (Inr (), Some 0x1c0))"

text \<open>\<open>peer_uid\<close>: the variable \<open>RILL_TEST_FAKE_PEER_UID\<close>, where it holds a number, goes before the kernel.\<close>

definition peer_uid :: "nat option \<Rightarrow> nat option \<Rightarrow> daemon_error + nat" where
  "peer_uid fake cred =
     (case fake of Some n \<Rightarrow> Inr n | None \<Rightarrow> (case cred of None \<Rightarrow> Inl DIo | Some uid \<Rightarrow> Inr uid))"

definition authorize_peer :: "nat \<Rightarrow> nat option \<Rightarrow> nat option \<Rightarrow> daemon_error + unit" where
  "authorize_peer want fake cred =
     (case peer_uid fake cred of
        Inl e \<Rightarrow> Inl e
      | Inr got \<Rightarrow> if got \<noteq> want then Inl PeerRefused else Inr ())"

section \<open>Pipes\<close>

record 's pipe =
  pp_a :: 's
  pp_b :: 's
  pp_a_to_b :: "byte list"
  pp_b_to_a :: "byte list"

definition CONTENT_REQUEST_PIPE_MAX :: nat where "CONTENT_REQUEST_PIPE_MAX = 64 * 1024 + 17"
definition CONTENT_RESPONSE_PIPE_MAX :: nat where "CONTENT_RESPONSE_PIPE_MAX = 1024 * 1024"

definition pipe_new :: "'s \<Rightarrow> 's \<Rightarrow> 's pipe" where
  "pipe_new a b = \<lparr>pp_a = a, pp_b = b, pp_a_to_b = [], pp_b_to_a = []\<rparr>"

definition READ_INTO :: nat where "READ_INTO = 8192"

definition read_into :: "'s sock_ops \<Rightarrow> 's \<Rightarrow> byte list \<Rightarrow> (daemon_error + unit) \<times> 's \<times> byte list" where
  "read_into W from out =
     (case sock_read W READ_INTO from of
        (ReadBytes bs, from) \<Rightarrow> if bs = [] then (Inl PeerRefused, from, out) else (Inr (), from, out @ take READ_INTO bs)
      | (ReadWouldBlock, from) \<Rightarrow> (Inr (), from, out)
      | (ReadFailed, from) \<Rightarrow> (Inl DIo, from, out))"

type_synonym 's pipe_step = "'s pipe \<Rightarrow> (daemon_error + unit) \<times> 's pipe"

text \<open>The operator \<open>?\<close> between two steps on a pipe.\<close>

definition and_then :: "'s pipe_step \<Rightarrow> 's pipe_step \<Rightarrow> 's pipe_step" where
  "and_then f g p = (case f p of (Inl e, p) \<Rightarrow> (Inl e, p) | (Inr _, p) \<Rightarrow> g p)"

definition read_a :: "'s sock_ops \<Rightarrow> 's pipe_step" where
  "read_a W p = (let (r, s, out) = read_into W (pp_a p) (pp_a_to_b p) in (r, p\<lparr>pp_a := s, pp_a_to_b := out\<rparr>))"

definition read_b :: "'s sock_ops \<Rightarrow> 's pipe_step" where
  "read_b W p = (let (r, s, out) = read_into W (pp_b p) (pp_b_to_a p) in (r, p\<lparr>pp_b := s, pp_b_to_a := out\<rparr>))"

definition write_b :: "'s sock_ops \<Rightarrow> 's pipe_step" where
  "write_b W p = (let (r, s, out) = write_outbox W (pp_b p) (pp_a_to_b p) in (r, p\<lparr>pp_b := s, pp_a_to_b := out\<rparr>))"

definition write_a :: "'s sock_ops \<Rightarrow> 's pipe_step" where
  "write_a W p = (let (r, s, out) = write_outbox W (pp_a p) (pp_b_to_a p) in (r, p\<lparr>pp_a := s, pp_b_to_a := out\<rparr>))"

definition splice :: "'s sock_ops \<Rightarrow> 's pipe_step" where
  "splice W = and_then (read_a W) (and_then (read_b W) (and_then (write_b W) (write_a W)))"

definition pipe_limit :: "'s pipe_step" where
  "pipe_limit p =
     (if length (pp_a_to_b p) > CONTENT_REQUEST_PIPE_MAX \<or> length (pp_b_to_a p) > CONTENT_RESPONSE_PIPE_MAX
      then (Inl PeerRefused, p) else (Inr (), p))"

definition splice_content :: "'s sock_ops \<Rightarrow> 's pipe_step" where
  "splice_content W =
     and_then (read_a W) (and_then (read_b W) (and_then pipe_limit (and_then (write_b W) (write_a W))))"

section \<open>The control loop\<close>

text \<open>What \<open>accept\<close> gives: a client, whether it is authorised, and the worker connected for it.\<close>

datatype 's accepted = NoClient | AcceptFailed | Client 's bool "'s option"

record 's control =
  ct_pipes :: "'s pipe list"
  ct_nav_pipes :: "'s pipe list"
  ct_content_pipes :: "'s pipe list"

definition control_new :: "'s control" where
  "control_new = \<lparr>ct_pipes = [], ct_nav_pipes = [], ct_content_pipes = []\<rparr>"

fun accept_pipe :: "'s accepted \<Rightarrow> 's pipe list \<Rightarrow> daemon_error + 's pipe list" where
  "accept_pipe NoClient ps = Inr ps"
| "accept_pipe AcceptFailed ps = Inl DIo"
| "accept_pipe (Client s authorised worker) ps =
     Inr (if authorised then (case worker of None \<Rightarrow> ps | Some w \<Rightarrow> ps @ [pipe_new s w]) else ps)"

text \<open>The identity socket: one read of at most 16 bytes from the worker, written to an authorised client.\<close>

definition relay_identity :: "bool \<Rightarrow> byte list option \<Rightarrow> byte list" where
  "relay_identity authorised got =
     (if authorised then (case got of None \<Rightarrow> [] | Some bs \<Rightarrow> take 16 bs) else [])"

fun splice_pipes :: "'s pipe_step \<Rightarrow> 's pipe list \<Rightarrow> 's pipe list" where
  "splice_pipes f [] = []"
| "splice_pipes f (p # ps) =
     (case f p of (Inl _, _) \<Rightarrow> splice_pipes f ps | (Inr _, p) \<Rightarrow> p # splice_pipes f ps)"

text \<open>Whether \<open>poll\<close> also waits until the first and the second socket of a pipe can be written.\<close>

definition poll_out :: "'s pipe \<Rightarrow> bool \<times> bool" where
  "poll_out p = (pp_b_to_a p \<noteq> [], pp_a_to_b p \<noteq> [])"

text \<open>
  One turn of the loop of \<open>run_control\<close>, up to its \<open>poll\<close>: an error of an \<open>accept\<close> ends it, and a
  failure of the identity socket's, given as \<open>False\<close>, is between the first and the second.
\<close>

definition control_round ::
    "'s sock_ops \<Rightarrow> 's accepted \<Rightarrow> bool \<Rightarrow> 's accepted \<Rightarrow> 's accepted \<Rightarrow> 's control \<Rightarrow> (daemon_error + unit) \<times> 's control" where
  "control_round W main identity nav_client content_client ct =
     (case accept_pipe main (ct_pipes ct) of
        Inl e \<Rightarrow> (Inl e, ct)
      | Inr ps \<Rightarrow>
          let ct = ct\<lparr>ct_pipes := ps\<rparr> in
          if \<not> identity then (Inl DIo, ct)
          else case accept_pipe nav_client (ct_nav_pipes ct) of
            Inl e \<Rightarrow> (Inl e, ct)
          | Inr ps \<Rightarrow>
              let ct = ct\<lparr>ct_nav_pipes := ps\<rparr> in
              case accept_pipe content_client (ct_content_pipes ct) of
                Inl e \<Rightarrow> (Inl e, ct)
              | Inr ps \<Rightarrow>
                  let ct = ct\<lparr>ct_content_pipes := ps\<rparr>;
                      ct = ct\<lparr>ct_pipes := splice_pipes (splice W) (ct_pipes ct)\<rparr>;
                      ct = ct\<lparr>ct_nav_pipes := splice_pipes (splice W) (ct_nav_pipes ct)\<rparr>;
                      ct = ct\<lparr>ct_content_pipes := splice_pipes (splice_content W) (ct_content_pipes ct)\<rparr>
                  in (Inr (), ct))"

text \<open>
  The start of \<open>run_control\<close>, up to where it binds its sockets, from the checks of the two directories,
  whether a worker is alive, what the pid file and the shutdown marker say, what \<open>spawn_worker\<close> gives, and
  whether the public socket exists and answers; with the outcome it records where no worker was alive.
\<close>

definition control_boot ::
    "daemon_error + unit \<Rightarrow> daemon_error + unit \<Rightarrow> bool \<Rightarrow> nat option \<Rightarrow> bool \<Rightarrow> daemon_error + unit \<Rightarrow> bool \<Rightarrow> bool \<Rightarrow>
      (daemon_error + unit) \<times> terminal_outcome option" where
  "control_boot attach_dir worker_dir worker_alive recorded marker spawned attach_exists attach_answers =
     (case attach_dir of Inl e \<Rightarrow> (Inl e, None)
      | Inr _ \<Rightarrow>
        case worker_dir of Inl e \<Rightarrow> (Inl e, None)
        | Inr _ \<Rightarrow>
          let outcome = if worker_alive then None else Some (reconcile_execution recorded False marker);
              started = if worker_alive then Inr () else spawned
          in case started of Inl e \<Rightarrow> (Inl e, outcome)
             | Inr _ \<Rightarrow> (if attach_exists \<and> attach_answers then Inl AlreadyRunning else Inr (), outcome))"

section \<open>What goes through a pipe\<close>

text \<open>What one side gave was taken by the other, but for what is queued; with nothing lost or added.\<close>

definition whole_pipe :: "('s \<Rightarrow> byte list) \<Rightarrow> ('s \<Rightarrow> byte list) \<Rightarrow> 's pipe \<Rightarrow> bool" where
  "whole_pipe sent received p \<longleftrightarrow>
     received (pp_a p) = sent (pp_b p) @ pp_a_to_b p \<and> received (pp_b p) = sent (pp_a p) @ pp_b_to_a p"

definition within_limits :: "'s pipe \<Rightarrow> bool" where
  "within_limits p \<longleftrightarrow> length (pp_a_to_b p) \<le> CONTENT_REQUEST_PIPE_MAX \<and> length (pp_b_to_a p) \<le> CONTENT_RESPONSE_PIPE_MAX"

lemma and_then_keeps:
  "(\<And>p. I p \<Longrightarrow> I (snd (f p))) \<Longrightarrow> (\<And>p. I p \<Longrightarrow> I (snd (g p))) \<Longrightarrow> I p \<Longrightarrow> I (snd (and_then f g p))"
  by (simp add: and_then_def split_beta split: sum.split)

context sock_tape
begin

lemma read_into_tape:
  "read_into W s out = (r, s', out') \<Longrightarrow> received s @ x = y @ out \<Longrightarrow> x = [] \<Longrightarrow> received s' = y @ out' \<and> sent s' = sent s"
  using received_read [of READ_INTO s] sent_read [of READ_INTO s]
  by (auto simp: read_into_def split: prod.splits sock_in.splits if_splits)

lemma pipe_steps_whole:
  assumes "whole_pipe sent received p"
  shows "whole_pipe sent received (snd (read_a W p))" "whole_pipe sent received (snd (read_b W p))"
    "whole_pipe sent received (snd (write_a W p))" "whole_pipe sent received (snd (write_b W p))"
    "whole_pipe sent received (snd (pipe_limit p))"
  using assms unfolding whole_pipe_def read_a_def read_b_def write_a_def write_b_def pipe_limit_def
  by (auto simp: Let_def split: prod.split
    dest!: read_into_tape [where x = "[]"] dest: write_outbox_sent write_outbox_received)

lemma splice_whole: "whole_pipe sent received p \<Longrightarrow> whole_pipe sent received (snd (splice W p))"
  unfolding splice_def by (intro and_then_keeps [where I = "whole_pipe sent received"]) (simp_all add: pipe_steps_whole)

lemma splice_content_whole: "whole_pipe sent received p \<Longrightarrow> whole_pipe sent received (snd (splice_content W p))"
  unfolding splice_content_def
  by (intro and_then_keeps [where I = "whole_pipe sent received"]) (simp_all add: pipe_steps_whole)

end

lemma splice_content_limits:
  assumes "splice_content W p = (Inr u, p')"
  shows "within_limits p'"
proof -
  have w: "within_limits (snd (write_b W p))" "within_limits (snd (write_a W p))" if "within_limits p" for p
    using that unfolding within_limits_def write_a_def write_b_def
    by (auto simp: Let_def split: prod.split dest!: write_outbox_shorter)
  have "within_limits (snd (and_then (write_b W) (write_a W) p))" if "within_limits p" for p
    using that w by (intro and_then_keeps [where I = within_limits]) simp_all
  then show ?thesis
    using assms unfolding splice_content_def and_then_def [of _ "and_then _ _"] pipe_limit_def
    by (auto simp: within_limits_def split: prod.splits sum.splits if_splits) (metis snd_conv linorder_not_less)+
qed

section \<open>The control loop over time\<close>

abbreviation given :: "'s \<times> byte list \<times> byte list \<Rightarrow> byte list" where "given s \<equiv> fst (snd s)"
abbreviation taken :: "'s \<times> byte list \<times> byte list \<Rightarrow> byte list" where "taken s \<equiv> snd (snd s)"

fun fresh_client :: "('s \<times> byte list \<times> byte list) accepted \<Rightarrow> bool" where
  "fresh_client (Client s authorised worker) \<longleftrightarrow>
     given s = [] \<and> taken s = [] \<and> (\<forall>w. worker = Some w \<longrightarrow> given w = [] \<and> taken w = [])"
| "fresh_client _ \<longleftrightarrow> True"

inductive control_run :: "'s sock_ops \<Rightarrow> ('s \<times> byte list \<times> byte list) control \<Rightarrow> bool" for W where
  control_start: "control_run W control_new"
| control_turn: "control_run W ct \<Longrightarrow> fresh_client main \<Longrightarrow> fresh_client nav_client \<Longrightarrow> fresh_client content_client \<Longrightarrow>
    control_round (taped_sock W) main identity nav_client content_client ct = (r, ct') \<Longrightarrow> control_run W ct'"

abbreviation "whole_taped \<equiv> whole_pipe taken given"

definition control_ok :: "('s \<times> byte list \<times> byte list) control \<Rightarrow> bool" where
  "control_ok ct \<longleftrightarrow> (\<forall>p \<in> set (ct_pipes ct @ ct_nav_pipes ct @ ct_content_pipes ct). whole_taped p) \<and>
     (\<forall>p \<in> set (ct_content_pipes ct). within_limits p)"

lemma accept_pipe_all:
  "accept_pipe a ps = Inr qs \<Longrightarrow> \<forall>p \<in> set ps. P p \<Longrightarrow>
     (\<And>s w. a = Client s True (Some w) \<Longrightarrow> P (pipe_new s w)) \<Longrightarrow> \<forall>p \<in> set qs. P p"
  by (cases a) (auto split: if_splits option.splits)

lemma fresh_pipe: "fresh_client (Client s True (Some w)) \<Longrightarrow> whole_taped (pipe_new s w) \<and> within_limits (pipe_new s w)"
  by (auto simp: whole_pipe_def pipe_new_def within_limits_def)

lemma splice_pipes_all:
  "\<forall>p \<in> set ps. P p \<Longrightarrow> (\<And>p u p'. P p \<Longrightarrow> f p = (Inr u, p') \<Longrightarrow> Q p') \<Longrightarrow> \<forall>p \<in> set (splice_pipes f ps). Q p"
proof (induction ps)
  case (Cons p ps)
  obtain r p' where "f p = (r, p')" by force
  with Cons show ?case by (cases r) auto
qed simp

lemma control_round_ok:
  assumes ok: "control_ok ct" and fresh: "fresh_client main" "fresh_client nav_client" "fresh_client content_client"
    and round: "control_round (taped_sock W) main identity nav_client content_client ct = (r, ct')"
  shows "control_ok ct'"
proof -
  have acc: "\<forall>p \<in> set qs. whole_taped p" if "accept_pipe a ps = Inr qs" "\<forall>p \<in> set ps. whole_taped p" "fresh_client a" for a ps qs
    using accept_pipe_all [OF that(1,2)] fresh_pipe that(3) by blast
  have acc2: "\<forall>p \<in> set qs. whole_taped p \<and> within_limits p"
    if "accept_pipe a ps = Inr qs" "\<forall>p \<in> set ps. whole_taped p \<and> within_limits p" "fresh_client a" for a ps qs
    using accept_pipe_all [OF that(1,2)] fresh_pipe that(3) by blast
  have sp: "\<forall>p \<in> set (splice_pipes (splice (taped_sock W)) ps). whole_taped p" if "\<forall>p \<in> set ps. whole_taped p" for ps
    using that by (rule splice_pipes_all) (metis snd_conv taped_sock.splice_whole)
  have sp2: "\<forall>p \<in> set (splice_pipes (splice_content (taped_sock W)) ps). whole_taped p \<and> within_limits p"
    if "\<forall>p \<in> set ps. whole_taped p \<and> within_limits p" for ps
    using that by (rule splice_pipes_all) (metis snd_conv taped_sock.splice_content_whole splice_content_limits)
  have ct: "\<forall>p \<in> set (ct_pipes ct). whole_taped p" "\<forall>p \<in> set (ct_nav_pipes ct). whole_taped p"
    "\<forall>p \<in> set (ct_content_pipes ct). whole_taped p \<and> within_limits p" using ok by (auto simp: control_ok_def)
  note m = acc [OF _ ct(1) fresh(1)] and n = acc [OF _ ct(2) fresh(2)] and c = acc2 [OF _ ct(3) fresh(3)]
  show ?thesis
    using round ok ct m n c unfolding control_round_def
    by (auto simp: Let_def control_ok_def split: sum.splits if_splits dest: bspec [OF sp] bspec [OF sp2])
qed

lemma control_run_ok: "control_run W ct \<Longrightarrow> control_ok ct"
proof (induction rule: control_run.induct)
  case control_start
  show ?case by (simp add: control_ok_def control_new_def)
qed (rule control_round_ok)

lemma and_then_Inr: "and_then f g p = (Inr u, p') \<longleftrightarrow> (\<exists>q. f p = (Inr (), q) \<and> g q = (Inr u, p'))"
  by (auto simp: and_then_def split: prod.splits sum.splits)

lemma splice_drains:
  assumes "f = splice (taped_sock W) \<or> f = splice_content (taped_sock W)"
    and "\<And>bs w. bs \<noteq> [] \<Longrightarrow> \<exists>n w'. sock_write W bs w = (Wrote n, w') \<and> 0 < n" and "fst (f p) = Inr ()"
  shows "pp_a_to_b (snd (f p)) = [] \<and> pp_b_to_a (snd (f p)) = []"
proof -
  have eager: "bs \<noteq> [] \<Longrightarrow> \<exists>n w'. sock_write (taped_sock W) bs w = (Wrote n, w') \<and> 0 < n" for bs w
    using assms(2) [of bs "fst w"] by (force simp: taped_sock_def split_beta)
  have b: "pp_a_to_b (snd (write_b (taped_sock W) p)) = []" for p
    using eager_write [OF eager, of "pp_b p" "pp_a_to_b p"] by (auto simp: write_b_def)
  have a: "pp_a_to_b p = [] \<Longrightarrow> pp_a_to_b (snd (write_a (taped_sock W) p)) = [] \<and> pp_b_to_a (snd (write_a (taped_sock W) p)) = []" for p
    using eager_write [OF eager, of "pp_a p" "pp_b_to_a p"] by (auto simp: write_a_def)
  have "pp_a_to_b (snd (and_then (write_b (taped_sock W)) (write_a (taped_sock W)) p)) = [] \<and>
      pp_b_to_a (snd (and_then (write_b (taped_sock W)) (write_a (taped_sock W)) p)) = []"
    if "fst (and_then (write_b (taped_sock W)) (write_a (taped_sock W)) p) = Inr ()" for p
    using that a b by (auto simp: and_then_def split_beta split: sum.splits)
  then have t: "and_then (write_b (taped_sock W)) (write_a (taped_sock W)) p = (Inr (), p') \<Longrightarrow> pp_a_to_b p' = [] \<and> pp_b_to_a p' = []" for p p'
    by (metis fst_conv snd_conv)
  obtain p' where p': "f p = (Inr (), p')" using assms(3) by (metis prod.collapse)
  then have "\<exists>q. and_then (write_b (taped_sock W)) (write_a (taped_sock W)) q = (Inr (), p')"
    using assms(1) by (elim disjE) (simp_all only: splice_def splice_content_def and_then_Inr, blast+)
  then show ?thesis using t p' by auto
qed

text \<open>
  C38: the proxy relays every byte, in order. Whatever clients come and whatever their sockets do, what
  each side of a pipe gave is what the other side took, followed by what is queued for it; a content pipe
  never holds more than its limits after a turn; a splice that fails still has only passed on a prefix;
  and where both sockets take what they are offered, a splice that does not fail leaves nothing queued.
\<close>

theorem proxy_relays_every_byte:
  assumes "control_run W ct" and "p \<in> set (ct_pipes ct @ ct_nav_pipes ct @ ct_content_pipes ct)"
    and "f = splice (taped_sock W) \<or> f = splice_content (taped_sock W)"
  shows "given (pp_a p) = taken (pp_b p) @ pp_a_to_b p \<and> given (pp_b p) = taken (pp_a p) @ pp_b_to_a p \<and>
    (p \<in> set (ct_content_pipes ct) \<longrightarrow>
      length (pp_a_to_b p) \<le> CONTENT_REQUEST_PIPE_MAX \<and> length (pp_b_to_a p) \<le> CONTENT_RESPONSE_PIPE_MAX) \<and>
    given (pp_a (snd (f p))) = taken (pp_b (snd (f p))) @ pp_a_to_b (snd (f p)) \<and>
    given (pp_b (snd (f p))) = taken (pp_a (snd (f p))) @ pp_b_to_a (snd (f p)) \<and>
    ((\<forall>bs w. bs \<noteq> [] \<longrightarrow> (\<exists>n w'. sock_write W bs w = (Wrote n, w') \<and> 0 < n)) \<longrightarrow> fst (f p) = Inr () \<longrightarrow>
      pp_a_to_b (snd (f p)) = [] \<and> pp_b_to_a (snd (f p)) = [] \<and> poll_out (snd (f p)) = (False, False))"
proof -
  have "control_ok ct" using assms(1) by (rule control_run_ok)
  then have w: "whole_taped p" "p \<in> set (ct_content_pipes ct) \<longrightarrow> within_limits p" using assms(2) by (auto simp: control_ok_def)
  have w': "whole_taped (snd (f p))" using w(1) assms(3) taped_sock.splice_whole taped_sock.splice_content_whole by blast
  have d: "pp_a_to_b (snd (f p)) = [] \<and> pp_b_to_a (snd (f p)) = []"
    if "\<forall>bs w. bs \<noteq> [] \<longrightarrow> (\<exists>n w'. sock_write W bs w = (Wrote n, w') \<and> 0 < n)" "fst (f p) = Inr ()"
    by (rule splice_drains [OF assms(3)]) (use that in blast)+
  show ?thesis using w w' d by (simp add: whole_pipe_def within_limits_def poll_out_def)
qed

text \<open>
  A side that ends takes with it what was queued. As soon as one side of a pipe is at its end, the
  pipe is dropped before anything is written, whatever the other side, which is still open, was to get.
\<close>

theorem ended_side_loses_what_is_queued:
  assumes "sock_read W READ_INTO (pp_b p) = (ReadBytes [], s)" and "sock_read W READ_INTO (pp_a p) = (ReadWouldBlock, s')"
  shows "splice W p = (Inl PeerRefused, p\<lparr>pp_a := s', pp_b := s\<rparr>) \<and>
    splice_pipes (splice W) (ps @ p # qs) = splice_pipes (splice W) (ps @ qs)"
proof -
  have s: "splice W p = (Inl PeerRefused, p\<lparr>pp_a := s', pp_b := s\<rparr>)"
    using assms by (simp add: splice_def and_then_def read_a_def read_b_def read_into_def)
  moreover have "splice_pipes (splice W) (ps @ p # qs) = splice_pipes (splice W) (ps @ qs)"
    by (induction ps) (simp_all add: s split: prod.split sum.split)
  ultimately show ?thesis by simp
qed

definition demo_line :: "byte list sock_ops" where
  "demo_line =
     \<lparr>sock_read = (\<lambda>n s. if s = [] then (ReadWouldBlock, s) else if s = [0xff] then (ReadBytes [], s) else (ReadBytes s, [])),
      sock_write = (\<lambda>bs s. (Wrote (length bs), s))\<rparr>"

lemma proxy_relays_every_byte_witness:
  "\<exists>p. control_run demo_line \<lparr>ct_pipes = [p], ct_nav_pipes = [], ct_content_pipes = []\<rparr> \<and>
     given (pp_a p) = [7, 8] \<and> taken (pp_b p) = [7, 8] \<and> given (pp_a p) = taken (pp_b p) @ pp_a_to_b p"
proof -
  let ?p = "\<lparr>pp_a = ([], [7, 8], []), pp_b = ([], [], [7, 8]), pp_a_to_b = [], pp_b_to_a = []\<rparr> :: (byte list \<times> byte list \<times> byte list) pipe"
  let ?c = "Client ([7, 8], [], []) True (Some ([], [], [])) :: (byte list \<times> byte list \<times> byte list) accepted"
  have "control_round (taped_sock demo_line) ?c True NoClient NoClient control_new =
      (Inr (), \<lparr>ct_pipes = [?p], ct_nav_pipes = [], ct_content_pipes = []\<rparr>)"
    by (simp add: control_round_def control_new_def pipe_new_def splice_def and_then_def read_a_def read_b_def read_into_def
      READ_INTO_def taped_sock_def demo_line_def write_b_def write_a_def write_outbox.simps [of _ _ "[]"] write_outbox.simps [of _ _ "_ # _"])
  from control_turn [OF control_start _ _ _ this]
  have run: "control_run demo_line \<lparr>ct_pipes = [?p], ct_nav_pipes = [], ct_content_pipes = []\<rparr>" by simp
  from proxy_relays_every_byte [OF run, of ?p "splice (taped_sock demo_line)"] run show ?thesis by (intro exI [of _ ?p]) simp
qed

lemma ended_side_loses_what_is_queued_witness:
  "splice demo_line \<lparr>pp_a = [], pp_b = [0xff], pp_a_to_b = [], pp_b_to_a = [7]\<rparr> =
     (Inl PeerRefused, \<lparr>pp_a = [], pp_b = [0xff], pp_a_to_b = [], pp_b_to_a = [7]\<rparr>)"
  using ended_side_loses_what_is_queued [of demo_line "\<lparr>pp_a = [], pp_b = [0xff], pp_a_to_b = [], pp_b_to_a = [7]\<rparr>" "[0xff]" "[]"]
  by (simp add: demo_line_def)

end
