(* ===== verification/Spec2Isabelle.thy ===== *)
theory Spec2Isabelle
  imports Attach Host_Claims Content_Claims Transcript Attention Task Automation Config Proxy
begin

text \<open>
  RILL: a terminal whose shells live in a daemon and outlive the windows that show them.

  \<^bold>\<open>The program.\<close> A daemon (\<open>crates/rilld\<close>) owns a kernel (\<open>crates/rill-kernel\<close>): leaves, each a
  pseudoterminal with a bounded history of its output, in a graph of workspaces and tabs. A desktop
  host (\<open>crates/rill-host\<close>) connects over a socket, speaks the framed protocol of
  \<open>crates/rill-attach\<close>, grants credit for the bytes it is ready to take, and feeds what it gets to
  its own terminal emulator (\<open>crates/vt-engine\<close>, over the value types of \<open>crates/rill-vt-types\<close>). The
  daemon keeps a shadow emulator, from whose checkpoint or repaint a late or lossy host catches up.
  Two companion sockets carry navigation and content items. A control process may stand before a worker
  that owns the shells and relays between them. Beside the terminal, \<open>crates/rill-orchestrate\<close> holds
  agent tasks, attention, trust, automation and configuration.

  \<^bold>\<open>The theories\<close>, in the order of their imports:

  \<^item> \<open>Rill_Prelude\<close>: machine types, little-endian numbers, panic-free computations (\<open>runs\<close>), saturating
    sums, decimal digits; the locales \<open>stream_decoder\<close> and \<open>stream_codec\<close> of any framed decoder.
  \<^item> \<open>Attach\<close> (\<open>rill-attach/src/lib.rs\<close>): tags, frames, \<open>encode\<close>, \<open>decode\<close>, the incremental \<open>Decoder\<close>.
  \<^item> \<open>Kernel_Base\<close>, \<open>Ring\<close>, \<open>Session\<close>, \<open>Session_Flow\<close>, \<open>Kernel_Graph\<close>, \<open>Kernel_Forest\<close>, \<open>Kernel_Runs\<close>,
    \<open>Content\<close>, \<open>Transcript\<close> (\<open>rill-kernel/src\<close>: \<open>error.rs\<close>, \<open>checkpoint.rs\<close>, \<open>journal.rs\<close>; \<open>ring.rs\<close>;
    \<open>session.rs\<close>; \<open>kernel.rs\<close>; \<open>content.rs\<close>; \<open>transcript.rs\<close>). \<open>Session\<close>, \<open>Kernel_Graph\<close> and \<open>Content\<close>
    hold operations, \<open>Session_Flow\<close>, \<open>Kernel_Forest\<close> and \<open>Kernel_Runs\<close> what is true of every run of them;
    \<open>Transcript\<close> holds both.
  \<^item> \<open>Vt_Types\<close> and \<open>Width\<close> (\<open>rill-vt-types/src/lib.rs\<close>, \<open>color.rs\<close>, \<open>east_asian_width.rs\<close>), \<open>Vt_Parser\<close>
    (\<open>parser.rs\<close>), \<open>Vt_Screen\<close> (\<open>screen.rs\<close>), \<open>Vt_Checkpoint\<close> and \<open>Vt_Repaint\<close> (its checkpoint
    format and its repaint), \<open>Vt_Engine\<close> (\<open>lib.rs\<close>) hold the emulator; \<open>Vt_Damage\<close>, \<open>Vt_Rows\<close>,
    \<open>Vt_Screen_Safe\<close>, \<open>Vt_Text\<close>, \<open>Vt_View\<close> and \<open>Vt_Recovery\<close> hold what is true of it.
  \<^item> \<open>Daemon\<close> and \<open>Content_Requests\<close> (\<open>rilld/src/lib.rs\<close>) hold the operations of the daemon on its
    clients and of its content socket; \<open>Daemon_Seats\<close>, \<open>Daemon_Loops\<close>, \<open>Daemon_Runs\<close>, \<open>Daemon_Wire\<close>,
    \<open>Daemon_Claims\<close>, \<open>Content_Frames\<close> and \<open>Content_Claims\<close> hold what is true of them. \<open>Sock_Tape\<close> is the
    contract of a socket that keeps a tape, and \<open>Proxy\<close> (\<open>proxy.rs\<close>, \<open>endpoint.rs\<close>) the control process.
  \<^item> \<open>Host_View\<close>, \<open>Host_Nav\<close>, \<open>Host_Content\<close>, \<open>Host_Client\<close> (\<open>rill-host/src\<close>: \<open>scroll.rs\<close>, \<open>nav.rs\<close>,
    \<open>content.rs\<close>, \<open>lib.rs\<close>) hold the host; \<open>Host_Runs\<close>, \<open>Host_Paint\<close> and \<open>Host_Claims\<close> what is true of it.
  \<^item> \<open>Rill_Std\<close>: the operations of the standard library on text and lists that several crates use.
  \<^item> \<open>Attention\<close>, \<open>Trust\<close>, \<open>Task\<close>, \<open>Automation\<close>, \<open>Config\<close> (\<open>rill-orchestrate/src\<close>, a file each) hold
    the operations of a component and what is true of them.

  \<^bold>\<open>How state and operations are modelled.\<close> A struct is a record whose fields carry a prefix (\<open>s_\<close> of
  a screen, \<open>ss_\<close> of a session, \<open>k_\<close> of the kernel, \<open>dm_\<close> of the daemon, \<open>cl_\<close> of its clients,
  \<open>hc_\<close> of the host); an operation takes the record and returns it updated, with an error as the left
  of a sum. Where an index, a checked sum or a slice of the code can panic, the operation returns an
  option, and \<open>None\<close> is the panic; safety is the theorem that it is not reached. A loop that may not end
  is a \<open>partial_function\<close>, whose \<open>None\<close> is also that; loops that end do so by a measure. Words are
  kept at their width where the code computes on them, and wrap, saturate or are checked as it does.
  The pseudoterminal (\<open>pty_ops\<close>) and the sockets (\<open>sock_ops\<close>) are parameters: records of the calls the
  code makes, over a state of any type; so are the \<open>toml\<close> format of tasks and configuration, files, clocks
  and users. No law is assumed of them, except where a theorem says so; a
  log beside their state (\<open>logged\<close>, \<open>logged_sock\<close>, \<open>taped_sock\<close>) lets a theorem speak of what went through.

  \<^bold>\<open>What the groups of lemmas show.\<close>

  \<^item> Codec: any chunking of a stream of frames decodes to those frames; a push keeps its buffer
    below a frame; what decodes is canonical.
  \<^item> History and sessions: the ring refines the whole output (locale \<open>byte_history\<close>); a session loses
    no byte of an attached reader, never sends more than its credit, and its exit is never lost.
  \<^item> Graph: containers stay a forest in every run without a move below itself, closing one ends exactly
    its leaves, and each leaf has one life in the log of events.
  \<^item> Emulator: no input makes it panic (locale \<open>vt_actions\<close>, the contract of a parser's callbacks),
    scrolling keeps every line, damage is sound, text appears, a checkpoint restores and a corrupted
    one is refused (locale \<open>prefix_codec\<close>, one instance per field type), a repaint reproduces the
    screen, and recovery from checkpoint and history equals the whole replay (locale \<open>vt_respects\<close>).
  \<^item> Daemon: one writer per leaf and true streams in every orderly run (locales \<open>daemon_rel\<close> for its
    loops, \<open>daemon_inv\<close> for its runs, \<open>sock_log\<close> and \<open>daemon_log\<close> for its wire), delivery by a flush,
    when the pump ends, and what goes wrong (below).
  \<^item> Proxy: every byte is relayed in order, within the limits of content pipes (locale \<open>sock_tape\<close>).
  \<^item> Content: the timelines refine lists of texts, and a host reads back what it submitted.
  \<^item> Host: its emulator mirrors the frames it read (locale \<open>host_link\<close>), credit follows delivery, what is painted
    is a window of the rows that were shown, and the navigation line is read back.
  \<^item> Transcript and orchestration: a transcript is told in order and on authority; attention that asks for
    an answer is not dropped; trust is bound to content; what is persisted is redacted line by line; the
    history of a task is append-only, its gates open only by their own decision, and a restart restores
    it; the dispatcher is a bounded queue; a configuration is resolved by precedence.

  \<^bold>\<open>Defects.\<close> Some lemmas state what the code does against its documents: a container can be moved below
  itself and then never be closed (\<open>Kernel_Runs\<close>); a program with endless output holds
  the daemon (\<open>pump_never_returns\<close>); an observer can become a second writer
  (\<open>observer_becomes_second_writer\<close>); frames of a dropped client reach the next one
  (\<open>frames_after_drop_reach_the_next_client\<close>); a failed socket loses the frames of others
  (\<open>failed_socket_loses_frames\<close>); a forged checkpoint is taken with any scroll region
  (\<open>imported_scroll_region_unchecked\<close>); the proxy drops what is queued when a side ends
  (\<open>ended_side_loses_what_is_queued\<close>); a second secret of a line survives redaction
  (\<open>second_secret_survives\<close>); the input lease runs from the attach (\<open>Session_Flow\<close>).

  \<^bold>\<open>Bounds and hypotheses.\<close> There is no fuel. Histories are bounded by \<open>u64\<close> offsets and surfaces by
  65528 columns, above which a tab overflows in the code; the initial parser, screen and session are
  the ones the code makes, and a theorem about runs starts there.

  \<^bold>\<open>Not modelled.\<close> System calls of the pseudoterminal (\<open>pty.rs\<close>), binding of sockets, the spawning of the
  worker and the descriptor polling of the daemon (\<open>proxy.rs\<close>, \<open>main.rs\<close>, \<open>lib.rs\<close>), which are input and
  output with little state; the C interface of the host (\<open>ffi.rs\<close>), which passes pointers to the operations
  modelled here; the presentation difference of \<open>diff.rs\<close>, theme files of \<open>crates/rill-look\<close>, fuzz targets,
  and the Objective-C host. \<open>RILL_MUTATE\<close>, a variable of the test suite, is taken to be unset.
\<close>

end
